(* ===== verification/Concord_Prelude.thy ===== *)
theory Concord_Prelude
  imports Main "HOL-Library.Multiset" "HOL-Library.AList"
begin

text \<open>
  Shared vocabulary of the development: the outcome of a C++ operation that may abort, the fixed-width
  unsigned conversions the source performs, and generic facts on lists, association lists and cyclic
  indices that the component theories use.
\<close>

named_theorems inv_defs "definitions of the component invariants"
named_theorems op_defs "definitions of the component operations"

section \<open>Outcomes\<close>

text \<open>
  \<^verbatim>\<open>ConcordAssert\<close> (util/include/assertUtils.hpp) terminates the process; a thrown
  \<^verbatim>\<open>std::runtime_error\<close> unwinds the operation. Both end the operation without a result, so an
  operation that can do either returns \<open>failure + 'a\<close>.
\<close>

datatype failure = AssertFailed | RuntimeError | UndefinedBehaviour

type_synonym 'a result = "failure + 'a"

definition c_assert :: "bool \<Rightarrow> 'a result \<Rightarrow> 'a result" where
  "c_assert b k = (if b then k else Inl AssertFailed)"

definition rbind :: "'a result \<Rightarrow> ('a \<Rightarrow> 'b result) \<Rightarrow> 'b result" where
  "rbind m k = (case m of Inl e \<Rightarrow> Inl e | Inr a \<Rightarrow> k a)"

text \<open>The operation returns, with a result that satisfies \<open>P\<close>.\<close>

definition result_sat :: "('a \<Rightarrow> bool) \<Rightarrow> 'a result \<Rightarrow> bool" where
  "result_sat P r = (case r of Inl e \<Rightarrow> False | Inr a \<Rightarrow> P a)"

lemma result_satD: "result_sat P r \<Longrightarrow> \<exists>a. r = Inr a \<and> P a"
  by (auto simp: result_sat_def split: sum.splits)

lemma c_assert_simps [simp]:
  "c_assert True k = k"
  "c_assert False k = Inl AssertFailed"
  "c_assert b k = Inr v \<longleftrightarrow> b \<and> k = Inr v"
  "Inr v = c_assert b k \<longleftrightarrow> b \<and> k = Inr v"
  by (auto simp: c_assert_def)

lemma rbind_simps [simp]:
  "rbind (Inr a) k = k a"
  "rbind (Inl e) k = Inl e"
  "rbind m k = Inr v \<longleftrightarrow> (\<exists>a. m = Inr a \<and> k a = Inr v)"
  by (auto simp: rbind_def split: sum.splits)

lemma rbind_cong [fundef_cong]:
  "m = m' \<Longrightarrow> (\<And>a. m' = Inr a \<Longrightarrow> k a = k' a) \<Longrightarrow> rbind m k = rbind m' k'"
  by (auto simp: rbind_def split: sum.splits)

lemma c_assert_cong [fundef_cong]:
  "b = b' \<Longrightarrow> (b' \<Longrightarrow> k = k') \<Longrightarrow> c_assert b k = c_assert b' k'"
  by (auto simp: c_assert_def)

section \<open>Unsigned conversions\<close>

text \<open>A value stored into a \<^verbatim>\<open>uint16_t\<close> keeps its low sixteen bits.\<close>

definition u16 :: "nat \<Rightarrow> nat" where
  "u16 x = x mod 65536"

lemma u16_small [simp]: "x < 65536 \<Longrightarrow> u16 x = x"
  by (simp add: u16_def)

lemma u16_bound [simp]: "u16 x < 65536"
  by (simp add: u16_def)

section \<open>Primitive types\<close>

text \<open>
  bftengine/src/bftengine/PrimitiveTypes.hpp. \<^verbatim>\<open>SeqNum\<close> and \<^verbatim>\<open>ViewNum\<close> are signed 64-bit;
  they start at 0 and grow by one per consensus or view change, and signed overflow is undefined
  behaviour of the source, so they are modelled as \<open>int\<close>. Replica identifiers are unsigned 16-bit
  and are only compared, never computed with: they are \<open>nat\<close>.
\<close>

type_synonym SeqNum = int
type_synonym ViewNum = int
type_synonym ReplicaId = nat

datatype CommitPath = NA | OPTIMISTIC_FAST | FAST_WITH_THRESHOLD | SLOW

section \<open>Cyclic indices\<close>

lemma cyclic_eq_iff:
  fixes a b :: int
  assumes "0 < m"
  shows "a mod m = b mod m \<longleftrightarrow> m dvd a - b"
  by (simp add: mod_eq_dvd_iff)

lemma cyclic_distinct:
  fixes d m :: int
  assumes "0 < d" "d < m"
  shows "\<not> m dvd d"
  using assms by (auto dest: zdvd_imp_le)

lemma int_le_div_iff:
  fixes r x k :: int
  assumes "0 < r"
  shows "k \<le> x div r \<longleftrightarrow> k * r \<le> x"
proof
  assume "k \<le> x div r"
  then have "k * r \<le> x div r * r" using assms by simp
  also have "\<dots> \<le> x" using assms by (simp add: minus_mod_eq_div_mult [symmetric])
  finally show "k * r \<le> x" .
next
  assume "k * r \<le> x"
  then have "(k * r) div r \<le> x div r" using assms by (rule zdiv_mono1)
  then show "k \<le> x div r" using assms by simp
qed

lemma int_div_less_iff:
  fixes r x k :: int
  assumes "0 < r"
  shows "x div r < k \<longleftrightarrow> x < k * r"
  using int_le_div_iff [OF assms, of k x] by linarith

lemma nat_mod_int: "nat (int a mod int m) = a mod m"
  by (simp flip: zmod_int)

section \<open>Association lists\<close>

lemma map_of_filter_key:
  "map_of (filter (\<lambda>p. P (fst p)) xs) k = (if P k then map_of xs k else None)"
  by (induction xs) auto

lemma distinct_map_fst_snoc:
  "distinct (map fst (xs @ [(k, v)])) \<longleftrightarrow> distinct (map fst xs) \<and> k \<notin> fst ` set xs"
  by auto

end
