(* ===== verification/Active_Window.thy ===== *)
theory Active_Window
  imports Concord_Prelude
begin

text \<open>
  bftengine/src/bftengine/SequenceWithActiveWindow.hpp: a ring buffer of items indexed by sequence
  numbers, with an active window and an optional history behind it.
\<close>

section \<open>Template parameters\<close>

record wcfg =
  WindowSize :: nat
  Resolution :: nat
  WindowHistory :: nat

text \<open>The class's \<^verbatim>\<open>static_assert\<close>s.\<close>

definition wcfg_ok :: "wcfg \<Rightarrow> bool" where
  "wcfg_ok c \<longleftrightarrow> 8 \<le> WindowSize c \<and> WindowSize c < 65535 \<and> 1 \<le> Resolution c \<and>
     Resolution c < WindowSize c \<and> WindowSize c mod Resolution c = 0"

definition numItemsInsideActiveWindow :: "wcfg \<Rightarrow> nat" where
  "numItemsInsideActiveWindow c = u16 (WindowSize c div Resolution c)"

definition maxNumItemsInsideInactiveWindow :: "wcfg \<Rightarrow> nat" where
  "maxNumItemsInsideInactiveWindow c = WindowHistory c * numItemsInsideActiveWindow c"

definition totalItems :: "wcfg \<Rightarrow> nat" where
  "totalItems c = maxNumItemsInsideInactiveWindow c + numItemsInsideActiveWindow c"

section \<open>State\<close>

record 'a window =
  beginningOfActiveWindow :: int
  firstItemOfActiveWindow :: nat
  numItemsInsideInactiveWindow :: nat
  workingWindow :: "'a list"

section \<open>Operations\<close>

text \<open>
  \<open>init\<close> and \<open>reset\<close> are the operations of \<^verbatim>\<open>ItemFuncs\<close>, and \<open>d\<close> a
  default-constructed item.
\<close>

definition window_new :: "wcfg \<Rightarrow> ('a \<Rightarrow> 'a) \<Rightarrow> ('a \<Rightarrow> 'a) \<Rightarrow> 'a \<Rightarrow> int \<Rightarrow> 'a window result" where
  "window_new c init reset d windowFirst =
     c_assert (windowFirst mod int (Resolution c) = 0)
       (Inr \<lparr>beginningOfActiveWindow = windowFirst, firstItemOfActiveWindow = 0,
             numItemsInsideInactiveWindow = 0,
             workingWindow = map (\<lambda>x. reset (init x)) (replicate (totalItems c) d)\<rparr>)"

definition insideActiveWindow :: "wcfg \<Rightarrow> 'a window \<Rightarrow> int \<Rightarrow> bool" where
  "insideActiveWindow c w n \<longleftrightarrow>
     n \<ge> beginningOfActiveWindow w \<and> n < beginningOfActiveWindow w + int (WindowSize c)"

definition getBeginningOfInactiveWindow :: "wcfg \<Rightarrow> 'a window \<Rightarrow> int result" where
  "getBeginningOfInactiveWindow c w =
     c_assert (numItemsInsideInactiveWindow w > 0)
       (Inr (beginningOfActiveWindow w - int (numItemsInsideInactiveWindow w * Resolution c)))"

definition isPressentInHistory :: "wcfg \<Rightarrow> 'a window \<Rightarrow> int \<Rightarrow> bool" where
  "isPressentInHistory c w n =
     (if numItemsInsideInactiveWindow w > 0
      then (case getBeginningOfInactiveWindow c w of
              Inl _ \<Rightarrow> False
            | Inr b \<Rightarrow> n \<ge> b \<and> n < beginningOfActiveWindow w)
      else False)"

text \<open>
  \<^verbatim>\<open>get\<close> and \<^verbatim>\<open>getFromHistory\<close> return references: the model returns the index of the
  slot, and \<open>window_update\<close> is a write through the reference.
\<close>

definition get_slot :: "wcfg \<Rightarrow> 'a window \<Rightarrow> int \<Rightarrow> nat result" where
  "get_slot c w n =
     c_assert (n mod int (Resolution c) = 0) (
     c_assert (insideActiveWindow c w n) (
       let offsetFromActiveWinBegin = nat ((n - beginningOfActiveWindow w) div int (Resolution c));
           i = u16 ((firstItemOfActiveWindow w + offsetFromActiveWinBegin) mod totalItems c)
       in Inr i))"

definition getFromHistory_slot :: "wcfg \<Rightarrow> 'a window \<Rightarrow> int \<Rightarrow> nat result" where
  "getFromHistory_slot c w n =
     c_assert (isPressentInHistory c w n) (
     c_assert (n mod int (Resolution c) = 0) (
     c_assert (numItemsInsideInactiveWindow w > 0) (
     c_assert (numItemsInsideInactiveWindow w \<le> maxNumItemsInsideInactiveWindow c) (
       rbind (getBeginningOfInactiveWindow c w) (\<lambda>beginningOfInactiveWindow.
         let offsetFromInactiveWinBegin = nat ((n - beginningOfInactiveWindow) div int (Resolution c));
             i = (firstItemOfActiveWindow w + totalItems c - numItemsInsideInactiveWindow w
                   + offsetFromInactiveWinBegin) mod totalItems c
         in Inr i)))))"

definition getFromActiveWindowOrHistory_slot :: "wcfg \<Rightarrow> 'a window \<Rightarrow> int \<Rightarrow> nat result" where
  "getFromActiveWindowOrHistory_slot c w n =
     c_assert (insideActiveWindow c w n \<or> isPressentInHistory c w n)
       (if insideActiveWindow c w n then get_slot c w n else getFromHistory_slot c w n)"

definition window_update :: "wcfg \<Rightarrow> int \<Rightarrow> ('a \<Rightarrow> 'a) \<Rightarrow> 'a window \<Rightarrow> 'a window result" where
  "window_update c n f w =
     rbind (getFromActiveWindowOrHistory_slot c w n) (\<lambda>i.
       Inr (w\<lparr>workingWindow := (workingWindow w)[i := f (workingWindow w ! i)]\<rparr>))"

definition currentActiveWindow :: "wcfg \<Rightarrow> 'a window \<Rightarrow> int \<times> int" where
  "currentActiveWindow c w =
     (beginningOfActiveWindow w, beginningOfActiveWindow w + int (WindowSize c) - 1)"

definition window_resetAll :: "wcfg \<Rightarrow> ('a \<Rightarrow> 'a) \<Rightarrow> int \<Rightarrow> 'a window \<Rightarrow> 'a window result" where
  "window_resetAll c reset windowFirst w =
     c_assert (windowFirst mod int (Resolution c) = 0)
       (Inr (w\<lparr>workingWindow := map reset (workingWindow w),
               beginningOfActiveWindow := windowFirst,
               numItemsInsideInactiveWindow := 0\<rparr>))"

text \<open>
  The loop of \<^verbatim>\<open>advanceActiveWindow\<close>: \<open>k\<close> is the number of iterations left,
  \<^verbatim>\<open>resetSize - resetCount\<close>.
\<close>

fun reset_loop :: "('a \<Rightarrow> 'a) \<Rightarrow> nat \<Rightarrow> nat \<Rightarrow> nat \<Rightarrow> 'a list \<Rightarrow> 'a list" where
  "reset_loop reset sz i 0 xs = xs"
| "reset_loop reset sz i (Suc k) xs =
     reset_loop reset sz (u16 ((i + 1) mod sz)) k (xs[i := reset (xs ! i)])"

definition advanceActiveWindow :: "wcfg \<Rightarrow> ('a \<Rightarrow> 'a) \<Rightarrow> int \<Rightarrow> 'a window \<Rightarrow> 'a window result" where
  "advanceActiveWindow c reset newFirst w =
     c_assert (newFirst mod int (Resolution c) = 0) (
     c_assert (newFirst \<ge> beginningOfActiveWindow w) (
       if newFirst = beginningOfActiveWindow w then Inr w
       else if newFirst - beginningOfActiveWindow w > int (WindowSize c)
       then window_resetAll c reset newFirst w
       else
         let adv = u16 (nat ((newFirst - beginningOfActiveWindow w) div int (Resolution c)));
             oldActiveEnd = u16 ((firstItemOfActiveWindow w + numItemsInsideActiveWindow c) mod totalItems c);
             newActiveBegin = u16 ((firstItemOfActiveWindow w + adv) mod totalItems c);
             resetSize = adv
         in c_assert (resetSize > 0 \<and> resetSize \<le> numItemsInsideActiveWindow c) (
              let w' = w\<lparr>workingWindow :=
                           reset_loop reset (totalItems c) oldActiveEnd resetSize (workingWindow w),
                         firstItemOfActiveWindow := newActiveBegin,
                         beginningOfActiveWindow := newFirst,
                         numItemsInsideInactiveWindow := numItemsInsideInactiveWindow w + adv\<rparr>
              in Inr (if numItemsInsideInactiveWindow w' > maxNumItemsInsideInactiveWindow c
                      then w'\<lparr>numItemsInsideInactiveWindow := maxNumItemsInsideInactiveWindow c\<rparr>
                      else w'))))"

section \<open>Invariant and abstraction\<close>

definition window_inv :: "wcfg \<Rightarrow> 'a window \<Rightarrow> bool" where
  "window_inv c w \<longleftrightarrow> length (workingWindow w) = totalItems c \<and>
     firstItemOfActiveWindow w < totalItems c \<and>
     numItemsInsideInactiveWindow w \<le> maxNumItemsInsideInactiveWindow c \<and>
     beginningOfActiveWindow w mod int (Resolution c) = 0"

text \<open>
  The loops over \<^verbatim>\<open>uint16_t\<close> indices need the whole buffer to be addressable by sixteen
  bits: the instances of the source have 300 + 300 (main log), 4 (checkpoints) and 64 items.
\<close>

definition cfg_fits :: "wcfg \<Rightarrow> bool" where
  "cfg_fits c \<longleftrightarrow> wcfg_ok c \<and> totalItems c < 65536"

text \<open>
  The abstract content: the item stored for number \<open>n\<close>, for the aligned numbers of the history
  and the active window.
\<close>

definition in_window :: "wcfg \<Rightarrow> 'a window \<Rightarrow> int \<Rightarrow> bool" where
  "in_window c w n \<longleftrightarrow> n mod int (Resolution c) = 0 \<and>
     beginningOfActiveWindow w - int (numItemsInsideInactiveWindow w * Resolution c) \<le> n \<and>
     n < beginningOfActiveWindow w + int (WindowSize c)"

definition item_slot :: "wcfg \<Rightarrow> 'a window \<Rightarrow> int \<Rightarrow> nat" where
  "item_slot c w n = nat ((int (firstItemOfActiveWindow w)
     + (n - beginningOfActiveWindow w) div int (Resolution c)) mod int (totalItems c))"

definition window_item :: "wcfg \<Rightarrow> 'a window \<Rightarrow> int \<Rightarrow> 'a option" where
  "window_item c w n = (if in_window c w n then Some (workingWindow w ! item_slot c w n) else None)"

lemma cfg_fits_facts:
  assumes "cfg_fits c"
  shows "0 < Resolution c" "0 < numItemsInsideActiveWindow c" "0 < totalItems c" "totalItems c < 65536"
    "numItemsInsideActiveWindow c * Resolution c = WindowSize c"
    "maxNumItemsInsideInactiveWindow c + numItemsInsideActiveWindow c = totalItems c"
    "WindowSize c < 65536"
proof -
  from assms have ok: "8 \<le> WindowSize c" "WindowSize c < 65535" "1 \<le> Resolution c"
      "Resolution c < WindowSize c" "WindowSize c mod Resolution c = 0" "totalItems c < 65536"
    by (auto simp: cfg_fits_def wcfg_ok_def)
  have "WindowSize c div Resolution c \<le> WindowSize c" by (rule div_le_dividend)
  with ok have "WindowSize c div Resolution c < 65536" by linarith
  then have n: "numItemsInsideActiveWindow c = WindowSize c div Resolution c"
    by (simp add: numItemsInsideActiveWindow_def)
  show "0 < numItemsInsideActiveWindow c" using ok n by (simp add: div_greater_zero_iff)
  then show "0 < totalItems c" by (simp add: totalItems_def)
  show "numItemsInsideActiveWindow c * Resolution c = WindowSize c" using ok n by auto
  show "maxNumItemsInsideInactiveWindow c + numItemsInsideActiveWindow c = totalItems c"
    by (simp add: totalItems_def)
qed (use assms in \<open>auto simp: cfg_fits_def wcfg_ok_def\<close>)

lemma item_slot_less: "cfg_fits c \<Longrightarrow> item_slot c w n < totalItems c"
  using cfg_fits_facts(3) [of c] by (simp add: item_slot_def nat_less_iff)

section \<open>Reads refine the abstraction\<close>

lemma get_slot_eq:
  assumes "cfg_fits c" "insideActiveWindow c w n" "n mod int (Resolution c) = 0"
  shows "get_slot c w n = Inr (item_slot c w n)"
proof -
  note f = cfg_fits_facts [OF assms(1)]
  let ?o = "(n - beginningOfActiveWindow w) div int (Resolution c)"
  have "0 \<le> ?o" using assms(2) f(1)
    by (simp add: insideActiveWindow_def pos_imp_zdiv_nonneg_iff)
  then have "int ((firstItemOfActiveWindow w + nat ?o) mod totalItems c)
      = (int (firstItemOfActiveWindow w) + ?o) mod int (totalItems c)"
    by (simp add: zmod_int)
  then have "(firstItemOfActiveWindow w + nat ?o) mod totalItems c = item_slot c w n"
    unfolding item_slot_def by (metis nat_int)
  moreover have "item_slot c w n < 65536" using item_slot_less [OF assms(1), of w n] f(4) by simp
  ultimately show ?thesis using assms(2,3) by (simp add: get_slot_def Let_def)
qed

lemma div_shift_back:
  fixes r :: nat and m b :: int
  assumes "0 < r"
  shows "(m - (b - int k * int r)) div int r = (m - b) div int r + int k"
proof -
  have "m - (b - int k * int r) = (m - b) + int k * int r" by simp
  moreover have "((m - b) + int k * int r) div int r = (m - b) div int r + int k"
    using assms by (simp add: div_mult_self3 add.commute)
  ultimately show ?thesis by (simp only:)
qed

lemma getFromHistory_slot_eq:
  assumes "cfg_fits c" "window_inv c w" "isPressentInHistory c w n" "n mod int (Resolution c) = 0"
  shows "getFromHistory_slot c w n = Inr (item_slot c w n)"
proof -
  note f = cfg_fits_facts [OF assms(1)]
  let ?k = "numItemsInsideInactiveWindow w"
  let ?f = "firstItemOfActiveWindow w"
  let ?o = "(n - beginningOfActiveWindow w) div int (Resolution c)"
  have k: "0 < ?k" "?k \<le> totalItems c" and kmax: "?k \<le> maxNumItemsInsideInactiveWindow c"
    using assms(2,3) f(6) by (auto simp: window_inv_def isPressentInHistory_def split: if_splits)
  have lo: "0 \<le> n - (beginningOfActiveWindow w - int (?k * Resolution c))"
    using assms(3) by (auto simp: isPressentInHistory_def getBeginningOfInactiveWindow_def split: if_splits)
  then have "0 \<le> (n - (beginningOfActiveWindow w - int (?k * Resolution c))) div int (Resolution c)"
    using f(1) by (simp add: pos_imp_zdiv_nonneg_iff)
  then have o: "0 \<le> ?o + int ?k" by (simp add: div_shift_back [OF f(1)])
  have "int ((?f + totalItems c - ?k + nat (?o + int ?k)) mod totalItems c)
      = (int ?f + ?o) mod int (totalItems c)"
  proof -
    have "int (?f + totalItems c - ?k + nat (?o + int ?k)) = int ?f + ?o + int (totalItems c)"
      using o k(2) by simp
    then show ?thesis by (simp add: zmod_int)
  qed
  then have "(?f + totalItems c - ?k + nat (?o + int ?k)) mod totalItems c = item_slot c w n"
    unfolding item_slot_def by (metis nat_int)
  then show ?thesis using assms(3,4) k kmax
    by (simp add: getFromHistory_slot_def getBeginningOfInactiveWindow_def div_shift_back [OF f(1)] Let_def)
qed

lemma in_window_iff:
  "in_window c w n \<longleftrightarrow>
     n mod int (Resolution c) = 0 \<and> (insideActiveWindow c w n \<or> isPressentInHistory c w n)"
proof -
  define k where "k = int (numItemsInsideInactiveWindow w) * int (Resolution c)"
  have k: "0 \<le> k" "numItemsInsideInactiveWindow w = 0 \<Longrightarrow> k = 0" by (simp_all add: k_def)
  have h: "isPressentInHistory c w n \<longleftrightarrow> numItemsInsideInactiveWindow w > 0 \<and>
      beginningOfActiveWindow w - k \<le> n \<and> n < beginningOfActiveWindow w"
    by (simp add: isPressentInHistory_def getBeginningOfInactiveWindow_def k_def)
  show ?thesis
    unfolding in_window_def insideActiveWindow_def h of_nat_mult k_def [symmetric]
    using k by (cases "numItemsInsideInactiveWindow w = 0") auto
qed

lemma getFromActiveWindowOrHistory_slot_eq:
  assumes "cfg_fits c" "window_inv c w"
  shows "getFromActiveWindowOrHistory_slot c w n =
    (if in_window c w n then Inr (item_slot c w n) else Inl AssertFailed)"
proof (cases "in_window c w n")
  case True
  then show ?thesis using assms
    by (auto simp: getFromActiveWindowOrHistory_slot_def in_window_iff get_slot_eq getFromHistory_slot_eq)
next
  case False
  then show ?thesis
    by (auto simp: getFromActiveWindowOrHistory_slot_def in_window_iff get_slot_def
        getFromHistory_slot_def c_assert_def)
qed

lemma item_offset_bounds:
  assumes "cfg_fits c" "in_window c w n"
  shows "- int (numItemsInsideInactiveWindow w) \<le> (n - beginningOfActiveWindow w) div int (Resolution c)"
    and "(n - beginningOfActiveWindow w) div int (Resolution c) < int (numItemsInsideActiveWindow c)"
proof -
  note f = cfg_fits_facts [OF assms(1)]
  have r: "0 < int (Resolution c)" using f(1) by simp
  show "- int (numItemsInsideInactiveWindow w) \<le> (n - beginningOfActiveWindow w) div int (Resolution c)"
    using assms(2) by (simp add: int_le_div_iff [OF r] in_window_def)
  have "int (numItemsInsideActiveWindow c) * int (Resolution c) = int (WindowSize c)"
    by (simp add: f(5) flip: of_nat_mult)
  then show "(n - beginningOfActiveWindow w) div int (Resolution c) < int (numItemsInsideActiveWindow c)"
    using assms(2) by (simp add: int_div_less_iff [OF r] in_window_def)
qed

lemma item_slot_inj:
  assumes "cfg_fits c" "window_inv c w" "in_window c w n" "in_window c w m"
    and "item_slot c w n = item_slot c w m"
  shows "n = m"
proof -
  note f = cfg_fits_facts [OF assms(1)]
  let ?r = "int (Resolution c)" and ?T = "int (totalItems c)" and ?b = "beginningOfActiveWindow w"
  let ?o = "\<lambda>n. (n - ?b) div ?r"
  have T: "0 < ?T" using f(3) by simp
  have dvd: "?r dvd n - ?b" "?r dvd m - ?b"
    using assms(2-4) by (auto simp: in_window_def window_inv_def mod_eq_dvd_iff dvd_diff mod_0_imp_dvd)
  have lt: "\<bar>?o n - ?o m\<bar> < ?T"
    using item_offset_bounds [OF assms(1,3)] item_offset_bounds [OF assms(1,4)] assms(2) f(6)
    by (auto simp: window_inv_def)
  have "(int (firstItemOfActiveWindow w) + ?o n) mod ?T = (int (firstItemOfActiveWindow w) + ?o m) mod ?T"
    using assms(5) T by (simp add: item_slot_def eq_nat_nat_iff)
  then have "?T dvd ?o n - ?o m" by (simp add: mod_eq_dvd_iff)
  with lt have "?o n = ?o m" using dvd_imp_le_int [of "?o n - ?o m" ?T] T by fastforce
  then have "?o n * ?r = ?o m * ?r" by simp
  with dvd show ?thesis by simp
qed

section \<open>Scrolling the window\<close>

lemma reset_loop_length [simp]: "length (reset_loop reset sz i k xs) = length xs"
  by (induction k arbitrary: i xs) auto

lemma reset_loop_nth:
  assumes "length xs = sz" "sz < 65536" "i < sz" "k \<le> sz" "j < sz"
  shows "reset_loop reset sz i k xs ! j =
    (if \<exists>d<k. j = (i + d) mod sz then reset (xs ! j) else xs ! j)"
  using assms
proof (induction k arbitrary: i xs)
  case 0
  then show ?case by simp
next
  case (Suc k)
  let ?i = "(i + 1) mod sz" and ?xs = "xs[i := reset (xs ! i)]"
  have i: "u16 ?i = ?i" using Suc.prems(2,3) by (simp add: order_less_trans [OF mod_less_divisor])
  have IH: "reset_loop reset sz ?i k ?xs ! j =
      (if \<exists>d<k. j = (?i + d) mod sz then reset (?xs ! j) else ?xs ! j)"
    using Suc.prems by (intro Suc.IH) auto
  have shift: "(?i + d) mod sz = (i + Suc d) mod sz" for d by (simp add: mod_simps)
  have notin: "\<not> (\<exists>d<k. i = (i + Suc d) mod sz)"
  proof
    assume "\<exists>d<k. i = (i + Suc d) mod sz"
    then obtain d where d: "d < k" "i = (i + Suc d) mod sz" by blast
    show False
    proof (cases "i + Suc d < sz")
      case True
      with d show False by simp
    next
      case False
      then have "(i + Suc d) mod sz = i + Suc d - sz" using Suc.prems d(1)
        by (simp add: mod_if)
      with d Suc.prems False show False by simp
    qed
  qed
  have split: "(\<exists>d<Suc k. j = (i + d) mod sz) \<longleftrightarrow> j = i \<or> (\<exists>d<k. j = (i + Suc d) mod sz)"
    using Suc.prems(3) by (simp add: Ex_less_Suc2)
  have unfold: "reset_loop reset sz i (Suc k) xs ! j = reset_loop reset sz ?i k ?xs ! j"
    using i by simp
  show ?case
  proof (cases "j = i")
    case True
    have "\<not> (\<exists>d<k. j = (?i + d) mod sz)" using notin True unfolding shift by simp
    then have "reset_loop reset sz i (Suc k) xs ! j = ?xs ! j"
      unfolding unfold IH by (rule if_not_P)
    moreover have "\<exists>d<Suc k. j = (i + d) mod sz" using split True by blast
    ultimately show ?thesis using True Suc.prems(1,3) by simp
  next
    case False
    then show ?thesis using IH unfolding unfold split shift by auto
  qed
qed

lemma advance_defined:
  assumes "cfg_fits c" "window_inv c w" "newFirst mod int (Resolution c) = 0"
    "beginningOfActiveWindow w \<le> newFirst"
  shows "\<exists>w'. advanceActiveWindow c reset newFirst w = Inr w'"
proof -
  note f = cfg_fits_facts [OF assms(1)]
  have r: "0 < int (Resolution c)" using f(1) by simp
  let ?d = "newFirst - beginningOfActiveWindow w"
  have dvd: "int (Resolution c) dvd ?d" using assms(2,3)
    by (simp add: window_inv_def dvd_diff mod_0_imp_dvd)
  have "0 < nat (?d div int (Resolution c)) \<and> nat (?d div int (Resolution c)) \<le> numItemsInsideActiveWindow c"
    if "newFirst \<noteq> beginningOfActiveWindow w" "\<not> ?d > int (WindowSize c)"
  proof
    have "0 < ?d" using that(1) assms(4) by simp
    with dvd have "int (Resolution c) \<le> ?d" by (auto dest: zdvd_imp_le)
    then show "0 < nat (?d div int (Resolution c))"
      by (simp add: int_le_div_iff [OF r, of 1, simplified] int_one_le_iff_zero_less [symmetric])
    have "?d div int (Resolution c) < int (numItemsInsideActiveWindow c) + 1"
      using that(2) r f(5) by (simp add: int_div_less_iff [OF r] algebra_simps flip: of_nat_mult)
    then show "nat (?d div int (Resolution c)) \<le> numItemsInsideActiveWindow c" by linarith
  qed
  moreover have "numItemsInsideActiveWindow c < 65536" using f(4,6) by simp
  ultimately have "0 < u16 (nat (?d div int (Resolution c))) \<and>
      u16 (nat (?d div int (Resolution c))) \<le> numItemsInsideActiveWindow c"
    if "newFirst \<noteq> beginningOfActiveWindow w" "\<not> ?d > int (WindowSize c)"
    using that by fastforce
  then show ?thesis using assms(3,4)
    by (auto simp: advanceActiveWindow_def window_resetAll_def Let_def c_assert_def)
qed

text \<open>The branch of \<^verbatim>\<open>advanceActiveWindow\<close> that scrolls, with its arithmetic done.\<close>

lemma advance_scroll:
  assumes "cfg_fits c" "window_inv c w" "advanceActiveWindow c reset newFirst w = Inr w'"
    and "newFirst \<noteq> beginningOfActiveWindow w"
    and "newFirst - beginningOfActiveWindow w \<le> int (WindowSize c)"
  obtains adv where "0 < adv" "adv \<le> numItemsInsideActiveWindow c"
    "newFirst = beginningOfActiveWindow w + int adv * int (Resolution c)"
    "beginningOfActiveWindow w' = newFirst"
    "firstItemOfActiveWindow w' = (firstItemOfActiveWindow w + adv) mod totalItems c"
    "numItemsInsideInactiveWindow w' =
       min (numItemsInsideInactiveWindow w + adv) (maxNumItemsInsideInactiveWindow c)"
    "workingWindow w' = reset_loop reset (totalItems c)
       ((firstItemOfActiveWindow w + numItemsInsideActiveWindow c) mod totalItems c) adv (workingWindow w)"
proof -
  note f = cfg_fits_facts [OF assms(1)]
  have r: "0 < int (Resolution c)" using f(1) by simp
  let ?d = "newFirst - beginningOfActiveWindow w"
  let ?adv = "nat (?d div int (Resolution c))"
  have asserts: "newFirst mod int (Resolution c) = 0" "newFirst \<ge> beginningOfActiveWindow w"
    using assms(3) by (auto simp: advanceActiveWindow_def)
  have dvd: "int (Resolution c) dvd ?d" using assms(2) asserts(1)
    by (simp add: window_inv_def dvd_diff mod_0_imp_dvd)
  have d0: "0 \<le> ?d div int (Resolution c)" using asserts(2) r by (simp add: pos_imp_zdiv_nonneg_iff)
  have "?d div int (Resolution c) < int (numItemsInsideActiveWindow c) + 1"
    using assms(5) r f(5) by (simp add: int_div_less_iff [OF r] algebra_simps flip: of_nat_mult)
  then have le: "?adv \<le> numItemsInsideActiveWindow c" by linarith
  then have u: "u16 ?adv = ?adv" using f(4,6) by simp
  have m: "x mod totalItems c < 65536" for x using f(3,4) order_less_trans [OF mod_less_divisor] by blast
  have nf: "newFirst = beginningOfActiveWindow w + int ?adv * int (Resolution c)"
    using dvd d0 by simp
  show thesis
  proof (rule that [of ?adv])
    show "0 < ?adv" using assms(3-5) u
      by (auto simp: advanceActiveWindow_def Let_def split: if_splits)
  qed (use assms(3-5) u m le nf in
      \<open>auto simp: advanceActiveWindow_def Let_def min_def split: if_splits\<close>)
qed

lemma advance_cases:
  assumes "cfg_fits c" "window_inv c w" "advanceActiveWindow c reset newFirst w = Inr w'"
  obtains (same) "newFirst = beginningOfActiveWindow w" "w' = w"
  | (far) "newFirst - beginningOfActiveWindow w > int (WindowSize c)"
      "window_resetAll c reset newFirst w = Inr w'"
  | (scroll) "newFirst \<noteq> beginningOfActiveWindow w"
      "newFirst - beginningOfActiveWindow w \<le> int (WindowSize c)"
proof -
  from assms(3) have "newFirst = beginningOfActiveWindow w \<and> w' = w \<or>
      newFirst - beginningOfActiveWindow w > int (WindowSize c) \<and> window_resetAll c reset newFirst w = Inr w' \<or>
      newFirst \<noteq> beginningOfActiveWindow w \<and> newFirst - beginningOfActiveWindow w \<le> int (WindowSize c)"
    by (auto simp: advanceActiveWindow_def split: if_splits)
  with that show thesis by blast
qed

lemma scroll_slot:
  assumes "cfg_fits c" "firstItemOfActiveWindow w' = (firstItemOfActiveWindow w + adv) mod totalItems c"
    "beginningOfActiveWindow w' = beginningOfActiveWindow w + int adv * int (Resolution c)"
  shows "item_slot c w' n = item_slot c w n"
proof -
  note f = cfg_fits_facts [OF assms(1)]
  let ?r = "int (Resolution c)" and ?T = "int (totalItems c)"
  have "(n - beginningOfActiveWindow w) div ?r = (n - beginningOfActiveWindow w') div ?r + int adv"
    using div_shift_back [OF f(1), of n "beginningOfActiveWindow w'" adv] assms(3) by simp
  then have "(int (firstItemOfActiveWindow w) + (n - beginningOfActiveWindow w) div ?r) mod ?T
      = (int ((firstItemOfActiveWindow w + adv) mod totalItems c)
          + (n - beginningOfActiveWindow w') div ?r) mod ?T"
    by (simp add: zmod_int mod_simps algebra_simps)
  then show ?thesis by (simp add: item_slot_def assms(2))
qed

lemma scroll_item:
  assumes "cfg_fits c" "window_inv c w" "advanceActiveWindow c reset newFirst w = Inr w'"
    and "newFirst \<noteq> beginningOfActiveWindow w"
    and "newFirst - beginningOfActiveWindow w \<le> int (WindowSize c)"
    and "in_window c w' n"
  shows "window_item c w' n =
    (if n < beginningOfActiveWindow w + int (WindowSize c) then window_item c w n
     else Some (reset (workingWindow w ! item_slot c w n)))"
proof -
  note f = cfg_fits_facts [OF assms(1)]
  let ?nI = "numItemsInsideActiveWindow c" and ?T = "totalItems c"
  let ?b = "beginningOfActiveWindow w" and ?first = "firstItemOfActiveWindow w"
  obtain adv where a: "0 < adv" "adv \<le> ?nI"
      "newFirst = ?b + int adv * int (Resolution c)" "beginningOfActiveWindow w' = newFirst"
      "firstItemOfActiveWindow w' = (?first + adv) mod ?T"
      "numItemsInsideInactiveWindow w' =
         min (numItemsInsideInactiveWindow w + adv) (maxNumItemsInsideInactiveWindow c)"
      "workingWindow w' = reset_loop reset ?T ((?first + ?nI) mod ?T) adv (workingWindow w)"
    using advance_scroll [OF assms(1-5)] by blast
  let ?o = "(n - ?b) div int (Resolution c)"
  have slot: "item_slot c w' n = item_slot c w n"
    using scroll_slot [OF assms(1) a(5)] a(3,4) by simp
  have o': "(n - newFirst) div int (Resolution c) = ?o - int adv"
    using div_shift_back [OF f(1), of n newFirst adv] a(3) by simp
  have ob: "- int (numItemsInsideInactiveWindow w') \<le> ?o - int adv" "?o - int adv < int ?nI"
    using item_offset_bounds [OF assms(1,6)] a(4) o' by simp_all
  have r: "0 < int (Resolution c)" using f(1) by simp
  have new: "n < ?b + int (WindowSize c) \<longleftrightarrow> ?o < int ?nI"
    by (simp add: int_div_less_iff [OF r] f(5) flip: of_nat_mult, linarith?)
  have hit: "(\<exists>d<adv. item_slot c w n = ((?first + ?nI) mod ?T + d) mod ?T) \<longleftrightarrow> int ?nI \<le> ?o"
  proof
    assume "\<exists>d<adv. item_slot c w n = ((?first + ?nI) mod ?T + d) mod ?T"
    then obtain d where d: "d < adv" "item_slot c w n = (?first + ?nI + d) mod ?T"
      by (auto simp: mod_simps)
    then have "(int ?first + ?o) mod int ?T = (int ?first + int ?nI + int d) mod int ?T"
      using f(3) by (simp add: item_slot_def nat_eq_iff zmod_int)
    then have dv: "int ?T dvd ?o - (int ?nI + int d)" by (simp add: mod_eq_dvd_iff algebra_simps)
    show "int ?nI \<le> ?o"
    proof (rule ccontr)
      assume "\<not> int ?nI \<le> ?o"
      then have "0 < (int ?nI + int d) - ?o" by simp
      moreover have "(int ?nI + int d) - ?o < int ?T"
        using ob(1) d(1) a(6) f(6) by linarith
      ultimately have "\<not> int ?T dvd (int ?nI + int d) - ?o" by (rule cyclic_distinct)
      with dv show False by (simp add: dvd_diff_commute)
    qed
  next
    assume "int ?nI \<le> ?o"
    then have "nat (?o - int ?nI) < adv" using ob(2) by linarith
    moreover have "item_slot c w n = ((?first + ?nI) mod ?T + nat (?o - int ?nI)) mod ?T"
    proof -
      have "int ((?first + ?nI + nat (?o - int ?nI)) mod ?T) = (int ?first + ?o) mod int ?T"
        using \<open>int ?nI \<le> ?o\<close> by (simp add: zmod_int)
      then show ?thesis unfolding item_slot_def by (metis mod_add_left_eq nat_int)
    qed
    ultimately show "\<exists>d<adv. item_slot c w n = ((?first + ?nI) mod ?T + d) mod ?T" by blast
  qed
  have nth: "workingWindow w' ! item_slot c w n =
      (if int ?nI \<le> ?o then reset (workingWindow w ! item_slot c w n) else workingWindow w ! item_slot c w n)"
    using reset_loop_nth [of "workingWindow w" ?T "(?first + ?nI) mod ?T" adv "item_slot c w n" reset]
      assms(1,2) a(2,7) f(3,4,6) hit item_slot_less [OF assms(1), of w n] by (simp add: window_inv_def)
  have old: "in_window c w n" if "n < ?b + int (WindowSize c)"
  proof -
    have "int (numItemsInsideInactiveWindow w' * Resolution c)
        \<le> int ((numItemsInsideInactiveWindow w + adv) * Resolution c)"
      using a(6) by (intro zle_int [THEN iffD2] mult_le_mono1) simp
    then have "?b - int (numItemsInsideInactiveWindow w * Resolution c)
        \<le> newFirst - int (numItemsInsideInactiveWindow w' * Resolution c)"
      using a(3) by (simp add: algebra_simps)
    then show ?thesis using assms(6) that a(4) by (simp add: in_window_def)
  qed
  show ?thesis
    using assms(6) slot nth new old by (auto simp: window_item_def)
qed

lemma scroll_inv:
  assumes "cfg_fits c" "window_inv c w" "advanceActiveWindow c reset newFirst w = Inr w'"
    and "newFirst \<noteq> beginningOfActiveWindow w"
    and "newFirst - beginningOfActiveWindow w \<le> int (WindowSize c)"
  shows "window_inv c w'"
proof -
  note f = cfg_fits_facts [OF assms(1)]
  have "newFirst mod int (Resolution c) = 0" using assms(3) by (simp add: advanceActiveWindow_def)
  then show ?thesis
    by (rule_tac advance_scroll [OF assms]) (use assms(2) f(3) in \<open>simp add: window_inv_def\<close>)
qed

lemma resetAll_inv:
  assumes "window_inv c w" "window_resetAll c reset windowFirst w = Inr w'"
  shows "window_inv c w'"
  using assms by (auto simp: window_resetAll_def window_inv_def)

lemma window_new_inv:
  assumes "cfg_fits c" "window_new c init reset d windowFirst = Inr w"
  shows "window_inv c w"
  using assms cfg_fits_facts(3) [OF assms(1)] by (auto simp: window_new_def window_inv_def)

lemma advance_inv:
  assumes "cfg_fits c" "window_inv c w" "advanceActiveWindow c reset newFirst w = Inr w'"
  shows "window_inv c w'"
  by (rule advance_cases [OF assms]) (use assms(2) in \<open>auto intro: resetAll_inv scroll_inv [OF assms]\<close>)

lemma resetAll_item:
  assumes "cfg_fits c" "window_inv c w" "window_resetAll c reset windowFirst w = Inr w'" "in_window c w' n"
  shows "window_item c w' n = Some (reset (workingWindow w ! item_slot c w' n))"
  using assms item_slot_less [OF assms(1), of w' n]
  by (auto simp: window_item_def window_resetAll_def window_inv_def)

lemma update_eq:
  assumes "cfg_fits c" "window_inv c w"
  shows "window_update c n f w =
    (if in_window c w n
     then Inr (w\<lparr>workingWindow := (workingWindow w)[item_slot c w n := f (workingWindow w ! item_slot c w n)]\<rparr>)
     else Inl AssertFailed)"
  by (simp add: window_update_def getFromActiveWindowOrHistory_slot_eq [OF assms])

lemma update_inv:
  assumes "cfg_fits c" "window_inv c w" "window_update c n f w = Inr w'"
  shows "window_inv c w'"
  using assms(2,3) update_eq [OF assms(1,2), of n f] by (auto simp: window_inv_def split: if_splits)

lemma update_item:
  assumes "cfg_fits c" "window_inv c w" "window_update c n f w = Inr w'"
  shows "window_item c w' m = (if m = n then map_option f (window_item c w n) else window_item c w m)"
proof -
  from assms(3) have n: "in_window c w n"
    and w': "w' = w\<lparr>workingWindow := (workingWindow w)[item_slot c w n := f (workingWindow w ! item_slot c w n)]\<rparr>"
    using update_eq [OF assms(1,2), of n f] by (auto split: if_splits)
  have same: "in_window c w' m = in_window c w m" "item_slot c w' m = item_slot c w m"
    by (simp_all add: w' in_window_def item_slot_def)
  have len: "item_slot c w n < length (workingWindow w)"
    using item_slot_less [OF assms(1), of w n] assms(2) by (simp add: window_inv_def)
  show ?thesis
  proof (cases "m = n")
    case True
    with n same len show ?thesis by (simp add: window_item_def w')
  next
    case False
    have "item_slot c w n \<noteq> item_slot c w m" if "in_window c w m"
      using item_slot_inj [OF assms(1,2) n that] False by metis
    with same False show ?thesis by (simp add: window_item_def w')
  qed
qed

section \<open>Clients of a bounded log\<close>

text \<open>
  What a client of the window relies on: a write reaches its own number only, and moving the window
  keeps an item or replaces it by a reset one. \<open>log_op\<close> is a client's program over such a log.
\<close>

datatype 'a log_op = Put int "'a \<Rightarrow> 'a" | Advance int

fun run_log :: "(int \<Rightarrow> ('a \<Rightarrow> 'a) \<Rightarrow> 'w \<Rightarrow> 'w result) \<Rightarrow> (int \<Rightarrow> 'w \<Rightarrow> 'w result) \<Rightarrow>
    'a log_op list \<Rightarrow> 'w \<Rightarrow> 'w result" where
  "run_log put adv [] w = Inr w"
| "run_log put adv (Put n f # ops) w = rbind (put n f w) (run_log put adv ops)"
| "run_log put adv (Advance n # ops) w = rbind (adv n w) (run_log put adv ops)"

text \<open>The updates a program addresses to number \<open>n\<close>, in order.\<close>

fun puts_at :: "int \<Rightarrow> 'a log_op list \<Rightarrow> ('a \<Rightarrow> 'a) list" where
  "puts_at n [] = []"
| "puts_at n (Put m f # ops) = (if m = n then f # puts_at n ops else puts_at n ops)"
| "puts_at n (Advance b # ops) = puts_at n ops"

locale bounded_log =
  fixes item :: "'w \<Rightarrow> int \<Rightarrow> 'a option"
    and put :: "int \<Rightarrow> ('a \<Rightarrow> 'a) \<Rightarrow> 'w \<Rightarrow> 'w result"
    and adv :: "int \<Rightarrow> 'w \<Rightarrow> 'w result"
    and reset :: "'a \<Rightarrow> 'a"
    and invar :: "'w \<Rightarrow> bool"
  assumes put_invar: "invar w \<Longrightarrow> put n f w = Inr w' \<Longrightarrow> invar w'"
    and adv_invar: "invar w \<Longrightarrow> adv b w = Inr w' \<Longrightarrow> invar w'"
    and item_put: "invar w \<Longrightarrow> put n f w = Inr w' \<Longrightarrow>
      item w' m = (if m = n then map_option f (item w n) else item w m)"
    and item_adv: "invar w \<Longrightarrow> adv b w = Inr w' \<Longrightarrow> item w' m = Some x \<Longrightarrow>
      item w m = Some x \<or> x \<in> range reset"
begin

lemma run_invar: "invar w \<Longrightarrow> run_log put adv ops w = Inr w' \<Longrightarrow> invar w'"
proof (induction ops arbitrary: w)
  case (Cons op ops)
  then show ?case by (cases op) (auto dest: put_invar adv_invar)
qed simp

lemma no_crosstalk:
  assumes "invar w" "run_log put adv ops w = Inr w'" "item w' n = Some x"
  shows "\<exists>k y. x = fold (\<lambda>f. f) (drop k (puts_at n ops)) y \<and>
    (item w n = Some y \<and> k = 0 \<or> y \<in> range reset)"
  using assms
proof (induction ops arbitrary: w)
  case Nil
  then show ?case by auto
next
  case (Cons op ops)
  show ?case
  proof (cases op)
    case (Put m f)
    then obtain w1 where w1: "put m f w = Inr w1" "run_log put adv ops w1 = Inr w'" using Cons.prems by auto
    from Cons.IH [OF put_invar [OF Cons.prems(1) w1(1)] w1(2) Cons.prems(3)] obtain k y where
      ky: "x = fold (\<lambda>f. f) (drop k (puts_at n ops)) y" "item w1 n = Some y \<and> k = 0 \<or> y \<in> range reset"
      by blast
    show ?thesis
    proof (cases "y \<in> range reset")
      case True
      with ky(1) Put show ?thesis by (intro exI [of _ "if m = n then Suc k else k"] exI [of _ y]) auto
    next
      case False
      then have y: "item w1 n = Some y" "k = 0" using ky(2) by auto
      show ?thesis
      proof (cases "m = n")
        case True
        with y item_put [OF Cons.prems(1) w1(1), of n] obtain z where "item w n = Some z" "y = f z" by auto
        with ky(1) y Put True show ?thesis by (intro exI [of _ 0] exI [of _ z]) auto
      next
        case False
        with y item_put [OF Cons.prems(1) w1(1), of n] have "item w n = Some y" by auto
        with ky(1) y Put False show ?thesis by (intro exI [of _ 0] exI [of _ y]) auto
      qed
    qed
  next
    case (Advance b)
    then obtain w1 where w1: "adv b w = Inr w1" "run_log put adv ops w1 = Inr w'" using Cons.prems by auto
    from Cons.IH [OF adv_invar [OF Cons.prems(1) w1(1)] w1(2) Cons.prems(3)] obtain k y where
      ky: "x = fold (\<lambda>f. f) (drop k (puts_at n ops)) y" "item w1 n = Some y \<and> k = 0 \<or> y \<in> range reset"
      by blast
    then have "item w n = Some y \<and> k = 0 \<or> y \<in> range reset"
      using item_adv [OF Cons.prems(1) w1(1)] by auto
    with ky(1) Advance show ?thesis by auto
  qed
qed

end

lemma advance_item_kept_or_reset:
  assumes "cfg_fits c" "window_inv c w" "advanceActiveWindow c reset b w = Inr w'" "window_item c w' m = Some x"
  shows "window_item c w m = Some x \<or> x \<in> range reset"
proof -
  have m: "in_window c w' m" using assms(4) by (auto simp: window_item_def split: if_splits)
  show ?thesis
    using assms(1,2,3)
  proof (rule advance_cases)
    assume "w' = w"
    with assms(4) show ?thesis by simp
  next
    assume "window_resetAll c reset b w = Inr w'"
    with resetAll_item [OF assms(1,2) _ m] assms(4) show ?thesis by auto
  next
    assume "b \<noteq> beginningOfActiveWindow w" "b - beginningOfActiveWindow w \<le> int (WindowSize c)"
    with scroll_item [OF assms(1-3) _ _ m] assms(4) show ?thesis by (auto split: if_splits)
  qed
qed

interpretation wlog: bounded_log "window_item c" "window_update c" "advanceActiveWindow c reset" reset
    "\<lambda>w. cfg_fits c \<and> window_inv c w" for c reset
  by unfold_locales
    (erule conjE, (rule conjI, assumption)?,
      (rule update_inv advance_inv update_item advance_item_kept_or_reset; assumption))+

section \<open>The instances of the source\<close>

text \<open>
  The replica's main log (bftengine/src/bftengine/ReplicaImp.hpp): 300 sequence numbers with one
  window of history; and its checkpoint log, one item per checkpoint window.
\<close>

definition main_log_cfg :: wcfg where
  "main_log_cfg = \<lparr>WindowSize = 300, Resolution = 1, WindowHistory = 1\<rparr>"

definition checkpoints_log_cfg :: wcfg where
  "checkpoints_log_cfg = \<lparr>WindowSize = 300 + 2 * 150, Resolution = 150, WindowHistory = 0\<rparr>"

lemma main_log_cfg_simps [simp]:
  "WindowSize main_log_cfg = 300" "Resolution main_log_cfg = 1" "WindowHistory main_log_cfg = 1"
  "numItemsInsideActiveWindow main_log_cfg = 300" "maxNumItemsInsideInactiveWindow main_log_cfg = 300"
  "totalItems main_log_cfg = 600"
  by (simp_all add: main_log_cfg_def totalItems_def maxNumItemsInsideInactiveWindow_def
      numItemsInsideActiveWindow_def)

lemma checkpoints_log_cfg_simps [simp]:
  "WindowSize checkpoints_log_cfg = 600" "Resolution checkpoints_log_cfg = 150"
  "WindowHistory checkpoints_log_cfg = 0" "numItemsInsideActiveWindow checkpoints_log_cfg = 4"
  "maxNumItemsInsideInactiveWindow checkpoints_log_cfg = 0" "totalItems checkpoints_log_cfg = 4"
  by (simp_all add: checkpoints_log_cfg_def totalItems_def maxNumItemsInsideInactiveWindow_def
      numItemsInsideActiveWindow_def)

lemma main_log_cfg_fits: "cfg_fits main_log_cfg"
  by (simp add: cfg_fits_def wcfg_ok_def)

lemma checkpoints_log_cfg_fits: "cfg_fits checkpoints_log_cfg"
  by (simp add: cfg_fits_def wcfg_ok_def)

section \<open>Properties\<close>

lemma scroll_keeps:
  assumes "cfg_fits c" "window_inv c w" "advanceActiveWindow c reset newFirst w = Inr w'"
    and "newFirst - beginningOfActiveWindow w \<le> int (WindowSize c)" "in_window c w n"
    and "newFirst - int (maxNumItemsInsideInactiveWindow c * Resolution c) \<le> n"
  shows "in_window c w' n"
  using assms(1,2,3)
proof (rule advance_cases)
  assume "w' = w"
  with assms(5) show ?thesis by simp
next
  assume "newFirst - beginningOfActiveWindow w > int (WindowSize c)"
  with assms(4) show ?thesis by simp
next
  assume s: "newFirst \<noteq> beginningOfActiveWindow w"
  obtain adv where a: "newFirst = beginningOfActiveWindow w + int adv * int (Resolution c)"
      "beginningOfActiveWindow w' = newFirst"
      "numItemsInsideInactiveWindow w' =
         min (numItemsInsideInactiveWindow w + adv) (maxNumItemsInsideInactiveWindow c)"
    using advance_scroll [OF assms(1-3) s assms(4)] by metis
  have "0 \<le> int adv * int (Resolution c)" by simp
  with a(1) have "beginningOfActiveWindow w \<le> newFirst" by linarith
  with assms(5) have "n < newFirst + int (WindowSize c)" by (simp add: in_window_def)
  moreover have "newFirst - int (numItemsInsideInactiveWindow w' * Resolution c) \<le> n"
    using a(1,3) assms(5,6) by (auto simp: in_window_def min_def algebra_simps)
  ultimately show ?thesis using a(2) assms(5) by (simp add: in_window_def)
qed

text \<open>
  C6. Moving the active window to an aligned number at or above its beginning always succeeds and
  keeps the ring-buffer invariant. When the move is at most one window, every number that is still
  in the active window or in the bounded history keeps exactly its item, and every number that
  enters the window holds a reset item; a longer move resets every item.
\<close>

theorem advance_refines:
  assumes "cfg_fits c" "window_inv c w" "newFirst mod int (Resolution c) = 0"
    and "beginningOfActiveWindow w \<le> newFirst"
  shows "\<exists>w'. advanceActiveWindow c reset newFirst w = Inr w' \<and> window_inv c w' \<and>
    beginningOfActiveWindow w' = newFirst \<and>
    (\<forall>n. in_window c w' n \<longrightarrow>
       (if newFirst - beginningOfActiveWindow w \<le> int (WindowSize c) \<and>
           n < beginningOfActiveWindow w + int (WindowSize c)
        then window_item c w' n = window_item c w n
        else \<exists>y. window_item c w' n = Some (reset y))) \<and>
    (newFirst - beginningOfActiveWindow w \<le> int (WindowSize c) \<longrightarrow>
       (\<forall>n. in_window c w n \<and>
            newFirst - int (maxNumItemsInsideInactiveWindow c * Resolution c) \<le> n \<longrightarrow> in_window c w' n))"
proof -
  obtain w' where w': "advanceActiveWindow c reset newFirst w = Inr w'"
    using advance_defined [OF assms] by blast
  have bg: "beginningOfActiveWindow w' = newFirst"
    using w' by (auto simp: advanceActiveWindow_def window_resetAll_def Let_def split: if_splits)
  have "if newFirst - beginningOfActiveWindow w \<le> int (WindowSize c) \<and>
           n < beginningOfActiveWindow w + int (WindowSize c)
        then window_item c w' n = window_item c w n
        else \<exists>y. window_item c w' n = Some (reset y)" if n: "in_window c w' n" for n
    using assms(1,2) w'
  proof (rule advance_cases)
    assume "w' = w"
    with bg n show ?thesis by (auto simp: in_window_def)
  next
    assume "newFirst - beginningOfActiveWindow w > int (WindowSize c)"
      "window_resetAll c reset newFirst w = Inr w'"
    with resetAll_item [OF assms(1,2) _ n] show ?thesis by auto
  next
    assume "newFirst \<noteq> beginningOfActiveWindow w" "newFirst - beginningOfActiveWindow w \<le> int (WindowSize c)"
    with scroll_item [OF assms(1,2) w' _ _ n] show ?thesis by auto
  qed
  with w' bg advance_inv [OF assms(1,2) w'] scroll_keeps [OF assms(1,2) w'] show ?thesis by blast
qed

theorem advance_refines_witness:
  "let c = main_log_cfg;
       w = \<lparr>beginningOfActiveWindow = 301, firstItemOfActiveWindow = 300,
            numItemsInsideInactiveWindow = 300, workingWindow = replicate 600 (7::int)\<rparr>
   in cfg_fits c \<and> window_inv c w \<and>
      (\<exists>w'. advanceActiveWindow c (\<lambda>_. 0) 451 w = Inr w' \<and> window_inv c w' \<and>
        beginningOfActiveWindow w' = 451 \<and> window_item c w' 200 = Some 7 \<and> window_item c w' 700 = Some 0)"
proof -
  let ?c = main_log_cfg
  let ?w = "\<lparr>beginningOfActiveWindow = 301, firstItemOfActiveWindow = 300,
            numItemsInsideInactiveWindow = 300, workingWindow = replicate 600 (7::int)\<rparr>"
  have i: "window_inv ?c ?w"
    by (simp add: window_inv_def)
  have "\<exists>w'. advanceActiveWindow ?c (\<lambda>_. 0) 451 ?w = Inr w' \<and> window_inv ?c w' \<and>
    beginningOfActiveWindow w' = 451 \<and>
    (\<forall>n. in_window ?c w' n \<longrightarrow>
       (if 451 - beginningOfActiveWindow ?w \<le> int (WindowSize ?c) \<and>
           n < beginningOfActiveWindow ?w + int (WindowSize ?c)
        then window_item ?c w' n = window_item ?c ?w n
        else \<exists>y::int. window_item ?c w' n = Some ((\<lambda>_. 0) y))) \<and>
    (451 - beginningOfActiveWindow ?w \<le> int (WindowSize ?c) \<longrightarrow>
       (\<forall>n. in_window ?c ?w n \<and>
            451 - int (maxNumItemsInsideInactiveWindow ?c * Resolution ?c) \<le> n \<longrightarrow> in_window ?c w' n))"
    by (rule advance_refines [OF main_log_cfg_fits i]) simp_all
  then obtain w' where w': "advanceActiveWindow ?c (\<lambda>_. 0) 451 ?w = Inr w'" "window_inv ?c w'"
      "beginningOfActiveWindow w' = 451"
    and items: "\<forall>n. in_window ?c w' n \<longrightarrow>
       (if 451 - beginningOfActiveWindow ?w \<le> int (WindowSize ?c) \<and>
           n < beginningOfActiveWindow ?w + int (WindowSize ?c)
        then window_item ?c w' n = window_item ?c ?w n
        else \<exists>y::int. window_item ?c w' n = Some ((\<lambda>_. 0) y))"
    and kept: "\<forall>n. in_window ?c ?w n \<and> 451 - (300::int) \<le> n \<longrightarrow> in_window ?c w' n"
    by auto
  have "in_window ?c w' 200" using kept by (simp add: in_window_def)
  moreover have "window_item ?c ?w 200 = Some 7"
    by (simp add: window_item_def in_window_def item_slot_def)
  moreover have "in_window ?c w' 700" using w'(3) by (simp add: in_window_def)
  ultimately show ?thesis
    using main_log_cfg_fits i w' spec [OF items, of 200] spec [OF items, of 700] by (auto simp: Let_def)
qed

text \<open>
  C16. For any program of writes through the references returned by the window and of window moves,
  the item found for a number is the result of the writes addressed to that very number, in program
  order, since the beginning or since the item was last reset: no write reaches another number's item
  although all share one ring buffer.
\<close>

theorem window_no_crosstalk:
  assumes "cfg_fits c" "window_inv c w"
    and "run_log (window_update c) (advanceActiveWindow c reset) ops w = Inr w'"
    and "window_item c w' n = Some x"
  shows "\<exists>k y. x = fold (\<lambda>f. f) (drop k (puts_at n ops)) y \<and>
    (window_item c w n = Some y \<and> k = 0 \<or> y \<in> range reset)"
  using assms by (intro wlog.no_crosstalk) auto

theorem window_no_crosstalk_witness:
  "\<exists>w w' :: int window.
     window_new checkpoints_log_cfg id (\<lambda>_. 0) 5 0 = Inr w \<and>
     run_log (window_update checkpoints_log_cfg) (advanceActiveWindow checkpoints_log_cfg (\<lambda>_. 0))
       [Put 150 (\<lambda>x. x + 1), Put 300 (\<lambda>x. x + 10), Advance 150, Put 150 (\<lambda>x. x * 3)] w = Inr w' \<and>
     window_item checkpoints_log_cfg w' 150 = Some 3 \<and>
     (\<exists>k y. 3 = fold (\<lambda>f. f) (drop k [\<lambda>x. x + 1, \<lambda>x. x * 3]) y \<and>
       (window_item checkpoints_log_cfg w 150 = Some y \<and> k = 0 \<or> y \<in> range (\<lambda>_::int. 0)))"
proof -
  let ?c = checkpoints_log_cfg
  let ?w = "\<lparr>beginningOfActiveWindow = 0, firstItemOfActiveWindow = 0,
            numItemsInsideInactiveWindow = 0, workingWindow = [0,0,0,0::int]\<rparr>"
  let ?w' = "\<lparr>beginningOfActiveWindow = 150, firstItemOfActiveWindow = 1,
            numItemsInsideInactiveWindow = 0, workingWindow = [0,3,10,0::int]\<rparr>"
  let ?ops = "[Put 150 (\<lambda>x. x + 1), Put 300 (\<lambda>x. x + 10), Advance 150, Put 150 (\<lambda>x. x * 3)] :: int log_op list"
  have "replicate 4 (0::int) = [0,0,0,0]" by (simp add: numeral_eq_Suc)
  then have new: "window_new ?c id (\<lambda>_. 0) 5 0 = Inr ?w"
    by (simp add: window_new_def)
  have run: "run_log (window_update ?c) (advanceActiveWindow ?c (\<lambda>_. 0)) ?ops ?w = Inr ?w'"
    by (simp add: window_update_def getFromActiveWindowOrHistory_slot_def get_slot_def insideActiveWindow_def
        advanceActiveWindow_def Let_def)
  have i3: "window_item ?c ?w' 150 = Some 3"
    by (simp add: window_item_def in_window_def item_slot_def)
  have "\<exists>k y. 3 = fold (\<lambda>f. f) (drop k (puts_at 150 ?ops)) y \<and>
       (window_item ?c ?w 150 = Some y \<and> k = 0 \<or> y \<in> range (\<lambda>_::int. 0))"
    by (rule window_no_crosstalk [OF checkpoints_log_cfg_fits
          window_new_inv [OF checkpoints_log_cfg_fits new] run i3])
  with new run i3 show ?thesis by auto
qed

end
