(* ===== verification/Msgs_Certificate.thy ===== *)
theory Msgs_Certificate
  imports Concord_Prelude
begin

text \<open>
  bftengine/src/bftengine/messages/MsgsCertificate.hpp: counting equivalent messages from distinct
  replicas; and its client bftengine/src/bftengine/CheckpointInfo.hpp with the message equivalence of
  bftengine/src/bftengine/messages/CheckpointMsg.cpp.
\<close>

section \<open>Certificates\<close>

text \<open>Template and constructor parameters.\<close>

record cert_cfg =
  SelfTrust :: bool
  SelfIsRequired :: bool
  KeepAllMsgs :: bool
  numOfReps :: nat
  maxFails :: nat
  required :: nat
  selfId :: ReplicaId

definition NULL_CLASS :: nat where
  "NULL_CLASS = 65535"

record MsgClassInfo =
  cls_size :: nat
  representativeReplica :: nat

text \<open>
  \<^verbatim>\<open>msgsFromReplicas\<close> is an unordered map that only grows between resets and is never iterated
  (except for freeing): an association list in insertion order. \<^verbatim>\<open>msgClasses\<close> is an array of
  \<^verbatim>\<open>numOfReps\<close> elements.
\<close>

record 'm cert =
  msgsFromReplicas :: "(ReplicaId \<times> 'm) list"
  msgClasses :: "MsgClassInfo list"
  numOfClasses :: nat
  complete :: bool
  full :: bool
  bestClass :: nat
  sizeOfBestClass :: nat
  hasTrustedSelfClass :: bool

definition zero_classInfo :: MsgClassInfo where
  "zero_classInfo = \<lparr>cls_size = 0, representativeReplica = 0\<rparr>"

definition cert_new :: "cert_cfg \<Rightarrow> 'm cert" where
  "cert_new c = \<lparr>msgsFromReplicas = [], msgClasses = replicate (numOfReps c) zero_classInfo,
     numOfClasses = 0, complete = False, full = False, bestClass = NULL_CLASS, sizeOfBestClass = 0,
     hasTrustedSelfClass = False\<rparr>"

definition isEmpty :: "'m cert \<Rightarrow> bool" where
  "isEmpty s \<longleftrightarrow> msgsFromReplicas s = []"

text \<open>\<^verbatim>\<open>memset(msgClasses, 0, k * sizeof(MsgClassInfo))\<close>\<close>

definition clear_classes :: "nat \<Rightarrow> MsgClassInfo list \<Rightarrow> MsgClassInfo list" where
  "clear_classes k cs = replicate k zero_classInfo @ drop k cs"

definition cert_resetAndFree :: "'m cert \<Rightarrow> 'm cert" where
  "cert_resetAndFree s0 =
     (let s = s0\<lparr>complete := False, full := False\<rparr>
      in if isEmpty s then s
         else s\<lparr>msgsFromReplicas := [],
                msgClasses := (if numOfClasses s > 0 then clear_classes (numOfClasses s) (msgClasses s)
                               else msgClasses s),
                numOfClasses := 0, bestClass := NULL_CLASS, sizeOfBestClass := 0,
                hasTrustedSelfClass := False\<rparr>)"

definition hasMsgFromReplica :: "'m cert \<Rightarrow> ReplicaId \<Rightarrow> bool" where
  "hasMsgFromReplica s r \<longleftrightarrow> r \<in> set (map fst (msgsFromReplicas s))"

definition tryToMarkComplete :: "cert_cfg \<Rightarrow> 'm cert \<Rightarrow> 'm cert" where
  "tryToMarkComplete c s =
     (if \<not> SelfIsRequired c \<or> hasMsgFromReplica s (selfId c) then s\<lparr>complete := True\<rparr> else s)"

definition tryToMarkFull :: "cert_cfg \<Rightarrow> 'm cert \<Rightarrow> 'm cert" where
  "tryToMarkFull c s =
     (if \<not> SelfIsRequired c \<or> hasMsgFromReplica s (selfId c) then s\<lparr>full := True\<rparr> else s)"

text \<open>
  The search loop of \<^verbatim>\<open>addPeerMsg\<close> and \<^verbatim>\<open>addSelfMsg\<close> over the classes in use. A
  representative without a message would be a dereference of \<^verbatim>\<open>end()\<close>.
\<close>

fun find_class :: "('m \<Rightarrow> 'm \<Rightarrow> bool) \<Rightarrow> (ReplicaId \<times> 'm) list \<Rightarrow> MsgClassInfo list \<Rightarrow> nat \<Rightarrow> 'm \<Rightarrow>
    nat option result" where
  "find_class eqv msgs [] i m = Inr None"
| "find_class eqv msgs (cls # rest) i m =
     (case map_of msgs (representativeReplica cls) of
        None \<Rightarrow> Inl UndefinedBehaviour
      | Some representativeMsg \<Rightarrow>
          if eqv representativeMsg m then Inr (Some i) else find_class eqv msgs rest (Suc i) m)"

definition inc_class :: "nat \<Rightarrow> MsgClassInfo list \<Rightarrow> MsgClassInfo list" where
  "inc_class i cs = cs[i := (cs ! i)\<lparr>cls_size := u16 (cls_size (cs ! i) + 1)\<rparr>]"

text \<open>The part of \<^verbatim>\<open>addPeerMsg\<close> after the class of the message has been determined.\<close>

definition addPeer_to_class :: "cert_cfg \<Rightarrow> ReplicaId \<Rightarrow> nat \<Rightarrow> 'm cert \<Rightarrow> 'm cert" where
  "addPeer_to_class c replicaId relevantClass s =
     (if relevantClass = NULL_CLASS
      then
        (if numOfClasses s \<ge> numOfReps c then s
         else
           let k = numOfClasses s;
               s1 = s\<lparr>numOfClasses := k + 1,
                      msgClasses := (msgClasses s)[k := \<lparr>cls_size = 1, representativeReplica = replicaId\<rparr>]\<rparr>
           in if bestClass s1 = NULL_CLASS then s1\<lparr>bestClass := k, sizeOfBestClass := 1\<rparr> else s1)
      else
        let cls = msgClasses s ! relevantClass;
            s1 = (if cls_size cls > sizeOfBestClass s
                  then s\<lparr>bestClass := relevantClass, sizeOfBestClass := cls_size cls\<rparr> else s);
            s2 = (if relevantClass = bestClass s1 \<and> sizeOfBestClass s1 \<ge> required c
                  then tryToMarkComplete c s1 else s1)
        in if relevantClass = bestClass s2 \<and> sizeOfBestClass s2 \<ge> numOfReps c
           then tryToMarkFull c s2 else s2)"

definition addPeerMsg :: "cert_cfg \<Rightarrow> ('m \<Rightarrow> 'm \<Rightarrow> bool) \<Rightarrow> 'm \<Rightarrow> ReplicaId \<Rightarrow> 'm cert \<Rightarrow> 'm cert result" where
  "addPeerMsg c eqv msg replicaId s =
     (if hasTrustedSelfClass s
      then (case map_of (msgsFromReplicas s) (representativeReplica (msgClasses s ! 0)) of
              None \<Rightarrow> Inl UndefinedBehaviour
            | Some representativeMsg \<Rightarrow>
                if \<not> eqv representativeMsg msg then Inr s
                else Inr (addPeer_to_class c replicaId 0 (s\<lparr>msgClasses := inc_class 0 (msgClasses s)\<rparr>)))
      else rbind (find_class eqv (msgsFromReplicas s) (take (numOfClasses s) (msgClasses s)) 0 msg)
             (\<lambda>r. case r of
                Some i \<Rightarrow> Inr (addPeer_to_class c replicaId i (s\<lparr>msgClasses := inc_class i (msgClasses s)\<rparr>))
              | None \<Rightarrow> Inr (addPeer_to_class c replicaId NULL_CLASS s)))"

definition addSelfMsg :: "cert_cfg \<Rightarrow> ('m \<Rightarrow> 'm \<Rightarrow> bool) \<Rightarrow> 'm \<Rightarrow> 'm cert \<Rightarrow> 'm cert result" where
  "addSelfMsg c eqv msg s =
     rbind (find_class eqv (msgsFromReplicas s) (take (numOfClasses s) (msgClasses s)) 0 msg)
       (\<lambda>r.
          let s1 = (case r of Some i \<Rightarrow> s\<lparr>msgClasses := inc_class i (msgClasses s)\<rparr> | None \<Rightarrow> s);
              sz = (case r of None \<Rightarrow> 1 | Some i \<Rightarrow> u16 (cls_size (msgClasses s1 ! i) + 1));
              classInfo = \<lparr>cls_size = sz, representativeReplica = selfId c\<rparr>;
              s2 = s1\<lparr>msgClasses := (clear_classes (numOfClasses s1) (msgClasses s1))[0 := classInfo],
                      numOfClasses := 1, bestClass := 0, sizeOfBestClass := sz,
                      hasTrustedSelfClass := True\<rparr>;
              s3 = (if sz \<ge> required c then tryToMarkComplete c s2 else s2)
          in Inr (if sz \<ge> numOfReps c then tryToMarkFull c s3 else s3))"

definition addMsg :: "cert_cfg \<Rightarrow> ('m \<Rightarrow> 'm \<Rightarrow> bool) \<Rightarrow> 'm \<Rightarrow> ReplicaId \<Rightarrow> 'm cert \<Rightarrow> (bool \<times> 'm cert) result" where
  "addMsg c eqv msg replicaId s =
     (if hasMsgFromReplica s replicaId then Inr (False, s)
      else
        let s1 = s\<lparr>msgsFromReplicas := msgsFromReplicas s @ [(replicaId, msg)]\<rparr>
        in rbind
             (if (KeepAllMsgs c \<and> \<not> full s1) \<or> \<not> complete s1
              then (if SelfTrust c
                    then (if replicaId = selfId c then addSelfMsg c eqv msg s1
                          else addPeerMsg c eqv msg replicaId s1)
                    else addPeerMsg c eqv msg replicaId s1)
              else Inr s1)
             (\<lambda>s2. Inr (True, s2)))"

definition isInconsistent :: "cert_cfg \<Rightarrow> 'm cert \<Rightarrow> bool" where
  "isInconsistent c s \<longleftrightarrow> numOfClasses s > maxFails c + 1"

definition selfMsg :: "cert_cfg \<Rightarrow> 'm cert \<Rightarrow> 'm option" where
  "selfMsg c s = map_of (msgsFromReplicas s) (selfId c)"

definition bestCorrectMsg :: "cert_cfg \<Rightarrow> 'm cert \<Rightarrow> 'm option result" where
  "bestCorrectMsg c s =
     (if hasTrustedSelfClass s \<or> sizeOfBestClass s \<ge> maxFails c + 1
      then (case map_of (msgsFromReplicas s) (representativeReplica (msgClasses s ! bestClass s)) of
              None \<Rightarrow> Inl UndefinedBehaviour
            | Some m \<Rightarrow> Inr (Some m))
      else Inr None)"

text \<open>Adding a sequence of messages, each with its sender.\<close>

fun addMsgs :: "cert_cfg \<Rightarrow> ('m \<Rightarrow> 'm \<Rightarrow> bool) \<Rightarrow> ('m \<times> ReplicaId) list \<Rightarrow> 'm cert \<Rightarrow> 'm cert result" where
  "addMsgs c eqv [] s = Inr s"
| "addMsgs c eqv ((m, r) # ms) s = rbind (addMsg c eqv m r s) (\<lambda>(_, s'). addMsgs c eqv ms s')"

section \<open>Checkpoints\<close>

text \<open>bftengine/src/bftengine/messages/CheckpointMsg.hpp, with digests of any type.\<close>

record 'd CheckpointMsg =
  cp_seqNum :: SeqNum
  cp_epochNum :: nat
  cp_state :: nat
  cp_stateDigest :: 'd
  cp_reservedPagesDigest :: 'd
  cp_rvbDataDigest :: 'd
  cp_genReplicaId :: ReplicaId
  cp_flags :: nat

definition checkpoint_equivalent :: "'d CheckpointMsg \<Rightarrow> 'd CheckpointMsg \<Rightarrow> bool" where
  "checkpoint_equivalent a b \<longleftrightarrow>
     cp_seqNum a = cp_seqNum b \<and> cp_stateDigest a = cp_stateDigest b \<and>
     cp_reservedPagesDigest a = cp_reservedPagesDigest b \<and>
     cp_rvbDataDigest a = cp_rvbDataDigest b \<and> cp_state a = cp_state b"

text \<open>\<^verbatim>\<open>executed\<close> is \<open>None\<close> for \<^verbatim>\<open>MinTime\<close>.\<close>

record 'd CheckpointInfo =
  checkpointCertificate :: "'d CheckpointMsg cert"
  sentToAllOrApproved :: bool
  executed :: "nat option"

definition checkpoint_cert_cfg :: "bool \<Rightarrow> nat \<Rightarrow> nat \<Rightarrow> ReplicaId \<Rightarrow> cert_cfg" where
  "checkpoint_cert_cfg Self F C myId =
     \<lparr>SelfTrust = Self, SelfIsRequired = Self, KeepAllMsgs = True, numOfReps = 3 * F + 2 * C + 1,
      maxFails = F, required = 2 * F + C + 1, selfId = myId\<rparr>"

definition CheckpointInfo_new :: "bool \<Rightarrow> nat \<Rightarrow> nat \<Rightarrow> ReplicaId \<Rightarrow> 'd CheckpointInfo" where
  "CheckpointInfo_new Self F C myId =
     \<lparr>checkpointCertificate = cert_new (checkpoint_cert_cfg Self F C myId),
      sentToAllOrApproved = False, executed = None\<rparr>"

definition CheckpointInfo_resetAndFree :: "'d CheckpointInfo \<Rightarrow> 'd CheckpointInfo" where
  "CheckpointInfo_resetAndFree i =
     i\<lparr>checkpointCertificate := cert_resetAndFree (checkpointCertificate i),
       sentToAllOrApproved := False, executed := None\<rparr>"

definition addCheckpointMsg :: "cert_cfg \<Rightarrow> 'd CheckpointMsg \<Rightarrow> ReplicaId \<Rightarrow> 'd CheckpointInfo \<Rightarrow>
    (bool \<times> 'd CheckpointInfo) result" where
  "addCheckpointMsg c msg replicaId i =
     rbind (addMsg c checkpoint_equivalent msg replicaId (checkpointCertificate i))
       (\<lambda>(b, s). Inr (b, i\<lparr>checkpointCertificate := s\<rparr>))"

definition isCheckpointCertificateComplete :: "'d CheckpointInfo \<Rightarrow> bool" where
  "isCheckpointCertificateComplete i = complete (checkpointCertificate i)"

definition isCheckpointSuperStable :: "'d CheckpointInfo \<Rightarrow> bool" where
  "isCheckpointSuperStable i = full (checkpointCertificate i)"

definition selfCheckpointMsg :: "cert_cfg \<Rightarrow> 'd CheckpointInfo \<Rightarrow> 'd CheckpointMsg option" where
  "selfCheckpointMsg c i = selfMsg c (checkpointCertificate i)"

definition tryToMarkCheckpointCertificateCompleted :: "cert_cfg \<Rightarrow> 'd CheckpointInfo \<Rightarrow> 'd CheckpointInfo" where
  "tryToMarkCheckpointCertificateCompleted c i =
     i\<lparr>checkpointCertificate := tryToMarkComplete c (checkpointCertificate i)\<rparr>"

definition setSelfExecutionTime :: "nat \<Rightarrow> 'd CheckpointInfo \<Rightarrow> 'd CheckpointInfo result" where
  "setSelfExecutionTime t i = c_assert (executed i = None) (Inr (i\<lparr>executed := Some t\<rparr>))"

definition setCheckpointSentAllOrApproved :: "'d CheckpointInfo \<Rightarrow> 'd CheckpointInfo" where
  "setCheckpointSentAllOrApproved i = i\<lparr>sentToAllOrApproved := True\<rparr>"

fun addCheckpointMsgs :: "cert_cfg \<Rightarrow> ('d CheckpointMsg \<times> ReplicaId) list \<Rightarrow> 'd CheckpointInfo \<Rightarrow>
    'd CheckpointInfo result" where
  "addCheckpointMsgs c [] i = Inr i"
| "addCheckpointMsgs c ((m, r) # ms) i = rbind (addCheckpointMsg c m r i) (\<lambda>(_, i'). addCheckpointMsgs c ms i')"

text \<open>A checkpoint with numbers for digests.\<close>

definition cp_example :: "nat \<Rightarrow> nat CheckpointMsg" where
  "cp_example d = \<lparr>cp_seqNum = 150, cp_epochNum = 0, cp_state = 1, cp_stateDigest = d,
     cp_reservedPagesDigest = 7, cp_rvbDataDigest = 9, cp_genReplicaId = 0, cp_flags = 0\<rparr>"

section \<open>Invariant\<close>

definition eq_count :: "('m \<Rightarrow> 'm \<Rightarrow> bool) \<Rightarrow> 'm \<Rightarrow> (ReplicaId \<times> 'm) list \<Rightarrow> nat" where
  "eq_count eqv m msgs = length (filter (\<lambda>p. eqv m (snd p)) msgs)"

definition class_msg :: "'m cert \<Rightarrow> nat \<Rightarrow> 'm" where
  "class_msg s i = the (map_of (msgsFromReplicas s) (representativeReplica (msgClasses s ! i)))"

text \<open>
  \<open>cm\<close> are the messages counted so far. A trusted self class may count one message more than
  there are (the own message may be counted twice).
\<close>

definition cert_core :: "('m \<Rightarrow> 'm \<Rightarrow> bool) \<Rightarrow> cert_cfg \<Rightarrow> (ReplicaId \<times> 'm) list \<Rightarrow> 'm cert \<Rightarrow> bool" where
  "cert_core eqv c cm s \<longleftrightarrow>
     distinct (map fst (msgsFromReplicas s)) \<and> (\<forall>r \<in> fst ` set (msgsFromReplicas s). r < numOfReps c) \<and>
     length (msgClasses s) = numOfReps c \<and> numOfClasses s \<le> numOfReps c \<and>
     (\<forall>i < numOfClasses s. map_of (msgsFromReplicas s) (representativeReplica (msgClasses s ! i)) \<noteq> None \<and>
        1 \<le> cls_size (msgClasses s ! i) \<and>
        cls_size (msgClasses s ! i) \<le> eq_count eqv (class_msg s i) cm + (if hasTrustedSelfClass s then 1 else 0)) \<and>
     (\<forall>i < numOfClasses s. \<forall>j < numOfClasses s. i \<noteq> j \<longrightarrow> \<not> eqv (class_msg s i) (class_msg s j)) \<and>
     (if numOfClasses s = 0 then bestClass s = NULL_CLASS \<and> sizeOfBestClass s = 0
      else bestClass s < numOfClasses s \<and> sizeOfBestClass s = cls_size (msgClasses s ! bestClass s)) \<and>
     (hasTrustedSelfClass s \<longrightarrow> SelfTrust c \<and> numOfClasses s = 1 \<and> representativeReplica (msgClasses s ! 0) = selfId c) \<and>
     (complete s \<longrightarrow> sizeOfBestClass s \<ge> required c \<and> (SelfTrust c \<longrightarrow> hasTrustedSelfClass s)) \<and>
     (full s \<longrightarrow> sizeOfBestClass s \<ge> numOfReps c \<and> (SelfTrust c \<longrightarrow> hasTrustedSelfClass s))"

definition cert_exact :: "('m \<Rightarrow> 'm \<Rightarrow> bool) \<Rightarrow> (ReplicaId \<times> 'm) list \<Rightarrow> 'm cert \<Rightarrow> bool" where
  "cert_exact eqv cm s \<longleftrightarrow>
     (\<forall>p \<in> set cm. \<exists>i < numOfClasses s. eqv (class_msg s i) (snd p)) \<and>
     (\<forall>i < numOfClasses s. cls_size (msgClasses s ! i) = eq_count eqv (class_msg s i) cm \<and>
        cls_size (msgClasses s ! i) \<le> sizeOfBestClass s)"

text \<open>
  The counts are not below what was added: before a trusted self message every class counts exactly
  its messages; afterwards the one class counts at least the messages equivalent to the own one. A
  count that reaches a threshold is marked.
\<close>

definition cert_tight :: "('m \<Rightarrow> 'm \<Rightarrow> bool) \<Rightarrow> cert_cfg \<Rightarrow> (ReplicaId \<times> 'm) list \<Rightarrow> 'm cert \<Rightarrow> bool" where
  "cert_tight eqv c cm s \<longleftrightarrow>
     (\<not> hasTrustedSelfClass s \<longrightarrow> cert_exact eqv cm s) \<and>
     (hasTrustedSelfClass s \<longrightarrow> eq_count eqv (class_msg s 0) cm \<le> cls_size (msgClasses s ! 0)) \<and>
     ((SelfTrust c \<longrightarrow> hasTrustedSelfClass s) \<longrightarrow> required c \<le> sizeOfBestClass s \<longrightarrow> complete s) \<and>
     (SelfTrust c \<longrightarrow> hasMsgFromReplica s (selfId c) \<longrightarrow> hasTrustedSelfClass s)"

text \<open>While messages are counted, \<open>cm\<close> are all the messages of the map.\<close>

definition counting :: "cert_cfg \<Rightarrow> 'm cert \<Rightarrow> bool" where
  "counting c s \<longleftrightarrow> (KeepAllMsgs c \<and> \<not> full s) \<or> \<not> complete s"

definition cert_inv :: "('m \<Rightarrow> 'm \<Rightarrow> bool) \<Rightarrow> cert_cfg \<Rightarrow> (ReplicaId \<times> 'm) list \<Rightarrow> 'm cert \<Rightarrow> bool" where
  "cert_inv eqv c cm s \<longleftrightarrow> cert_core eqv c cm s \<and> cert_tight eqv c cm s \<and>
     set cm \<subseteq> set (msgsFromReplicas s) \<and> distinct (map fst cm) \<and>
     (counting c s \<longrightarrow> cm = msgsFromReplicas s)"

text \<open>What the configurations of the source satisfy.\<close>

definition cert_cfg_ok :: "cert_cfg \<Rightarrow> bool" where
  "cert_cfg_ok c \<longleftrightarrow> numOfReps c < 65534 \<and> 2 \<le> required c \<and> SelfIsRequired c = SelfTrust c \<and> 0 < numOfReps c"

lemma eq_count_append [simp]:
  "eq_count eqv m (xs @ ys) = eq_count eqv m xs + eq_count eqv m ys"
  "eq_count eqv m [p] = (if eqv m (snd p) then 1 else 0)"
  "eq_count eqv m [] = 0"
  by (simp_all add: eq_count_def)

lemma eq_count_le: "eq_count eqv m xs \<le> length xs"
  by (simp add: eq_count_def)

lemma keys_bound:
  assumes "distinct (map fst xs)" "\<forall>r \<in> fst ` set xs. r < n"
  shows "length xs \<le> n"
proof -
  have "length xs = card (fst ` set xs)"
    using distinct_card [OF assms(1)] by simp
  also have "\<dots> \<le> card {..<n}" using assms(2) by (intro card_mono) auto
  finally show ?thesis by simp
qed

lemma addMsgs_append: "addMsgs c eqv (xs @ ys) s = rbind (addMsgs c eqv xs s) (addMsgs c eqv ys)"
  by (induction c eqv xs s rule: addMsgs.induct) (auto simp: rbind_def split: sum.splits)

lemma cert_new_core: "cert_core eqv c [] (cert_new c)"
  by (simp add: cert_core_def cert_new_def)

lemma cert_new_exact: "cert_exact eqv [] (cert_new c)"
  by (simp add: cert_exact_def cert_new_def)

lemma find_class_cases:
  assumes "\<forall>j < length cs. map_of msgs (representativeReplica (cs ! j)) \<noteq> None"
  obtains (none) "find_class eqv msgs cs i m = Inr None"
      "\<forall>j < length cs. \<not> eqv (the (map_of msgs (representativeReplica (cs ! j)))) m"
  | (found) j where "find_class eqv msgs cs i m = Inr (Some (i + j))" "j < length cs"
      "eqv (the (map_of msgs (representativeReplica (cs ! j)))) m"
  using assms
proof (induction cs arbitrary: i thesis)
  case Nil
  then show ?case by simp
next
  case (Cons cl cs)
  from Cons.prems(3) obtain r where r: "map_of msgs (representativeReplica cl) = Some r" by auto
  from Cons.prems(3) have tl: "\<forall>j < length cs. map_of msgs (representativeReplica (cs ! j)) \<noteq> None" by auto
  show ?case
  proof (cases "eqv r m")
    case True
    with r show ?thesis by (intro Cons.prems(2) [of 0]) auto
  next
    case False
    show ?thesis
    proof (rule Cons.IH [where i = "Suc i"])
      assume "find_class eqv msgs cs (Suc i) m = Inr None"
        "\<forall>j<length cs. \<not> eqv (the (map_of msgs (representativeReplica (cs ! j)))) m"
      with r False show ?thesis by (intro Cons.prems(1)) (auto simp: less_Suc_eq_0_disj)
    next
      fix j
      assume "find_class eqv msgs cs (Suc i) m = Inr (Some (Suc i + j))" "j < length cs"
        "eqv (the (map_of msgs (representativeReplica (cs ! j)))) m"
      with r False show ?thesis by (intro Cons.prems(2) [of "Suc j"]) auto
    qed (use tl in auto)
  qed
qed

lemma core_rep:
  assumes "cert_core eqv c cm s" "i < numOfClasses s"
  shows "map_of (msgsFromReplicas s) (representativeReplica (msgClasses s ! i)) \<noteq> None"
  using assms unfolding cert_core_def by blast

lemma core_keys:
  assumes "cert_core eqv c cm s"
  shows "distinct (map fst (msgsFromReplicas s))" "r \<in> fst ` set (msgsFromReplicas s) \<Longrightarrow> r < numOfReps c"
    "length (msgsFromReplicas s) \<le> numOfReps c"
  using assms keys_bound unfolding cert_core_def by blast+

lemma core_size:
  assumes "cert_core eqv c cm s" "i < numOfClasses s"
  shows "1 \<le> cls_size (msgClasses s ! i) \<and>
    cls_size (msgClasses s ! i) \<le> eq_count eqv (class_msg s i) cm + (if hasTrustedSelfClass s then 1 else 0)"
  using assms unfolding cert_core_def by blast

lemma core_distinct:
  assumes "cert_core eqv c cm s" "i < numOfClasses s" "j < numOfClasses s" "i \<noteq> j"
  shows "\<not> eqv (class_msg s i) (class_msg s j)"
  using assms unfolding cert_core_def by blast

lemma core_flags:
  assumes "cert_core eqv c cm s"
  shows "length (msgClasses s) = numOfReps c" "numOfClasses s \<le> numOfReps c"
    "hasTrustedSelfClass s \<Longrightarrow>
       SelfTrust c \<and> numOfClasses s = 1 \<and> representativeReplica (msgClasses s ! 0) = selfId c"
    "complete s \<Longrightarrow> required c \<le> sizeOfBestClass s \<and> (SelfTrust c \<longrightarrow> hasTrustedSelfClass s)"
    "full s \<Longrightarrow> numOfReps c \<le> sizeOfBestClass s \<and> (SelfTrust c \<longrightarrow> hasTrustedSelfClass s)"
  using assms unfolding cert_core_def by blast+

lemma core_best:
  assumes "cert_core eqv c cm s"
  shows "if numOfClasses s = 0 then bestClass s = NULL_CLASS \<and> sizeOfBestClass s = 0
    else bestClass s < numOfClasses s \<and> sizeOfBestClass s = cls_size (msgClasses s ! bestClass s)"
  using assms unfolding cert_core_def by blast

text \<open>Appending a message of a new replica to the map changes no counted class.\<close>

lemma class_msg_append:
  assumes "map_of (msgsFromReplicas s) (representativeReplica (msgClasses s ! i)) \<noteq> None"
  shows "map_of (msgsFromReplicas s @ ps) (representativeReplica (msgClasses s ! i))
      = map_of (msgsFromReplicas s) (representativeReplica (msgClasses s ! i))"
    and "class_msg (s\<lparr>msgsFromReplicas := msgsFromReplicas s @ ps\<rparr>) i = class_msg s i"
  using assms by (auto simp: class_msg_def map_of_append map_add_def split: option.splits)

lemma append_core:
  assumes "cert_core eqv c cm s" "\<not> hasMsgFromReplica s r" "r < numOfReps c"
  shows "cert_core eqv c cm (s\<lparr>msgsFromReplicas := msgsFromReplicas s @ [(r, m)]\<rparr>)"
proof -
  note a = class_msg_append [OF core_rep [OF assms(1)], where ps = "[(r, m)]"]
  show ?thesis
    using assms unfolding cert_core_def hasMsgFromReplica_def
    by (simp add: a del: not_None_eq)
qed

lemma cert_new_inv:
  assumes "cert_cfg_ok c"
  shows "cert_inv eqv c [] (cert_new c)"
  using assms cert_new_core [of eqv c] cert_new_exact [of eqv c]
  by (auto simp: cert_inv_def cert_tight_def cert_new_def cert_cfg_ok_def hasMsgFromReplica_def)

lemma append_exact:
  assumes "cert_core eqv c cm s" "cert_exact eqv cm s"
  shows "cert_exact eqv cm (s\<lparr>msgsFromReplicas := msgsFromReplicas s @ [(r, m)]\<rparr>)"
  using assms(2) class_msg_append(2) [OF core_rep [OF assms(1)], of _ "[(r, m)]"]
  unfolding cert_exact_def by (simp, metis)

locale cert_messages =
  fixes eqv :: "'m \<Rightarrow> 'm \<Rightarrow> bool"
  assumes eqv_refl: "eqv a a"
    and eqv_sym: "eqv a b \<Longrightarrow> eqv b a"
    and eqv_trans: "eqv a b \<Longrightarrow> eqv b d \<Longrightarrow> eqv a d"
begin

lemma new_class_room:
  assumes "cert_core eqv c cm s" "cert_cfg_ok c"
    and "map_of (msgsFromReplicas s) r = Some m"
    and "\<forall>j < numOfClasses s. \<not> eqv (class_msg s j) m"
  shows "numOfClasses s < numOfReps c"
proof -
  let ?rep = "\<lambda>i. representativeReplica (msgClasses s ! i)"
  have "inj_on ?rep {..<numOfClasses s}"
  proof (rule inj_onI)
    fix i j assume "i \<in> {..<numOfClasses s}" "j \<in> {..<numOfClasses s}" "?rep i = ?rep j"
    then have "class_msg s i = class_msg s j" by (simp add: class_msg_def)
    with \<open>i \<in> _\<close> \<open>j \<in> _\<close> show "i = j"
      using assms(1) eqv_refl [of "class_msg s j"] unfolding cert_core_def by (metis lessThan_iff)
  qed
  then have c1: "card (?rep ` {..<numOfClasses s}) = numOfClasses s" by (simp add: card_image)
  have c2: "r \<notin> ?rep ` {..<numOfClasses s}"
    using assms(3,4) eqv_refl by (fastforce simp: class_msg_def)
  have c3: "insert r (?rep ` {..<numOfClasses s}) \<subseteq> {..<numOfReps c}"
  proof -
    have "?rep i < numOfReps c" if "i < numOfClasses s" for i
    proof -
      have "map_of (msgsFromReplicas s) (?rep i) \<noteq> None" by (rule core_rep [OF assms(1) that])
      then have "?rep i \<in> fst ` set (msgsFromReplicas s)" by (simp add: map_of_eq_None_iff)
      then show ?thesis by (rule core_keys(2) [OF assms(1)])
    qed
    moreover have "r < numOfReps c"
      using core_keys(2) [OF assms(1)] map_of_SomeD [OF assms(3)] by force
    ultimately show ?thesis by auto
  qed
  have "card (insert r (?rep ` {..<numOfClasses s})) \<le> card {..<numOfReps c}"
    by (rule card_mono [OF finite_lessThan c3])
  with c1 c2 show ?thesis by (simp add: card_insert_disjoint)
qed

end

lemma tryToMark_sel [simp]:
  "msgsFromReplicas (tryToMarkComplete c s) = msgsFromReplicas s"
  "msgClasses (tryToMarkComplete c s) = msgClasses s"
  "numOfClasses (tryToMarkComplete c s) = numOfClasses s"
  "hasTrustedSelfClass (tryToMarkComplete c s) = hasTrustedSelfClass s"
  "bestClass (tryToMarkComplete c s) = bestClass s"
  "sizeOfBestClass (tryToMarkComplete c s) = sizeOfBestClass s"
  "full (tryToMarkComplete c s) = full s"
  "complete (tryToMarkComplete c s) \<longleftrightarrow> complete s \<or> \<not> SelfIsRequired c \<or> hasMsgFromReplica s (selfId c)"
  "msgsFromReplicas (tryToMarkFull c s) = msgsFromReplicas s"
  "msgClasses (tryToMarkFull c s) = msgClasses s"
  "numOfClasses (tryToMarkFull c s) = numOfClasses s"
  "hasTrustedSelfClass (tryToMarkFull c s) = hasTrustedSelfClass s"
  "bestClass (tryToMarkFull c s) = bestClass s"
  "sizeOfBestClass (tryToMarkFull c s) = sizeOfBestClass s"
  "complete (tryToMarkFull c s) = complete s"
  "full (tryToMarkFull c s) \<longleftrightarrow> full s \<or> \<not> SelfIsRequired c \<or> hasMsgFromReplica s (selfId c)"
  by (simp_all add: tryToMarkComplete_def tryToMarkFull_def)

lemma hasMsg_upd [simp]:
  "hasMsgFromReplica (tryToMarkComplete c s) r = hasMsgFromReplica s r"
  "hasMsgFromReplica (s\<lparr>bestClass := b, sizeOfBestClass := z\<rparr>) r = hasMsgFromReplica s r"
  "hasMsgFromReplica (s\<lparr>msgClasses := cs\<rparr>) r = hasMsgFromReplica s r"
  by (simp_all add: hasMsgFromReplica_def)

lemma addPeer_found_sel:
  assumes "i \<noteq> NULL_CLASS"
  shows "msgsFromReplicas (addPeer_to_class c r i s) = msgsFromReplicas s"
    "msgClasses (addPeer_to_class c r i s) = msgClasses s"
    "numOfClasses (addPeer_to_class c r i s) = numOfClasses s"
    "hasTrustedSelfClass (addPeer_to_class c r i s) = hasTrustedSelfClass s"
    "bestClass (addPeer_to_class c r i s) =
       (if cls_size (msgClasses s ! i) > sizeOfBestClass s then i else bestClass s)"
    "sizeOfBestClass (addPeer_to_class c r i s) = max (cls_size (msgClasses s ! i)) (sizeOfBestClass s)"
  using assms by (simp_all add: addPeer_to_class_def Let_def max_def)

lemma addPeer_found_marks:
  assumes "i \<noteq> NULL_CLASS"
  shows "complete (addPeer_to_class c r i s) \<longleftrightarrow> complete s \<or>
      (i = (if cls_size (msgClasses s ! i) > sizeOfBestClass s then i else bestClass s) \<and>
       required c \<le> max (cls_size (msgClasses s ! i)) (sizeOfBestClass s) \<and>
       (\<not> SelfIsRequired c \<or> hasMsgFromReplica s (selfId c)))"
    "full (addPeer_to_class c r i s) \<longleftrightarrow> full s \<or>
      (i = (if cls_size (msgClasses s ! i) > sizeOfBestClass s then i else bestClass s) \<and>
       numOfReps c \<le> max (cls_size (msgClasses s ! i)) (sizeOfBestClass s) \<and>
       (\<not> SelfIsRequired c \<or> hasMsgFromReplica s (selfId c)))"
proof -
  show "complete (addPeer_to_class c r i s) \<longleftrightarrow> complete s \<or>
      (i = (if cls_size (msgClasses s ! i) > sizeOfBestClass s then i else bestClass s) \<and>
       required c \<le> max (cls_size (msgClasses s ! i)) (sizeOfBestClass s) \<and>
       (\<not> SelfIsRequired c \<or> hasMsgFromReplica s (selfId c)))"
    using assms
    by (cases "cls_size (msgClasses s ! i) > sizeOfBestClass s")
      (auto simp: addPeer_to_class_def Let_def max_def)
  show "full (addPeer_to_class c r i s) \<longleftrightarrow> full s \<or>
      (i = (if cls_size (msgClasses s ! i) > sizeOfBestClass s then i else bestClass s) \<and>
       numOfReps c \<le> max (cls_size (msgClasses s ! i)) (sizeOfBestClass s) \<and>
       (\<not> SelfIsRequired c \<or> hasMsgFromReplica s (selfId c)))"
    using assms
    by (cases "cls_size (msgClasses s ! i) > sizeOfBestClass s")
      (auto simp: addPeer_to_class_def Let_def max_def)
qed
lemma addPeer_new_sel:
  assumes "numOfClasses s < numOfReps c"
  shows "msgsFromReplicas (addPeer_to_class c r NULL_CLASS s) = msgsFromReplicas s"
    "msgClasses (addPeer_to_class c r NULL_CLASS s) =
       (msgClasses s)[numOfClasses s := \<lparr>cls_size = 1, representativeReplica = r\<rparr>]"
    "numOfClasses (addPeer_to_class c r NULL_CLASS s) = Suc (numOfClasses s)"
    "hasTrustedSelfClass (addPeer_to_class c r NULL_CLASS s) = hasTrustedSelfClass s"
    "bestClass (addPeer_to_class c r NULL_CLASS s) =
       (if bestClass s = NULL_CLASS then numOfClasses s else bestClass s)"
    "sizeOfBestClass (addPeer_to_class c r NULL_CLASS s) =
       (if bestClass s = NULL_CLASS then 1 else sizeOfBestClass s)"
    "complete (addPeer_to_class c r NULL_CLASS s) = complete s"
    "full (addPeer_to_class c r NULL_CLASS s) = full s"
  using assms by (simp_all add: addPeer_to_class_def Let_def)

lemma inc_class_nth:
  assumes "j < length cs" "cls_size (cs ! i) + 1 < 65536"
  shows "cls_size (inc_class i cs ! j) = (if j = i then Suc (cls_size (cs ! i)) else cls_size (cs ! j))"
    and "representativeReplica (inc_class i cs ! j) = representativeReplica (cs ! j)"
  using assms by (cases "j = i"; simp add: inc_class_def)+

context cert_messages
begin

lemma peer_found_core:
  fixes r :: ReplicaId
  assumes core: "cert_core eqv c cm s" and cfg: "cert_cfg_ok c" and len: "length cm \<le> numOfReps c"
    and i: "i < numOfClasses s" "eqv (class_msg s i) m"
    and self: "SelfTrust c \<longrightarrow> hasMsgFromReplica s (selfId c) \<longrightarrow> hasTrustedSelfClass s"
  defines "s' \<equiv> addPeer_to_class c r i (s\<lparr>msgClasses := inc_class i (msgClasses s)\<rparr>)"
  shows "cert_core eqv c (cm @ [(r, m)]) s'"
proof -
  have n: "i < length (msgClasses s)" "i \<noteq> NULL_CLASS" "numOfClasses s \<le> length (msgClasses s)"
    using core cfg i(1) by (auto simp: cert_core_def cert_cfg_ok_def NULL_CLASS_def)
  have "cls_size (msgClasses s ! i) \<le> eq_count eqv (class_msg s i) cm + 1"
    using core_size [OF core i(1)] by (simp split: if_splits)
  also have "\<dots> \<le> numOfReps c + 1" using eq_count_le [of eqv _ cm] len by (meson add_le_mono1 le_trans)
  finally have sz: "cls_size (msgClasses s ! i) + 1 < 65536" using cfg by (simp add: cert_cfg_ok_def)
  note inc = inc_class_nth [OF _ sz]
  have msg: "class_msg s' j = class_msg s j" if "j < numOfClasses s" for j
    using that n by (simp add: class_msg_def s'_def addPeer_found_sel inc)
  show ?thesis
    unfolding cert_core_def
  proof (intro conjI allI impI)
    show "length (msgClasses s') = numOfReps c"
      using core by (simp add: s'_def addPeer_found_sel n inc_class_def cert_core_def)
  next
    fix j assume j: "j < numOfClasses s'"
    then have j': "j < numOfClasses s" by (simp add: s'_def addPeer_found_sel n)
    show "map_of (msgsFromReplicas s') (representativeReplica (msgClasses s' ! j)) \<noteq> None"
      using core_rep [OF core j'] n j' by (simp add: s'_def addPeer_found_sel inc)
    show "1 \<le> cls_size (msgClasses s' ! j)"
      using core_size [OF core j'] n j' by (simp add: s'_def addPeer_found_sel inc)
    show "cls_size (msgClasses s' ! j) \<le> eq_count eqv (class_msg s' j) (cm @ [(r, m)]) +
        (if hasTrustedSelfClass s' then 1 else 0)"
      using core_size [OF core j'] n j' i(2) msg [OF j'] by (auto simp: s'_def addPeer_found_sel inc)
  next
    fix j k assume "j < numOfClasses s'" "k < numOfClasses s'" "j \<noteq> k"
    then show "\<not> eqv (class_msg s' j) (class_msg s' k)"
      using core msg by (simp add: s'_def addPeer_found_sel n cert_core_def)
  next
    show "if numOfClasses s' = 0 then bestClass s' = NULL_CLASS \<and> sizeOfBestClass s' = 0
      else bestClass s' < numOfClasses s' \<and> sizeOfBestClass s' = cls_size (msgClasses s' ! bestClass s')"
      using core_best [OF core] n i(1) by (auto simp: s'_def addPeer_found_sel inc max_def)
  next
    have grow: "sizeOfBestClass s \<le> sizeOfBestClass s'" by (simp add: s'_def addPeer_found_sel n)
    {
      assume "complete s'"
      then have "complete s \<or> required c \<le> sizeOfBestClass s' \<and>
          (\<not> SelfIsRequired c \<or> hasMsgFromReplica s (selfId c))"
        by (auto simp: s'_def addPeer_found_sel addPeer_found_marks n split: if_splits)
      then have "sizeOfBestClass s' \<ge> required c \<and> (SelfTrust c \<longrightarrow> hasTrustedSelfClass s)"
        using core grow self cfg unfolding cert_core_def cert_cfg_ok_def by auto
      then show "sizeOfBestClass s' \<ge> required c"
        and "SelfTrust c \<Longrightarrow> hasTrustedSelfClass s'" by (auto simp: s'_def addPeer_found_sel n)
    }
    {
      assume "full s'"
      then have "full s \<or> numOfReps c \<le> sizeOfBestClass s' \<and>
          (\<not> SelfIsRequired c \<or> hasMsgFromReplica s (selfId c))"
        by (auto simp: s'_def addPeer_found_sel addPeer_found_marks n split: if_splits)
      then have "sizeOfBestClass s' \<ge> numOfReps c \<and> (SelfTrust c \<longrightarrow> hasTrustedSelfClass s)"
        using core grow self cfg unfolding cert_core_def cert_cfg_ok_def by auto
      then show "sizeOfBestClass s' \<ge> numOfReps c"
        and "SelfTrust c \<Longrightarrow> hasTrustedSelfClass s'" by (auto simp: s'_def addPeer_found_sel n)
    }
    show "distinct (map fst (msgsFromReplicas s'))" "\<forall>r \<in> fst ` set (msgsFromReplicas s'). r < numOfReps c"
      "numOfClasses s' \<le> numOfReps c"
      using core by (simp_all add: s'_def addPeer_found_sel n cert_core_def)
    assume "hasTrustedSelfClass s'"
    then have t: "hasTrustedSelfClass s" by (simp add: s'_def addPeer_found_sel n)
    then show "SelfTrust c" "numOfClasses s' = 1" "representativeReplica (msgClasses s' ! 0) = selfId c"
      using core n by (simp_all add: s'_def addPeer_found_sel inc cert_core_def)
  qed
qed

lemma peer_found_exact:
  fixes r :: ReplicaId
  assumes core: "cert_core eqv c cm s" and cfg: "cert_cfg_ok c" and len: "length cm \<le> numOfReps c"
    and i: "i < numOfClasses s" "eqv (class_msg s i) m" and exact: "cert_exact eqv cm s"
  defines "s' \<equiv> addPeer_to_class c r i (s\<lparr>msgClasses := inc_class i (msgClasses s)\<rparr>)"
  shows "cert_exact eqv (cm @ [(r, m)]) s'"
proof -
  have n: "i < length (msgClasses s)" "i \<noteq> NULL_CLASS" "numOfClasses s \<le> length (msgClasses s)"
    using core cfg i(1) by (auto simp: cert_core_def cert_cfg_ok_def NULL_CLASS_def)
  have "cls_size (msgClasses s ! i) \<le> length cm"
    using exact i(1) eq_count_le by (metis cert_exact_def)
  then have sz: "cls_size (msgClasses s ! i) + 1 < 65536" using len cfg by (simp add: cert_cfg_ok_def)
  note inc = inc_class_nth [OF _ sz]
  have msg: "class_msg s' j = class_msg s j" if "j < numOfClasses s" for j
    using that n by (simp add: class_msg_def s'_def addPeer_found_sel inc)
  have neq: "\<not> eqv (class_msg s j) m" if "j < numOfClasses s" "j \<noteq> i" for j
    using eqv_trans [OF _ eqv_sym [OF i(2)], of "class_msg s j"] core_distinct [OF core that(1) i(1) that(2)]
    by auto
  have num: "numOfClasses s' = numOfClasses s" by (simp add: s'_def addPeer_found_sel n)
  have "\<exists>j < numOfClasses s'. eqv (class_msg s' j) (snd p)" if "p \<in> set (cm @ [(r, m)])" for p
  proof (cases "p \<in> set cm")
    case True
    then obtain j where "j < numOfClasses s" "eqv (class_msg s j) (snd p)"
      using exact unfolding cert_exact_def by blast
    then show ?thesis using msg num by metis
  next
    case False
    with that i msg num show ?thesis by auto
  qed
  moreover have "cls_size (msgClasses s' ! j) = eq_count eqv (class_msg s' j) (cm @ [(r, m)]) \<and>
      cls_size (msgClasses s' ! j) \<le> sizeOfBestClass s'" if "j < numOfClasses s" for j
    using that n i exact neq msg [OF that]
    by (cases "j = i") (auto simp: s'_def addPeer_found_sel inc cert_exact_def max_def)
  ultimately show ?thesis unfolding cert_exact_def num by blast
qed

lemma peer_new_core:
  assumes core: "cert_core eqv c cm s" and cfg: "cert_cfg_ok c"
    and m: "map_of (msgsFromReplicas s) r = Some m"
    and new: "\<forall>j < numOfClasses s. \<not> eqv (class_msg s j) m" and tr: "\<not> hasTrustedSelfClass s"
  defines "s' \<equiv> addPeer_to_class c r NULL_CLASS s"
  shows "cert_core eqv c (cm @ [(r, m)]) s'"
proof -
  have k: "numOfClasses s < numOfReps c" by (rule new_class_room [OF core cfg m new])
  then have n: "numOfClasses s < length (msgClasses s)" "numOfClasses s \<noteq> NULL_CLASS"
    using core cfg by (auto simp: cert_core_def cert_cfg_ok_def NULL_CLASS_def)
  note sel = addPeer_new_sel [OF k]
  have best0: "bestClass s = NULL_CLASS \<longleftrightarrow> numOfClasses s = 0"
    using core_best [OF core] k cfg by (auto simp: cert_cfg_ok_def NULL_CLASS_def split: if_splits)
  have msg: "class_msg s' j = (if j = numOfClasses s then m else class_msg s j)"
    if "j \<le> numOfClasses s" for j
    using that n m by (simp add: class_msg_def s'_def sel)
  show ?thesis
    unfolding cert_core_def
  proof (intro conjI allI impI)
    fix j assume "j < numOfClasses s'"
    then have j: "j \<le> numOfClasses s" by (simp add: s'_def sel)
    show "map_of (msgsFromReplicas s') (representativeReplica (msgClasses s' ! j)) \<noteq> None"
      using core_rep [OF core] n j m by (auto simp: s'_def sel nth_list_update)
    show "1 \<le> cls_size (msgClasses s' ! j)"
      using core_size [OF core] n j by (auto simp: s'_def sel nth_list_update)
    show "cls_size (msgClasses s' ! j) \<le> eq_count eqv (class_msg s' j) (cm @ [(r, m)]) +
        (if hasTrustedSelfClass s' then 1 else 0)"
    proof (cases "j = numOfClasses s")
      case True
      then show ?thesis using msg [OF j] n eqv_refl by (simp add: s'_def sel)
    next
      case False
      then show ?thesis using core_size [OF core, of j] j msg [OF j] n tr by (simp add: s'_def sel)
    qed
  next
    fix i j assume ij: "i < numOfClasses s'" "j < numOfClasses s'" "i \<noteq> j"
    then have le: "i \<le> numOfClasses s" "j \<le> numOfClasses s" by (simp_all add: s'_def sel)
    consider "i = numOfClasses s" "j < numOfClasses s" | "j = numOfClasses s" "i < numOfClasses s"
      | "i < numOfClasses s" "j < numOfClasses s" using le ij(3) by linarith
    then show "\<not> eqv (class_msg s' i) (class_msg s' j)"
    proof cases
      case 1
      then show ?thesis using msg [OF le(1)] msg [OF le(2)] new eqv_sym by (metis less_irrefl)
    next
      case 2
      then show ?thesis using msg [OF le(1)] msg [OF le(2)] new by (metis less_irrefl)
    next
      case 3
      then show ?thesis using msg [OF le(1)] msg [OF le(2)] core_distinct [OF core _ _ ij(3)] by simp
    qed
  next
    show "if numOfClasses s' = 0 then bestClass s' = NULL_CLASS \<and> sizeOfBestClass s' = 0
      else bestClass s' < numOfClasses s' \<and> sizeOfBestClass s' = cls_size (msgClasses s' ! bestClass s')"
      using best0 core_best [OF core] n by (cases "numOfClasses s = 0") (simp_all add: s'_def sel)
  next
    have grow: "sizeOfBestClass s \<le> sizeOfBestClass s'"
      using best0 core_best [OF core] by (cases "numOfClasses s = 0") (simp_all add: s'_def sel)
    show "distinct (map fst (msgsFromReplicas s'))" using core_keys(1) [OF core] by (simp add: s'_def sel)
    show "\<forall>r \<in> fst ` set (msgsFromReplicas s'). r < numOfReps c"
      using core_keys(2) [OF core] by (simp add: s'_def sel)
    show "length (msgClasses s') = numOfReps c" "numOfClasses s' \<le> numOfReps c"
      using core_flags(1) [OF core] k by (simp_all add: s'_def sel)
    show "SelfTrust c" "numOfClasses s' = 1" "representativeReplica (msgClasses s' ! 0) = selfId c"
      if "hasTrustedSelfClass s'" using that tr by (simp_all add: s'_def sel)
    show "sizeOfBestClass s' \<ge> required c" "SelfTrust c \<Longrightarrow> hasTrustedSelfClass s'" if "complete s'"
      using that core_flags(4) [OF core] grow by (simp_all add: s'_def sel)
    show "sizeOfBestClass s' \<ge> numOfReps c" "SelfTrust c \<Longrightarrow> hasTrustedSelfClass s'" if "full s'"
      using that core_flags(5) [OF core] grow by (simp_all add: s'_def sel)
  qed
qed

lemma eq_count_eqv:
  assumes "eqv a b"
  shows "eq_count eqv a xs = eq_count eqv b xs"
proof -
  have "eqv a x \<longleftrightarrow> eqv b x" for x using assms eqv_sym [OF assms] eqv_trans by blast
  then show ?thesis by (simp add: eq_count_def)
qed

lemma exact_no_class:
  assumes "cert_exact eqv cm s" "\<forall>j < numOfClasses s. \<not> eqv (class_msg s j) m"
  shows "eq_count eqv m cm = 0"
proof -
  have "\<not> eqv m (snd p)" if p: "p \<in> set cm" for p
  proof
    assume mp: "eqv m (snd p)"
    obtain i where i: "i < numOfClasses s" "eqv (class_msg s i) (snd p)"
      using assms(1) p unfolding cert_exact_def by blast
    have "eqv (class_msg s i) m" by (rule eqv_trans [OF i(2) eqv_sym [OF mp]])
    with assms(2) i(1) show False by simp
  qed
  then show ?thesis by (simp add: eq_count_def)
qed

lemma peer_new_exact:
  assumes core: "cert_core eqv c cm s" and cfg: "cert_cfg_ok c"
    and m: "map_of (msgsFromReplicas s) r = Some m"
    and new: "\<forall>j < numOfClasses s. \<not> eqv (class_msg s j) m" and exact: "cert_exact eqv cm s"
  defines "s' \<equiv> addPeer_to_class c r NULL_CLASS s"
  shows "cert_exact eqv (cm @ [(r, m)]) s'"
proof -
  have k: "numOfClasses s < numOfReps c" by (rule new_class_room [OF core cfg m new])
  then have n: "numOfClasses s < length (msgClasses s)" "numOfClasses s \<noteq> NULL_CLASS"
    using core cfg by (auto simp: cert_core_def cert_cfg_ok_def NULL_CLASS_def)
  note sel = addPeer_new_sel [OF k]
  have msg: "class_msg s' j = (if j = numOfClasses s then m else class_msg s j)"
    if "j \<le> numOfClasses s" for j
    using that n m by (simp add: class_msg_def s'_def sel)
  have zero: "eq_count eqv m cm = 0" by (rule exact_no_class [OF exact new])
  have best: "1 \<le> sizeOfBestClass s'"
    using core_best [OF core] core_size [OF core, of "bestClass s"]
    by (cases "numOfClasses s = 0") (simp_all add: s'_def sel)
  have "cls_size (msgClasses s' ! j) = eq_count eqv (class_msg s' j) (cm @ [(r, m)]) \<and>
      cls_size (msgClasses s' ! j) \<le> sizeOfBestClass s'" if "j \<le> numOfClasses s" for j
  proof (cases "j = numOfClasses s")
    case True
    then show ?thesis using msg [OF that] n zero best eqv_refl by (simp add: s'_def sel)
  next
    case False
    then have j: "j < numOfClasses s" using that by simp
    then have b: "bestClass s \<noteq> NULL_CLASS" using core_best [OF core] k cfg
      by (auto simp: cert_cfg_ok_def NULL_CLASS_def split: if_splits)
    have "cls_size (msgClasses s ! j) = eq_count eqv (class_msg s j) cm \<and>
        cls_size (msgClasses s ! j) \<le> sizeOfBestClass s"
      using exact j unfolding cert_exact_def by blast
    with j False msg [OF that] n new b show ?thesis by (simp add: s'_def sel)
  qed
  moreover have "\<exists>j < numOfClasses s'. eqv (class_msg s' j) (snd p)" if "p \<in> set (cm @ [(r, m)])" for p
  proof (cases "p \<in> set cm")
    case True
    then obtain j where "j < numOfClasses s" "eqv (class_msg s j) (snd p)"
      using exact unfolding cert_exact_def by blast
    then show ?thesis using msg [of j] by (intro exI [of _ j]) (simp add: s'_def sel)
  next
    case False
    then have "snd p = m" using that by auto
    then show ?thesis using msg [of "numOfClasses s"] eqv_refl
      by (intro exI [of _ "numOfClasses s"]) (simp add: s'_def sel)
  qed
  moreover have "numOfClasses s' = Suc (numOfClasses s)" by (simp add: s'_def sel)
  ultimately show ?thesis unfolding cert_exact_def by (metis less_Suc_eq_le)
qed

lemma peer_found_trusted:
  fixes r :: ReplicaId
  assumes core: "cert_core eqv c cm s" and cfg: "cert_cfg_ok c" and len: "length cm \<le> numOfReps c"
    and tr: "hasTrustedSelfClass s" and cnt: "eq_count eqv (class_msg s 0) cm \<le> cls_size (msgClasses s ! 0)"
  defines "s' \<equiv> addPeer_to_class c r 0 (s\<lparr>msgClasses := inc_class 0 (msgClasses s)\<rparr>)"
  shows "eq_count eqv (class_msg s' 0) (cm @ [(r, m)]) \<le> cls_size (msgClasses s' ! 0)"
proof -
  have one: "numOfClasses s = 1" using core_flags(3) [OF core tr] by blast
  then have n: "0 < length (msgClasses s)" using core_flags(1,2) [OF core] by simp
  have z: "(0::nat) \<noteq> NULL_CLASS" by (simp add: NULL_CLASS_def)
  have "cls_size (msgClasses s ! 0) \<le> eq_count eqv (class_msg s 0) cm + 1"
    using core_size [OF core, of 0] one by (simp split: if_splits)
  also have "\<dots> \<le> numOfReps c + 1" using eq_count_le [of eqv _ cm] len by (meson add_le_mono1 le_trans)
  finally have sz: "cls_size (msgClasses s ! 0) + 1 < 65536" using cfg by (simp add: cert_cfg_ok_def)
  note inc = inc_class_nth [OF n sz]
  have "class_msg s' 0 = class_msg s 0" by (simp add: class_msg_def s'_def addPeer_found_sel [OF z] inc)
  then show ?thesis using cnt by (simp add: s'_def addPeer_found_sel [OF z] inc)
qed

lemma found_marks_complete:
  fixes r :: ReplicaId
  assumes cfg: "cert_cfg_ok c" and i: "i \<noteq> NULL_CLASS"
    and old: "(SelfTrust c \<longrightarrow> hasTrustedSelfClass s) \<longrightarrow> required c \<le> sizeOfBestClass s \<longrightarrow> complete s"
    and tr: "SelfTrust c \<longrightarrow> hasTrustedSelfClass s" "hasTrustedSelfClass s \<longrightarrow> hasMsgFromReplica s (selfId c)"
    and req: "required c \<le> sizeOfBestClass (addPeer_to_class c r i (s\<lparr>msgClasses := cs\<rparr>))"
  shows "complete (addPeer_to_class c r i (s\<lparr>msgClasses := cs\<rparr>))"
proof (cases "required c \<le> sizeOfBestClass s")
  case True
  then show ?thesis using old tr(1) by (simp add: addPeer_found_marks [OF i])
next
  case False
  then show ?thesis using req tr cfg
    by (auto simp: addPeer_found_marks [OF i] addPeer_found_sel [OF i] cert_cfg_ok_def max_def split: if_splits)
qed

lemma core_ignored:
  assumes core: "cert_core eqv c cm s"
  shows "cert_core eqv c (cm @ [p]) s"
proof -
  have "cls_size (msgClasses s ! i) \<le> eq_count eqv (class_msg s i) (cm @ [p]) + (if hasTrustedSelfClass s then 1 else 0)"
    if "i < numOfClasses s" for i
    using core_size [OF core that] unfolding eq_count_append by linarith
  then show ?thesis using core unfolding cert_core_def by blast
qed

lemma trusted_self:
  assumes core: "cert_core eqv c cm s" and tr: "hasTrustedSelfClass s"
  shows "hasMsgFromReplica s (selfId c)" "numOfClasses s = 1" "0 < length (msgClasses s)"
    "map_of (msgsFromReplicas s) (representativeReplica (msgClasses s ! 0)) = Some (class_msg s 0)"
    "map_of (msgsFromReplicas s) (selfId c) = Some (class_msg s 0)"
proof -
  note f = core_flags(3) [OF core tr]
  have "map_of (msgsFromReplicas s) (representativeReplica (msgClasses s ! 0)) \<noteq> None"
    using core_rep [OF core, of 0] f by simp
  then obtain y where y: "map_of (msgsFromReplicas s) (representativeReplica (msgClasses s ! 0)) = Some y" by blast
  then show m: "map_of (msgsFromReplicas s) (representativeReplica (msgClasses s ! 0)) = Some (class_msg s 0)"
    by (simp add: class_msg_def)
  then show m': "map_of (msgsFromReplicas s) (selfId c) = Some (class_msg s 0)" using f by simp
  from map_of_SomeD [OF m'] show "hasMsgFromReplica s (selfId c)" unfolding hasMsgFromReplica_def by force
  show "numOfClasses s = 1" using f by blast
  then show "0 < length (msgClasses s)" using core_flags(1,2) [OF core] by simp
qed

lemma find_class_core:
  assumes core: "cert_core eqv c cm s"
  obtains (none) "find_class eqv (msgsFromReplicas s) (take (numOfClasses s) (msgClasses s)) 0 m = Inr None"
      "\<forall>j < numOfClasses s. \<not> eqv (class_msg s j) m"
  | (found) i where "find_class eqv (msgsFromReplicas s) (take (numOfClasses s) (msgClasses s)) 0 m = Inr (Some i)"
      "i < numOfClasses s" "eqv (class_msg s i) m"
proof -
  have len: "length (take (numOfClasses s) (msgClasses s)) = numOfClasses s"
    using core_flags(1,2) [OF core] by simp
  have all: "\<forall>j < length (take (numOfClasses s) (msgClasses s)).
      map_of (msgsFromReplicas s) (representativeReplica (take (numOfClasses s) (msgClasses s) ! j)) \<noteq> None"
    unfolding len using core_rep [OF core] by simp
  show ?thesis
  proof (rule find_class_cases [OF all, where eqv = eqv and i = 0 and m = m], unfold len)
    assume a: "find_class eqv (msgsFromReplicas s) (take (numOfClasses s) (msgClasses s)) 0 m = Inr None"
      and b: "\<forall>j<numOfClasses s. \<not> eqv (the (map_of (msgsFromReplicas s)
        (representativeReplica (take (numOfClasses s) (msgClasses s) ! j)))) m"
    from b have "\<forall>j<numOfClasses s. \<not> eqv (class_msg s j) m" by (simp add: class_msg_def)
    with a show thesis by (rule none)
  next
    fix j
    assume "find_class eqv (msgsFromReplicas s) (take (numOfClasses s) (msgClasses s)) 0 m = Inr (Some (0 + j))"
      and "j < numOfClasses s"
      and "eqv (the (map_of (msgsFromReplicas s) (representativeReplica (take (numOfClasses s) (msgClasses s) ! j)))) m"
    then show thesis by (intro found [of j]) (simp_all add: class_msg_def)
  qed
qed

lemma addPeerMsg_trusted:
  assumes core: "cert_core eqv c cm s" and tight: "cert_tight eqv c cm s" and cfg: "cert_cfg_ok c"
    and len: "length cm \<le> numOfReps c" and tr: "hasTrustedSelfClass s"
  shows "\<exists>s'. addPeerMsg c eqv m r s = Inr s' \<and> msgsFromReplicas s' = msgsFromReplicas s \<and>
    cert_core eqv c (cm @ [(r, m)]) s' \<and> cert_tight eqv c (cm @ [(r, m)]) s'"
proof (cases "eqv (class_msg s 0) m")
  case True
  note t = trusted_self [OF core tr]
  have z: "(0::nat) \<noteq> NULL_CLASS" by (simp add: NULL_CLASS_def)
  let ?s' = "addPeer_to_class c r 0 (s\<lparr>msgClasses := inc_class 0 (msgClasses s)\<rparr>)"
  have cnt: "eq_count eqv (class_msg s 0) cm \<le> cls_size (msgClasses s ! 0)"
    using tight tr unfolding cert_tight_def by blast
  have "addPeerMsg c eqv m r s = Inr ?s'" using tr t(4) True by (simp add: addPeerMsg_def)
  moreover have "cert_core eqv c (cm @ [(r, m)]) ?s'"
    by (rule peer_found_core [OF core cfg len]) (use t True tr in simp_all)
  moreover have "eq_count eqv (class_msg ?s' 0) (cm @ [(r, m)]) \<le> cls_size (msgClasses ?s' ! 0)"
    by (rule peer_found_trusted [OF core cfg len tr cnt])
  moreover have "required c \<le> sizeOfBestClass ?s' \<Longrightarrow> complete ?s'"
    by (rule found_marks_complete [OF cfg z]) (use tight t tr in \<open>auto simp: cert_tight_def\<close>)
  moreover have "hasTrustedSelfClass ?s'" using tr by (simp add: addPeer_found_sel z)
  ultimately show ?thesis unfolding cert_tight_def by (simp add: addPeer_found_sel z)
next
  case False
  have "addPeerMsg c eqv m r s = Inr s" using tr trusted_self(4) [OF core tr] False by (simp add: addPeerMsg_def)
  moreover have "cert_tight eqv c (cm @ [(r, m)]) s"
    using tight tr False unfolding cert_tight_def by simp
  ultimately show ?thesis using core_ignored [OF core] by blast
qed

lemma addPeerMsg_untrusted:
  assumes core: "cert_core eqv c cm s" and tight: "cert_tight eqv c cm s" and cfg: "cert_cfg_ok c"
    and len: "length cm \<le> numOfReps c" and tr: "\<not> hasTrustedSelfClass s"
    and m: "map_of (msgsFromReplicas s) r = Some m"
  shows "\<exists>s'. addPeerMsg c eqv m r s = Inr s' \<and> msgsFromReplicas s' = msgsFromReplicas s \<and>
    cert_core eqv c (cm @ [(r, m)]) s' \<and> cert_tight eqv c (cm @ [(r, m)]) s'"
proof -
  have exact: "cert_exact eqv cm s" using tight tr unfolding cert_tight_def by blast
  have marked: "(SelfTrust c \<longrightarrow> hasTrustedSelfClass s) \<longrightarrow> required c \<le> sizeOfBestClass s \<longrightarrow> complete s"
    and self: "SelfTrust c \<longrightarrow> hasMsgFromReplica s (selfId c) \<longrightarrow> hasTrustedSelfClass s"
    using tight unfolding cert_tight_def by blast+
  show ?thesis
  proof (rule find_class_core [OF core, of m])
    assume f: "find_class eqv (msgsFromReplicas s) (take (numOfClasses s) (msgClasses s)) 0 m = Inr None"
      and new: "\<forall>j < numOfClasses s. \<not> eqv (class_msg s j) m"
    let ?s' = "addPeer_to_class c r NULL_CLASS s"
    note sel = addPeer_new_sel [OF new_class_room [OF core cfg m new]]
    have "addPeerMsg c eqv m r s = Inr ?s'" using f tr by (simp add: addPeerMsg_def)
    moreover have "cert_core eqv c (cm @ [(r, m)]) ?s'" by (rule peer_new_core [OF core cfg m new tr])
    moreover have "cert_exact eqv (cm @ [(r, m)]) ?s'" by (rule peer_new_exact [OF core cfg m new exact])
    ultimately show ?thesis using tr marked self cfg
      unfolding cert_tight_def hasMsgFromReplica_def by (auto simp: sel cert_cfg_ok_def)
  next
    fix i
    assume f: "find_class eqv (msgsFromReplicas s) (take (numOfClasses s) (msgClasses s)) 0 m = Inr (Some i)"
      and i: "i < numOfClasses s" "eqv (class_msg s i) m"
    let ?s' = "addPeer_to_class c r i (s\<lparr>msgClasses := inc_class i (msgClasses s)\<rparr>)"
    have n: "i \<noteq> NULL_CLASS" using i core_flags(2) [OF core] cfg by (simp add: cert_cfg_ok_def NULL_CLASS_def)
    have "addPeerMsg c eqv m r s = Inr ?s'" using f tr by (simp add: addPeerMsg_def)
    moreover have "cert_core eqv c (cm @ [(r, m)]) ?s'" by (rule peer_found_core [OF core cfg len i self])
    moreover have "cert_exact eqv (cm @ [(r, m)]) ?s'" by (rule peer_found_exact [OF core cfg len i exact])
    moreover have "complete ?s'" if "SelfTrust c \<longrightarrow> hasTrustedSelfClass s" "required c \<le> sizeOfBestClass ?s'"
      by (rule found_marks_complete [OF cfg n marked that(1) _ that(2)]) (use tr in simp)
    moreover have "msgsFromReplicas ?s' = msgsFromReplicas s" "hasTrustedSelfClass ?s' = hasTrustedSelfClass s"
      by (simp_all add: addPeer_found_sel n)
    ultimately show ?thesis using tr self unfolding cert_tight_def hasMsgFromReplica_def by auto
  qed
qed

text \<open>
  The own message: if \<open>k > 0\<close> equivalent messages were counted before, its class counts \<open>k + 2\<close>.
\<close>

lemma addSelfMsg_result:
  assumes core: "cert_core eqv c cm s" and exact: "cert_exact eqv cm s" and cfg: "cert_cfg_ok c"
    and len: "length cm \<le> numOfReps c" and m: "map_of (msgsFromReplicas s) (selfId c) = Some m"
  shows "\<exists>s'. addSelfMsg c eqv m s = Inr s' \<and> msgsFromReplicas s' = msgsFromReplicas s \<and>
    hasTrustedSelfClass s' \<and> numOfClasses s' = 1 \<and> bestClass s' = 0 \<and>
    sizeOfBestClass s' = (let k = eq_count eqv m cm in if k = 0 then 1 else k + 2) \<and>
    length (msgClasses s') = length (msgClasses s) \<and>
    msgClasses s' ! 0 = \<lparr>cls_size = sizeOfBestClass s', representativeReplica = selfId c\<rparr> \<and>
    (complete s' \<longleftrightarrow> complete s \<or> required c \<le> sizeOfBestClass s') \<and>
    (full s' \<longleftrightarrow> full s \<or> numOfReps c \<le> sizeOfBestClass s')"
proof -
  have self: "hasMsgFromReplica s (selfId c)"
    using map_of_SomeD [OF m] unfolding hasMsgFromReplica_def by force
  have n0: "0 < length (msgClasses s)" "numOfClasses s \<le> length (msgClasses s)"
    using core_flags(1,2) [OF core] cfg by (simp_all add: cert_cfg_ok_def)
  have marks: "hasMsgFromReplica (s\<lparr>msgClasses := a, numOfClasses := b, bestClass := d, sizeOfBestClass := e,
      hasTrustedSelfClass := g\<rparr>) (selfId c)" for a b d e g
    using self by (simp add: hasMsgFromReplica_def)
  show ?thesis
  proof (rule find_class_core [OF core, of m])
    assume f: "find_class eqv (msgsFromReplicas s) (take (numOfClasses s) (msgClasses s)) 0 m = Inr None"
      and new: "\<forall>j < numOfClasses s. \<not> eqv (class_msg s j) m"
    have "eq_count eqv m cm = 0" by (rule exact_no_class [OF exact new])
    then show ?thesis using n0 by (simp add: addSelfMsg_def f clear_classes_def marks Let_def)
  next
    fix i
    assume f: "find_class eqv (msgsFromReplicas s) (take (numOfClasses s) (msgClasses s)) 0 m = Inr (Some i)"
      and i: "i < numOfClasses s" "eqv (class_msg s i) m"
    have "cls_size (msgClasses s ! i) = eq_count eqv (class_msg s i) cm"
      using exact i(1) unfolding cert_exact_def by blast
    then have k: "cls_size (msgClasses s ! i) = eq_count eqv m cm" using eq_count_eqv [OF i(2)] by simp
    have pos: "0 < eq_count eqv m cm" using core_size [OF core i(1)] k by simp
    have small: "eq_count eqv m cm + 2 < 65536"
      using eq_count_le [of eqv m cm] len cfg by (simp add: cert_cfg_ok_def)
    have il: "i < length (msgClasses s)" using i(1) n0(2) by simp
    have "cls_size (inc_class i (msgClasses s) ! i) = eq_count eqv m cm + 1"
      using inc_class_nth(1) [OF il, of i] k small by simp
    moreover have "length (inc_class i (msgClasses s)) = length (msgClasses s)" by (simp add: inc_class_def)
    ultimately show ?thesis using n0 pos small
      by (simp add: addSelfMsg_def f clear_classes_def marks Let_def)
  qed
qed

lemma addSelfMsg_inv:
  assumes core: "cert_core eqv c cm s" and exact: "cert_exact eqv cm s" and cfg: "cert_cfg_ok c"
    and len: "length cm \<le> numOfReps c" and m: "map_of (msgsFromReplicas s) (selfId c) = Some m"
    and trust: "SelfTrust c" and tr: "\<not> hasTrustedSelfClass s"
  shows "\<exists>s'. addSelfMsg c eqv m s = Inr s' \<and> msgsFromReplicas s' = msgsFromReplicas s \<and>
    cert_core eqv c (cm @ [(selfId c, m)]) s' \<and> cert_tight eqv c (cm @ [(selfId c, m)]) s'"
proof -
  from addSelfMsg_result [OF core exact cfg len m] obtain s' where
    s': "addSelfMsg c eqv m s = Inr s'" "msgsFromReplicas s' = msgsFromReplicas s" "hasTrustedSelfClass s'"
      "numOfClasses s' = 1" "bestClass s' = 0" "length (msgClasses s') = length (msgClasses s)"
      "msgClasses s' ! 0 = \<lparr>cls_size = sizeOfBestClass s', representativeReplica = selfId c\<rparr>"
      "complete s' \<longleftrightarrow> complete s \<or> required c \<le> sizeOfBestClass s'"
      "full s' \<longleftrightarrow> full s \<or> numOfReps c \<le> sizeOfBestClass s'"
    and sz: "sizeOfBestClass s' = (let k = eq_count eqv m cm in if k = 0 then 1 else k + 2)" by blast
  have msg: "class_msg s' 0 = m" by (simp add: class_msg_def s' m)
  have size: "1 \<le> sizeOfBestClass s'" "sizeOfBestClass s' \<le> eq_count eqv m cm + 2"
    "eq_count eqv m cm + 1 \<le> sizeOfBestClass s'" using sz by (simp_all add: Let_def split: if_splits)
  have cnt: "eq_count eqv m (cm @ [(selfId c, m)]) = eq_count eqv m cm + 1" using eqv_refl by simp
  have old: "\<not> complete s" "\<not> full s" using core_flags(4,5) [OF core] trust tr by blast+
  have "cert_core eqv c (cm @ [(selfId c, m)]) s'"
    unfolding cert_core_def
  proof (intro conjI allI impI)
    fix i assume "i < numOfClasses s'"
    then have i: "i = 0" by (simp add: s')
    show "map_of (msgsFromReplicas s') (representativeReplica (msgClasses s' ! i)) \<noteq> None" by (simp add: i s' m)
    show "1 \<le> cls_size (msgClasses s' ! i)" using size by (simp add: i s')
    show "cls_size (msgClasses s' ! i) \<le> eq_count eqv (class_msg s' i) (cm @ [(selfId c, m)]) +
        (if hasTrustedSelfClass s' then 1 else 0)" using size cnt by (simp add: i s' msg)
  next
    show "length (msgClasses s') = numOfReps c" "numOfClasses s' \<le> numOfReps c"
      using core_flags(1) [OF core] cfg by (simp_all add: s' cert_cfg_ok_def)
  qed (use s' trust old core_keys(1,2) [OF core] in \<open>auto\<close>)
  moreover have "cert_tight eqv c (cm @ [(selfId c, m)]) s'"
    using size cnt unfolding cert_tight_def by (auto simp: s' msg)
  ultimately show ?thesis using s'(1,2) by blast
qed

lemma addMsg_inv:
  assumes inv: "cert_inv eqv c cm s" and cfg: "cert_cfg_ok c" and r: "r < numOfReps c"
  shows "\<exists>b s' cm'. addMsg c eqv m r s = Inr (b, s') \<and> cert_inv eqv c cm' s' \<and>
    (b \<longleftrightarrow> \<not> hasMsgFromReplica s r) \<and>
    msgsFromReplicas s' = (if hasMsgFromReplica s r then msgsFromReplicas s else msgsFromReplicas s @ [(r, m)])"
proof (cases "hasMsgFromReplica s r")
  case True
  then show ?thesis using inv by (auto simp: addMsg_def)
next
  case False
  let ?s1 = "s\<lparr>msgsFromReplicas := msgsFromReplicas s @ [(r, m)]\<rparr>"
  have core: "cert_core eqv c cm s" and tight: "cert_tight eqv c cm s"
    and cm: "set cm \<subseteq> set (msgsFromReplicas s)" "distinct (map fst cm)" "counting c s \<longrightarrow> cm = msgsFromReplicas s"
    using inv unfolding cert_inv_def by blast+
  have core1: "cert_core eqv c cm ?s1" by (rule append_core [OF core False r])
  have rnew: "r \<notin> fst ` set (msgsFromReplicas s)" using False by (simp add: hasMsgFromReplica_def)
  have m: "map_of (msgsFromReplicas ?s1) r = Some m"
    using rnew by (simp add: map_of_append map_add_def map_of_eq_None_iff [THEN iffD2])
  have len: "length cm \<le> numOfReps c"
    using cm(1,2) core_keys(2) [OF core] by (intro keys_bound) blast+
  have dist: "distinct (map fst (cm @ [(r, m)]))" using cm(1,2) rnew by auto
  have cls: "class_msg ?s1 0 = class_msg s 0" if "hasTrustedSelfClass s"
    by (rule class_msg_append(2)) (use trusted_self(4) [OF core that] in simp)
  have ct: "counting c ?s1 \<longleftrightarrow> counting c s" by (simp add: counting_def)
  have tight1: "cert_tight eqv c cm ?s1" if "\<not> (SelfTrust c \<and> r = selfId c) \<or> hasTrustedSelfClass s"
    using tight append_exact [OF core, of r m] cls that
    unfolding cert_tight_def by (auto simp: hasMsgFromReplica_def)
  show ?thesis
  proof (cases "counting c s")
    case counting: True
    have "\<exists>s'. (if SelfTrust c \<and> r = selfId c then addSelfMsg c eqv m ?s1 else addPeerMsg c eqv m r ?s1) = Inr s' \<and>
        msgsFromReplicas s' = msgsFromReplicas ?s1 \<and>
        cert_core eqv c (cm @ [(r, m)]) s' \<and> cert_tight eqv c (cm @ [(r, m)]) s'"
    proof (cases "SelfTrust c \<and> r = selfId c")
      case True
      have tr: "\<not> hasTrustedSelfClass ?s1" using trusted_self(1) [OF core] False True by auto
      have "cert_exact eqv cm s" using tight tr unfolding cert_tight_def by simp
      then have "cert_exact eqv cm ?s1" by (rule append_exact [OF core])
      from addSelfMsg_inv [OF core1 this cfg len _ _ tr, of m] m True show ?thesis by simp
    next
      case False
      have t1: "cert_tight eqv c cm ?s1" by (rule tight1) (use False in blast)
      show ?thesis
        using False addPeerMsg_trusted [OF core1 t1 cfg len, of m r]
          addPeerMsg_untrusted [OF core1 t1 cfg len _ m] by (cases "hasTrustedSelfClass ?s1") auto
    qed
    then obtain s' where s': "(if SelfTrust c \<and> r = selfId c then addSelfMsg c eqv m ?s1 else addPeerMsg c eqv m r ?s1) = Inr s'"
        "msgsFromReplicas s' = msgsFromReplicas ?s1"
        "cert_core eqv c (cm @ [(r, m)]) s'" "cert_tight eqv c (cm @ [(r, m)]) s'" by blast
    have "addMsg c eqv m r s = Inr (True, s')"
      using s'(1) counting False by (auto simp: addMsg_def counting_def Let_def split: if_splits)
    moreover have "cert_inv eqv c (cm @ [(r, m)]) s'"
      using s' dist cm(3) counting by (simp add: cert_inv_def)
    ultimately show ?thesis using False s'(2) by auto
  next
    case stop: False
    then have "complete s" by (simp add: counting_def)
    then have tr: "SelfTrust c \<longrightarrow> hasTrustedSelfClass s" using core_flags(4) [OF core] by blast
    have "addMsg c eqv m r s = Inr (True, ?s1)" using stop False by (auto simp: addMsg_def counting_def Let_def)
    moreover have "cert_inv eqv c cm ?s1"
      using core1 tight1 tr cm(1,2) stop ct unfolding cert_inv_def by auto
    ultimately show ?thesis using False by auto
  qed
qed

lemma addMsgs_inv:
  assumes "cert_inv eqv c cm s" "cert_cfg_ok c" "\<forall>(m, r) \<in> set ms. r < numOfReps c"
  shows "\<exists>s' cm'. addMsgs c eqv ms s = Inr s' \<and> cert_inv eqv c cm' s' \<and>
    set (msgsFromReplicas s) \<subseteq> set (msgsFromReplicas s') \<and>
    (\<forall>(r, m) \<in> set (msgsFromReplicas s'). (r, m) \<in> set (msgsFromReplicas s) \<or> (m, r) \<in> set ms) \<and>
    fst ` set (msgsFromReplicas s') = fst ` set (msgsFromReplicas s) \<union> snd ` set ms"
  using assms
proof (induction ms arbitrary: s cm)
  case Nil
  then show ?case by auto
next
  case (Cons p ms)
  obtain m r where p: "p = (m, r)" by (cases p)
  from Cons.prems(3) p have r: "r < numOfReps c" and tl: "\<forall>(m, r) \<in> set ms. r < numOfReps c" by auto
  from addMsg_inv [OF Cons.prems(1,2) r, of m] obtain b s1 cm1 where
    s1: "addMsg c eqv m r s = Inr (b, s1)" "cert_inv eqv c cm1 s1"
      "msgsFromReplicas s1 = (if hasMsgFromReplica s r then msgsFromReplicas s else msgsFromReplicas s @ [(r, m)])"
    by blast
  from Cons.IH [OF s1(2) Cons.prems(2) tl] obtain s' cm' where
    s': "addMsgs c eqv ms s1 = Inr s'" "cert_inv eqv c cm' s'"
      "set (msgsFromReplicas s1) \<subseteq> set (msgsFromReplicas s')"
      "\<forall>(r, m) \<in> set (msgsFromReplicas s'). (r, m) \<in> set (msgsFromReplicas s1) \<or> (m, r) \<in> set ms"
      "fst ` set (msgsFromReplicas s') = fst ` set (msgsFromReplicas s1) \<union> snd ` set ms"
    by - (elim exE conjE, rule that)
  have "addMsgs c eqv (p # ms) s = Inr s'" using s1(1) s'(1) p by simp
  moreover have "set (msgsFromReplicas s) \<subseteq> set (msgsFromReplicas s')"
    using s'(3) s1(3) by (auto split: if_splits)
  moreover have "\<forall>(r, m) \<in> set (msgsFromReplicas s'). (r, m) \<in> set (msgsFromReplicas s) \<or> (m, r) \<in> set (p # ms)"
    using s'(4) s1(3) p by (auto split: if_splits)
  moreover have "fst ` set (msgsFromReplicas s') = fst ` set (msgsFromReplicas s) \<union> snd ` set (p # ms)"
    using s'(5) s1(3) p by (auto simp: hasMsgFromReplica_def split: if_splits)
  ultimately show ?case using s'(2) by blast
qed

text \<open>The replicas behind a count are distinct.\<close>

lemma eq_count_card:
  assumes "distinct (map fst xs)"
  shows "eq_count eqv m xs = card {r. \<exists>m'. (r, m') \<in> set xs \<and> eqv m m'}"
proof -
  let ?f = "filter (\<lambda>p. eqv m (snd p)) xs"
  have "distinct (map fst ?f)" using assms by (rule distinct_map_filter)
  then have "eq_count eqv m xs = card (fst ` set ?f)"
    using distinct_card [of "map fst ?f"] by (simp add: eq_count_def)
  also have "fst ` set ?f = {r. \<exists>m'. (r, m') \<in> set xs \<and> eqv m m'}" by force
  finally show ?thesis .
qed

lemma inv_best_count:
  assumes inv: "cert_inv eqv c cm s" and pos: "0 < sizeOfBestClass s"
  shows "sizeOfBestClass s \<le> card {r. \<exists>m'. (r, m') \<in> set (msgsFromReplicas s) \<and> eqv (class_msg s (bestClass s)) m'}
    + (if hasTrustedSelfClass s then 1 else 0)"
proof -
  have core: "cert_core eqv c cm s" and cm: "set cm \<subseteq> set (msgsFromReplicas s)" "distinct (map fst cm)"
    using inv unfolding cert_inv_def by blast+
  let ?m = "class_msg s (bestClass s)"
  have b: "bestClass s < numOfClasses s" "sizeOfBestClass s = cls_size (msgClasses s ! bestClass s)"
    using core_best [OF core] pos by (simp_all split: if_splits)
  have "eq_count eqv ?m cm = card {r. \<exists>m'. (r, m') \<in> set cm \<and> eqv ?m m'}" by (rule eq_count_card [OF cm(2)])
  also have "\<dots> \<le> card {r. \<exists>m'. (r, m') \<in> set (msgsFromReplicas s) \<and> eqv ?m m'}"
  proof (rule card_mono)
    show "finite {r. \<exists>m'. (r, m') \<in> set (msgsFromReplicas s) \<and> eqv ?m m'}"
      by (rule finite_subset [of _ "fst ` set (msgsFromReplicas s)"]) force+
  qed (use cm(1) in blast)
  finally show ?thesis using core_size [OF core b(1)] b(2) by (simp split: if_splits)
qed

text \<open>Safety of the flags: what a complete and a full certificate prove.\<close>

lemma run_safe:
  assumes cfg: "cert_cfg_ok c" and ids: "\<forall>(m, r) \<in> set ms. r < numOfReps c"
    and run: "addMsgs c eqv ms (cert_new c) = Inr s"
    and flag: "complete s \<and> q = required c \<or> full s \<and> q = numOfReps c"
  shows "\<exists>m R. R \<subseteq> {..<numOfReps c} \<and> q \<le> card R + (if SelfTrust c then 1 else 0) \<and>
    (SelfTrust c \<longrightarrow> selfId c \<in> R) \<and> (\<forall>r \<in> R. \<exists>m'. (m', r) \<in> set ms \<and> eqv m m')"
proof -
  from addMsgs_inv [OF cert_new_inv [OF cfg] cfg ids] run obtain cm where
    inv: "cert_inv eqv c cm s" and from_ms: "\<forall>(r, m) \<in> set (msgsFromReplicas s). (m, r) \<in> set ms"
    by (auto simp: cert_new_def)
  have core: "cert_core eqv c cm s" using inv unfolding cert_inv_def by blast
  have sz: "q \<le> sizeOfBestClass s" and tr: "SelfTrust c \<longrightarrow> hasTrustedSelfClass s" and pos: "0 < q"
    using flag core_flags(4,5) [OF core] cfg by (auto simp: cert_cfg_ok_def)
  let ?m = "class_msg s (bestClass s)"
  let ?R = "{r. \<exists>m'. (r, m') \<in> set (msgsFromReplicas s) \<and> eqv ?m m'}"
  have "q \<le> card ?R + (if SelfTrust c then 1 else 0)"
    using inv_best_count [OF inv] sz pos core_flags(3) [OF core] by (force split: if_splits)
  moreover have "?R \<subseteq> {..<numOfReps c}" using core_keys(2) [OF core] by force
  moreover have "selfId c \<in> ?R" if "SelfTrust c"
  proof -
    have t: "hasTrustedSelfClass s" using tr that by blast
    have "bestClass s = 0" using core_best [OF core] trusted_self(2) [OF core t] by simp
    then show ?thesis using map_of_SomeD [OF trusted_self(5) [OF core t]] eqv_refl by auto
  qed
  ultimately show ?thesis using from_ms by (intro exI [of _ ?m] exI [of _ ?R]) fastforce
qed

text \<open>Completion: enough equivalent messages, whatever the other replicas send.\<close>

lemma run_live:
  assumes cfg: "cert_cfg_ok c" and ids: "\<forall>(m, r) \<in> set ms. r < numOfReps c"
    and R: "\<forall>r \<in> R. \<exists>m'. (m', r) \<in> set ms" "\<forall>(m', r) \<in> set ms. r \<in> R \<longrightarrow> eqv m m'"
    and card: "required c \<le> card R" and self: "SelfTrust c \<longrightarrow> selfId c \<in> R"
  shows "\<exists>s. addMsgs c eqv ms (cert_new c) = Inr s \<and> complete s"
proof -
  from addMsgs_inv [OF cert_new_inv [OF cfg] cfg ids] obtain s cm where
    s: "addMsgs c eqv ms (cert_new c) = Inr s" and inv: "cert_inv eqv c cm s"
      and from_ms: "\<forall>(r, m) \<in> set (msgsFromReplicas s). (m, r) \<in> set ms"
      and keys: "fst ` set (msgsFromReplicas s) = snd ` set ms"
    by (auto simp: cert_new_def)
  have core: "cert_core eqv c cm s" and tight: "cert_tight eqv c cm s" using inv unfolding cert_inv_def by blast+
  have "complete s"
  proof (rule ccontr)
    assume nc: "\<not> complete s"
    then have cm: "cm = msgsFromReplicas s" using inv by (simp add: cert_inv_def counting_def)
    have has: "\<exists>m'. (r, m') \<in> set cm \<and> eqv m m'" if "r \<in> R" for r
    proof -
      have "r \<in> fst ` set cm" using R(1) that keys cm by force
      then obtain m' where "(r, m') \<in> set cm" by force
      moreover from this have "eqv m m'" using from_ms R(2) that cm by fastforce
      ultimately show ?thesis by (intro exI conjI)
    qed
    then have "R \<subseteq> {r. \<exists>m'. (r, m') \<in> set cm \<and> eqv m m'}" by (intro subsetI CollectI)
    moreover have "finite {r. \<exists>m'. (r, m') \<in> set cm \<and> eqv m m'}"
      by (rule finite_subset [of _ "fst ` set cm"]) force+
    ultimately have "card R \<le> card {r. \<exists>m'. (r, m') \<in> set cm \<and> eqv m m'}" by (intro card_mono)
    also have "\<dots> = eq_count eqv m cm" using eq_count_card [of cm m] core_keys(1) [OF core] cm by simp
    finally have "card R \<le> eq_count eqv m cm" .
    then have cnt: "required c \<le> eq_count eqv m cm" using card by simp
    have tr: "SelfTrust c \<longrightarrow> hasTrustedSelfClass s"
      using self has tight cm unfolding cert_tight_def hasMsgFromReplica_def by force
    have "required c \<le> sizeOfBestClass s"
    proof (cases "hasTrustedSelfClass s")
      case True
      note t = trusted_self [OF core True]
      obtain m' where m': "(selfId c, m') \<in> set cm" "eqv m m'"
        using has self core_flags(3) [OF core True] by blast
      have "class_msg s 0 = m'" using map_of_is_SomeI [OF core_keys(1) [OF core], of "selfId c" m'] m'(1) cm t(5) by simp
      then have "eq_count eqv m cm = eq_count eqv (class_msg s 0) cm" using eq_count_eqv [OF m'(2)] by simp
      also have "\<dots> \<le> cls_size (msgClasses s ! 0)" using tight True unfolding cert_tight_def by blast
      finally show ?thesis using cnt core_best [OF core] t(2) by simp
    next
      case False
      then have exact: "cert_exact eqv cm s" using tight unfolding cert_tight_def by blast
      have "0 < eq_count eqv m cm" using cnt cfg by (simp add: cert_cfg_ok_def)
      then obtain i where i: "i < numOfClasses s" "eqv (class_msg s i) m"
        using exact_no_class [OF exact, of m] by auto
      have "eq_count eqv m cm = cls_size (msgClasses s ! i) \<and> cls_size (msgClasses s ! i) \<le> sizeOfBestClass s"
        using exact i(1) eq_count_eqv [OF i(2)] unfolding cert_exact_def by metis
      then show ?thesis using cnt by simp
    qed
    then show False using tight tr nc unfolding cert_tight_def by blast
  qed
  with s show ?thesis by blast
qed

text \<open>The own message after \<open>k > 0\<close> equivalent ones of peers counts twice.\<close>

lemma run_self_last:
  assumes cfg: "cert_cfg_ok c" and trust: "SelfTrust c" and self: "selfId c < numOfReps c"
    and ps: "\<forall>(m', r) \<in> set ps. r < numOfReps c \<and> r \<noteq> selfId c \<and> eqv m m'"
    and dist: "distinct (map snd ps)" and pos: "ps \<noteq> []"
  shows "\<exists>s. addMsgs c eqv (ps @ [(m, selfId c)]) (cert_new c) = Inr s \<and>
    length (msgsFromReplicas s) = length ps + 1 \<and> sizeOfBestClass s = length ps + 2 \<and>
    (complete s \<longleftrightarrow> required c \<le> length ps + 2)"
proof -
  have ids: "\<forall>(m', r) \<in> set ps. r < numOfReps c" using ps by auto
  from addMsgs_inv [OF cert_new_inv [OF cfg] cfg ids] obtain s cm where
    s: "addMsgs c eqv ps (cert_new c) = Inr s" and inv: "cert_inv eqv c cm s"
      and from_ps: "\<forall>(r, m) \<in> set (msgsFromReplicas s). (m, r) \<in> set ps"
      and keys: "fst ` set (msgsFromReplicas s) = snd ` set ps"
    by (auto simp: cert_new_def)
  have core: "cert_core eqv c cm s" and tight: "cert_tight eqv c cm s" using inv unfolding cert_inv_def by blast+
  have noself: "\<not> hasMsgFromReplica s (selfId c)" using keys ps unfolding hasMsgFromReplica_def by force
  then have tr: "\<not> hasTrustedSelfClass s" using trusted_self(1) [OF core] by blast
  have nc: "\<not> complete s" "\<not> full s" using core_flags(4,5) [OF core] trust tr by blast+
  have cm: "cm = msgsFromReplicas s" using inv nc by (simp add: cert_inv_def counting_def)
  have len: "length cm = length ps"
  proof -
    have "length cm = card (fst ` set cm)" using core_keys(1) [OF core] cm by (metis distinct_card length_map list.set_map)
    also have "\<dots> = card (set (map snd ps))" using keys cm by simp
    also have "\<dots> = length ps" using distinct_card [OF dist] by simp
    finally show ?thesis .
  qed
  have "filter (\<lambda>p. eqv m (snd p)) cm = cm" using from_ps ps cm by (fastforce simp: filter_id_conv)
  then have k: "eq_count eqv m cm = length ps" using len by (simp add: eq_count_def)
  let ?s1 = "s\<lparr>msgsFromReplicas := msgsFromReplicas s @ [(selfId c, m)]\<rparr>"
  have core1: "cert_core eqv c cm ?s1" by (rule append_core [OF core noself self])
  have "cert_exact eqv cm s" using tight tr unfolding cert_tight_def by blast
  then have exact1: "cert_exact eqv cm ?s1" by (rule append_exact [OF core])
  have m: "map_of (msgsFromReplicas ?s1) (selfId c) = Some m"
    using noself by (simp add: hasMsgFromReplica_def map_of_append map_add_def map_of_eq_None_iff [THEN iffD2])
  have "length cm \<le> numOfReps c" using core_keys(3) [OF core] cm by simp
  from addSelfMsg_result [OF core1 exact1 cfg this m] obtain s' where
    s': "addSelfMsg c eqv m ?s1 = Inr s'" "msgsFromReplicas s' = msgsFromReplicas ?s1"
      "sizeOfBestClass s' = length ps + 2" "complete s' \<longleftrightarrow> required c \<le> length ps + 2"
    using k pos nc by (auto simp: Let_def)
  have "addMsg c eqv m (selfId c) s = Inr (True, s')"
    using s'(1) nc noself trust by (simp add: addMsg_def Let_def)
  then have "addMsgs c eqv (ps @ [(m, selfId c)]) (cert_new c) = Inr s'" using s by (simp add: addMsgs_append)
  then show ?thesis using s' len cm by simp
qed

end

text \<open>Resetting a certificate gives a new one.\<close>

definition cert_clean :: "cert_cfg \<Rightarrow> 'm cert \<Rightarrow> bool" where
  "cert_clean c s \<longleftrightarrow> numOfClasses s \<le> numOfReps c \<and>
     drop (numOfClasses s) (msgClasses s) = replicate (numOfReps c - numOfClasses s) zero_classInfo"

lemma clear_classes_clean:
  assumes "cert_clean c s" "numOfClasses s \<le> length (msgClasses s)"
  shows "clear_classes (numOfClasses s) (msgClasses s) = replicate (numOfReps c) zero_classInfo"
  using assms by (simp add: clear_classes_def cert_clean_def flip: replicate_add)

lemma reset_clean:
  assumes core: "cert_core eqv c cm s" and clean: "cert_clean c s"
  shows "cert_resetAndFree s = cert_new c"
proof (cases "msgsFromReplicas s = []")
  case True
  have n: "numOfClasses s = 0"
  proof (rule ccontr)
    assume "numOfClasses s \<noteq> 0"
    then show False using core_rep [OF core, of 0] True by simp
  qed
  then have "\<not> hasTrustedSelfClass s" using core_flags(3) [OF core] by auto
  moreover have "msgClasses s = replicate (numOfReps c) zero_classInfo"
    using clean n by (simp add: cert_clean_def)
  ultimately show ?thesis using True n core_best [OF core]
    by (simp add: cert_resetAndFree_def Let_def isEmpty_def cert_new_def)
next
  case False
  have "(if numOfClasses s > 0 then clear_classes (numOfClasses s) (msgClasses s) else msgClasses s)
      = replicate (numOfReps c) zero_classInfo"
    using clear_classes_clean [OF clean] core_flags(1,2) [OF core] clean by (auto simp: cert_clean_def)
  then show ?thesis using False
    by (cases s) (auto simp: cert_resetAndFree_def Let_def isEmpty_def cert_new_def split: if_splits)
qed

lemma find_class_bound:
  "find_class eqv msgs cs i m = Inr (Some j) \<Longrightarrow> i \<le> j \<and> j < i + length cs"
  by (induction eqv msgs cs i m rule: find_class.induct) (force split: option.splits if_splits)+

lemma inc_class_clean:
  assumes "cert_clean c s" "i < numOfClasses s"
  shows "cert_clean c (s\<lparr>msgClasses := inc_class i (msgClasses s)\<rparr>)"
  using assms by (simp add: cert_clean_def inc_class_def)

lemma addPeer_to_class_clean:
  assumes clean: "cert_clean c s" and len: "length (msgClasses s) = numOfReps c"
  shows "cert_clean c (addPeer_to_class c r i s)"
proof (cases "i = NULL_CLASS \<and> numOfClasses s < numOfReps c")
  case True
  have "drop (Suc (numOfClasses s)) (msgClasses s) = tl (drop (numOfClasses s) (msgClasses s))"
    by (simp add: drop_Suc drop_tl)
  then show ?thesis using True clean by (auto simp: cert_clean_def addPeer_new_sel Suc_diff_Suc)
next
  case False
  then show ?thesis using clean
    by (cases "i = NULL_CLASS") (simp_all add: cert_clean_def addPeer_found_sel, simp add: addPeer_to_class_def)
qed

lemma addMsg_clean:
  assumes core: "cert_core eqv c cm s" and clean: "cert_clean c s" and pos: "0 < numOfReps c" and run: "addMsg c eqv m r s = Inr (b, s')"
  shows "cert_clean c s'"
proof -
  let ?s1 = "s\<lparr>msgsFromReplicas := msgsFromReplicas s @ [(r, m)]\<rparr>"
  have c1: "cert_clean c ?s1" using clean by (simp add: cert_clean_def)
  have len: "length (msgClasses ?s1) = numOfReps c" using core_flags(1) [OF core] by simp
  have inc: "cert_clean c (addPeer_to_class c r i (?s1\<lparr>msgClasses := inc_class i (msgClasses ?s1)\<rparr>))"
    if "i < numOfClasses s" for i
    by (rule addPeer_to_class_clean [OF inc_class_clean [OF c1]]) (use that len in \<open>simp_all add: inc_class_def\<close>)
  have tr: "0 < numOfClasses s" if "hasTrustedSelfClass s" using core_flags(3) [OF core that] by simp
  have bound: "i < numOfClasses s"
    if "find_class eqv msgs (take (numOfClasses s) (msgClasses s)) 0 m = Inr (Some i)" for msgs i
    using find_class_bound [OF that] by simp
  have peer: "cert_clean c s2" if "addPeerMsg c eqv m r ?s1 = Inr s2" for s2
    using that inc tr bound c1 addPeer_to_class_clean [OF c1 len]
    by (auto simp: addPeerMsg_def split: if_splits option.splits)
  have self: "cert_clean c s2" if "addSelfMsg c eqv m ?s1 = Inr s2" for s2
  proof -
    have cl: "clear_classes (numOfClasses s) (msgClasses s) = replicate (numOfReps c) zero_classInfo"
      by (rule clear_classes_clean [OF clean]) (use core_flags(1,2) [OF core] in simp)
    have "clear_classes (numOfClasses s) (inc_class i (msgClasses s)) = replicate (numOfReps c) zero_classInfo"
      if "i < numOfClasses s" for i
      using cl that by (simp add: clear_classes_def inc_class_def)
    then show ?thesis using that bound cl pos
      by (auto simp: addSelfMsg_def Let_def cert_clean_def Suc_le_eq split: option.splits if_splits)
  qed
  show ?thesis using run peer self clean c1 by (auto simp: addMsg_def Let_def split: if_splits)
qed

lemma addMsgs_clean:
  assumes "cert_messages eqv" "cert_inv eqv c cm s" "cert_cfg_ok c" "\<forall>(m, r) \<in> set ms. r < numOfReps c"
    and "cert_clean c s" "addMsgs c eqv ms s = Inr s'"
  shows "cert_clean c s'"
  using assms(2,4,5,6)
proof (induction ms arbitrary: s cm)
  case (Cons p ms)
  obtain m r where p: "p = (m, r)" by (cases p)
  with Cons.prems(2) have r: "r < numOfReps c" by simp
  from cert_messages.addMsg_inv [OF assms(1) Cons.prems(1) assms(3) r, of m] obtain b s1 cm1 where
    s1: "addMsg c eqv m r s = Inr (b, s1)" and inv1: "cert_inv eqv c cm1 s1" by blast
  have "cert_core eqv c cm s" using Cons.prems(1) unfolding cert_inv_def by blast
  then have "cert_clean c s1"
    by (rule addMsg_clean [OF _ Cons.prems(3) _ s1]) (use assms(3) in \<open>simp add: cert_cfg_ok_def\<close>)
  then show ?case using Cons.IH [OF inv1] Cons.prems(2,4) s1 p by simp
qed simp

section \<open>Checkpoint certificates\<close>

interpretation cp: cert_messages checkpoint_equivalent
  by unfold_locales (auto simp: checkpoint_equivalent_def)

lemma checkpoint_cfg_ok:
  assumes "0 < F" "3 * F + 2 * C + 1 < 65534"
  shows "cert_cfg_ok (checkpoint_cert_cfg Self F C myId)"
  using assms by (simp add: cert_cfg_ok_def checkpoint_cert_cfg_def)

lemma checkpoint_cfg_simps [simp]:
  "numOfReps (checkpoint_cert_cfg Self F C myId) = 3 * F + 2 * C + 1"
  "required (checkpoint_cert_cfg Self F C myId) = 2 * F + C + 1"
  "SelfTrust (checkpoint_cert_cfg Self F C myId) = Self"
  "SelfIsRequired (checkpoint_cert_cfg Self F C myId) = Self"
  "KeepAllMsgs (checkpoint_cert_cfg Self F C myId) = True"
  "selfId (checkpoint_cert_cfg Self F C myId) = myId"
  by (simp_all add: checkpoint_cert_cfg_def)

lemma addCheckpointMsgs_cert:
  "addCheckpointMsgs c ms i =
     rbind (addMsgs c checkpoint_equivalent ms (checkpointCertificate i)) (\<lambda>s. Inr (i\<lparr>checkpointCertificate := s\<rparr>))"
proof (induction ms arbitrary: i)
  case (Cons p ms)
  obtain m r where p: "p = (m, r)" by (cases p)
  show ?case
    by (cases "addMsg c checkpoint_equivalent m r (checkpointCertificate i)")
      (auto simp: p addCheckpointMsg_def Cons.IH)
qed simp

lemma checkpoint_run:
  "addCheckpointMsgs c ms (CheckpointInfo_new Self F C myId) = Inr i \<longleftrightarrow>
     (\<exists>s. addMsgs c checkpoint_equivalent ms (cert_new (checkpoint_cert_cfg Self F C myId)) = Inr s \<and>
        i = (CheckpointInfo_new Self F C myId)\<lparr>checkpointCertificate := s\<rparr>)"
  by (auto simp: addCheckpointMsgs_cert CheckpointInfo_new_def)

text \<open>Two quorums with at most \<open>F\<close> faulty replicas share a correct one.\<close>

lemma quorum_intersection:
  fixes R1 R2 H :: "nat set"
  assumes "R1 \<subseteq> {..<n}" "R2 \<subseteq> {..<n}" "card ({..<n} - H) \<le> F" "n + F + 1 \<le> card R1 + card R2"
  shows "\<exists>r. r \<in> R1 \<inter> R2 \<inter> H"
proof (rule ccontr)
  assume "\<not> ?thesis"
  then have sub: "R1 \<inter> R2 \<subseteq> {..<n} - H" using assms(1) by blast
  have fin: "finite R1" "finite R2" using assms(1,2) finite_subset by blast+
  have "card R1 + card R2 = card (R1 \<union> R2) + card (R1 \<inter> R2)" by (rule card_Un_Int [OF fin])
  moreover have "card (R1 \<union> R2) \<le> card {..<n}" using assms(1,2) by (intro card_mono) auto
  moreover have "card (R1 \<inter> R2) \<le> card ({..<n} - H)" by (rule card_mono [OF _ sub]) simp
  ultimately show False using assms(3,4) by simp
qed

lemma numeral_eq_replicate: "replicate (numeral n) x = x # replicate (pred_numeral n) x"
  by (simp add: numeral_eq_Suc)

text \<open>
  C7. What a checkpoint certificate that is completed by adding messages proves. For \<^verbatim>\<open>CheckpointInfo<false>\<close> (the read-only
  replica) at least \<open>2F + C + 1\<close> distinct replicas, the required number, sent the same checkpoint. For
  \<^verbatim>\<open>CheckpointInfo<true>\<close> the own message and, together with it, at least \<open>2F + C\<close> messages of distinct replicas agree, which
  is one less than required, because the own message may be counted twice. A certificate that
  \<^verbatim>\<open>tryToMarkCheckpointCertificateCompleted\<close> marks as complete is not covered: it proves nothing about the messages.
\<close>

theorem checkpoint_complete_safe:
  assumes "0 < F" "3 * F + 2 * C + 1 < 65534" "\<forall>(m, r) \<in> set ms. r < 3 * F + 2 * C + 1"
    and "addCheckpointMsgs (checkpoint_cert_cfg Self F C myId) ms (CheckpointInfo_new Self F C myId) = Inr i"
    and "isCheckpointCertificateComplete i"
  shows "\<exists>m R. R \<subseteq> {..<3 * F + 2 * C + 1} \<and>
    (if Self then 2 * F + C \<le> card R \<and> myId \<in> R else 2 * F + C + 1 \<le> card R) \<and>
    (\<forall>r \<in> R. \<exists>m'. (m', r) \<in> set ms \<and> checkpoint_equivalent m m')"
proof -
  let ?c = "checkpoint_cert_cfg Self F C myId"
  from assms(4,5) obtain s where s: "addMsgs ?c checkpoint_equivalent ms (cert_new ?c) = Inr s" "complete s"
    by (auto simp: checkpoint_run isCheckpointCertificateComplete_def)
  have "\<exists>m R. R \<subseteq> {..<numOfReps ?c} \<and> required ?c \<le> card R + (if SelfTrust ?c then 1 else 0) \<and>
    (SelfTrust ?c \<longrightarrow> selfId ?c \<in> R) \<and> (\<forall>r \<in> R. \<exists>m'. (m', r) \<in> set ms \<and> checkpoint_equivalent m m')"
    by (rule cp.run_safe [OF checkpoint_cfg_ok [OF assms(1,2)] _ s(1)]) (use assms(3) s(2) in auto)
  then show ?thesis by (cases Self) auto
qed

lemmas cert_eval = result_sat_def addCheckpointMsg_def addMsg_def addPeerMsg_def addSelfMsg_def
  addPeer_to_class_def hasMsgFromReplica_def inc_class_def clear_classes_def checkpoint_equivalent_def
  cp_example_def CheckpointInfo_new_def cert_new_def isCheckpointCertificateComplete_def NULL_CLASS_def
  numeral_eq_replicate zero_classInfo_def Let_def

theorem checkpoint_complete_safe_witness:
  "\<exists>m (R :: ReplicaId set). R \<subseteq> {..<4} \<and> 3 \<le> card R \<and>
    (\<forall>r \<in> R. \<exists>m'. (m', r) \<in> set [(cp_example 5, 0), (cp_example 6, 1), (cp_example 5, 2), (cp_example 5, 3)] \<and>
      checkpoint_equivalent m m')"
proof -
  let ?ms = "[(cp_example 5, 0), (cp_example 6, 1), (cp_example 5, 2), (cp_example 5, 3)]"
  have "result_sat isCheckpointCertificateComplete
      (addCheckpointMsgs (checkpoint_cert_cfg False 1 0 9) ?ms (CheckpointInfo_new False 1 0 9))" by (simp add: cert_eval)
  from result_satD [OF this] obtain i where
    i: "addCheckpointMsgs (checkpoint_cert_cfg False 1 0 9) ?ms (CheckpointInfo_new False 1 0 9) = Inr i"
      "isCheckpointCertificateComplete i" by blast
  show ?thesis using checkpoint_complete_safe [OF _ _ _ i] by simp
qed



text \<open>
  C10. Agreement of read-only replicas: if at most \<open>F\<close> replicas send different checkpoints to two
  read-only replicas, then two complete certificates are for the same checkpoint.
\<close>

theorem ro_checkpoint_agreement:
  assumes F: "0 < F" "3 * F + 2 * C + 1 < 65534"
    and ids: "\<forall>(m, r) \<in> set ms1 \<union> set ms2. r < 3 * F + 2 * C + 1"
    and run1: "addCheckpointMsgs (checkpoint_cert_cfg False F C id1) ms1 (CheckpointInfo_new False F C id1) = Inr i1"
    and run2: "addCheckpointMsgs (checkpoint_cert_cfg False F C id2) ms2 (CheckpointInfo_new False F C id2) = Inr i2"
    and complete: "isCheckpointCertificateComplete i1" "isCheckpointCertificateComplete i2"
    and faulty: "card ({..<3 * F + 2 * C + 1} - H) \<le> F"
    and correct: "\<forall>(m1, r1) \<in> set ms1. \<forall>(m2, r2) \<in> set ms2. r1 = r2 \<and> r1 \<in> H \<longrightarrow> checkpoint_equivalent m1 m2"
  shows "\<exists>m R1 R2. 2 * F + C + 1 \<le> card R1 \<and> 2 * F + C + 1 \<le> card R2 \<and>
    (\<forall>r \<in> R1. \<exists>m'. (m', r) \<in> set ms1 \<and> checkpoint_equivalent m m') \<and>
    (\<forall>r \<in> R2. \<exists>m'. (m', r) \<in> set ms2 \<and> checkpoint_equivalent m m')"
proof -
  have quorum: "\<exists>m R. R \<subseteq> {..<3 * F + 2 * C + 1} \<and> 2 * F + C + 1 \<le> card R \<and>
      (\<forall>r \<in> R. \<exists>m'. (m', r) \<in> set ms \<and> checkpoint_equivalent m m')"
    if "\<forall>(m, r) \<in> set ms. r < 3 * F + 2 * C + 1" "isCheckpointCertificateComplete i"
      "addCheckpointMsgs (checkpoint_cert_cfg False F C myId) ms (CheckpointInfo_new False F C myId) = Inr i"
    for ms i myId
    using cp.run_safe [OF checkpoint_cfg_ok [OF F], of ms False myId] that
    by (fastforce simp: checkpoint_run isCheckpointCertificateComplete_def)
  from ids have ids': "\<forall>(m, r) \<in> set ms1. r < 3 * F + 2 * C + 1" "\<forall>(m, r) \<in> set ms2. r < 3 * F + 2 * C + 1" by auto
  from quorum [OF ids'(1) complete(1) run1] obtain m1 R1 where
    R1: "R1 \<subseteq> {..<3 * F + 2 * C + 1}" "2 * F + C + 1 \<le> card R1"
      "\<forall>r \<in> R1. \<exists>m'. (m', r) \<in> set ms1 \<and> checkpoint_equivalent m1 m'" by blast
  from quorum [OF ids'(2) complete(2) run2] obtain m2 R2 where
    R2: "R2 \<subseteq> {..<3 * F + 2 * C + 1}" "2 * F + C + 1 \<le> card R2"
      "\<forall>r \<in> R2. \<exists>m'. (m', r) \<in> set ms2 \<and> checkpoint_equivalent m2 m'" by blast
  from quorum_intersection [OF R1(1) R2(1) faulty] R1(2) R2(2) obtain r where r: "r \<in> R1" "r \<in> R2" "r \<in> H" by auto
  from R1(3) r(1) obtain a where a: "(a, r) \<in> set ms1" "checkpoint_equivalent m1 a" by blast
  from R2(3) r(2) obtain b where b: "(b, r) \<in> set ms2" "checkpoint_equivalent m2 b" by blast
  have "checkpoint_equivalent a b" using correct a(1) b(1) r(3) by fastforce
  then have m12: "checkpoint_equivalent m1 m2"
    using a(2) b(2) by (auto simp: checkpoint_equivalent_def)
  have "\<exists>m'. (m', r) \<in> set ms2 \<and> checkpoint_equivalent m1 m'" if "r \<in> R2" for r
    using R2(3) that cp.eqv_trans [OF m12] by blast
  then show ?thesis using R1 R2(2) by blast
qed

theorem ro_checkpoint_agreement_witness:
  "\<exists>m (R1 :: ReplicaId set) (R2 :: ReplicaId set). 3 \<le> card R1 \<and> 3 \<le> card R2 \<and>
    (\<forall>r \<in> R1. \<exists>m'. (m', r) \<in> set [(cp_example 5, 0), (cp_example 5, 1), (cp_example 5, 2)] \<and> checkpoint_equivalent m m') \<and>
    (\<forall>r \<in> R2. \<exists>m'. (m', r) \<in> set [(cp_example 6, 0), (cp_example 5, 1), (cp_example 5, 3), (cp_example 5, 2)] \<and>
      checkpoint_equivalent m m')"
proof -
  let ?ms1 = "[(cp_example 5, 0), (cp_example 5, 1), (cp_example 5, 2)]"
  let ?ms2 = "[(cp_example 6, 0), (cp_example 5, 1), (cp_example 5, 3), (cp_example 5, 2)]"
  have "result_sat isCheckpointCertificateComplete
      (addCheckpointMsgs (checkpoint_cert_cfg False 1 0 8) ?ms1 (CheckpointInfo_new False 1 0 8))" by (simp add: cert_eval)
  from result_satD [OF this] obtain i1 where
    i1: "addCheckpointMsgs (checkpoint_cert_cfg False 1 0 8) ?ms1 (CheckpointInfo_new False 1 0 8) = Inr i1"
      "isCheckpointCertificateComplete i1" by blast
  have "result_sat isCheckpointCertificateComplete
      (addCheckpointMsgs (checkpoint_cert_cfg False 1 0 9) ?ms2 (CheckpointInfo_new False 1 0 9))" by (simp add: cert_eval)
  from result_satD [OF this] obtain i2 where
    i2: "addCheckpointMsgs (checkpoint_cert_cfg False 1 0 9) ?ms2 (CheckpointInfo_new False 1 0 9) = Inr i2"
      "isCheckpointCertificateComplete i2" by blast
  have "{..<4} - {1, 2, 3} = {0::nat}" by auto
  then show ?thesis
    using ro_checkpoint_agreement [OF _ _ _ i1(1) i2(1) i1(2) i2(2), of "{1, 2, 3}"]
    by (simp add: checkpoint_equivalent_def)
qed

text \<open>
  C20. The own checkpoint message is counted twice when it is added to a class that exists:
  with the same checkpoint from \<open>2F + C - 1\<close> peers, the own message completes the certificate of
  \<^verbatim>\<open>CheckpointInfo<true>\<close>, although only \<open>2F + C\<close> replicas sent it, one less than the
  \<open>2F + C + 1\<close> the certificate requires.
\<close>

theorem checkpoint_self_overcount:
  assumes "0 < F" "3 * F + 2 * C + 1 < 65534" "myId < 3 * F + 2 * C + 1"
    and "\<forall>(m', r) \<in> set ps. r < 3 * F + 2 * C + 1 \<and> r \<noteq> myId \<and> checkpoint_equivalent m m'"
    and "distinct (map snd ps)" "length ps = 2 * F + C - 1"
  shows "\<exists>i. addCheckpointMsgs (checkpoint_cert_cfg True F C myId) (ps @ [(m, myId)]) (CheckpointInfo_new True F C myId) = Inr i \<and>
    isCheckpointCertificateComplete i \<and> length (msgsFromReplicas (checkpointCertificate i)) = 2 * F + C"
proof -
  let ?c = "checkpoint_cert_cfg True F C myId"
  have "ps \<noteq> []" using assms(1,6) by auto
  then have "\<exists>s. addMsgs ?c checkpoint_equivalent (ps @ [(m, selfId ?c)]) (cert_new ?c) = Inr s \<and>
    length (msgsFromReplicas s) = length ps + 1 \<and> sizeOfBestClass s = length ps + 2 \<and>
    (complete s \<longleftrightarrow> required ?c \<le> length ps + 2)"
    by (intro cp.run_self_last [OF checkpoint_cfg_ok [OF assms(1,2)]]) (use assms(3-5) in auto)
  then show ?thesis using assms(1,6) by (auto simp: checkpoint_run isCheckpointCertificateComplete_def)
qed

theorem checkpoint_self_overcount_witness:
  "\<exists>i. addCheckpointMsgs (checkpoint_cert_cfg True 1 0 0) [(cp_example 5, 3), (cp_example 5, 0)]
      (CheckpointInfo_new True 1 0 0) = Inr i \<and>
    isCheckpointCertificateComplete i \<and> length (msgsFromReplicas (checkpointCertificate i)) = 2"
  using checkpoint_self_overcount [of 1 0 0 "[(cp_example 5, 3)]" "cp_example 5"]
  by (simp add: checkpoint_equivalent_def)

text \<open>
  C21. A super stable checkpoint of a read-only replica was sent by all the replicas.
\<close>

theorem checkpoint_superstable_safe:
  assumes "0 < F" "3 * F + 2 * C + 1 < 65534" "\<forall>(m, r) \<in> set ms. r < 3 * F + 2 * C + 1"
    and "addCheckpointMsgs (checkpoint_cert_cfg False F C myId) ms (CheckpointInfo_new False F C myId) = Inr i"
    and "isCheckpointSuperStable i"
  shows "\<exists>m. \<forall>r < 3 * F + 2 * C + 1. \<exists>m'. (m', r) \<in> set ms \<and> checkpoint_equivalent m m'"
proof -
  let ?c = "checkpoint_cert_cfg False F C myId"
  from assms(4,5) obtain s where s: "addMsgs ?c checkpoint_equivalent ms (cert_new ?c) = Inr s" "full s"
    by (auto simp: checkpoint_run isCheckpointSuperStable_def)
  have "\<exists>m R. R \<subseteq> {..<numOfReps ?c} \<and> numOfReps ?c \<le> card R + (if SelfTrust ?c then 1 else 0) \<and>
    (SelfTrust ?c \<longrightarrow> selfId ?c \<in> R) \<and> (\<forall>r \<in> R. \<exists>m'. (m', r) \<in> set ms \<and> checkpoint_equivalent m m')"
    by (rule cp.run_safe [OF checkpoint_cfg_ok [OF assms(1,2)] _ s(1)]) (use assms(3) s(2) in auto)
  then obtain m R where R: "R \<subseteq> {..<3 * F + 2 * C + 1}" "3 * F + 2 * C + 1 \<le> card R"
    and m: "\<forall>r \<in> R. \<exists>m'. (m', r) \<in> set ms \<and> checkpoint_equivalent m m'" by auto
  have "R = {..<3 * F + 2 * C + 1}" using R by (intro card_seteq) simp_all
  with m show ?thesis by auto
qed

theorem checkpoint_superstable_safe_witness:
  "\<exists>m. \<forall>r < (4 :: ReplicaId). \<exists>m'. (m', r) \<in> set [(cp_example 5, 2), (cp_example 5, 0), (cp_example 5, 1), (cp_example 5, 3)] \<and>
     checkpoint_equivalent m m'"
proof -
  let ?ms = "[(cp_example 5, 2), (cp_example 5, 0), (cp_example 5, 1), (cp_example 5, 3)]"
  have "result_sat isCheckpointSuperStable
      (addCheckpointMsgs (checkpoint_cert_cfg False 1 0 9) ?ms (CheckpointInfo_new False 1 0 9))"
    by (simp add: cert_eval isCheckpointSuperStable_def)
  from result_satD [OF this] obtain i where
    i: "addCheckpointMsgs (checkpoint_cert_cfg False 1 0 9) ?ms (CheckpointInfo_new False 1 0 9) = Inr i"
      "isCheckpointSuperStable i" by blast
  show ?thesis using checkpoint_superstable_safe [OF _ _ _ i] by simp
qed

text \<open>
  Resetting the slot of a checkpoint, whatever was added to it, gives the new slot: nothing of
  the old messages, classes or flags remains.
\<close>

theorem checkpoint_reset_new:
  assumes "0 < F" "3 * F + 2 * C + 1 < 65534" "\<forall>(m, r) \<in> set ms. r < 3 * F + 2 * C + 1"
    and "addCheckpointMsgs (checkpoint_cert_cfg Self F C myId) ms (CheckpointInfo_new Self F C myId) = Inr i"
  shows "CheckpointInfo_resetAndFree i = CheckpointInfo_new Self F C myId"
proof -
  let ?c = "checkpoint_cert_cfg Self F C myId"
  note cfg = checkpoint_cfg_ok [OF assms(1,2)]
  have ids: "\<forall>(m, r) \<in> set ms. r < numOfReps ?c" using assms(3) by simp
  from assms(4) obtain s where s: "addMsgs ?c checkpoint_equivalent ms (cert_new ?c) = Inr s"
    and i: "i = (CheckpointInfo_new Self F C myId)\<lparr>checkpointCertificate := s\<rparr>" by (auto simp: checkpoint_run)
  from cp.addMsgs_inv [OF cert_new_inv [OF cfg] cfg ids] s obtain cm where
    "cert_inv checkpoint_equivalent ?c cm s" by auto
  then have "cert_core checkpoint_equivalent ?c cm s" unfolding cert_inv_def by blast
  moreover have "cert_clean ?c s"
    by (rule addMsgs_clean [OF cp.cert_messages_axioms cert_new_inv [OF cfg] cfg ids _ s])
      (simp add: cert_clean_def cert_new_def)
  ultimately have "cert_resetAndFree s = cert_new ?c" by (rule reset_clean)
  then show ?thesis by (simp add: i CheckpointInfo_resetAndFree_def CheckpointInfo_new_def)
qed

theorem checkpoint_reset_new_witness:
  "\<exists>i. addCheckpointMsgs (checkpoint_cert_cfg True 1 0 0) [(cp_example 5, 3), (cp_example 6, 1), (cp_example 5, 0)]
      (CheckpointInfo_new True 1 0 0) = Inr i \<and> isCheckpointCertificateComplete i \<and>
    CheckpointInfo_resetAndFree i = CheckpointInfo_new True 1 0 0"
proof -
  let ?ms = "[(cp_example 5, 3), (cp_example 6, 1), (cp_example 5, 0)]"
  have "result_sat isCheckpointCertificateComplete
      (addCheckpointMsgs (checkpoint_cert_cfg True 1 0 0) ?ms (CheckpointInfo_new True 1 0 0))"
    by (simp add: cert_eval tryToMarkComplete_def)
  from result_satD [OF this] obtain i where
    i: "addCheckpointMsgs (checkpoint_cert_cfg True 1 0 0) ?ms (CheckpointInfo_new True 1 0 0) = Inr i"
      "isCheckpointCertificateComplete i" by blast
  have r: "CheckpointInfo_resetAndFree i = CheckpointInfo_new True 1 0 0"
    by (rule checkpoint_reset_new [OF _ _ _ i(1)]) simp_all
  show ?thesis by (intro exI [of _ i] conjI i r)
qed

end
