(* ===== verification/Byte_Buffers.thy ===== *)
theory Byte_Buffers
  imports Concord_Prelude "HOL-Library.Word"
begin

unbundle bit_operations_syntax

text \<open>
  Messages and signatures are byte buffers that the source reads and writes through packed structures. A read
  or a write past the end of a buffer is undefined behaviour; scalars are little-endian.
\<close>

type_synonym bytes = "8 word list"

section \<open>Little-endian scalars\<close>

definition le_nat :: "bytes \<Rightarrow> nat" where
  "le_nat bs = foldr (\<lambda>b n. unat b + 256 * n) bs 0"

definition le_bytes :: "nat \<Rightarrow> nat \<Rightarrow> bytes" where
  "le_bytes k n = map (\<lambda>i. word_of_nat (n div 256 ^ i)) [0..<k]"

text \<open>A signed 64-bit scalar.\<close>

definition le_s64 :: "int \<Rightarrow> bytes" where
  "le_s64 x = le_bytes 8 (nat (x mod 2 ^ 64))"

definition s64 :: "nat \<Rightarrow> int" where
  "s64 n = (if n < 2 ^ 63 then int n else int n - 2 ^ 64)"

lemma le_bytes_Suc: "le_bytes (Suc k) n = word_of_nat n # le_bytes k (n div 256)"
proof -
  have "[0..<Suc k] = 0 # map Suc [0..<k]" by (metis map_Suc_upt upt_conv_Cons zero_less_Suc)
  then show ?thesis by (simp add: le_bytes_def div_mult2_eq)
qed

lemma length_le_bytes [simp]: "length (le_bytes k n) = k"
  by (simp add: le_bytes_def)

lemma length_le_s64 [simp]: "length (le_s64 x) = 8"
  by (simp add: le_s64_def)

lemma le_nat_bytes: "le_nat (le_bytes k n) = n mod 256 ^ k"
proof (induction k arbitrary: n)
  case (Suc k)
  have "unat (word_of_nat n :: 8 word) = n mod 256" by (simp add: unat_of_nat)
  then have "le_nat (le_bytes (Suc k) n) = n mod 256 + 256 * (n div 256 mod 256 ^ k)"
    using Suc by (simp add: le_bytes_Suc le_nat_def)
  also have "\<dots> = n mod 256 ^ Suc k" by (simp add: mod_mult2_eq)
  finally show ?case .
qed (simp add: le_nat_def le_bytes_def)

lemma le_bytes_nat: "length bs = k \<Longrightarrow> le_bytes k (le_nat bs) = bs"
proof (induction bs arbitrary: k)
  case (Cons b bs)
  have "unat b < 256" using unsigned_less [of b] by simp
  moreover have "(256 :: 8 word) = 0" by simp
  ultimately have "(word_of_nat (unat b + 256 * n) :: 8 word) = b" "(unat b + 256 * n) div 256 = n" for n
    by (simp_all only: of_nat_add of_nat_mult of_nat_numeral) simp_all
  then show ?case using Cons by (auto simp: le_nat_def le_bytes_Suc)
qed (simp add: le_bytes_def)

lemma le_nat_less: "le_nat bs < 256 ^ length bs"
proof (induction bs)
  case (Cons b bs)
  have "unat b < 256" using unsigned_less [of b] by simp
  then show ?case using Cons by (simp add: le_nat_def)
qed (simp add: le_nat_def)

lemma s64_le_s64: "- (2 ^ 63) \<le> x \<Longrightarrow> x < 2 ^ 63 \<Longrightarrow> s64 (le_nat (le_s64 x)) = x"
proof -
  assume a: "- (2 ^ 63) \<le> x" "x < 2 ^ 63"
  have "le_nat (le_s64 x) = nat (x mod 2 ^ 64)"
    by (simp add: le_s64_def le_nat_bytes mod_less nat_less_iff)
  moreover have "x mod 2 ^ 64 = (if x < 0 then x + 2 ^ 64 else x)"
  proof (cases "x < 0")
    case True
    have "x mod 2 ^ 64 = (x + 2 ^ 64) mod 2 ^ 64" by simp
    also have "\<dots> = x + 2 ^ 64" using a True by (intro mod_pos_pos_trivial) auto
    finally show ?thesis using True by simp
  qed (use a in simp)
  ultimately show "s64 (le_nat (le_s64 x)) = x" using a by (auto simp: s64_def nat_less_iff)
qed

section \<open>Reads and writes\<close>

definition rd_bytes :: "nat \<Rightarrow> nat \<Rightarrow> bytes \<Rightarrow> bytes result" where
  "rd_bytes off k buf = (if off + k \<le> length buf then Inr (take k (drop off buf)) else Inl UndefinedBehaviour)"

definition rd :: "nat \<Rightarrow> nat \<Rightarrow> bytes \<Rightarrow> nat result" where
  "rd off k buf = (if off + k \<le> length buf then Inr (le_nat (take k (drop off buf))) else Inl UndefinedBehaviour)"

definition rd_s64 :: "nat \<Rightarrow> bytes \<Rightarrow> int result" where
  "rd_s64 off buf = rbind (rd off 8 buf) (\<lambda>n. Inr (s64 n))"

definition wr :: "nat \<Rightarrow> bytes \<Rightarrow> bytes \<Rightarrow> bytes result" where
  "wr off bs buf =
     (if off + length bs \<le> length buf then Inr (take off buf @ bs @ drop (off + length bs) buf) else Inl UndefinedBehaviour)"

text \<open>The field of a buffer that is long enough for it.\<close>

definition fld :: "nat \<Rightarrow> nat \<Rightarrow> bytes \<Rightarrow> nat" where
  "fld off k buf = le_nat (take k (drop off buf))"

lemma rd_fld: "off + k \<le> length buf \<Longrightarrow> rd off k buf = Inr (fld off k buf)"
  by (simp add: rd_def fld_def)

lemma rd_Inr: "rd off k buf = Inr n \<longleftrightarrow> off + k \<le> length buf \<and> n = fld off k buf"
  by (auto simp: rd_def fld_def)

lemma rd_short: "length buf < off + k \<Longrightarrow> rd off k buf = Inl UndefinedBehaviour"
  by (simp add: rd_def)

lemma rd_bytes_Inr: "rd_bytes off k buf = Inr bs \<longleftrightarrow> off + k \<le> length buf \<and> bs = take k (drop off buf)"
  by (auto simp: rd_bytes_def)

lemma fld_less: "fld off k buf < 256 ^ k"
proof -
  have "le_nat (take k (drop off buf)) < 256 ^ length (take k (drop off buf))" by (rule le_nat_less)
  also have "\<dots> \<le> 256 ^ k" by (intro power_increasing) simp_all
  finally show ?thesis by (simp add: fld_def)
qed

text \<open>Fields of a buffer that is built by appending.\<close>

lemma fld_append1: "off + k \<le> length xs \<Longrightarrow> fld off k (xs @ ys) = fld off k xs"
  by (simp add: fld_def)

lemma fld_append2: "length xs \<le> off \<Longrightarrow> fld off k (xs @ ys) = fld (off - length xs) k ys"
  by (simp add: fld_def)

lemma fld_whole: "length xs = k \<Longrightarrow> fld 0 k xs = le_nat xs"
  by (simp add: fld_def)

lemma fld_Cons: "fld (Suc n) k (x # xs) = fld n k xs" "fld (numeral v) k (x # xs) = fld (numeral v - 1) k xs"
  by (simp_all add: fld_def)

lemmas fld_simps = fld_append1 fld_append2 fld_whole le_nat_bytes

lemma length_wr: "wr off bs buf = Inr buf' \<Longrightarrow> length buf' = length buf"
  by (auto simp: wr_def split: if_splits)

lemma wr_total: "off + length bs \<le> length buf \<Longrightarrow> \<exists>buf'. wr off bs buf = Inr buf' \<and> length buf' = length buf"
  by (auto simp: wr_def)

lemma take_drop_wr_same:
  assumes "wr off bs buf = Inr buf'" "k = length bs"
  shows "take k (drop off buf') = bs"
  using assms by (auto simp: wr_def min_def split: if_splits)

lemma fld_wr_same: "wr off bs buf = Inr buf' \<Longrightarrow> k = length bs \<Longrightarrow> fld off k buf' = le_nat bs"
  unfolding fld_def by (simp add: take_drop_wr_same)

lemma take_drop_wr_before:
  assumes "wr off bs buf = Inr buf'" "o' + k \<le> off"
  shows "take k (drop o' buf') = take k (drop o' buf)"
proof -
  from assms have "off \<le> length buf" "buf' = take off buf @ bs @ drop (off + length bs) buf"
    by (auto simp: wr_def split: if_splits)
  moreover have "min k (off - o') = k" using assms(2) by simp
  ultimately show ?thesis using assms(2) by (simp add: drop_take)
qed

lemma take_drop_wr_after:
  assumes "wr off bs buf = Inr buf'" "off + length bs \<le> o'"
  shows "take k (drop o' buf') = take k (drop o' buf)"
proof -
  from assms have "off + length bs \<le> length buf" "buf' = take off buf @ bs @ drop (off + length bs) buf"
    by (auto simp: wr_def split: if_splits)
  then show ?thesis using assms(2) by simp
qed

lemma fld_wr_other: "wr off bs buf = Inr buf' \<Longrightarrow> o' + k \<le> off \<or> off + length bs \<le> o' \<Longrightarrow> fld o' k buf' = fld o' k buf"
  unfolding fld_def using take_drop_wr_before take_drop_wr_after by metis

section \<open>Conditions that read\<close>

text \<open>
  The disjunction of conditions that may fail, evaluated from left to right as the source does, and a check that throws.
\<close>

fun rany :: "bool result list \<Rightarrow> bool result" where
  "rany [] = Inr False"
| "rany (x # xs) = rbind x (\<lambda>b. if b then Inr True else rany xs)"

definition throw_if :: "bool result \<Rightarrow> 'a result \<Rightarrow> 'a result" where
  "throw_if c k = rbind c (\<lambda>b. if b then Inl RuntimeError else k)"

lemma throw_if_Inr [simp]: "throw_if c k = Inr v \<longleftrightarrow> c = Inr False \<and> k = Inr v"
  by (auto simp: throw_if_def)

lemma throw_if_val [simp]: "throw_if (Inr b) k = (if b then Inl RuntimeError else k)" "throw_if (Inl e) k = Inl e"
  by (simp_all add: throw_if_def)

lemma rany_False [simp]:
  "rany [] = Inr False"
  "rany (x # xs) = Inr False \<longleftrightarrow> x = Inr False \<and> rany xs = Inr False"
  by (auto split: if_splits)

lemma throw_if_if [simp]: "throw_if (if b then Inr True else c) k = (if b then Inl RuntimeError else throw_if c k)"
  by simp

end
