(* ===== verification/Replicas_Info.thy ===== *)
theory Replicas_Info
  imports Concord_Prelude "HOL-Library.Signed_Division"
begin

text \<open>
  bftengine/src/bftengine/ReplicasInfo.{hpp,cpp}: the identifiers of the principals, the primary of a view and
  the collectors of the partial commit proofs.
\<close>

section \<open>Configuration\<close>

text \<open>The fields of \<^verbatim>\<open>ReplicaConfig\<close> (bftengine/include/bftengine/ReplicaConfig.hpp) that this class reads.\<close>

record ReplicaConfig =
  cfg_replicaId :: nat
  cfg_numReplicas :: nat
  cfg_numRoReplicas :: nat
  cfg_numOfClientProxies :: nat
  cfg_numOfExternalClients :: nat
  cfg_numOfClientServices :: nat
  cfg_fVal :: nat
  cfg_cVal :: nat
  cfg_operatorEnabled :: bool

record ReplicasInfo =
  myId :: ReplicaId
  numberOfReplicas :: nat
  numberOfRoReplicas :: nat
  numOfClientProxies :: nat
  numberOfExternalClients :: nat
  numberOfClientServices :: nat
  numberOfInternalClients :: nat
  maxValidPrincipalId :: nat
  fVal :: nat
  cVal :: nat
  dynamicCollectorForPartialProofs :: bool
  dynamicCollectorForExecutionProofs :: bool
  idsOfPeerReplicas :: "nat list"
  idsOfPeerROReplicas :: "nat list"
  idsOfClientProxies :: "nat list"
  idsOfExternalClients :: "nat list"
  idsOfClientServices :: "nat list"
  idsOfInternalClients :: "nat list"

definition operator_slots :: "ReplicaConfig \<Rightarrow> nat" where
  "operator_slots config = (if cfg_operatorEnabled config then 1 else 0)"

text \<open>
  The lambdas that fill the sets. The loop variables \<^verbatim>\<open>i\<close> are \<^verbatim>\<open>int\<close> except in the second one, where the bounds
  are stored into \<^verbatim>\<open>uint16_t\<close>; inserting into a set of \<^verbatim>\<open>uint16_t\<close> truncates.
\<close>

definition peer_replicas :: "ReplicaConfig \<Rightarrow> nat list" where
  "peer_replicas config = map u16 (filter (\<lambda>i. i \<noteq> cfg_replicaId config) [0..<cfg_numReplicas config])"

definition peer_ro_replicas :: "ReplicaConfig \<Rightarrow> nat list" where
  "peer_ro_replicas config =
     filter (\<lambda>i. i \<noteq> cfg_replicaId config)
       [u16 (cfg_numReplicas config)..<u16 (u16 (cfg_numReplicas config) + cfg_numRoReplicas config)]"

definition client_proxies :: "ReplicaConfig \<Rightarrow> nat list" where
  "client_proxies config =
     (let start = cfg_numReplicas config + cfg_numRoReplicas config
      in map u16 [start..<start + cfg_numOfClientProxies config])"

definition external_clients :: "ReplicaConfig \<Rightarrow> nat list" where
  "external_clients config =
     (let start = cfg_numReplicas config + cfg_numRoReplicas config + cfg_numOfClientProxies config;
          end' = start + cfg_numOfExternalClients config
      in map u16 [start..<end' - operator_slots config] @ [u16 (end' + cfg_numOfClientServices config + 65535)])"

definition client_services :: "ReplicaConfig \<Rightarrow> nat list" where
  "client_services config =
     (let start = cfg_numReplicas config + cfg_numRoReplicas config + cfg_numOfClientProxies config +
                  cfg_numOfExternalClients config - operator_slots config
      in map u16 [start..<start + cfg_numOfClientServices config])"

definition internal_clients :: "ReplicaConfig \<Rightarrow> nat list" where
  "internal_clients config =
     (let start = cfg_numReplicas config + cfg_numRoReplicas config + cfg_numOfClientProxies config +
                  cfg_numOfExternalClients config + cfg_numOfClientServices config
      in map u16 [start..<start + cfg_numReplicas config])"

definition ReplicasInfo_new :: "ReplicaConfig \<Rightarrow> bool \<Rightarrow> bool \<Rightarrow> ReplicasInfo result" where
  "ReplicasInfo_new config partialProofs executionProofs =
     c_assert (cfg_numReplicas config = 3 * cfg_fVal config + 2 * cfg_cVal config + 1)
      (Inr \<lparr>myId = cfg_replicaId config, numberOfReplicas = cfg_numReplicas config,
            numberOfRoReplicas = cfg_numRoReplicas config, numOfClientProxies = cfg_numOfClientProxies config,
            numberOfExternalClients = cfg_numOfExternalClients config,
            numberOfClientServices = cfg_numOfClientServices config, numberOfInternalClients = cfg_numReplicas config,
            maxValidPrincipalId =
              u16 (cfg_numReplicas config + cfg_numRoReplicas config + cfg_numOfClientProxies config +
                   cfg_numOfExternalClients config + cfg_numReplicas config + cfg_numOfClientServices config + 65535),
            fVal = cfg_fVal config, cVal = cfg_cVal config,
            dynamicCollectorForPartialProofs = partialProofs, dynamicCollectorForExecutionProofs = executionProofs,
            idsOfPeerReplicas = peer_replicas config, idsOfPeerROReplicas = peer_ro_replicas config,
            idsOfClientProxies = client_proxies config, idsOfExternalClients = external_clients config,
            idsOfClientServices = client_services config, idsOfInternalClients = internal_clients config\<rparr>)"

definition isIdOfReplica :: "ReplicasInfo \<Rightarrow> nat \<Rightarrow> bool" where
  "isIdOfReplica ri i \<longleftrightarrow> i < numberOfReplicas ri"

definition isIdOfPeerReplica :: "ReplicasInfo \<Rightarrow> nat \<Rightarrow> bool" where
  "isIdOfPeerReplica ri i \<longleftrightarrow> i < numberOfReplicas ri \<and> i \<noteq> myId ri"

definition isIdOfPeerRoReplica :: "ReplicasInfo \<Rightarrow> nat \<Rightarrow> bool" where
  "isIdOfPeerRoReplica ri i \<longleftrightarrow> i \<in> set (idsOfPeerROReplicas ri)"

definition isIdOfClientProxy :: "ReplicasInfo \<Rightarrow> nat \<Rightarrow> bool" where
  "isIdOfClientProxy ri i \<longleftrightarrow> i \<in> set (idsOfClientProxies ri)"

definition isIdOfExternalClient :: "ReplicasInfo \<Rightarrow> nat \<Rightarrow> bool" where
  "isIdOfExternalClient ri i \<longleftrightarrow> i \<in> set (idsOfExternalClients ri)"

definition isIdOfInternalClient :: "ReplicasInfo \<Rightarrow> nat \<Rightarrow> bool" where
  "isIdOfInternalClient ri i \<longleftrightarrow> i \<in> set (idsOfInternalClients ri)"

definition isIdOfClientService :: "ReplicasInfo \<Rightarrow> nat \<Rightarrow> bool" where
  "isIdOfClientService ri i \<longleftrightarrow> i \<in> set (idsOfClientServices ri)"

definition isValidPrincipalId :: "ReplicasInfo \<Rightarrow> nat \<Rightarrow> bool" where
  "isValidPrincipalId ri i \<longleftrightarrow> i \<le> maxValidPrincipalId ri"

text \<open>Views are never negative, so the remainder of the source is \<open>mod\<close>.\<close>

lemma smod_nonneg: "0 \<le> a \<Longrightarrow> 0 < b \<Longrightarrow> a smod b = a mod b" for a b :: int
  by (cases "a = 0") (simp_all add: smod_int_alt_def)

text \<open>The remainder of the source truncates toward zero, and its value becomes an unsigned 16-bit identifier.\<close>

definition primaryOfView :: "ReplicasInfo \<Rightarrow> ViewNum \<Rightarrow> ReplicaId" where
  "primaryOfView ri view = nat ((view smod int (numberOfReplicas ri)) mod 65536)"

lemma primaryOfView_nonneg:
  assumes "0 \<le> view" "numberOfReplicas ri < 65536" "0 < numberOfReplicas ri"
  shows "primaryOfView ri view = nat (view mod int (numberOfReplicas ri))"
proof -
  have "view smod int (numberOfReplicas ri) = view mod int (numberOfReplicas ri)"
    using assms by (simp add: smod_nonneg)
  moreover have "view mod int (numberOfReplicas ri) < 65536" using pos_mod_bound [of "int (numberOfReplicas ri)" view] assms(2,3) by linarith
  ultimately show ?thesis using assms(3) by (simp add: primaryOfView_def mod_pos_pos_trivial)
qed

section \<open>Collectors\<close>

text \<open>A value stored into an \<^verbatim>\<open>int16_t\<close>.\<close>

definition s16 :: "int \<Rightarrow> int" where
  "s16 x = (x + 32768) mod 65536 - 32768"

lemma s16_small [simp]: "- 32768 \<le> x \<Longrightarrow> x < 32768 \<Longrightarrow> s16 x = x"
  by (simp add: s16_def)

text \<open>The branch \<^verbatim>\<open>ignore primary\<close>.\<close>

definition skip_primary :: "int \<Rightarrow> int \<Rightarrow> int \<Rightarrow> int" where
  "skip_primary n primary collector =
     (if collector \<ge> primary
      then let c1 = s16 ((collector + 1) mod n) in if c1 = primary then s16 ((c1 + 1) mod n) else c1
      else collector)"

text \<open>The array of collectors and the result; the array is filled as if it had been asked for.\<close>

definition getCollectorsForPartialProofs :: "ReplicasInfo \<Rightarrow> ReplicaId \<Rightarrow> ViewNum \<Rightarrow> SeqNum \<Rightarrow> bool \<times> int list" where
  "getCollectorsForPartialProofs ri refReplica v seq =
     (if \<not> dynamicCollectorForPartialProofs ri
      then let collector = s16 (int (primaryOfView ri v)) in (collector = int refReplica, [collector])
      else
        let n = s16 (int (numberOfReplicas ri)); c = s16 (int (cVal ri)); primary = s16 (int (primaryOfView ri v))
        in if c = 0 then
             let collector = skip_primary n primary (s16 (seq smod n)) in (collector = int refReplica, [collector])
           else
             let half = s16 (n div 2);
                 collector1 = s16 (seq smod half);
                 collector2 = s16 (collector1 + half);
                 c1 = skip_primary n primary collector1;
                 c2 = skip_primary n primary collector2
             in (c1 = int refReplica \<or> c2 = int refReplica, [c1, c2]))"

definition isCollectorForPartialProofs :: "ReplicasInfo \<Rightarrow> ViewNum \<Rightarrow> SeqNum \<Rightarrow> bool" where
  "isCollectorForPartialProofs ri v seq = fst (getCollectorsForPartialProofs ri (myId ri) v seq)"

definition getExecutionCollectors :: "ReplicasInfo \<Rightarrow> ViewNum \<Rightarrow> SeqNum \<Rightarrow> bool \<times> int list" where
  "getExecutionCollectors ri v seq =
     (if \<not> dynamicCollectorForExecutionProofs ri
      then let collector = s16 (int (primaryOfView ri v)) in (collector = int (myId ri), [collector])
      else getCollectorsForPartialProofs ri (myId ri) v seq)"

section \<open>Identifiers\<close>

text \<open>A configuration that the principals of which fit into 16 bits.\<close>

definition config_fits :: "ReplicaConfig \<Rightarrow> bool" where
  "config_fits config \<longleftrightarrow>
     2 * cfg_numReplicas config + cfg_numRoReplicas config + cfg_numOfClientProxies config +
       cfg_numOfExternalClients config + cfg_numOfClientServices config \<le> 65536 \<and>
     cfg_numReplicas config \<le> 32767 \<and> cfg_replicaId config < cfg_numReplicas config + cfg_numRoReplicas config"

lemma map_u16_upt: "j \<le> 65536 \<Longrightarrow> map u16 [i..<j] = [i..<j]"
  by (rule map_idI) simp

lemma u16_image: "j \<le> 65536 \<Longrightarrow> u16 ` {i..<j} = {i..<j}"
  using map_u16_upt [of j i] by (metis list.set_map set_upt)

lemma u16_pred:
  assumes "0 < x" "x \<le> 65536"
  shows "u16 (x + 65535) = x - 1"
proof -
  obtain y where y: "x = Suc y" using assms(1) by (cases x) simp_all
  have "Suc y + 65535 = y + 65536" by simp
  moreover have "u16 (y + 65536) = y" using assms(2) y by (simp add: u16_def)
  ultimately have "u16 (Suc y + 65535) = y" by (simp only:)
  then show ?thesis unfolding y by (simp only: diff_Suc_1)
qed

lemma ReplicasInfo_ids:
  assumes "ReplicasInfo_new config pp ep = Inr ri" "config_fits config" "cfg_operatorEnabled config"
    "0 < cfg_numOfExternalClients config"
  defines "p \<equiv> cfg_numReplicas config + cfg_numRoReplicas config"
  defines "x \<equiv> p + cfg_numOfClientProxies config"
  defines "e \<equiv> x + cfg_numOfExternalClients config"
  defines "s \<equiv> e + cfg_numOfClientServices config"
  shows "isIdOfClientProxy ri i \<longleftrightarrow> p \<le> i \<and> i < x"
    "isIdOfExternalClient ri i \<longleftrightarrow> x \<le> i \<and> i < e - 1 \<or> i = s - 1"
    "isIdOfClientService ri i \<longleftrightarrow> e - 1 \<le> i \<and> i < s - 1"
    "isIdOfInternalClient ri i \<longleftrightarrow> s \<le> i \<and> i < s + cfg_numReplicas config"
    "isIdOfReplica ri i \<longleftrightarrow> i < cfg_numReplicas config"
    "isIdOfPeerRoReplica ri i \<longleftrightarrow> i \<noteq> cfg_replicaId config \<and> cfg_numReplicas config \<le> i \<and> i < p"
    "isValidPrincipalId ri i \<longleftrightarrow> i < s + cfg_numReplicas config" "myId ri = cfg_replicaId config"
    "0 < cfg_numReplicas config"
proof -
  note fits = assms(2) [unfolded config_fits_def]
  have n: "0 < cfg_numReplicas config" using assms(1) by (auto simp: ReplicasInfo_new_def)
  have ri: "idsOfClientProxies ri = client_proxies config" "idsOfExternalClients ri = external_clients config"
    "idsOfClientServices ri = client_services config" "idsOfInternalClients ri = internal_clients config"
    "numberOfReplicas ri = cfg_numReplicas config" "idsOfPeerROReplicas ri = peer_ro_replicas config"
    "maxValidPrincipalId ri = u16 (cfg_numReplicas config + cfg_numRoReplicas config + cfg_numOfClientProxies config +
       cfg_numOfExternalClients config + cfg_numReplicas config + cfg_numOfClientServices config + 65535)"
    using assms(1) by (auto simp: ReplicasInfo_new_def)
  show "isIdOfClientProxy ri i \<longleftrightarrow> p \<le> i \<and> i < x"
    using fits by (auto simp: isIdOfClientProxy_def ri client_proxies_def Let_def u16_image p_def x_def)
  have "u16 (s + 65535) = s - 1" by (rule u16_pred) (use fits assms(4) in \<open>auto simp: s_def e_def x_def p_def\<close>)
  then show "isIdOfExternalClient ri i \<longleftrightarrow> x \<le> i \<and> i < e - 1 \<or> i = s - 1"
    using fits assms(3) by (auto simp: isIdOfExternalClient_def ri external_clients_def Let_def u16_image p_def x_def e_def s_def
        operator_slots_def)
  show "isIdOfClientService ri i \<longleftrightarrow> e - 1 \<le> i \<and> i < s - 1"
    using fits assms(3,4) by (auto simp: isIdOfClientService_def ri client_services_def Let_def u16_image p_def x_def e_def s_def
        operator_slots_def)
  show "isIdOfInternalClient ri i \<longleftrightarrow> s \<le> i \<and> i < s + cfg_numReplicas config"
    using fits by (auto simp: isIdOfInternalClient_def ri internal_clients_def Let_def u16_image p_def x_def e_def s_def)
  show "isIdOfReplica ri i \<longleftrightarrow> i < cfg_numReplicas config" by (simp add: isIdOfReplica_def ri)
  show "isIdOfPeerRoReplica ri i \<longleftrightarrow> i \<noteq> cfg_replicaId config \<and> cfg_numReplicas config \<le> i \<and> i < p"
    using fits n by (auto simp: isIdOfPeerRoReplica_def ri peer_ro_replicas_def p_def)
  have "maxValidPrincipalId ri = s + cfg_numReplicas config - 1"
    unfolding ri by (subst u16_pred) (use fits n in \<open>auto simp: s_def e_def x_def p_def\<close>)
  then show "isValidPrincipalId ri i \<longleftrightarrow> i < s + cfg_numReplicas config" using n by (auto simp: isValidPrincipalId_def)
  show "myId ri = cfg_replicaId config" using assms(1) by (auto simp: ReplicasInfo_new_def)
  show "0 < cfg_numReplicas config" by (rule n)
qed


definition principal_class :: "ReplicasInfo \<Rightarrow> nat \<Rightarrow> bool list" where
  "principal_class ri i =
     [isIdOfReplica ri i, isIdOfPeerRoReplica ri i \<or> i = myId ri \<and> \<not> isIdOfReplica ri i, isIdOfClientProxy ri i,
      isIdOfExternalClient ri i, isIdOfClientService ri i, isIdOfInternalClient ri i]"

text \<open>
  C22. With an operator, which is counted as one of the external clients, every identifier up to
  \<^verbatim>\<open>_maxValidPrincipalId\<close> belongs to exactly one class of principals (replica, read-only replica, client proxy,
  external client, client service, internal client), and no other identifier belongs to one.
\<close>

theorem principals_partition:
  assumes "ReplicasInfo_new config pp ep = Inr ri" "config_fits config" "cfg_operatorEnabled config"
    "0 < cfg_numOfExternalClients config"
  shows "length (filter id (principal_class ri i)) = (if isValidPrincipalId ri i then 1 else 0)"
proof -
  note ids = ReplicasInfo_ids [OF assms]
  have "cfg_replicaId config < cfg_numReplicas config + cfg_numRoReplicas config"
    using assms(2) by (simp add: config_fits_def)
  then show ?thesis unfolding principal_class_def ids using ids(9) assms(4) by auto
qed

definition example_config :: "bool \<Rightarrow> ReplicaConfig" where
  "example_config oper =
     \<lparr>cfg_replicaId = 2, cfg_numReplicas = 7, cfg_numRoReplicas = 1, cfg_numOfClientProxies = 7,
      cfg_numOfExternalClients = 100, cfg_numOfClientServices = 2, cfg_fVal = 2, cfg_cVal = 0, cfg_operatorEnabled = oper\<rparr>"

theorem principals_partition_witness:
  "\<exists>ri. ReplicasInfo_new (example_config True) True True = Inr ri \<and>
     length (filter id (principal_class ri 116)) = (if isValidPrincipalId ri 116 then 1 else 0)"
proof -
  obtain ri where ri: "ReplicasInfo_new (example_config True) True True = Inr ri"
    by (auto simp: ReplicasInfo_new_def example_config_def)
  from principals_partition [OF ri, of 116] ri show ?thesis by (simp add: example_config_def config_fits_def)
qed

text \<open>
  Without an operator the identifier of the last client service is also the identifier of an external client:
  the constructor inserts \<^verbatim>\<open>end + numOfClientServices - 1\<close> into the external clients unconditionally.
\<close>

theorem service_is_external_client:
  assumes "ReplicasInfo_new config pp ep = Inr ri" "config_fits config" "\<not> cfg_operatorEnabled config"
    "0 < cfg_numOfClientServices config"
  shows "\<exists>i. isIdOfClientService ri i \<and> isIdOfExternalClient ri i"
proof -
  let ?s = "cfg_numReplicas config + cfg_numRoReplicas config + cfg_numOfClientProxies config +
    cfg_numOfExternalClients config + cfg_numOfClientServices config"
  have ri: "idsOfExternalClients ri = external_clients config" "idsOfClientServices ri = client_services config"
    using assms(1) by (auto simp: ReplicasInfo_new_def)
  have "u16 (?s + 65535) = ?s - 1" by (rule u16_pred) (use assms in \<open>auto simp: config_fits_def\<close>)
  then have "isIdOfExternalClient ri (?s - 1)"
    by (auto simp: isIdOfExternalClient_def ri external_clients_def Let_def add.assoc)
  moreover have "isIdOfClientService ri (?s - 1)"
    using assms by (auto simp: isIdOfClientService_def ri client_services_def Let_def u16_image config_fits_def
        operator_slots_def)
  ultimately show ?thesis by blast
qed

theorem service_is_external_client_witness:
  "\<exists>ri i. ReplicasInfo_new (example_config False) True True = Inr ri \<and> isIdOfClientService ri i \<and> isIdOfExternalClient ri i"
proof -
  obtain ri where ri: "ReplicasInfo_new (example_config False) True True = Inr ri"
    by (auto simp: ReplicasInfo_new_def example_config_def)
  from service_is_external_client [OF ri] ri show ?thesis by (auto simp: example_config_def config_fits_def)
qed

section \<open>Collectors are other replicas\<close>

lemma primaryOfView_less:
  "0 \<le> v \<Longrightarrow> 0 < numberOfReplicas ri \<Longrightarrow> numberOfReplicas ri < 65536 \<Longrightarrow> int (primaryOfView ri v) < int (numberOfReplicas ri)"
  by (simp add: primaryOfView_nonneg)

text \<open>What \<open>skip_primary\<close> returns, for a collector and a primary below \<open>n\<close>.\<close>

lemma skip_primary_eq:
  assumes "0 \<le> p" "p < n" "0 \<le> c" "c < n" "n \<le> 32767" "2 \<le> n"
  shows "skip_primary n p c =
    (if c < p then c else if c + 1 < n then c + 1 else if p = 0 then 1 else 0)"
proof -
  have "(c + 1) mod n = (if c + 1 < n then c + 1 else 0)"
  proof (cases "c + 1 < n")
    case False
    then have "c + 1 = n" using assms by simp
    then show ?thesis by simp
  qed (use assms in simp)
  moreover have "(1 :: int) mod n = 1" using assms by simp
  ultimately show ?thesis using assms by (auto simp: skip_primary_def Let_def)
qed

text \<open>
  C23. The dynamic collectors of a sequence number are replicas other than the primary of the view, and when there are
  two of them they differ. The result of \<^verbatim>\<open>getCollectorsForPartialProofs\<close> is whether the given replica is one of them.
\<close>

theorem collectors_are_backups:
  assumes "dynamicCollectorForPartialProofs ri" "numberOfReplicas ri = 3 * fVal ri + 2 * cVal ri + 1"
    "4 \<le> numberOfReplicas ri" "numberOfReplicas ri \<le> 32767" "0 \<le> v" "0 \<le> seq"
  shows "case getCollectorsForPartialProofs ri r v seq of (res, cs) \<Rightarrow>
    distinct cs \<and> length cs = (if cVal ri = 0 then 1 else 2) \<and>
    (\<forall>c \<in> set cs. 0 \<le> c \<and> c < int (numberOfReplicas ri) \<and> c \<noteq> int (primaryOfView ri v)) \<and>
    (res \<longleftrightarrow> int r \<in> set cs)"
proof -
  let ?n = "int (numberOfReplicas ri)" and ?p = "int (primaryOfView ri v)"
  have p: "0 \<le> ?p" "?p < ?n" using primaryOfView_less [of v ri] assms(3,4,5) by simp_all
  have n: "s16 ?n = ?n" "s16 (int (cVal ri)) = int (cVal ri)" "s16 ?p = ?p" "s16 (?n div 2) = ?n div 2"
    using assms(2,4) p by auto
  show ?thesis
  proof (cases "cVal ri = 0")
    case True
    define m where "m = seq mod ?n"
    have m: "0 \<le> m" "m < ?n" using assms(3) by (simp_all add: m_def)
    then have s: "s16 m = m" using assms(4) by simp
    have "getCollectorsForPartialProofs ri r v seq = (let c = skip_primary ?n ?p m in (c = int r, [c]))"
      using True assms(1,3,6) by (simp add: getCollectorsForPartialProofs_def Let_def n s smod_nonneg flip: m_def)
    moreover have "skip_primary ?n ?p m = (if m < ?p then m else if m + 1 < ?n then m + 1 else if ?p = 0 then 1 else 0)"
      by (rule skip_primary_eq) (use m p assms(3,4) in auto)
    ultimately show ?thesis using True m p assms(3) by (auto simp: Let_def)
  next
    case False
    let ?h = "?n div 2"
    have h: "2 \<le> ?h" "2 * ?h \<le> ?n" "?n \<le> 2 * ?h + 1" using assms(3) by auto
    define m where "m = seq mod ?h"
    have m: "0 \<le> m" "m < ?h" using h by (simp_all add: m_def)
    have s: "s16 m = m" "s16 (m + ?h) = m + ?h" using m h assms(4) by auto
    define c1 c2 where "c1 = skip_primary ?n ?p m" and "c2 = skip_primary ?n ?p (m + ?h)"
    have res: "getCollectorsForPartialProofs ri r v seq = (c1 = int r \<or> c2 = int r, [c1, c2])"
      using False assms(1,6) h by (simp add: getCollectorsForPartialProofs_def Let_def n s smod_nonneg flip: m_def c1_def c2_def)
    have c1: "c1 = (if m < ?p then m else m + 1)" unfolding c1_def
      by (subst skip_primary_eq) (use m h p assms(4) in auto)
    have c2: "c2 = (if m + ?h < ?p then m + ?h else if m + ?h + 1 < ?n then m + ?h + 1 else if ?p = 0 then 1 else 0)"
      unfolding c2_def by (rule skip_primary_eq) (use m h p assms(4) in auto)
    have "0 \<le> c1" "c1 < ?n" "c1 \<noteq> ?p" "0 \<le> c2" "c2 < ?n" "c2 \<noteq> ?p" "c1 \<noteq> c2"
      using m h p unfolding c1 c2 by (simp_all split: if_splits)
    then show ?thesis unfolding res using False by auto
  qed
qed

theorem collectors_are_backups_witness:
  "\<exists>ri. ReplicasInfo_new (example_config True) True True = Inr ri \<and>
     (case getCollectorsForPartialProofs ri 3 5 9 of (res, cs) \<Rightarrow>
       distinct cs \<and> length cs = (if cVal ri = 0 then 1 else 2) \<and>
       (\<forall>c \<in> set cs. 0 \<le> c \<and> c < int (numberOfReplicas ri) \<and> c \<noteq> int (primaryOfView ri 5)) \<and> (res \<longleftrightarrow> int 3 \<in> set cs))"
proof -
  obtain ri where ri: "ReplicasInfo_new (example_config True) True True = Inr ri"
    by (auto simp: ReplicasInfo_new_def example_config_def)
  then have "dynamicCollectorForPartialProofs ri" "numberOfReplicas ri = 7" "fVal ri = 2" "cVal ri = 0"
    by (auto simp: ReplicasInfo_new_def example_config_def)
  with collectors_are_backups [of ri 5 9 3] ri show ?thesis by simp
qed

end
