(* ===== verification/Message_Base.thy ===== *)
theory Message_Base
  imports Byte_Buffers Replicas_Info
begin

text \<open>
  bftengine/src/bftengine/messages/Message{hpp,cpp}: the common part of all messages, their serialization for
  the metadata storage, and MsgReceiver.cpp, which makes messages of the bytes that arrive from the network.
\<close>

section \<open>Messages\<close>

text \<open>\<open>msgBody\<close> is the allocated buffer; \<open>storageSize\<close> is its length.\<close>

record MessageBase =
  msgBody :: bytes
  msgSize :: nat
  storageSize :: nat
  sender :: nat
  owner :: bool

definition u32 :: "nat \<Rightarrow> nat" where
  "u32 x = x mod 2 ^ 32"

lemma u32_small [simp]: "x < 4294967296 \<Longrightarrow> u32 x = x"
  by (simp add: u32_def)

definition header_size :: nat where
  "header_size = 6"

definition header_bytes :: "nat \<Rightarrow> nat \<Rightarrow> bytes" where
  "header_bytes type span = le_bytes 2 type @ le_bytes 4 span"

lemma length_header_bytes [simp]: "length (header_bytes t s) = 6"
  by (simp add: header_bytes_def)

text \<open>The constructors. The first one writes the header into a buffer of \<open>n + span\<close> zeros.\<close>

definition MessageBase_new :: "nat \<Rightarrow> nat \<Rightarrow> nat \<Rightarrow> nat \<Rightarrow> MessageBase result" where
  "MessageBase_new src type span n =
     c_assert (0 < n)
      (let sz = u32 (n + span)
       in rbind (wr 0 (header_bytes type span) (replicate sz 0))
            (\<lambda>body. Inr \<lparr>msgBody = body, msgSize = sz, storageSize = sz, sender = src, owner = True\<rparr>))"

definition MessageBase_of :: "nat \<Rightarrow> bytes \<Rightarrow> bool \<Rightarrow> MessageBase" where
  "MessageBase_of src body ownerOfStorage =
     \<lparr>msgBody = body, msgSize = length body, storageSize = length body, sender = src, owner = ownerOfStorage\<rparr>"

definition msg_type :: "MessageBase \<Rightarrow> nat result" where
  "msg_type m = rd 0 2 (msgBody m)"

definition spanContextSize :: "MessageBase \<Rightarrow> nat result" where
  "spanContextSize m = rd 2 4 (msgBody m)"

definition shrinkToFit :: "MessageBase \<Rightarrow> MessageBase result" where
  "shrinkToFit m =
     c_assert (owner m) (Inr (m\<lparr>msgBody := take (msgSize m) (msgBody m), storageSize := msgSize m\<rparr>))"

text \<open>The bytes that \<^verbatim>\<open>std::realloc\<close> adds are indeterminate: they are the argument \<open>fresh\<close>.\<close>

definition reallocSize :: "(nat \<Rightarrow> bytes) \<Rightarrow> nat \<Rightarrow> MessageBase \<Rightarrow> MessageBase result" where
  "reallocSize fresh n m =
     c_assert (owner m) (c_assert (n \<ge> msgSize m)
       (Inr (m\<lparr>msgBody := take n (msgBody m @ fresh (n - length (msgBody m))), storageSize := n, msgSize := n\<rparr>)))"

text \<open>The assertion that the buffer is not null: a buffer that was given away has no bytes.\<close>

definition setMsgSize :: "nat \<Rightarrow> MessageBase \<Rightarrow> MessageBase result" where
  "setMsgSize n m = c_assert (msgBody m \<noteq> []) (c_assert (n \<le> storageSize m) (Inr (m\<lparr>msgSize := n\<rparr>)))"

definition cloneObjAndMsg :: "MessageBase \<Rightarrow> MessageBase result" where
  "cloneObjAndMsg m =
     c_assert (owner m) (c_assert (msgSize m > 0)
       (rbind (rd_bytes 0 (msgSize m) (msgBody m)) (\<lambda>body. Inr (MessageBase_of (sender m) body True))))"

definition msg_equals :: "MessageBase \<Rightarrow> MessageBase \<Rightarrow> bool" where
  "msg_equals m other \<longleftrightarrow>
     msgSize other = msgSize m \<and> storageSize other = storageSize m \<and> sender other = sender m \<and> owner other = owner m \<and>
     take (msgSize m) (msgBody other) = take (msgSize m) (msgBody m)"

section \<open>Serialization\<close>

definition magicNumOfRawFormat :: nat where
  "magicNumOfRawFormat = 1431669115"

text \<open>\<^verbatim>\<open>RawHeaderOfObjAndMsg\<close>: magic number, size and sender.\<close>

definition raw_header_size :: nat where
  "raw_header_size = 10"

definition raw_header_bytes :: "MessageBase \<Rightarrow> bytes" where
  "raw_header_bytes m = le_bytes 4 magicNumOfRawFormat @ le_bytes 4 (msgSize m) @ le_bytes 2 (sender m)"

definition sizeNeededForObjAndMsgInLocalBuffer :: "MessageBase \<Rightarrow> nat result" where
  "sizeNeededForObjAndMsgInLocalBuffer m = c_assert (owner m) (c_assert (msgSize m > 0) (Inr (raw_header_size + msgSize m)))"

text \<open>The buffer is \<open>buf\<close> from position \<open>pos\<close> on; the result has the new buffer and the number of bytes written.\<close>

definition writeObjAndMsgToLocalBuffer :: "bytes \<Rightarrow> nat \<Rightarrow> nat \<Rightarrow> MessageBase \<Rightarrow> (bytes \<times> nat) result" where
  "writeObjAndMsgToLocalBuffer buf pos bufferLength m =
     c_assert (owner m) (c_assert (msgSize m > 0)
      (let sizeNeeded = raw_header_size + msgSize m
       in c_assert (sizeNeeded \<le> bufferLength)
            (rbind (wr pos (raw_header_bytes m) buf)
              (\<lambda>buf1. rbind (rd_bytes 0 (msgSize m) (msgBody m))
                (\<lambda>body. rbind (wr (pos + raw_header_size) body buf1) (\<lambda>buf2. Inr (buf2, sizeNeeded)))))))"

definition createObjAndMsgFromLocalBuffer :: "nat \<Rightarrow> bytes \<Rightarrow> nat \<Rightarrow> nat \<Rightarrow> (MessageBase option \<times> nat) result" where
  "createObjAndMsgFromLocalBuffer maxExternalMessageSize buf pos bufferLength =
     (if bufferLength \<le> raw_header_size then Inr (None, 0)
      else rbind (rd pos 4 buf) (\<lambda>magicNum. if magicNum \<noteq> magicNumOfRawFormat then Inr (None, 0)
      else rbind (rd (pos + 4) 4 buf) (\<lambda>size. if size = 0 then Inr (None, 0)
      else if size > maxExternalMessageSize then Inr (None, 0)
      else if size + raw_header_size > bufferLength then Inr (None, 0)
      else rbind (rd_bytes (pos + raw_header_size) size buf) (\<lambda>body.
           rbind (rd (pos + 8) 2 buf) (\<lambda>snd. Inr (Some (MessageBase_of snd body True), size + raw_header_size))))))"

text \<open>Buffer, new position and number of bytes.\<close>

definition serializeMsg :: "bytes \<Rightarrow> nat \<Rightarrow> MessageBase option \<Rightarrow> (bytes \<times> nat \<times> nat) result" where
  "serializeMsg buf pos msg =
     rbind (wr pos [if msg \<noteq> None then 1 else 0] buf)
       (\<lambda>buf1. case msg of
          None \<Rightarrow> Inr (buf1, pos + 1, 1)
        | Some m \<Rightarrow>
            rbind (sizeNeededForObjAndMsgInLocalBuffer m)
              (\<lambda>size. rbind (writeObjAndMsgToLocalBuffer buf1 (pos + 1) (u32 size) m)
                (\<lambda>(buf2, actual). c_assert (actual \<noteq> 0) (Inr (buf2, pos + 1 + actual, 1 + actual)))))"

definition deserializeMsg :: "nat \<Rightarrow> bytes \<Rightarrow> nat \<Rightarrow> nat \<Rightarrow> (MessageBase option \<times> nat \<times> nat) result" where
  "deserializeMsg maxExternalMessageSize buf pos bufLen =
     rbind (rd pos 1 buf)
       (\<lambda>flag. if flag \<noteq> 0
          then rbind (createObjAndMsgFromLocalBuffer maxExternalMessageSize buf (pos + 1) bufLen)
                 (\<lambda>(msg, size). c_assert (size \<noteq> 0) (Inr (msg, pos + 1 + size, 1 + size)))
          else Inr (None, pos + 1, 1))"

section \<open>Messages from the network\<close>

definition onNewMessage :: "nat \<Rightarrow> nat \<Rightarrow> bytes \<Rightarrow> MessageBase option" where
  "onNewMessage maxExternalMessageSize sourceNode message =
     (if length message > maxExternalMessageSize then None
      else if length message < header_size then None
      else Some (MessageBase_of (u16 sourceNode) message True))"

text \<open>Every message that \<^verbatim>\<open>MsgReceiver\<close> makes satisfies this.\<close>

definition net_msg :: "MessageBase \<Rightarrow> bool" where
  "net_msg m \<longleftrightarrow> length (msgBody m) = msgSize m \<and> storageSize m = msgSize m \<and> header_size \<le> msgSize m"

lemma onNewMessage_net: "onNewMessage mx s bs = Some m \<Longrightarrow> net_msg m \<and> msgBody m = bs"
  by (auto simp: onNewMessage_def net_msg_def MessageBase_of_def split: if_splits)

section \<open>What the surroundings provide\<close>

text \<open>
  The singletons the messages consult: the epoch of EpochManager, the signatures of SigManager, the configured size
  limit, and DigestGenerator. The signature scheme and the hash function are parameters.
\<close>

record MsgEnv =
  selfEpoch :: nat
  mySigLength :: nat
  signData :: "bytes \<Rightarrow> bytes"
  sigLength :: "nat \<Rightarrow> nat"
  verifySig :: "nat \<Rightarrow> bytes \<Rightarrow> bytes \<Rightarrow> bool"
  maxMessageSize :: nat
  clientTransactionSigning :: bool
  digestOf :: "bytes \<Rightarrow> bytes"

section \<open>A serialized message is read back\<close>

lemma raw_header_fields:
  assumes "sender m < 65536" "msgSize m < 2 ^ 32"
  shows "fld 0 4 (raw_header_bytes m) = magicNumOfRawFormat" "fld 4 4 (raw_header_bytes m) = msgSize m"
    "fld 8 2 (raw_header_bytes m) = sender m" "length (raw_header_bytes m) = 10"
  using assms by (simp_all add: raw_header_bytes_def fld_simps magicNumOfRawFormat_def)


lemma wr_append: "rbind (wr off a buf) (wr (off + length a) c) = wr off (a @ c) buf"
proof (cases "off + length a + length c \<le> length buf")
  case True
  let ?b = "take off buf @ a @ drop (off + length a) buf"
  have l: "length (take off buf @ a) = off + length a" "length ?b = length buf" using True by simp_all
  have t: "take (off + length a) ?b = take off buf @ a" using l by (metis append_assoc append_eq_conv_conj)
  have d: "drop (off + length a + length c) ?b = drop (off + length a + length c) buf"
    using True by (simp add: drop_append add.commute)
  have "wr off a buf = Inr ?b" using True by (simp add: wr_def)
  moreover have "wr (off + length a) c ?b = Inr ((take off buf @ a) @ c @ drop (off + length a + length c) buf)"
    unfolding wr_def t d using l True by simp
  ultimately show ?thesis using True by (simp add: wr_def add.assoc)
next
  case False
  then show ?thesis by (auto simp: wr_def rbind_def split: sum.splits)
qed

definition serialized :: "MessageBase \<Rightarrow> bytes" where
  "serialized m = [1] @ raw_header_bytes m @ take (msgSize m) (msgBody m)"

lemma serializeMsg_eq:
  assumes "owner m" "0 < msgSize m" "msgSize m \<le> length (msgBody m)" "msgSize m + raw_header_size < 2 ^ 32"
  shows "serializeMsg buf pos (Some m) =
    rbind (wr pos (serialized m) buf) (\<lambda>buf'. Inr (buf', pos + 11 + msgSize m, 11 + msgSize m))"
proof -
  have len: "length (raw_header_bytes m) = 10" by (simp add: raw_header_bytes_def)
  have "rbind (wr pos (serialized m) buf) (\<lambda>buf'. Inr (buf', pos + 11 + msgSize m, 11 + msgSize m)) =
      rbind (wr pos [1] buf) (\<lambda>b1. rbind (wr (pos + 1) (raw_header_bytes m) b1)
        (\<lambda>b2. rbind (wr (pos + 1 + 10) (take (msgSize m) (msgBody m)) b2)
          (\<lambda>buf'. Inr (buf', pos + 11 + msgSize m, 11 + msgSize m))))"
    unfolding serialized_def wr_append [symmetric] using len
    by (auto simp: rbind_def split: sum.splits)
  moreover have "rd_bytes 0 (msgSize m) (msgBody m) = Inr (take (msgSize m) (msgBody m))"
    using assms(3) by (simp add: rd_bytes_def)
  ultimately show ?thesis using assms len
    by (auto simp: serializeMsg_def sizeNeededForObjAndMsgInLocalBuffer_def writeObjAndMsgToLocalBuffer_def raw_header_size_def
        rbind_def Let_def split: sum.splits)
qed

lemma deserialize_at:
  assumes m: "0 < msgSize m" "msgSize m \<le> mx" "msgSize m < 2 ^ 32" "sender m < 65536" "msgSize m \<le> length (msgBody m)"
    and pos: "length pre = pos" and len: "msgSize m + raw_header_size \<le> bufLen"
  shows "deserializeMsg mx (pre @ serialized m @ rest) pos bufLen =
    Inr (Some (MessageBase_of (sender m) (take (msgSize m) (msgBody m)) True), pos + 11 + msgSize m, 11 + msgSize m)"
proof -
  let ?body = "take (msgSize m) (msgBody m)"
  let ?buf = "pre @ [1] @ raw_header_bytes m @ ?body @ rest"
  have buf: "pre @ serialized m @ rest = ?buf" by (simp add: serialized_def)
  note rh = raw_header_fields [OF m(4,3)]
  have l: "length ?buf = pos + 11 + msgSize m + length rest" using m(5) pos rh(4) by simp
  have "rd pos 1 ?buf = Inr 1" using l pos by (simp add: rd_fld fld_simps) (simp add: fld_def le_nat_def)
  moreover have "rd (pos + 1) 4 ?buf = Inr magicNumOfRawFormat"
    using l pos rh by (subst rd_fld) (simp_all add: fld_append1 fld_append2 fld_Cons)
  moreover have "rd (pos + 1 + 4) 4 ?buf = Inr (msgSize m)"
    using l pos rh by (subst rd_fld) (simp_all add: fld_append1 fld_append2 fld_Cons)
  moreover have "rd (pos + 1 + 8) 2 ?buf = Inr (sender m)"
    using l pos rh by (subst rd_fld) (simp_all add: fld_append1 fld_append2 fld_Cons)
  moreover have "rd_bytes (pos + 1 + raw_header_size) (msgSize m) ?buf = Inr ?body"
    using l pos rh m(5) by (simp add: rd_bytes_def raw_header_size_def)
  ultimately show ?thesis unfolding buf using m len
    by (simp add: deserializeMsg_def createObjAndMsgFromLocalBuffer_def raw_header_size_def)
qed

text \<open>
  C24. Writing a message with \<^verbatim>\<open>serializeMsg\<close> and reading the buffer with \<^verbatim>\<open>deserializeMsg\<close> gives a message with the
  same sender, size and bytes and stops where the writing stopped; the bytes before and after are not touched.
\<close>

theorem message_round_trip:
  assumes "owner m" "0 < msgSize m" "msgSize m \<le> mx" "msgSize m + raw_header_size < 2 ^ 32" "sender m < 65536"
    "msgSize m \<le> length (msgBody m)" "pos + 11 + msgSize m \<le> length buf" "msgSize m + raw_header_size \<le> bufLen"
  shows "\<exists>buf'. serializeMsg buf pos (Some m) = Inr (buf', pos + 11 + msgSize m, 11 + msgSize m) \<and>
    deserializeMsg mx buf' pos bufLen =
      Inr (Some (MessageBase_of (sender m) (take (msgSize m) (msgBody m)) True), pos + 11 + msgSize m, 11 + msgSize m) \<and>
    take pos buf' = take pos buf \<and> drop (pos + 11 + msgSize m) buf' = drop (pos + 11 + msgSize m) buf"
proof -
  have ls: "length (serialized m) = 11 + msgSize m"
    using assms(6) by (simp add: serialized_def raw_header_bytes_def)
  let ?buf' = "take pos buf @ serialized m @ drop (pos + length (serialized m)) buf"
  have w: "wr pos (serialized m) buf = Inr ?buf'" using assms(7) ls by (simp add: wr_def)
  have "serializeMsg buf pos (Some m) = Inr (?buf', pos + 11 + msgSize m, 11 + msgSize m)"
    using serializeMsg_eq [OF assms(1,2,6,4)] w by simp
  moreover have "deserializeMsg mx ?buf' pos bufLen =
      Inr (Some (MessageBase_of (sender m) (take (msgSize m) (msgBody m)) True), pos + 11 + msgSize m, 11 + msgSize m)"
    by (rule deserialize_at) (use assms in auto)
  moreover have "take pos ?buf' = take pos buf" using assms(7) by simp
  moreover have "drop (pos + 11 + msgSize m) ?buf' = drop (pos + 11 + msgSize m) buf"
    using assms(7) ls by (simp add: ac_simps)
  ultimately show ?thesis by blast
qed

definition example_msg :: MessageBase where
  "example_msg = MessageBase_of 3 (header_bytes 105 0 @ [7, 8, 9]) True"

theorem message_round_trip_witness:
  "\<exists>buf'. serializeMsg (replicate 30 5) 4 (Some example_msg) = Inr (buf', 24, 20) \<and>
    deserializeMsg 100 buf' 4 30 = Inr (Some example_msg, 24, 20)"
proof -
  have e: "msgSize example_msg = 9" "sender example_msg = 3" "owner example_msg"
      "msgBody example_msg = header_bytes 105 0 @ [7, 8, 9]"
    by (simp_all add: example_msg_def MessageBase_of_def)
  then have "MessageBase_of (sender example_msg) (take (msgSize example_msg) (msgBody example_msg)) True = example_msg"
    by (simp add: example_msg_def)
  then show ?thesis using message_round_trip [of example_msg 100 4 "replicate 30 5" 30] e
    by (auto simp: raw_header_size_def)
qed

text \<open>
  \<^verbatim>\<open>deserializeMsg\<close> does not take the flag byte off the length it was given: if the buffer is a serialized message
  without its last byte, then it reads past the end instead of rejecting the message.
\<close>

theorem deserialize_reads_past_end:
  assumes "1 < msgSize m" "msgSize m \<le> mx" "msgSize m < 2 ^ 32" "sender m < 65536" "msgSize m \<le> length (msgBody m)"
  shows "deserializeMsg mx (butlast (serialized m)) 0 (length (butlast (serialized m))) = Inl UndefinedBehaviour"
proof -
  let ?body = "take (msgSize m - 1) (msgBody m)"
  have "take (msgSize m) (msgBody m) \<noteq> []" using assms(1,5) by auto
  moreover have "butlast (take (msgSize m) (msgBody m)) = ?body" using assms(5) by (simp add: butlast_take)
  ultimately have buf: "butlast (serialized m) = [1] @ raw_header_bytes m @ ?body"
    by (simp add: serialized_def butlast_append)
  note rh = raw_header_fields [OF assms(4,3)]
  let ?buf = "[1] @ raw_header_bytes m @ ?body"
  have l: "length ?buf = 10 + msgSize m" using assms(1,5) rh(4) by simp
  have "rd 0 1 ?buf = Inr 1" by (simp add: rd_def le_nat_def)
  moreover have "rd 1 4 ?buf = Inr magicNumOfRawFormat"
    using l rh by (subst rd_fld) (simp_all add: fld_append1 fld_append2 fld_Cons)
  moreover have "rd (1 + 4) 4 ?buf = Inr (msgSize m)"
    using l rh by (subst rd_fld) (simp_all add: fld_append1 fld_append2 fld_Cons)
  moreover have "rd_bytes (1 + raw_header_size) (msgSize m) ?buf = Inl UndefinedBehaviour"
    using l by (simp add: rd_bytes_def raw_header_size_def)
  ultimately show ?thesis unfolding buf using assms l
    by (simp add: deserializeMsg_def createObjAndMsgFromLocalBuffer_def raw_header_size_def)
qed

theorem deserialize_reads_past_end_witness:
  "deserializeMsg 100 (butlast (serialized example_msg)) 0 (length (butlast (serialized example_msg))) =
     Inl UndefinedBehaviour"
  by (rule deserialize_reads_past_end) (simp_all add: example_msg_def MessageBase_of_def)

end
