(* ===== verification/Vector_Of_Shares.thy ===== *)
theory Vector_Of_Shares
  imports Concord_Prelude "HOL-Library.Word"
begin

unbundle bit_operations_syntax

text \<open>
  threshsign/src/VectorOfShares.cpp: a set of share identifiers \<open>1, 2, ...\<close> as a bit vector with a
  counter, its iteration and its serialization.
\<close>

definition MAX_NUM_OF_SHARES :: nat where
  "MAX_NUM_OF_SHARES = 2048"

record VectorOfShares =
  vdata :: "bool list"
  vsize :: nat

definition vos_new :: VectorOfShares where
  "vos_new = \<lparr>vdata = replicate MAX_NUM_OF_SHARES False, vsize = 0\<rparr>"

text \<open>
  The bit vector has \<^verbatim>\<open>MAX_NUM_OF_SHARES\<close> bits; the operations use its length, so that they are defined
  for vectors of every length.
\<close>

definition vos_clear :: "VectorOfShares \<Rightarrow> VectorOfShares" where
  "vos_clear v = \<lparr>vdata = replicate (length (vdata v)) False, vsize = 0\<rparr>"

definition vos_add :: "nat \<Rightarrow> VectorOfShares \<Rightarrow> VectorOfShares result" where
  "vos_add e v =
     c_assert (1 \<le> e) (c_assert (e \<le> length (vdata v))
       (let pos = e - 1
        in if \<not> vdata v ! pos then Inr (v\<lparr>vdata := (vdata v)[pos := True], vsize := vsize v + 1\<rparr>) else Inr v))"

definition vos_remove :: "nat \<Rightarrow> VectorOfShares \<Rightarrow> VectorOfShares result" where
  "vos_remove e v =
     c_assert (1 \<le> e) (c_assert (e \<le> length (vdata v))
       (let pos = e - 1
        in if vdata v ! pos then Inr (v\<lparr>vdata := (vdata v)[pos := False], vsize := vsize v - 1\<rparr>) else Inr v))"

text \<open>Out of the range of the bit set its \<^verbatim>\<open>operator[]\<close> is undefined.\<close>

definition vos_contains :: "nat \<Rightarrow> VectorOfShares \<Rightarrow> bool result" where
  "vos_contains e v =
     (if 1 \<le> e \<and> e \<le> length (vdata v) then Inr (vdata v ! (e - 1)) else Inl UndefinedBehaviour)"

definition vos_isEnd :: "nat \<Rightarrow> VectorOfShares \<Rightarrow> bool result" where
  "vos_isEnd e v = c_assert (0 < e) (Inr (length (vdata v) < e))"

text \<open>The first set bit of a list of bits that starts at index \<open>i\<close>.\<close>

fun scan_bits :: "bool list \<Rightarrow> nat \<Rightarrow> nat option" where
  "scan_bits [] i = None"
| "scan_bits (b # bs) i = (if b then Some i else scan_bits bs (Suc i))"

definition vos_next :: "nat \<Rightarrow> VectorOfShares \<Rightarrow> nat" where
  "vos_next current v =
     (let size = length (vdata v)
      in if current + 1 > size then size + 1
         else case scan_bits (drop current (vdata v)) current of Some i \<Rightarrow> i + 1 | None \<Rightarrow> size + 1)"

definition vos_first :: "VectorOfShares \<Rightarrow> nat" where
  "vos_first v = vos_next 0 v"

definition vos_skip :: "nat \<Rightarrow> nat \<Rightarrow> VectorOfShares \<Rightarrow> nat result" where
  "vos_skip current n v = c_assert (0 < n) (Inr (((\<lambda>c. vos_next c v) ^^ n) current))"

definition vos_findFirstGap :: "VectorOfShares \<Rightarrow> nat" where
  "vos_findFirstGap v =
     (case scan_bits (map Not (vdata v)) 0 of Some i \<Rightarrow> i + 1 | None \<Rightarrow> length (vdata v) + 1)"

definition vos_last :: "VectorOfShares \<Rightarrow> nat" where
  "vos_last v =
     (case scan_bits (rev (vdata v)) 0 of Some i \<Rightarrow> length (vdata v) - 1 - i + 1 | None \<Rightarrow> length (vdata v) + 1)"

lemma scan_bits_SomeD: "scan_bits bs i = Some j \<Longrightarrow> i \<le> j \<and> j < i + length bs \<and> bs ! (j - i) \<and> (\<forall>k < j - i. \<not> bs ! k)"
proof (induction bs i rule: scan_bits.induct)
  case (2 b bs i)
  show ?case
  proof (cases b)
    case True
    then show ?thesis using 2(2) by simp
  next
    case False
    then have "Suc i \<le> j \<and> j < Suc i + length bs \<and> bs ! (j - Suc i) \<and> (\<forall>k < j - Suc i. \<not> bs ! k)"
      using 2 by simp
    then show ?thesis using False by (auto simp: nth_Cons' Suc_diff_le)
  qed
qed simp

lemma scan_bits_NoneD: "scan_bits bs i = None \<Longrightarrow> \<forall>k < length bs. \<not> bs ! k"
  by (induction bs i rule: scan_bits.induct) (auto simp: nth_Cons' split: if_splits)

text \<open>The assertion of \<^verbatim>\<open>isEnd\<close> holds for every identifier that \<^verbatim>\<open>next\<close> returns.\<close>

lemma vos_isEnd_next: "vos_isEnd (vos_next c v) v = Inr (length (vdata v) < vos_next c v)"
  by (auto simp: vos_next_def vos_isEnd_def Let_def split: option.splits)

lemma vos_next_gt: "length (vdata v) < vos_next c v \<or> c < vos_next c v"
  by (auto simp: vos_next_def Let_def split: option.splits dest: scan_bits_SomeD)

text \<open>The loop \<^verbatim>\<open>for (id = first(); !isEnd(id); id = next(id))\<close>, from \<^verbatim>\<open>next(current)\<close> on.\<close>

function vos_iter :: "nat \<Rightarrow> VectorOfShares \<Rightarrow> nat list" where
  "vos_iter current v =
     (let id = vos_next current v in if vos_isEnd id v \<noteq> Inr False then [] else id # vos_iter id v)"
  by auto
termination
proof (relation "measure (\<lambda>(c, v). length (vdata v) - c)")
  fix current v x assume "x = vos_next current v" "\<not> vos_isEnd x v \<noteq> Inr False"
  then show "((x, v), current, v) \<in> measure (\<lambda>(c, v). length (vdata v) - c)"
    using vos_next_gt [of v current] by (auto simp: vos_isEnd_next)
qed simp

declare vos_iter.simps [simp del]

definition vos_ith :: "nat \<Rightarrow> VectorOfShares \<Rightarrow> nat result" where
  "vos_ith i v = (let ids = vos_iter 0 v in c_assert (1 \<le> i \<and> i \<le> length ids) (Inr (ids ! (i - 1))))"

definition getByteCount :: "nat \<Rightarrow> nat" where
  "getByteCount n = (if n mod 8 = 0 then n div 8 else n div 8 + 1)"

definition set_share_bit :: "nat \<Rightarrow> 8 word list \<Rightarrow> 8 word list" where
  "set_share_bit id1 buf =
     (let id0 = id1 - 1; byteOffset = id0 div 8; b = id0 mod 8; mask = push_bit b 1
      in buf[byteOffset := (buf ! byteOffset) OR mask])"

definition vos_toBytes :: "nat \<Rightarrow> VectorOfShares \<Rightarrow> 8 word list result" where
  "vos_toBytes capacity v =
     (let byteCount = getByteCount (length (vdata v))
      in if byteCount > capacity then Inl RuntimeError
         else Inr (fold set_share_bit (vos_iter 0 v) (replicate byteCount 0)))"

text \<open>The two loops of \<^verbatim>\<open>fromBytes\<close>: over the bits of a byte, and over the bytes.\<close>

fun add_byte_bits :: "nat list \<Rightarrow> nat \<Rightarrow> 8 word \<Rightarrow> VectorOfShares \<Rightarrow> VectorOfShares result" where
  "add_byte_bits [] b byte v = Inr v"
| "add_byte_bits (c # cs) b byte v =
     rbind (if (byte AND push_bit c 1) \<noteq> 0 then vos_add (b * 8 + (c + 1)) v else Inr v) (add_byte_bits cs b byte)"

fun add_bytes :: "8 word list \<Rightarrow> nat \<Rightarrow> VectorOfShares \<Rightarrow> VectorOfShares result" where
  "add_bytes [] b v = Inr v"
| "add_bytes (byte # bytes) b v = rbind (add_byte_bits [0..<8] b byte v) (add_bytes bytes (b + 1))"

definition vos_fromBytes :: "8 word list \<Rightarrow> VectorOfShares \<Rightarrow> VectorOfShares result" where
  "vos_fromBytes buf v = add_bytes buf 0 (vos_clear v)"

section \<open>Iteration\<close>

definition vos_inv :: "VectorOfShares \<Rightarrow> bool" where
  "vos_inv v \<longleftrightarrow> vsize v = length (filter id (vdata v))"

definition vos_ids :: "VectorOfShares \<Rightarrow> nat set" where
  "vos_ids v = {e. 1 \<le> e \<and> e \<le> length (vdata v) \<and> vdata v ! (e - 1)}"

lemma vos_next_some:
  assumes "vos_isEnd (vos_next c v) v = Inr False"
  shows "c < vos_next c v" "vos_next c v \<in> vos_ids v" "\<forall>e \<in> vos_ids v. c < e \<longrightarrow> vos_next c v \<le> e"
proof -
  let ?n = "length (vdata v)"
  from assms obtain i where c: "c < ?n" and i: "scan_bits (drop c (vdata v)) c = Some i" "vos_next c v = i + 1"
    unfolding vos_isEnd_next by (auto simp: vos_next_def Let_def split: if_splits option.splits)
  note s = scan_bits_SomeD [OF i(1)]
  show "c < vos_next c v" using s i(2) by simp
  show "vos_next c v \<in> vos_ids v" using s i(2) c by (auto simp: vos_ids_def)
  show "\<forall>e \<in> vos_ids v. c < e \<longrightarrow> vos_next c v \<le> e"
  proof (intro ballI impI)
    fix e assume e: "e \<in> vos_ids v" "c < e"
    show "vos_next c v \<le> e"
    proof (rule ccontr)
      assume "\<not> vos_next c v \<le> e"
      then have "e - 1 - c < i - c" using i(2) e(2) by simp
      then have "\<not> drop c (vdata v) ! (e - 1 - c)" using s by blast
      then show False using e by (simp add: vos_ids_def)
    qed
  qed
qed

lemma vos_next_none:
  assumes "vos_isEnd (vos_next c v) v \<noteq> Inr False"
  shows "\<forall>e \<in> vos_ids v. e \<le> c"
proof
  fix e assume e: "e \<in> vos_ids v"
  show "e \<le> c"
  proof (rule ccontr)
    assume "\<not> e \<le> c"
    then have "c < length (vdata v)" using e by (simp add: vos_ids_def)
    with assms have "scan_bits (drop c (vdata v)) c = None"
      unfolding vos_isEnd_next by (auto simp: vos_next_def Let_def split: option.splits dest: scan_bits_SomeD)
    from scan_bits_NoneD [OF this] e \<open>\<not> e \<le> c\<close> show False
      by (auto simp: vos_ids_def dest: spec [of _ "e - 1 - c"])
  qed
qed

lemma vos_iter_sorted: "sorted_wrt (<) (vos_iter c v) \<and> set (vos_iter c v) = {e \<in> vos_ids v. c < e}"
proof (induction c v rule: vos_iter.induct)
  case (1 c v)
  show ?case
  proof (cases "vos_isEnd (vos_next c v) v \<noteq> Inr False")
    case True
    then show ?thesis using vos_next_none [OF True] by (subst (1 2) vos_iter.simps) (auto simp: Let_def)
  next
    case False
    then have False': "vos_isEnd (vos_next c v) v = Inr False" by simp
    note n = vos_next_some [OF False']
    have IH: "sorted_wrt (<) (vos_iter (vos_next c v) v)"
      "set (vos_iter (vos_next c v) v) = {e \<in> vos_ids v. vos_next c v < e}"
      using 1 [OF refl False] by blast+
    have eq: "vos_iter c v = vos_next c v # vos_iter (vos_next c v) v"
      using False' by (subst vos_iter.simps) (simp add: Let_def)
    have "set (vos_iter c v) = {e \<in> vos_ids v. c < e}" unfolding eq using IH(2) n by fastforce
    moreover have "sorted_wrt (<) (vos_iter c v)" unfolding eq using IH by simp
    ultimately show ?thesis by blast
  qed
qed

lemma vos_iter_set: "set (vos_iter 0 v) = vos_ids v"
proof -
  have "{e \<in> vos_ids v. 0 < e} = vos_ids v" by (auto simp: vos_ids_def)
  then show ?thesis using vos_iter_sorted [of 0 v] by simp
qed

section \<open>Changing the set\<close>

lemma length_filter_update:
  "p < length xs \<Longrightarrow> \<not> xs ! p \<Longrightarrow> length (filter id (xs[p := True])) = Suc (length (filter id xs))"
  "p < length xs \<Longrightarrow> xs ! p \<Longrightarrow> length (filter id xs) = Suc (length (filter id (xs[p := False])))"
  by (induction xs arbitrary: p; auto split: nat.splits)+

lemma vos_add_sem:
  assumes "1 \<le> e" "e \<le> length (vdata v)"
  shows "\<exists>v'. vos_add e v = Inr v' \<and> length (vdata v') = length (vdata v) \<and> vos_ids v' = insert e (vos_ids v) \<and>
    (vos_inv v \<longrightarrow> vos_inv v')"
proof (cases "vdata v ! (e - 1)")
  case True
  then have "e \<in> vos_ids v" using assms by (simp add: vos_ids_def)
  then show ?thesis using assms True by (auto simp: vos_add_def)
next
  case False
  have "vos_ids (v\<lparr>vdata := (vdata v)[e - 1 := True], vsize := vsize v + 1\<rparr>) = insert e (vos_ids v)"
    using assms by (auto simp: vos_ids_def nth_list_update)
  then show ?thesis using assms False length_filter_update(1) [of "e - 1" "vdata v"]
    by (auto simp: vos_add_def vos_inv_def Let_def)
qed

lemma vos_remove_sem:
  assumes "1 \<le> e" "e \<le> length (vdata v)"
  shows "\<exists>v'. vos_remove e v = Inr v' \<and> length (vdata v') = length (vdata v) \<and> vos_ids v' = vos_ids v - {e} \<and>
    (vos_inv v \<longrightarrow> vos_inv v')"
proof (cases "vdata v ! (e - 1)")
  case True
  have "vos_ids (v\<lparr>vdata := (vdata v)[e - 1 := False], vsize := vsize v - 1\<rparr>) = vos_ids v - {e}"
    using assms by (auto simp: vos_ids_def nth_list_update)
  then show ?thesis using assms True length_filter_update(2) [of "e - 1" "vdata v"]
    by (auto simp: vos_remove_def vos_inv_def Let_def)
next
  case False
  then have "e \<notin> vos_ids v" using assms by (simp add: vos_ids_def)
  then show ?thesis using assms False by (auto simp: vos_remove_def)
qed

lemma vos_eqI:
  assumes "vos_inv v" "vos_inv w" "length (vdata v) = length (vdata w)" "vos_ids v = vos_ids w"
  shows "v = w"
proof -
  have "vdata v ! i = vdata w ! i" if "i < length (vdata v)" for i
  proof -
    have "Suc i \<in> vos_ids v \<longleftrightarrow> Suc i \<in> vos_ids w" by (simp add: assms(4))
    then show ?thesis using that assms(3) by (simp add: vos_ids_def)
  qed
  then have "vdata v = vdata w" using assms(3) by (intro nth_equalityI) auto
  then show ?thesis using assms(1,2) by (simp add: vos_inv_def)
qed

section \<open>Serialization\<close>

lemma add_byte_bits_sem:
  assumes "\<forall>c \<in> set cs. bit byte c \<longrightarrow> b * 8 + c + 1 \<le> length (vdata v)"
  shows "\<exists>v'. add_byte_bits cs b byte v = Inr v' \<and> length (vdata v') = length (vdata v) \<and>
    vos_ids v' = vos_ids v \<union> {b * 8 + c + 1 |c. c \<in> set cs \<and> bit byte c} \<and> (vos_inv v \<longrightarrow> vos_inv v')"
  using assms
proof (induction cs arbitrary: v)
  case (Cons c cs)
  have eq: "add_byte_bits (c # cs) b byte v =
      rbind (if bit byte c then vos_add (b * 8 + (c + 1)) v else Inr v) (add_byte_bits cs b byte)"
    by (simp only: add_byte_bits.simps flip: bit_iff_and_push_bit_not_eq_0)
  show ?case
  proof (cases "bit byte c")
    case True
    then have "b * 8 + c + 1 \<le> length (vdata v)" using Cons.prems by simp
    then obtain v1 where v1: "vos_add (b * 8 + (c + 1)) v = Inr v1" "length (vdata v1) = length (vdata v)"
      "vos_ids v1 = insert (b * 8 + c + 1) (vos_ids v)" "vos_inv v \<longrightarrow> vos_inv v1"
      using vos_add_sem [of "b * 8 + (c + 1)" v] by (auto simp: add.assoc)
    have "\<forall>c \<in> set cs. bit byte c \<longrightarrow> b * 8 + c + 1 \<le> length (vdata v1)" using Cons.prems v1(2) by simp
    from Cons.IH [OF this] obtain v2 where v2: "add_byte_bits cs b byte v1 = Inr v2" "length (vdata v2) = length (vdata v1)"
      "vos_ids v2 = vos_ids v1 \<union> {b * 8 + c + 1 |c. c \<in> set cs \<and> bit byte c}" "vos_inv v1 \<longrightarrow> vos_inv v2" by blast
    have "add_byte_bits (c # cs) b byte v = Inr v2" unfolding eq using v1(1) v2(1) True by simp
    moreover have "vos_ids v2 = vos_ids v \<union> {b * 8 + c' + 1 |c'. c' \<in> set (c # cs) \<and> bit byte c'}"
      using v1(3) v2(3) True by auto
    ultimately show ?thesis using v1(2,4) v2(2,4) by auto
  next
    case False
    moreover have "\<exists>v'. add_byte_bits cs b byte v = Inr v' \<and> length (vdata v') = length (vdata v) \<and>
      vos_ids v' = vos_ids v \<union> {b * 8 + c + 1 |c. c \<in> set cs \<and> bit byte c} \<and> (vos_inv v \<longrightarrow> vos_inv v')"
      by (rule Cons.IH) (use Cons.prems in simp)
    ultimately show ?thesis unfolding eq by auto
  qed
qed simp

lemma add_bytes_sem:
  assumes "\<forall>i < length bytes. \<forall>c < 8. bit (bytes ! i) c \<longrightarrow> (b + i) * 8 + c + 1 \<le> length (vdata v)"
  shows "\<exists>v'. add_bytes bytes b v = Inr v' \<and> length (vdata v') = length (vdata v) \<and>
    vos_ids v' = vos_ids v \<union> {(b + i) * 8 + c + 1 |i c. i < length bytes \<and> c < 8 \<and> bit (bytes ! i) c} \<and>
    (vos_inv v \<longrightarrow> vos_inv v')"
  using assms
proof (induction bytes arbitrary: b v)
  case (Cons byte bytes)
  have "\<forall>c \<in> set [0..<8]. bit byte c \<longrightarrow> b * 8 + c + 1 \<le> length (vdata v)"
    using Cons.prems [rule_format, of 0] by simp
  from add_byte_bits_sem [OF this] obtain v1 where
    v1: "add_byte_bits [0..<8] b byte v = Inr v1" "length (vdata v1) = length (vdata v)"
      "vos_ids v1 = vos_ids v \<union> {b * 8 + c + 1 |c. c \<in> set [0..<8] \<and> bit byte c}" "vos_inv v \<longrightarrow> vos_inv v1" by blast
  have "\<forall>i < length bytes. \<forall>c < 8. bit (bytes ! i) c \<longrightarrow> (b + 1 + i) * 8 + c + 1 \<le> length (vdata v1)"
  proof (intro allI impI)
    fix i c :: nat assume "i < length bytes" "c < 8" "bit (bytes ! i) c"
    then show "(b + 1 + i) * 8 + c + 1 \<le> length (vdata v1)"
      using Cons.prems [rule_format, of "Suc i" c] v1(2) by simp
  qed
  from Cons.IH [OF this] obtain v2 where v2: "add_bytes bytes (b + 1) v1 = Inr v2" "length (vdata v2) = length (vdata v1)"
      "vos_ids v2 = vos_ids v1 \<union> {(b + 1 + i) * 8 + c + 1 |i c. i < length bytes \<and> c < 8 \<and> bit (bytes ! i) c}"
      "vos_inv v1 \<longrightarrow> vos_inv v2" by blast
  have "{(b + i) * 8 + c + 1 |i c. i < length (byte # bytes) \<and> c < 8 \<and> bit ((byte # bytes) ! i) c} =
      {b * 8 + c + 1 |c. c \<in> set [0..<8] \<and> bit byte c} \<union>
      {(b + 1 + i) * 8 + c + 1 |i c. i < length bytes \<and> c < 8 \<and> bit (bytes ! i) c}" (is "?A = ?B \<union> ?C")
  proof (intro equalityI subsetI)
    fix x assume "x \<in> ?A"
    then obtain i c where x: "x = (b + i) * 8 + c + 1" "i < length (byte # bytes)" "c < 8" "bit ((byte # bytes) ! i) c"
      by blast
    show "x \<in> ?B \<union> ?C"
    proof (cases i)
      case 0
      then have "x \<in> ?B" using x by simp
      then show ?thesis ..
    next
      case (Suc j)
      then have "x \<in> ?C" using x by (intro CollectI exI [of _ j] exI [of _ c]) simp
      then show ?thesis ..
    qed
  next
    fix x assume "x \<in> ?B \<union> ?C"
    then show "x \<in> ?A"
    proof
      assume "x \<in> ?B"
      then obtain c where "x = b * 8 + c + 1" "c < 8" "bit byte c" by auto
      then show ?thesis by (intro CollectI exI [of _ 0] exI [of _ c]) simp
    next
      assume "x \<in> ?C"
      then obtain i c where "x = (b + 1 + i) * 8 + c + 1" "i < length bytes" "c < 8" "bit (bytes ! i) c" by blast
      then show ?thesis by (intro CollectI exI [of _ "Suc i"] exI [of _ c]) simp
    qed
  qed
  then show ?case using v1 v2 by (simp add: Un_assoc)
qed simp

lemma length_fold_set_share_bit [simp]: "length (fold set_share_bit ids buf) = length buf"
  by (induction ids arbitrary: buf) (simp_all add: set_share_bit_def Let_def)

lemma set_share_bit_bit:
  assumes "1 \<le> e" "e \<le> 8 * length buf" "k < 8 * length buf"
  shows "bit (set_share_bit e buf ! (k div 8)) (k mod 8) \<longleftrightarrow> bit (buf ! (k div 8)) (k mod 8) \<or> Suc k = e"
proof (cases "k div 8 = (e - 1) div 8")
  case True
  have len: "(e - 1) div 8 < length buf" using assms by auto
  have "k mod 8 = (e - 1) mod 8 \<longleftrightarrow> Suc k = e"
  proof
    assume "k mod 8 = (e - 1) mod 8"
    with True have "k = e - 1" by (metis div_mult_mod_eq)
    then show "Suc k = e" using assms by auto
  qed auto
  then show ?thesis using True len
    by (auto simp: set_share_bit_def Let_def bit_or_iff bit_exp_iff possible_bit_word)
next
  case False
  then have "Suc k \<noteq> e" by auto
  then show ?thesis using False by (simp add: set_share_bit_def Let_def)
qed

lemma fold_set_share_bit:
  assumes "\<forall>e \<in> set ids. 1 \<le> e \<and> e \<le> 8 * length buf" "k < 8 * length buf"
  shows "bit (fold set_share_bit ids buf ! (k div 8)) (k mod 8) \<longleftrightarrow> bit (buf ! (k div 8)) (k mod 8) \<or> Suc k \<in> set ids"
  using assms
proof (induction ids arbitrary: buf)
  case (Cons e ids)
  have len: "length (set_share_bit e buf) = length buf" by (simp add: set_share_bit_def Let_def)
  have "bit (fold set_share_bit ids (set_share_bit e buf) ! (k div 8)) (k mod 8) \<longleftrightarrow>
      bit (set_share_bit e buf ! (k div 8)) (k mod 8) \<or> Suc k \<in> set ids"
    by (rule Cons.IH) (use Cons.prems len in auto)
  then show ?case using set_share_bit_bit [of e buf k] Cons.prems by auto
qed simp

lemma byte_index:
  "{(0 + i) * 8 + c + 1 |i c. i < n \<and> c < 8 \<and> P i c} = {Suc k |k. k < 8 * n \<and> P (k div 8) (k mod 8)}"
proof (intro equalityI subsetI)
  fix x assume "x \<in> {(0 + i) * 8 + c + 1 |i c. i < n \<and> c < 8 \<and> P i c}"
  then obtain i c where "x = Suc (i * 8 + c)" "i < n" "c < 8" "P i c" by auto
  then show "x \<in> {Suc k |k. k < 8 * n \<and> P (k div 8) (k mod 8)}"
    by (intro CollectI exI [of _ "i * 8 + c"]) simp
next
  fix x assume "x \<in> {Suc k |k. k < 8 * n \<and> P (k div 8) (k mod 8)}"
  then obtain k where "x = Suc k" "k < 8 * n" "P (k div 8) (k mod 8)" by blast
  then show "x \<in> {(0 + i) * 8 + c + 1 |i c. i < n \<and> c < 8 \<and> P i c}"
    by (intro CollectI exI [of _ "k div 8"] exI [of _ "k mod 8"]) (simp add: less_mult_imp_div_less mult.commute)
qed

text \<open>
  C17. Iterating over a vector of shares with \<^verbatim>\<open>first\<close> and \<^verbatim>\<open>next\<close> visits the identifiers in it once each,
  in ascending order, and their number is \<^verbatim>\<open>count()\<close>.
\<close>

theorem vos_iter_visits:
  assumes "vos_inv v"
  shows "sorted_wrt (<) (vos_iter 0 v) \<and> length (vos_iter 0 v) = vsize v \<and>
    (\<forall>e. e \<in> set (vos_iter 0 v) \<longleftrightarrow> vos_contains e v = Inr True)"
proof -
  note sd = vos_iter_sorted [of 0 v, THEN conjunct1]
  have st: "set (vos_iter 0 v) = vos_ids v" by (rule vos_iter_set)
  have "vos_ids v = Suc ` {i. i < length (vdata v) \<and> vdata v ! i}"
  proof (intro equalityI subsetI)
    fix e assume "e \<in> vos_ids v"
    then show "e \<in> Suc ` {i. i < length (vdata v) \<and> vdata v ! i}"
      by (intro image_eqI [of _ _ "e - 1"]) (auto simp: vos_ids_def)
  qed (auto simp: vos_ids_def)
  then have "card (vos_ids v) = card {i. i < length (vdata v) \<and> vdata v ! i}" by (simp add: card_image)
  also have "\<dots> = vsize v" using assms by (simp add: vos_inv_def length_filter_conv_card)
  finally have "length (vos_iter 0 v) = vsize v"
    using st sd by (metis distinct_card strict_sorted_iff)
  then show ?thesis using sd st by (auto simp: vos_contains_def vos_ids_def)
qed

theorem vos_iter_visits_witness:
  "vos_iter 0 \<lparr>vdata = [True, False, True, True], vsize = 3\<rparr> = [1, 3, 4] \<and>
   length (vos_iter 0 \<lparr>vdata = [True, False, True, True], vsize = 3\<rparr>) = 3"
proof -
  have "vos_inv \<lparr>vdata = [True, False, True, True], vsize = 3\<rparr>" by (simp add: vos_inv_def)
  from vos_iter_visits [OF this] show ?thesis
    by (simp add: vos_iter.simps Let_def vos_next_def vos_isEnd_def)
qed

text \<open>
  C25. Deserializing a serialized vector of shares gives the vector back, into whatever vector it is read.
\<close>

theorem vos_bytes_round_trip:
  assumes inv: "vos_inv v" and cap: "getByteCount (length (vdata v)) \<le> capacity"
    and len: "length (vdata w) = length (vdata v)"
  shows "\<exists>buf. vos_toBytes capacity v = Inr buf \<and> vos_fromBytes buf w = Inr v"
proof -
  let ?n = "getByteCount (length (vdata v))"
  let ?buf = "fold set_share_bit (vos_iter 0 v) (replicate ?n 0)"
  have n: "length (vdata v) \<le> 8 * ?n" by (auto simp: getByteCount_def)
  have ids: "set (vos_iter 0 v) = vos_ids v" by (rule vos_iter_set)
  have rng: "\<forall>e \<in> set (vos_iter 0 v). 1 \<le> e \<and> e \<le> 8 * length (replicate ?n (0 :: 8 word))"
    using ids n by (auto simp: vos_ids_def)
  have blen: "length ?buf = ?n" by simp
  have bits: "bit (?buf ! (k div 8)) (k mod 8) \<longleftrightarrow> Suc k \<in> vos_ids v" if "k < 8 * ?n" for k
    using fold_set_share_bit [OF rng, of k] that ids by (simp add: less_mult_imp_div_less mult.commute)
  have "\<forall>i < length ?buf. \<forall>c < 8. bit (?buf ! i) c \<longrightarrow> (0 + i) * 8 + c + 1 \<le> length (vdata (vos_clear w))"
  proof (intro allI impI)
    fix i c :: nat assume "i < length ?buf" "c < 8" "bit (?buf ! i) c"
    then show "(0 + i) * 8 + c + 1 \<le> length (vdata (vos_clear w))"
      using bits [of "i * 8 + c"] blen len by (simp add: vos_ids_def vos_clear_def)
  qed
  from add_bytes_sem [OF this] obtain v' where v': "add_bytes ?buf 0 (vos_clear w) = Inr v'"
    "length (vdata v') = length (vdata w)" "vos_inv (vos_clear w) \<longrightarrow> vos_inv v'"
    "vos_ids v' = vos_ids (vos_clear w) \<union> {(0 + i) * 8 + c + 1 |i c. i < length ?buf \<and> c < 8 \<and> bit (?buf ! i) c}"
    by (auto simp: vos_clear_def)
  have clear: "vos_ids (vos_clear w) = {}" "vos_inv (vos_clear w)"
    by (auto simp: vos_ids_def vos_inv_def vos_clear_def)
  have same: "{Suc k |k. k < 8 * ?n \<and> bit (?buf ! (k div 8)) (k mod 8)} = vos_ids v"
  proof (intro equalityI subsetI)
    fix e assume e: "e \<in> vos_ids v"
    then have "e = Suc (e - 1)" "e - 1 < 8 * ?n" using n by (auto simp: vos_ids_def)
    then show "e \<in> {Suc k |k. k < 8 * ?n \<and> bit (?buf ! (k div 8)) (k mod 8)}"
      using e bits [of "e - 1"] by (intro CollectI exI [of _ "e - 1"]) simp
  qed (use bits in auto)
  have "vos_ids v' = vos_ids v"
    using v'(4) unfolding byte_index blen clear same by simp
  then have "v' = v" using v'(2,3) clear len inv by (intro vos_eqI) simp_all
  then show ?thesis using v'(1) cap by (auto simp: vos_toBytes_def vos_fromBytes_def)
qed

theorem vos_bytes_round_trip_witness:
  "\<exists>buf. vos_toBytes 256 \<lparr>vdata = True # replicate 2047 False, vsize = 1\<rparr> = Inr buf \<and>
     vos_fromBytes buf vos_new = Inr \<lparr>vdata = True # replicate 2047 False, vsize = 1\<rparr>"
  by (rule vos_bytes_round_trip) (simp_all add: vos_inv_def getByteCount_def vos_new_def MAX_NUM_OF_SHARES_def)

end
