(* ===== verification/Threshold_Scheme.thy ===== *)
theory Threshold_Scheme
  imports Vector_Of_Shares Byte_Buffers "HOL-Library.Multiset"
begin

text \<open>
  The threshold signatures the replicas collect: the interface of threshsign/include/threshsign/IThresholdVerifier.h
  and IThresholdAccumulator.h, its EdDSA implementation (threshsign/src/eddsa), the common part of the
  accumulators of the BLS implementations (threshsign/src/ThresholdAccumulatorBase.cpp), and the digest
  that is signed (util/include/crypto/digest_holder.hpp).

  The curve operations are parameters: \<open>verifyBuffer i d s\<close> is whether the 64 bytes \<open>s\<close> are a
  signature of signer \<open>i\<close> on the digest \<open>d\<close>.
\<close>

section \<open>Digests\<close>

text \<open>The 32 bytes of a digest, read as an array of \<^verbatim>\<open>uint64_t\<close>, as \<^verbatim>\<open>calcCombination\<close> does.\<close>

type_synonym Digest = "64 word list"

definition makeZero :: Digest where
  "makeZero = [0, 0, 0, 0]"

text \<open>The digest in a message.\<close>

definition digest_words :: "bytes \<Rightarrow> Digest" where
  "digest_words d = map (\<lambda>i. word_of_nat (fld (8 * i) 8 d)) [0..<4]"

definition calcCombination :: "Digest \<Rightarrow> int \<Rightarrow> int \<Rightarrow> Digest" where
  "calcCombination d inDataA inDataB =
     (let X = 32 div 8 div 2;
          locationA = unat (d ! 0) mod X;
          locationB = unat (drop_bit 8 (d ! 0)) mod X;
          d1 = d[locationA := (d ! locationA) XOR word_of_int inDataA]
      in d1[locationB := (d1 ! locationB) XOR word_of_int inDataB])"

section \<open>The interface\<close>

text \<open>
  \<open>tv_accumulate withShareVerification d shares\<close> makes a new accumulator, sets the expected digest,
  adds the shares one after the other, and returns the full signed data and the identifiers of the
  invalid shares in ascending order.
\<close>

record IThresholdVerifier =
  tv_verify :: "Digest \<Rightarrow> bytes \<Rightarrow> bool result"
  tv_accumulate :: "bool \<Rightarrow> Digest \<Rightarrow> bytes list \<Rightarrow> (bytes \<times> nat list) result"

section \<open>EdDSA multisignatures\<close>

record SingleEdDSASignature =
  sg_id :: nat
  signatureBytes :: bytes

text \<open>The layout of the structure: a little-endian \<^verbatim>\<open>uint64_t\<close> followed by 64 bytes.\<close>

definition single_size :: nat where
  "single_size = 8 + 64"

definition parse_single :: "bytes \<Rightarrow> SingleEdDSASignature" where
  "parse_single buf = \<lparr>sg_id = le_nat (take 8 buf), signatureBytes = drop 8 buf\<rparr>"

definition ser_single :: "SingleEdDSASignature \<Rightarrow> bytes" where
  "ser_single s = le_bytes 8 (sg_id s) @ signatureBytes s"

text \<open>The array of signatures a buffer is read as.\<close>

fun split_sigs :: "nat \<Rightarrow> bytes \<Rightarrow> bytes list" where
  "split_sigs 0 buf = []"
| "split_sigs (Suc n) buf = take single_size buf # split_sigs n (drop single_size buf)"

record EdDSAMultisigVerifier =
  verifyBuffer :: "nat \<Rightarrow> Digest \<Rightarrow> bytes \<Rightarrow> bool"
  signersCount :: nat
  ed_threshold :: nat

definition ed_signData :: "(Digest \<Rightarrow> bytes) \<Rightarrow> nat \<Rightarrow> Digest \<Rightarrow> nat \<Rightarrow> bytes result" where
  "ed_signData signBuffer myId hash outSigLen =
     c_assert (outSigLen \<ge> single_size)
       (Inr (ser_single \<lparr>sg_id = myId, signatureBytes = signBuffer hash\<rparr>))"

definition maxShareID :: "EdDSAMultisigVerifier \<Rightarrow> nat" where
  "maxShareID v = signersCount v + 1"

definition requiredLengthForSignedData :: "EdDSAMultisigVerifier \<Rightarrow> nat" where
  "requiredLengthForSignedData v = signersCount v * single_size"

text \<open>
  \<^verbatim>\<open>verifiers_\<close> has \<open>signersCount + 1\<close> elements (asserted by the constructor); an access beyond them
  is undefined.
\<close>

definition verifySingleSignature :: "EdDSAMultisigVerifier \<Rightarrow> Digest \<Rightarrow> SingleEdDSASignature \<Rightarrow> bool result" where
  "verifySingleSignature v msg s =
     (if sg_id s = 0 then Inr False
      else if sg_id s < signersCount v + 1 then Inr (verifyBuffer v (sg_id s) msg (signatureBytes s))
      else Inl UndefinedBehaviour)"

fun count_valid :: "EdDSAMultisigVerifier \<Rightarrow> Digest \<Rightarrow> SingleEdDSASignature list \<Rightarrow> nat result" where
  "count_valid v msg [] = Inr 0"
| "count_valid v msg (s # ss) =
     (if sg_id s = 0 \<or> sg_id s \<ge> signersCount v + 1 then count_valid v msg ss
      else rbind (verifySingleSignature v msg s)
             (\<lambda>ok. rbind (count_valid v msg ss) (\<lambda>n. Inr (if ok then n + 1 else n))))"

definition ed_verify :: "EdDSAMultisigVerifier \<Rightarrow> Digest \<Rightarrow> bytes \<Rightarrow> bool result" where
  "ed_verify v msg sig =
     c_assert (length sig mod single_size = 0)
       (let signatureCountInBuffer = length sig div single_size
        in if signatureCountInBuffer < ed_threshold v then Inr False
           else rbind (count_valid v msg (map parse_single (split_sigs signatureCountInBuffer sig)))
                  (\<lambda>validSignatureCount. Inr (validSignatureCount \<ge> ed_threshold v)))"

text \<open>
  The accumulator. \<^verbatim>\<open>signatures_\<close> is an unordered map: an association list in insertion order, iterated
  in the order \<open>order\<close> gives.
\<close>

record EdDSASignatureAccumulator =
  ed_signatures :: "(nat \<times> SingleEdDSASignature) list"
  expectedMsgDigest :: Digest
  verification :: bool
  ed_invalidShares :: "nat list"

definition ed_newAccumulator :: "bool \<Rightarrow> EdDSASignatureAccumulator" where
  "ed_newAccumulator withShareVerification =
     \<lparr>ed_signatures = [], expectedMsgDigest = [], verification = withShareVerification, ed_invalidShares = []\<rparr>"

definition ed_setExpectedDigest :: "Digest \<Rightarrow> EdDSASignatureAccumulator \<Rightarrow> EdDSASignatureAccumulator" where
  "ed_setExpectedDigest msg acc = acc\<lparr>expectedMsgDigest := msg\<rparr>"

definition ed_add :: "EdDSAMultisigVerifier \<Rightarrow> bytes \<Rightarrow> EdDSASignatureAccumulator \<Rightarrow> EdDSASignatureAccumulator result" where
  "ed_add v sigShareWithId acc =
     c_assert (length sigShareWithId = single_size)
       (let s = parse_single sigShareWithId
        in if sg_id s = 0 \<or> sg_id s > maxShareID v then Inr acc
           else rbind
                  (if verification acc
                   then rbind (verifySingleSignature v (expectedMsgDigest acc) s)
                          (\<lambda>ok. Inr (if ok then acc
                                     else acc\<lparr>ed_invalidShares := insort_insert (sg_id s) (ed_invalidShares acc)\<rparr>))
                   else Inr acc)
                  (\<lambda>acc1. Inr (if sg_id s \<in> set (map fst (ed_signatures acc1)) then acc1
                               else acc1\<lparr>ed_signatures := ed_signatures acc1 @ [(sg_id s, s)]\<rparr>)))"

definition ed_getFullSignedData :: "((nat \<times> SingleEdDSASignature) list \<Rightarrow> (nat \<times> SingleEdDSASignature) list) \<Rightarrow> nat \<Rightarrow>
    EdDSASignatureAccumulator \<Rightarrow> bytes result" where
  "ed_getFullSignedData order threshSigLen acc =
     c_assert (threshSigLen \<ge> length (ed_signatures acc) * single_size)
       (Inr (concat (map (ser_single \<circ> snd) (order (ed_signatures acc)))))"

fun ed_add_all :: "EdDSAMultisigVerifier \<Rightarrow> bytes list \<Rightarrow> EdDSASignatureAccumulator \<Rightarrow> EdDSASignatureAccumulator result" where
  "ed_add_all v [] acc = Inr acc"
| "ed_add_all v (s # ss) acc = rbind (ed_add v s acc) (ed_add_all v ss)"

definition ed_IThresholdVerifier :: "((nat \<times> SingleEdDSASignature) list \<Rightarrow> (nat \<times> SingleEdDSASignature) list) \<Rightarrow>
    EdDSAMultisigVerifier \<Rightarrow> IThresholdVerifier" where
  "ed_IThresholdVerifier order v =
     \<lparr>tv_verify = ed_verify v,
      tv_accumulate = (\<lambda>b d shares.
        rbind (ed_add_all v shares (ed_setExpectedDigest d (ed_newAccumulator b)))
          (\<lambda>acc. rbind (ed_getFullSignedData order (u16 (requiredLengthForSignedData v)) acc)
            (\<lambda>sig. Inr (sig, ed_invalidShares acc))))\<rparr>"

section \<open>The accumulators of the BLS schemes\<close>

text \<open>
  \<open>verifyShare d i s\<close> is the pairing check of a subclass and \<open>parse\<close> its share parser. A vector of
  shares is a list of optional values.
\<close>

record 'g ThresholdAccumulator =
  ta_expectedDigest :: "Digest option"
  reqSigners :: nat
  totalSigners :: nat
  ta_shareVerification :: bool
  pendingShares :: "'g option list"
  validShares :: "'g option list"
  ta_invalidShares :: "nat list"
  validSharesBits :: VectorOfShares
  pendingSharesBits :: VectorOfShares

definition ta_new :: "nat \<Rightarrow> nat \<Rightarrow> bool \<Rightarrow> 'g ThresholdAccumulator" where
  "ta_new req n b =
     \<lparr>ta_expectedDigest = None, reqSigners = req, totalSigners = n, ta_shareVerification = b,
      pendingShares = replicate (n + 1) None, validShares = replicate (n + 1) None, ta_invalidShares = [],
      validSharesBits = vos_new, pendingSharesBits = vos_new\<rparr>"

text \<open>The loop of \<^verbatim>\<open>verifyPendingShares\<close>. Reading a share that was never stored gives no valid point.\<close>

fun verify_pending_loop :: "(Digest \<Rightarrow> nat \<Rightarrow> 'g \<Rightarrow> bool) \<Rightarrow> Digest \<Rightarrow> nat list \<Rightarrow> 'g ThresholdAccumulator \<Rightarrow>
    'g ThresholdAccumulator result" where
  "verify_pending_loop verifyShare d [] a = Inr a"
| "verify_pending_loop verifyShare d (i # is) a =
     (if vsize (validSharesBits a) = reqSigners a then Inr a
      else case (if i < length (pendingShares a) then pendingShares a ! i else None) of
             None \<Rightarrow> Inl UndefinedBehaviour
           | Some s \<Rightarrow>
               rbind
                 (if verifyShare d i s
                  then rbind (vos_add i (validSharesBits a))
                         (\<lambda>bits. Inr (a\<lparr>validShares := (validShares a)[i := Some s], validSharesBits := bits\<rparr>))
                  else Inr (a\<lparr>ta_invalidShares := insort_insert i (ta_invalidShares a)\<rparr>))
                 (verify_pending_loop verifyShare d is))"

definition verifyPendingShares :: "(Digest \<Rightarrow> nat \<Rightarrow> 'g \<Rightarrow> bool) \<Rightarrow> Digest \<Rightarrow> 'g ThresholdAccumulator \<Rightarrow>
    'g ThresholdAccumulator result" where
  "verifyPendingShares verifyShare d a =
     c_assert (vsize (validSharesBits a) = 0)
       (rbind (verify_pending_loop verifyShare d (vos_iter 0 (pendingSharesBits a)) a)
         (\<lambda>a1. let a2 = a1\<lparr>pendingShares := []\<rparr>
               in c_assert (vsize (validSharesBits a2) \<le> reqSigners a2) (Inr a2)))"

definition ta_setExpectedDigest :: "(Digest \<Rightarrow> nat \<Rightarrow> 'g \<Rightarrow> bool) \<Rightarrow> Digest \<Rightarrow> 'g ThresholdAccumulator \<Rightarrow>
    'g ThresholdAccumulator result" where
  "ta_setExpectedDigest verifyShare d a =
     (case ta_expectedDigest a of
        None \<Rightarrow>
          let a1 = a\<lparr>ta_expectedDigest := Some d\<rparr>
          in if ta_shareVerification a1 then verifyPendingShares verifyShare d a1 else Inr a1
      | Some d' \<Rightarrow> if d' \<noteq> d then Inl RuntimeError else Inr a)"

definition addNumById :: "(Digest \<Rightarrow> nat \<Rightarrow> 'g \<Rightarrow> bool) \<Rightarrow> nat \<Rightarrow> 'g \<Rightarrow> 'g ThresholdAccumulator \<Rightarrow>
    'g ThresholdAccumulator result" where
  "addNumById verifyShare signer sigShare a =
     c_assert (1 \<le> signer \<and> signer \<le> totalSigners a)
      (c_assert (vsize (validSharesBits a) \<le> reqSigners a)
        (if ta_shareVerification a \<and> ta_expectedDigest a = None
         then rbind (vos_contains signer (pendingSharesBits a))
                (\<lambda>has. if \<not> has
                  then rbind (vos_add signer (pendingSharesBits a))
                         (\<lambda>bits. Inr (a\<lparr>pendingShares := (pendingShares a)[signer := Some sigShare],
                                        pendingSharesBits := bits\<rparr>))
                  else Inr a)
         else if vsize (validSharesBits a) = reqSigners a then Inr a
         else rbind (vos_contains signer (validSharesBits a))
                (\<lambda>has. if \<not> has
                  then if \<not> ta_shareVerification a \<or> verifyShare (the (ta_expectedDigest a)) signer sigShare
                       then rbind (vos_add signer (validSharesBits a))
                              (\<lambda>bits. Inr (a\<lparr>validShares := (validShares a)[signer := Some sigShare],
                                             validSharesBits := bits\<rparr>))
                       else Inr a
                  else Inr a)))"

definition ta_add :: "(bytes \<Rightarrow> nat \<times> 'g) \<Rightarrow> (Digest \<Rightarrow> nat \<Rightarrow> 'g \<Rightarrow> bool) \<Rightarrow> bytes \<Rightarrow> 'g ThresholdAccumulator \<Rightarrow>
    'g ThresholdAccumulator result" where
  "ta_add parse verifyShare sigShare a = (case parse sigShare of (i, s) \<Rightarrow> addNumById verifyShare i s a)"

fun ta_add_all :: "(bytes \<Rightarrow> nat \<times> 'g) \<Rightarrow> (Digest \<Rightarrow> nat \<Rightarrow> 'g \<Rightarrow> bool) \<Rightarrow> bytes list \<Rightarrow> 'g ThresholdAccumulator \<Rightarrow>
    'g ThresholdAccumulator result" where
  "ta_add_all parse verifyShare [] a = Inr a"
| "ta_add_all parse verifyShare (s # ss) a = rbind (ta_add parse verifyShare s a) (ta_add_all parse verifyShare ss)"

section \<open>Signature buffers\<close>

lemma ser_parse_single: "length buf = single_size \<Longrightarrow> ser_single (parse_single buf) = buf"
  by (simp add: ser_single_def parse_single_def single_size_def le_bytes_nat)

lemma parse_ser_single: "sg_id s < 2 ^ 64 \<Longrightarrow> parse_single (ser_single s) = s"
  by (simp add: ser_single_def parse_single_def le_nat_bytes)

lemma length_concat_single: "\<forall>x \<in> set xs. length x = single_size \<Longrightarrow> length (concat xs) = length xs * single_size"
  by (induction xs) (simp_all add: single_size_def)

lemma split_concat: "\<forall>x \<in> set xs. length x = single_size \<Longrightarrow> split_sigs (length xs) (concat xs) = xs"
  by (induction xs) auto

lemma ed_verify_concat:
  assumes "\<forall>x \<in> set xs. length x = single_size"
  shows "ed_verify v d (concat xs) =
    (if length xs < ed_threshold v then Inr False
     else rbind (count_valid v d (map parse_single xs)) (\<lambda>n. Inr (n \<ge> ed_threshold v)))"
proof -
  have len: "length (concat xs) = length xs * single_size" by (rule length_concat_single [OF assms])
  have "single_size \<noteq> 0" by (simp add: single_size_def)
  then have "length (concat xs) mod single_size = 0" "length (concat xs) div single_size = length xs"
    unfolding len by simp_all
  then show ?thesis by (simp add: ed_verify_def Let_def split_concat [OF assms] del: length_concat)
qed

text \<open>The signatures in a buffer that count: by a known signer and valid.\<close>

definition sig_counts :: "EdDSAMultisigVerifier \<Rightarrow> Digest \<Rightarrow> SingleEdDSASignature \<Rightarrow> bool" where
  "sig_counts v d s \<longleftrightarrow> 0 < sg_id s \<and> sg_id s \<le> signersCount v \<and> verifyBuffer v (sg_id s) d (signatureBytes s)"

lemma count_valid_filter: "count_valid v d ss = Inr (length (filter (sig_counts v d) ss))"
  by (induction ss) (auto simp: sig_counts_def verifySingleSignature_def)

lemma ed_verify_iff:
  assumes "\<forall>x \<in> set xs. length x = single_size"
  shows "ed_verify v d (concat xs) = Inr (ed_threshold v \<le> length (filter (sig_counts v d) (map parse_single xs)))"
proof -
  have "\<not> ed_threshold v \<le> length (filter (sig_counts v d) (map parse_single xs))" if "length xs < ed_threshold v"
    using that length_filter_le [of "sig_counts v d" "map parse_single xs"] unfolding length_map by linarith
  then show ?thesis by (auto simp: ed_verify_concat [OF assms] count_valid_filter)
qed

section \<open>What the collectors rely on\<close>

text \<open>
  \<open>proper r s\<close>: \<open>s\<close> is a share replica \<open>r\<close> may send, with the identifier of \<open>r\<close> in it; \<open>good d r s\<close>:
  it is a valid share on \<open>d\<close>.
\<close>

locale threshold_scheme =
  fixes vf :: IThresholdVerifier
    and req :: nat
    and proper :: "ReplicaId \<Rightarrow> bytes \<Rightarrow> bool"
    and good :: "Digest \<Rightarrow> ReplicaId \<Rightarrow> bytes \<Rightarrow> bool"
  assumes acc_total: "xs \<noteq> [] \<Longrightarrow> distinct (map fst xs) \<Longrightarrow> \<forall>(r, s) \<in> set xs. proper r s \<Longrightarrow>
      \<exists>sig bad ok. tv_accumulate vf b d (map snd xs) = Inr (sig, bad) \<and> tv_verify vf d sig = Inr ok"
    and acc_good: "xs \<noteq> [] \<Longrightarrow> distinct (map fst xs) \<Longrightarrow> \<forall>(r, s) \<in> set xs. proper r s \<and> good d r s \<Longrightarrow> length xs = req \<Longrightarrow>
      tv_accumulate vf b d (map snd xs) = Inr (sig, bad) \<Longrightarrow> tv_verify vf d sig = Inr True"
    and acc_bad: "xs \<noteq> [] \<Longrightarrow> distinct (map fst xs) \<Longrightarrow> \<forall>(r, s) \<in> set xs. proper r s \<Longrightarrow>
      tv_accumulate vf True d (map snd xs) = Inr (sig, bad) \<Longrightarrow>
      distinct bad \<and> set bad = {Suc r |r. \<exists>s. (r, s) \<in> set xs \<and> \<not> good d r s}"
    and proper_bound: "proper r s \<Longrightarrow> r < 65535"
begin

text \<open>If the shares do not combine to a valid signature, then some of them are named as bad.\<close>

lemma failure_names_bad:
  assumes "xs \<noteq> []" "distinct (map fst xs)" "\<forall>(r, s) \<in> set xs. proper r s" "length xs = req"
    and "tv_accumulate vf True d (map snd xs) = Inr (sig, bad)" "tv_verify vf d sig \<noteq> Inr True"
  shows "bad \<noteq> []"
proof
  assume "bad = []"
  with acc_bad [OF assms(1,2,3,5)] have "\<forall>(r, s) \<in> set xs. good d r s" by auto
  with assms(3) have "\<forall>(r, s) \<in> set xs. proper r s \<and> good d r s" by auto
  from acc_good [OF assms(1,2) this assms(4,5)] assms(6) show False by blast
qed

end

definition ed_proper :: "((nat \<times> SingleEdDSASignature) list \<Rightarrow> (nat \<times> SingleEdDSASignature) list) \<Rightarrow>
    EdDSAMultisigVerifier \<Rightarrow> ReplicaId \<Rightarrow> bytes \<Rightarrow> bool" where
  "ed_proper order v r s \<longleftrightarrow> (\<forall>xs. mset (order xs) = mset xs) \<and> signersCount v * single_size < 65536 \<and>
     length s = single_size \<and> sg_id (parse_single s) = Suc r \<and> r < signersCount v"

definition ed_good :: "EdDSAMultisigVerifier \<Rightarrow> Digest \<Rightarrow> ReplicaId \<Rightarrow> bytes \<Rightarrow> bool" where
  "ed_good v d r s \<longleftrightarrow> verifyBuffer v (Suc r) d (signatureBytes (parse_single s))"

lemma ed_add_proper:
  assumes "ed_proper order v r s" "Suc r \<notin> fst ` set (ed_signatures acc)"
  shows "ed_add v s acc = Inr (acc\<lparr>ed_signatures := ed_signatures acc @ [(Suc r, parse_single s)],
    ed_invalidShares := (if verification acc \<and> \<not> ed_good v (expectedMsgDigest acc) r s
      then insort_insert (Suc r) (ed_invalidShares acc) else ed_invalidShares acc)\<rparr>)"
  using assms
  by (auto simp: ed_add_def Let_def ed_proper_def maxShareID_def verifySingleSignature_def ed_good_def)

lemma set_insort_insert: "set (insort_insert x xs) = insert x (set xs)"
  by (auto simp: set_insort_insert)

lemma ed_add_all_proper:
  assumes "distinct (map fst xs)" "\<forall>(r, s) \<in> set xs. ed_proper order v r s"
    and "\<forall>(r, s) \<in> set xs. Suc r \<notin> fst ` set (ed_signatures acc)" "distinct (ed_invalidShares acc)"
  shows "\<exists>bad. ed_add_all v (map snd xs) acc =
      Inr (acc\<lparr>ed_signatures := ed_signatures acc @ map (\<lambda>(r, s). (Suc r, parse_single s)) xs, ed_invalidShares := bad\<rparr>) \<and>
    distinct bad \<and> set bad = set (ed_invalidShares acc) \<union>
      (if verification acc then {Suc r |r. \<exists>s. (r, s) \<in> set xs \<and> \<not> ed_good v (expectedMsgDigest acc) r s} else {})"
  using assms
proof (induction xs arbitrary: acc)
  case (Cons p xs)
  obtain r s where p: "p = (r, s)" by (cases p)
  let ?bad1 = "if verification acc \<and> \<not> ed_good v (expectedMsgDigest acc) r s
      then insort_insert (Suc r) (ed_invalidShares acc) else ed_invalidShares acc"
  let ?acc1 = "acc\<lparr>ed_signatures := ed_signatures acc @ [(Suc r, parse_single s)], ed_invalidShares := ?bad1\<rparr>"
  have new: "\<forall>(r', s') \<in> set xs. r' \<noteq> r" using Cons.prems(1) p by force
  have add: "ed_add v s acc = Inr ?acc1"
    by (rule ed_add_proper) (use Cons.prems p in auto)
  have "\<exists>bad. ed_add_all v (map snd xs) ?acc1 =
      Inr (?acc1\<lparr>ed_signatures := ed_signatures ?acc1 @ map (\<lambda>(r, s). (Suc r, parse_single s)) xs, ed_invalidShares := bad\<rparr>) \<and>
    distinct bad \<and> set bad = set (ed_invalidShares ?acc1) \<union>
      (if verification ?acc1 then {Suc r |r. \<exists>s. (r, s) \<in> set xs \<and> \<not> ed_good v (expectedMsgDigest ?acc1) r s} else {})"
    by (rule Cons.IH) (use Cons.prems p new in \<open>auto simp: distinct_insort_insert\<close>)
  then obtain bad where bad: "ed_add_all v (map snd xs) ?acc1 =
      Inr (?acc1\<lparr>ed_signatures := ed_signatures ?acc1 @ map (\<lambda>(r, s). (Suc r, parse_single s)) xs, ed_invalidShares := bad\<rparr>)"
    "distinct bad" "set bad = set (ed_invalidShares ?acc1) \<union>
      (if verification ?acc1 then {Suc r |r. \<exists>s. (r, s) \<in> set xs \<and> \<not> ed_good v (expectedMsgDigest ?acc1) r s} else {})"
    by blast
  have "ed_add_all v (map snd (p # xs)) acc =
      Inr (acc\<lparr>ed_signatures := ed_signatures acc @ map (\<lambda>(r, s). (Suc r, parse_single s)) (p # xs), ed_invalidShares := bad\<rparr>)"
    using add bad(1) p by simp
  moreover have "set bad = set (ed_invalidShares acc) \<union>
      (if verification acc then {Suc r |r. \<exists>s. (r, s) \<in> set (p # xs) \<and> \<not> ed_good v (expectedMsgDigest acc) r s} else {})"
    using bad(3) p by (auto simp: set_insort_insert)
  ultimately show ?case using bad(2) by blast
next
  case Nil
  then show ?case by (intro exI [of _ "ed_invalidShares acc"]) simp
qed

text \<open>What an accumulator returns for proper shares: their signatures, in some order.\<close>

lemma ed_accumulate_proper:
  assumes "xs \<noteq> []" "distinct (map fst xs)" "\<forall>(r, s) \<in> set xs. ed_proper order v r s"
  shows "\<exists>ys bad. tv_accumulate (ed_IThresholdVerifier order v) b d (map snd xs) = Inr (concat ys, bad) \<and>
    mset ys = mset (map snd xs) \<and> distinct bad \<and>
    set bad = (if b then {Suc r |r. \<exists>s. (r, s) \<in> set xs \<and> \<not> ed_good v d r s} else {})"
proof -
  let ?sigs = "map (\<lambda>(r, s). (Suc r, parse_single s)) xs"
  let ?acc = "ed_setExpectedDigest d (ed_newAccumulator b)"
  have acc: "ed_signatures ?acc = []" "ed_invalidShares ?acc = []" "verification ?acc = b" "expectedMsgDigest ?acc = d"
    by (simp_all add: ed_setExpectedDigest_def ed_newAccumulator_def)
  have "\<exists>bad. ed_add_all v (map snd xs) ?acc = Inr (?acc\<lparr>ed_signatures := ed_signatures ?acc @ ?sigs, ed_invalidShares := bad\<rparr>) \<and>
    distinct bad \<and> set bad = set (ed_invalidShares ?acc) \<union>
      (if verification ?acc then {Suc r |r. \<exists>s. (r, s) \<in> set xs \<and> \<not> ed_good v (expectedMsgDigest ?acc) r s} else {})"
    by (rule ed_add_all_proper [OF assms(2,3)]) (simp_all add: acc split_beta)
  then obtain bad where
    add: "ed_add_all v (map snd xs) ?acc = Inr (?acc\<lparr>ed_signatures := ?sigs, ed_invalidShares := bad\<rparr>)"
    and bad: "distinct bad" "set bad = (if b then {Suc r |r. \<exists>s. (r, s) \<in> set xs \<and> \<not> ed_good v d r s} else {})"
    unfolding acc by auto
  from assms(1,3) have perm: "mset (order ?sigs) = mset ?sigs" and small: "signersCount v * single_size < 65536"
    by (cases xs; auto simp: ed_proper_def)+
  have "length xs \<le> signersCount v"
  proof -
    have "length xs = card (fst ` set xs)" using distinct_card [OF assms(2)] by simp
    also have "\<dots> \<le> card {..<signersCount v}" using assms(3) by (intro card_mono) (auto simp: ed_proper_def)
    finally show ?thesis by simp
  qed
  then have len: "length ?sigs * single_size \<le> u16 (requiredLengthForSignedData v)"
    using small by (simp add: requiredLengthForSignedData_def)
  let ?ys = "map (ser_single \<circ> snd) (order ?sigs)"
  have "mset ?ys = image_mset (ser_single \<circ> snd) (mset ?sigs)" by (simp only: mset_map perm)
  also have "\<dots> = mset (map (ser_single \<circ> snd) ?sigs)" by (simp only: mset_map)
  also have "map (ser_single \<circ> snd) ?sigs = map snd xs"
    using assms(3) by (auto simp: ed_proper_def ser_parse_single split_beta)
  finally have ys: "mset ?ys = mset (map snd xs)" .
  have "tv_accumulate (ed_IThresholdVerifier order v) b d (map snd xs) = Inr (concat ?ys, bad)"
    using add len by (simp add: ed_IThresholdVerifier_def ed_getFullSignedData_def)
  then show ?thesis using ys bad by blast
qed

lemma ed_verify_mset:
  assumes "mset ys = mset (map snd xs)" "\<forall>(r, s) \<in> set xs. ed_proper order v r s"
  shows "ed_verify v d (concat ys) = Inr (ed_threshold v \<le> length (filter (\<lambda>(r, s). ed_good v d r s) xs))"
proof -
  have set: "set ys = snd ` set xs" using assms(1) by (metis set_map set_mset_mset)
  then have len: "\<forall>y \<in> set ys. length y = single_size" using assms(2) by (auto simp: ed_proper_def)
  have "length (filter (sig_counts v d) (map parse_single ys)) = size (filter_mset (sig_counts v d) (image_mset parse_single (mset ys)))"
    by (metis mset_filter mset_map size_mset)
  also have "\<dots> = length (filter (sig_counts v d) (map parse_single (map snd xs)))"
    by (metis assms(1) mset_filter mset_map size_mset)
  also have "\<dots> = length (filter (\<lambda>(r, s). ed_good v d r s) xs)"
    using assms(2) by (induction xs) (auto simp: ed_proper_def ed_good_def sig_counts_def)
  finally show ?thesis by (simp add: ed_verify_iff [OF len])
qed

interpretation ed: threshold_scheme "ed_IThresholdVerifier order v" "ed_threshold v" "ed_proper order v" "ed_good v"
  for order v
proof
  fix xs :: "(ReplicaId \<times> bytes) list" and b d sig bad
  assume xs: "xs \<noteq> []" "distinct (map fst xs)"
  show "\<exists>sig bad ok. tv_accumulate (ed_IThresholdVerifier order v) b d (map snd xs) = Inr (sig, bad) \<and>
      tv_verify (ed_IThresholdVerifier order v) d sig = Inr ok" if p: "\<forall>(r, s) \<in> set xs. ed_proper order v r s"
    using ed_accumulate_proper [OF xs p, of b d] ed_verify_mset [OF _ p, of _ d]
    by (fastforce simp: ed_IThresholdVerifier_def)
  show "tv_verify (ed_IThresholdVerifier order v) d sig = Inr True"
    if p: "\<forall>(r, s) \<in> set xs. ed_proper order v r s \<and> ed_good v d r s" and "length xs = ed_threshold v"
      and "tv_accumulate (ed_IThresholdVerifier order v) b d (map snd xs) = Inr (sig, bad)"
  proof -
    have p': "\<forall>(r, s) \<in> set xs. ed_proper order v r s" using p by auto
    from ed_accumulate_proper [OF xs p', of b d] that(3) obtain ys where "sig = concat ys" "mset ys = mset (map snd xs)"
      by auto
    moreover have "filter (\<lambda>(r, s). ed_good v d r s) xs = xs" using p by (auto simp: filter_id_conv)
    ultimately show ?thesis using ed_verify_mset [OF _ p', of ys d] that(2) by (simp add: ed_IThresholdVerifier_def)
  qed
  show "distinct bad \<and> set bad = {Suc r |r. \<exists>s. (r, s) \<in> set xs \<and> \<not> ed_good v d r s}"
    if p: "\<forall>(r, s) \<in> set xs. ed_proper order v r s"
      and "tv_accumulate (ed_IThresholdVerifier order v) True d (map snd xs) = Inr (sig, bad)"
    using ed_accumulate_proper [OF xs p, of True d] that(2) by auto
next
  fix r s assume "ed_proper order v r s"
  then show "r < 65535" by (auto simp: ed_proper_def single_size_def)
qed

section \<open>Properties\<close>

text \<open>A verifier for four signers whose valid signatures repeat the number of the signer.\<close>

definition ed_example :: EdDSAMultisigVerifier where
  "ed_example = \<lparr>verifyBuffer = (\<lambda>i d s. s = replicate 64 (word_of_nat i)), signersCount = 4, ed_threshold = 3\<rparr>"

definition ed_example_share :: "nat \<Rightarrow> nat \<Rightarrow> bytes" where
  "ed_example_share i j = ser_single \<lparr>sg_id = i, signatureBytes = replicate 64 (word_of_nat j)\<rparr>"

lemma length_ed_example_share [simp]: "length (ed_example_share i j) = single_size"
  by (simp add: ed_example_share_def ser_single_def single_size_def)

lemma parse_ed_example_share:
  "i < 100 \<Longrightarrow> parse_single (ed_example_share i j) = \<lparr>sg_id = i, signatureBytes = replicate 64 (word_of_nat j)\<rparr>"
  by (simp add: ed_example_share_def parse_ser_single)

lemma ed_example_proper:
  assumes "\<forall>xs. mset (order xs) = mset xs" "r < 4"
  shows "ed_proper order ed_example r (ed_example_share (Suc r) j)"
  using assms by (simp add: ed_proper_def ed_example_def parse_ed_example_share, simp add: single_size_def)

text \<open>
  C26. Whatever well-formed shares of distinct signers are accumulated, valid or not, and in whatever order the accumulator
  enumerates them, no assertion fails; the combined signature verifies exactly if at least as many of the shares as the threshold
  are valid; and with share verification on the shares reported as invalid are exactly the invalid ones (with it off, none is).
  A share is well-formed if it has the size of a signature and the identifier of its signer: the accumulator asserts the size.
\<close>

theorem ed_shares_combine:
  assumes "distinct (map fst xs)" "xs \<noteq> []" "\<forall>ys. mset (order ys) = mset ys" "signersCount v * single_size < 65536"
    and "\<forall>(r, s) \<in> set xs. r < signersCount v \<and> length s = single_size \<and> sg_id (parse_single s) = Suc r"
  shows "\<exists>sig bad. tv_accumulate (ed_IThresholdVerifier order v) b d (map snd xs) = Inr (sig, bad) \<and>
    ed_verify v d sig =
      Inr (ed_threshold v \<le> length (filter (\<lambda>(r, s). verifyBuffer v (Suc r) d (signatureBytes (parse_single s))) xs)) \<and>
    distinct bad \<and>
    set bad = (if b then {Suc r |r. \<exists>s. (r, s) \<in> set xs \<and> \<not> verifyBuffer v (Suc r) d (signatureBytes (parse_single s))} else {})"
proof -
  have p: "\<forall>(r, s) \<in> set xs. ed_proper order v r s" using assms(3-) by (auto simp: ed_proper_def)
  obtain ys bad where "tv_accumulate (ed_IThresholdVerifier order v) b d (map snd xs) = Inr (concat ys, bad)"
    "mset ys = mset (map snd xs)" "distinct bad" "set bad = (if b then {Suc r |r. \<exists>s. (r, s) \<in> set xs \<and> \<not> ed_good v d r s} else {})"
    using ed_accumulate_proper [OF assms(2,1) p] by blast
  then show ?thesis using ed_verify_mset [OF _ p, of ys d] unfolding ed_good_def by blast
qed

theorem ed_shares_combine_witness:
  "\<exists>sig bad. tv_accumulate (ed_IThresholdVerifier rev ed_example) True makeZero
      [ed_example_share 1 1, ed_example_share 4 4, ed_example_share 3 9, ed_example_share 2 2] = Inr (sig, bad) \<and>
    ed_verify ed_example makeZero sig = Inr True \<and> set bad = {3}"
proof -
  let ?xs = "[(0 :: nat, ed_example_share 1 1), (3, ed_example_share 4 4), (2, ed_example_share 3 9), (1, ed_example_share 2 2)]"
  have w: "replicate 64 (9 :: 8 word) \<noteq> replicate 64 3" by simp
  have s: "parse_single (ed_example_share (Suc 0) (Suc 0)) = \<lparr>sg_id = 1, signatureBytes = replicate 64 (word_of_nat 1)\<rparr>"
    using parse_ed_example_share [of 1 1] by simp
  have "\<exists>sig bad. tv_accumulate (ed_IThresholdVerifier rev ed_example) True makeZero (map snd ?xs) = Inr (sig, bad) \<and>
    ed_verify ed_example makeZero sig =
      Inr (ed_threshold ed_example \<le> length (filter (\<lambda>(r, s). verifyBuffer ed_example (Suc r) makeZero (signatureBytes (parse_single s))) ?xs)) \<and>
    distinct bad \<and>
    set bad = (if True then {Suc r |r. \<exists>s. (r, s) \<in> set ?xs \<and> \<not> verifyBuffer ed_example (Suc r) makeZero (signatureBytes (parse_single s))} else {})"
    by (rule ed_shares_combine) (simp_all add: parse_ed_example_share s ed_example_def, simp_all add: single_size_def)
  moreover have "length (filter (\<lambda>(r, s). verifyBuffer ed_example (Suc r) makeZero (signatureBytes (parse_single s))) ?xs) = 3"
    using w by (simp add: parse_ed_example_share s ed_example_def)
  moreover have "{Suc r |r. \<exists>s. (r, s) \<in> set ?xs \<and> \<not> verifyBuffer ed_example (Suc r) makeZero (signatureBytes (parse_single s))} = {3}"
    using w by (auto simp: parse_ed_example_share s ed_example_def)
  moreover have "ed_threshold ed_example = 3" by (simp add: ed_example_def)
  ultimately show ?thesis by auto
qed

text \<open>
  The verifier counts the signatures in a combined signature, not the signers: one valid signature of
  one signer, repeated as often as the threshold, is accepted as a combined signature.
\<close>

theorem ed_repeated_signature_accepted:
  assumes "length s = single_size" "0 < sg_id (parse_single s)" "sg_id (parse_single s) \<le> signersCount v"
    and "verifyBuffer v (sg_id (parse_single s)) d (signatureBytes (parse_single s))"
  shows "ed_verify v d (concat (replicate (ed_threshold v) s)) = Inr True"
proof -
  have "filter (sig_counts v d) (map parse_single (replicate (ed_threshold v) s)) = replicate (ed_threshold v) (parse_single s)"
    using assms(2-) by (simp add: filter_replicate sig_counts_def)
  then show ?thesis using ed_verify_iff [of "replicate (ed_threshold v) s" v d] assms(1) by simp
qed

theorem ed_repeated_signature_accepted_witness:
  "ed_verify ed_example makeZero (concat [ed_example_share 2 2, ed_example_share 2 2, ed_example_share 2 2]) = Inr True"
  using ed_repeated_signature_accepted [of "ed_example_share 2 2" ed_example makeZero]
  by (simp add: parse_ed_example_share ed_example_def numeral_3_eq_3 del: concat.simps)

text \<open>
  C27. A combined signature in which no signer occurs twice is accepted exactly if at least as many
  signers as the threshold have a valid signature in it.
\<close>

theorem ed_verify_counts_signers:
  assumes "\<forall>x \<in> set xs. length x = single_size" "distinct (map (sg_id \<circ> parse_single) xs)"
  shows "ed_verify v d (concat xs) = Inr (ed_threshold v \<le>
    card {i. 0 < i \<and> i \<le> signersCount v \<and> (\<exists>x \<in> set xs. sg_id (parse_single x) = i \<and>
      verifyBuffer v i d (signatureBytes (parse_single x)))})"
proof -
  let ?ok = "filter (sig_counts v d) (map parse_single xs)"
  have "distinct (map sg_id ?ok)" using assms(2) distinct_map_filter [of sg_id "map parse_single xs"] by simp
  then have "length ?ok = card (sg_id ` set ?ok)" using distinct_card [of "map sg_id ?ok"] by simp
  also have "sg_id ` set ?ok = {i. 0 < i \<and> i \<le> signersCount v \<and> (\<exists>x \<in> set xs. sg_id (parse_single x) = i \<and>
      verifyBuffer v i d (signatureBytes (parse_single x)))}"
    by (auto simp: sig_counts_def image_iff)
  finally show ?thesis using ed_verify_iff [OF assms(1)] by simp
qed

theorem ed_verify_counts_signers_witness:
  "ed_verify ed_example makeZero (concat [ed_example_share 2 2, ed_example_share 3 1, ed_example_share 4 4]) =
    Inr (3 \<le> card {i. 0 < i \<and> i \<le> (4 :: nat) \<and> (\<exists>x \<in> set [ed_example_share 2 2, ed_example_share 3 1, ed_example_share 4 4].
      sg_id (parse_single x) = i \<and> signatureBytes (parse_single x) = replicate 64 (word_of_nat i))})"
  using ed_verify_counts_signers [of "[ed_example_share 2 2, ed_example_share 3 1, ed_example_share 4 4]" ed_example makeZero]
  by (simp add: parse_ed_example_share ed_example_def del: concat.simps)

text \<open>
  The range check of an accumulator lets the identifier \<open>signersCount + 1\<close> pass, one more than there
  are verifiers: an accumulator that verifies shares then reads beyond the vector of verifiers.
\<close>

theorem ed_add_reads_out_of_range:
  assumes "length s = single_size" "sg_id (parse_single s) = signersCount v + 1" "verification acc"
  shows "ed_add v s acc = Inl UndefinedBehaviour"
  using assms by (simp add: ed_add_def Let_def maxShareID_def verifySingleSignature_def)

theorem ed_add_reads_out_of_range_witness:
  "ed_add ed_example (ed_example_share 5 5) (ed_newAccumulator True) = Inl UndefinedBehaviour"
  by (rule ed_add_reads_out_of_range) (simp_all add: parse_ed_example_share ed_example_def ed_newAccumulator_def)

lemma addNumById_invalid:
  assumes "ta_expectedDigest a \<noteq> None" "addNumById vs i s a = Inr a'"
  shows "ta_invalidShares a' = ta_invalidShares a \<and> ta_expectedDigest a' \<noteq> None"
  using assms by (auto simp: addNumById_def split: if_splits)

lemma ta_add_all_invalid:
  assumes "ta_expectedDigest a \<noteq> None" "ta_add_all parse vs ss a = Inr a'"
  shows "ta_invalidShares a' = ta_invalidShares a"
  using assms
proof (induction ss arbitrary: a)
  case (Cons s ss)
  from Cons.prems(2) obtain a1 where a1: "addNumById vs (fst (parse s)) (snd (parse s)) a = Inr a1" "ta_add_all parse vs ss a1 = Inr a'"
    by (auto simp: ta_add_def split_beta)
  from addNumById_invalid [OF Cons.prems(1) a1(1)] Cons.IH [OF _ a1(2)] show ?case by simp
qed simp

text \<open>
  The accumulators of the BLS schemes name no invalid share when the digest is set before the
  shares are added, as the signature job of a collector does: whatever shares are added, the set of
  invalid identifiers is empty.
\<close>

theorem ta_names_no_invalid_share:
  assumes "ta_setExpectedDigest vs d (ta_new req n b) = Inr a" "ta_add_all parse vs shares a = Inr a'"
  shows "ta_invalidShares a' = []"
proof -
  have "vos_ids vos_new = {}" by (auto simp: vos_ids_def vos_new_def)
  then have "vos_iter 0 vos_new = []" using vos_iter_set [of vos_new] by simp
  then have "ta_invalidShares a = [] \<and> ta_expectedDigest a \<noteq> None" using assms(1)
    by (auto simp: ta_setExpectedDigest_def ta_new_def verifyPendingShares_def Let_def split: if_splits)
  then show ?thesis using ta_add_all_invalid [OF _ assms(2)] by simp
qed

theorem ta_names_no_invalid_share_witness:
  "\<exists>a a'. ta_setExpectedDigest (\<lambda>d i s. s \<noteq> [7]) makeZero (ta_new 3 4 True) = Inr a \<and>
     ta_add_all (\<lambda>s. (2, s)) (\<lambda>d i s. s \<noteq> [7]) [[7]] a = Inr a' \<and> ta_invalidShares a' = []"
proof -
  let ?a = "(ta_new 3 4 True)\<lparr>ta_expectedDigest := Some makeZero, pendingShares := []\<rparr>"
  have "vos_ids vos_new = {}" by (auto simp: vos_ids_def vos_new_def)
  then have "vos_iter 0 vos_new = []" using vos_iter_set [of vos_new] by simp
  then have 1: "ta_setExpectedDigest (\<lambda>d i s. s \<noteq> [7]) makeZero (ta_new 3 4 True) = Inr ?a"
    by (simp add: ta_setExpectedDigest_def ta_new_def verifyPendingShares_def Let_def vos_new_def)
  have 2: "ta_add_all (\<lambda>s. (2, s)) (\<lambda>d i s. s \<noteq> [7]) [[7]] ?a = Inr ?a"
    by (simp add: ta_add_def addNumById_def ta_new_def vos_contains_def vos_new_def MAX_NUM_OF_SHARES_def)
  show ?thesis using ta_names_no_invalid_share [OF 1 2] 1 2 by blast
qed

lemma calcCombination_nth:
  assumes "length d = 4"
  shows "i < 4 \<Longrightarrow> calcCombination d a b ! i =
    (d ! i) XOR (if i = unat (d ! 0) mod 2 then word_of_int a else 0)
      XOR (if i = unat (drop_bit 8 (d ! 0)) mod 2 then word_of_int b else 0)"
    and "length (calcCombination d a b) = 4"
proof -
  have "unat (d ! 0) mod 2 < 4" "unat (drop_bit 8 (d ! 0)) mod 2 < 4" by (simp_all add: trans_less_add1)
  then show "i < 4 \<Longrightarrow> calcCombination d a b ! i =
    (d ! i) XOR (if i = unat (d ! 0) mod 2 then word_of_int a else 0)
      XOR (if i = unat (drop_bit 8 (d ! 0)) mod 2 then word_of_int b else 0)"
    using assms by (simp add: calcCombination_def Let_def nth_list_update xor.assoc)
  show "length (calcCombination d a b) = 4" using assms by (simp add: calcCombination_def Let_def)
qed

text \<open>
  C28. The digest that is signed for a view and a sequence number binds both numbers if the two words the
  digest selects are different ones.
\<close>

theorem calcCombination_binds:
  assumes "length d = 4" "unat (d ! 0) mod 2 \<noteq> unat (drop_bit 8 (d ! 0)) mod 2"
    and "calcCombination d v s = calcCombination d v' s'"
  shows "(word_of_int v :: 64 word) = word_of_int v' \<and> (word_of_int s :: 64 word) = word_of_int s'"
proof -
  let ?A = "unat (d ! 0) mod 2" and ?B = "unat (drop_bit 8 (d ! 0)) mod 2"
  have l: "?A < 4" "?B < 4" by (simp_all add: trans_less_add1)
  have "calcCombination d v s ! ?A = calcCombination d v' s' ! ?A" "calcCombination d v s ! ?B = calcCombination d v' s' ! ?B"
    using assms(3) by simp_all
  then have "d ! ?A XOR word_of_int v = d ! ?A XOR word_of_int v'" "d ! ?B XOR word_of_int s = d ! ?B XOR word_of_int s'"
    using calcCombination_nth(1) [OF assms(1)] l assms(2) by simp_all
  then show ?thesis by (metis bit.xor_left_self)
qed

theorem calcCombination_binds_witness:
  "unat (([1, 0, 0, 0] :: Digest) ! 0) mod 2 \<noteq> unat (drop_bit 8 (([1, 0, 0, 0] :: Digest) ! 0)) mod 2 \<and>
   calcCombination [1, 0, 0, 0] (- 1) 8 = calcCombination [1, 0, 0, 0] (2 ^ 64 - 1) 8 \<and>
   (word_of_int (- 1) :: 64 word) = word_of_int (2 ^ 64 - 1)"
proof -
  have "drop_bit 8 (1 :: 64 word) = 0" by simp
  then have neq: "unat (([1, 0, 0, 0] :: Digest) ! 0) mod 2 \<noteq> unat (drop_bit 8 (([1, 0, 0, 0] :: Digest) ! 0)) mod 2"
    by simp
  have len: "length ([1, 0, 0, 0] :: Digest) = 4" by simp
  have eq: "calcCombination [1, 0, 0, 0] (- 1) 8 = calcCombination [1, 0, 0, 0] (2 ^ 64 - 1) 8" by (simp add: calcCombination_def)
  show ?thesis using neq eq calcCombination_binds [OF len neq eq] by blast
qed

text \<open>
  If the digest selects the same word twice, the combination depends on the view and the sequence
  number only through their exclusive or: then for example view 0 with sequence number 8 and view 1 with
  sequence number 9 give the same digest to sign.
\<close>

theorem calcCombination_confuses:
  assumes "length d = 4" "unat (d ! 0) mod 2 = unat (drop_bit 8 (d ! 0)) mod 2"
    and "(word_of_int v XOR word_of_int s :: 64 word) = word_of_int v' XOR word_of_int s'"
  shows "calcCombination d v s = calcCombination d v' s'"
proof (rule nth_equalityI)
  fix i assume "i < length (calcCombination d v s)"
  then have i: "i < 4" using calcCombination_nth(2) [OF assms(1)] by simp
  show "calcCombination d v s ! i = calcCombination d v' s' ! i"
    using assms(2,3) calcCombination_nth(1) [OF assms(1) i] by (simp add: xor.assoc)
qed (simp add: calcCombination_nth(2) [OF assms(1)])

theorem calcCombination_confuses_witness:
  "calcCombination makeZero 0 8 = calcCombination makeZero 1 9"
proof -
  have "(word_of_int 0 XOR word_of_int 8 :: 64 word) = word_of_int 1 XOR word_of_int 9" by simp
  then show ?thesis using calcCombination_confuses [of makeZero 0 8 1 9] by (simp add: makeZero_def)
qed

end
