(* ===== verification/Consensus_Msgs.thy ===== *)
theory Consensus_Msgs
  imports Message_Base Threshold_Scheme
begin

text \<open>
  The messages of the agreement protocol under bftengine/src/bftengine/messages with a fixed header: how they are
  built, what their accessors read and what \<^verbatim>\<open>validate\<close> checks. A header is packed, so a field is an offset and a
  width; the constructors write every byte of the buffer they allocate, so a new message is the concatenation of its
  fields.
\<close>

section \<open>Message codes\<close>

datatype MsgCode =
    McNone | McPrePrepare | McPreparePartial | McPrepareFull | McCommitPartial | McCommitFull | McStartSlowCommit
  | McPartialCommitProof | McFullCommitProof | McPartialExecProof | McFullExecProof | McSimpleAck | McViewChange
  | McNewView | McCheckpoint | McAskForCheckpoint | McReplicaStatus | McReqMissingData | McStateTransfer
  | McReplicaAsksToLeaveView | McReplicaRestartReady | McReplicasRestartReadyProof | McClientPreProcessRequest
  | McPreProcessRequest | McPreProcessReply | McPreProcessBatchRequest | McPreProcessBatchReply | McPreProcessResult
  | McClientRequest | McClientBatchRequest | McClientReply | McReserved

fun msg_code :: "MsgCode \<Rightarrow> nat" where
  "msg_code McNone = 0"
| "msg_code McPrePrepare = 100"
| "msg_code McPreparePartial = 101"
| "msg_code McPrepareFull = 102"
| "msg_code McCommitPartial = 103"
| "msg_code McCommitFull = 104"
| "msg_code McStartSlowCommit = 105"
| "msg_code McPartialCommitProof = 106"
| "msg_code McFullCommitProof = 107"
| "msg_code McPartialExecProof = 108"
| "msg_code McFullExecProof = 109"
| "msg_code McSimpleAck = 110"
| "msg_code McViewChange = 111"
| "msg_code McNewView = 112"
| "msg_code McCheckpoint = 113"
| "msg_code McAskForCheckpoint = 114"
| "msg_code McReplicaStatus = 115"
| "msg_code McReqMissingData = 116"
| "msg_code McStateTransfer = 117"
| "msg_code McReplicaAsksToLeaveView = 118"
| "msg_code McReplicaRestartReady = 119"
| "msg_code McReplicasRestartReadyProof = 120"
| "msg_code McClientPreProcessRequest = 500"
| "msg_code McPreProcessRequest = 501"
| "msg_code McPreProcessReply = 502"
| "msg_code McPreProcessBatchRequest = 503"
| "msg_code McPreProcessBatchReply = 504"
| "msg_code McPreProcessResult = 505"
| "msg_code McClientRequest = 700"
| "msg_code McClientBatchRequest = 750"
| "msg_code McClientReply = 800"
| "msg_code McReserved = 900"

section \<open>Building and reading\<close>

definition new_msg :: "nat \<Rightarrow> MsgCode \<Rightarrow> bytes \<Rightarrow> bytes \<Rightarrow> bytes \<Rightarrow> MessageBase" where
  "new_msg src ty span flds payload =
     MessageBase_of src (header_bytes (msg_code ty) (length span) @ flds @ span @ payload) True"

definition rpred :: "'a result \<Rightarrow> ('a \<Rightarrow> bool) \<Rightarrow> bool result" where
  "rpred r P = rbind r (\<lambda>x. Inr (P x))"

text \<open>\<^verbatim>\<open>size() < sizeof(Header) + spanContextSize()\<close>; the sum is a \<^verbatim>\<open>size_t\<close>.\<close>

definition shorter :: "MessageBase \<Rightarrow> nat \<Rightarrow> bool result" where
  "shorter m hdr = rpred (spanContextSize m) (\<lambda>sp. msgSize m < hdr + sp)"

section \<open>SignedShareBase: PreparePartial, PrepareFull, CommitPartial, CommitFull\<close>

definition ss_create :: "MsgEnv \<Rightarrow> MsgCode \<Rightarrow> ViewNum \<Rightarrow> SeqNum \<Rightarrow> ReplicaId \<Rightarrow> bytes \<Rightarrow> bytes \<Rightarrow> MessageBase" where
  "ss_create env ty v s senderId sig span =
     new_msg senderId ty span (le_s64 v @ le_s64 s @ le_bytes 8 (selfEpoch env) @ le_bytes 2 (length sig)) sig"

definition ss_create_signed :: "MsgEnv \<Rightarrow> MsgCode \<Rightarrow> ViewNum \<Rightarrow> SeqNum \<Rightarrow> ReplicaId \<Rightarrow> Digest \<Rightarrow> (Digest \<Rightarrow> bytes) \<Rightarrow> bytes \<Rightarrow>
    MessageBase" where
  "ss_create_signed env ty v s senderId digest thresholdSigner span =
     ss_create env ty v s senderId (thresholdSigner (calcCombination digest v s)) span"

definition ss_viewNumber :: "MessageBase \<Rightarrow> int result" where
  "ss_viewNumber m = rd_s64 6 (msgBody m)"

definition ss_seqNumber :: "MessageBase \<Rightarrow> int result" where
  "ss_seqNumber m = rd_s64 14 (msgBody m)"

definition ss_signatureLen :: "MessageBase \<Rightarrow> nat result" where
  "ss_signatureLen m = rd 30 2 (msgBody m)"

definition ss_signatureBody :: "MessageBase \<Rightarrow> bytes result" where
  "ss_signatureBody m =
     rbind (spanContextSize m) (\<lambda>sp. rbind (ss_signatureLen m) (\<lambda>l. rd_bytes (32 + sp) l (msgBody m)))"

definition ss_validate :: "MsgEnv \<Rightarrow> ReplicasInfo \<Rightarrow> MsgCode \<Rightarrow> MessageBase \<Rightarrow> unit result" where
  "ss_validate env repInfo ty m =
     rbind (msg_type m) (\<lambda>t. c_assert (t = msg_code ty)
       (throw_if (rany
          [shorter m 32,
           rbind (ss_signatureLen m) (\<lambda>l. shorter m (32 + l)),
           Inr (sender m = myId repInfo),
           rpred (rd 22 8 (msgBody m)) (\<lambda>e. e \<noteq> selfEpoch env),
           Inr (\<not> isIdOfReplica repInfo (sender m))])
        (Inr ())))"

definition PreparePartialMsg_validate :: "MsgEnv \<Rightarrow> ReplicasInfo \<Rightarrow> MessageBase \<Rightarrow> unit result" where
  "PreparePartialMsg_validate env repInfo m =
     rbind (ss_validate env repInfo McPreparePartial m)
       (\<lambda>_. throw_if (rpred (ss_viewNumber m) (\<lambda>v. myId repInfo \<noteq> primaryOfView repInfo v)) (Inr ()))"

definition PrepareFullMsg_validate :: "MsgEnv \<Rightarrow> ReplicasInfo \<Rightarrow> MessageBase \<Rightarrow> unit result" where
  "PrepareFullMsg_validate env repInfo m = ss_validate env repInfo McPrepareFull m"

definition CommitPartialMsg_validate :: "MsgEnv \<Rightarrow> ReplicasInfo \<Rightarrow> MessageBase \<Rightarrow> unit result" where
  "CommitPartialMsg_validate env repInfo m =
     rbind (ss_validate env repInfo McCommitPartial m)
       (\<lambda>_. throw_if (rpred (ss_viewNumber m) (\<lambda>v. myId repInfo \<noteq> primaryOfView repInfo v)) (Inr ()))"

definition CommitFullMsg_validate :: "MsgEnv \<Rightarrow> ReplicasInfo \<Rightarrow> MessageBase \<Rightarrow> unit result" where
  "CommitFullMsg_validate env repInfo m = ss_validate env repInfo McCommitFull m"

section \<open>PartialCommitProofMsg and FullCommitProofMsg\<close>

text \<open>The commit path is one byte.\<close>

fun path_code :: "CommitPath \<Rightarrow> nat" where
  "path_code NA = 255"
| "path_code OPTIMISTIC_FAST = 0"
| "path_code FAST_WITH_THRESHOLD = 1"
| "path_code SLOW = 2"

definition PartialCommitProofMsg_new :: "MsgEnv \<Rightarrow> ReplicaId \<Rightarrow> ViewNum \<Rightarrow> SeqNum \<Rightarrow> CommitPath \<Rightarrow> Digest \<Rightarrow> (Digest \<Rightarrow> bytes) \<Rightarrow>
    bytes \<Rightarrow> MessageBase" where
  "PartialCommitProofMsg_new env senderId v s commitPath digest thresholdSigner span =
     (let sig = thresholdSigner digest
      in new_msg senderId McPartialCommitProof span
           (le_s64 v @ le_s64 s @ le_bytes 8 (selfEpoch env) @ le_bytes 1 (path_code commitPath) @ le_bytes 2 (length sig)) sig)"

definition pcp_commitPath :: "MessageBase \<Rightarrow> nat result" where
  "pcp_commitPath m = rd 30 1 (msgBody m)"

definition pcp_signatureLen :: "MessageBase \<Rightarrow> nat result" where
  "pcp_signatureLen m = rd 31 2 (msgBody m)"

definition pcp_signatureBody :: "MessageBase \<Rightarrow> bytes result" where
  "pcp_signatureBody m =
     rbind (spanContextSize m) (\<lambda>sp. rbind (pcp_signatureLen m) (\<lambda>l. rd_bytes (33 + sp) l (msgBody m)))"

definition PartialCommitProofMsg_validate :: "MsgEnv \<Rightarrow> ReplicasInfo \<Rightarrow> MessageBase \<Rightarrow> unit result" where
  "PartialCommitProofMsg_validate env repInfo m =
     throw_if (rany
        [shorter m 33,
         rpred (rd 22 8 (msgBody m)) (\<lambda>e. e \<noteq> selfEpoch env),
         Inr (sender m = myId repInfo),
         Inr (\<not> isIdOfReplica repInfo (sender m)),
         rpred (pcp_commitPath m) (\<lambda>p. \<not> (p = path_code OPTIMISTIC_FAST \<or> p = path_code FAST_WITH_THRESHOLD \<and> cVal repInfo > 0)),
         rbind (pcp_signatureLen m) (\<lambda>l. shorter m (33 + l)),
         rbind (ss_viewNumber m) (\<lambda>v. rpred (ss_seqNumber m) (\<lambda>s. \<not> isCollectorForPartialProofs repInfo v s))])
      (Inr ())"

definition FullCommitProofMsg_new :: "MsgEnv \<Rightarrow> ReplicaId \<Rightarrow> ViewNum \<Rightarrow> SeqNum \<Rightarrow> bytes \<Rightarrow> bytes \<Rightarrow> MessageBase" where
  "FullCommitProofMsg_new env senderId v s commitProofSig span =
     ss_create env McFullCommitProof v s senderId commitProofSig span"

definition FullCommitProofMsg_validate :: "MsgEnv \<Rightarrow> ReplicasInfo \<Rightarrow> MessageBase \<Rightarrow> unit result" where
  "FullCommitProofMsg_validate env repInfo m =
     throw_if (rany
        [Inr (msgSize m < 32),
         Inr (sender m = myId repInfo),
         Inr (\<not> isIdOfReplica repInfo (sender m)),
         rpred (rd 22 8 (msgBody m)) (\<lambda>e. e \<noteq> selfEpoch env),
         rbind (ss_signatureLen m) (\<lambda>l. shorter m (32 + l))])
      (Inr ())"

section \<open>SimpleAckMsg, StartSlowCommitMsg, ReqMissingDataMsg\<close>

definition SimpleAckMsg_new :: "MsgEnv \<Rightarrow> SeqNum \<Rightarrow> ViewNum \<Rightarrow> ReplicaId \<Rightarrow> nat \<Rightarrow> MessageBase" where
  "SimpleAckMsg_new env s v senderId ackData =
     new_msg senderId McSimpleAck [] (le_s64 s @ le_s64 v @ le_bytes 8 (selfEpoch env) @ le_bytes 8 ackData) []"

definition SimpleAckMsg_validate :: "MsgEnv \<Rightarrow> ReplicasInfo \<Rightarrow> MessageBase \<Rightarrow> unit result" where
  "SimpleAckMsg_validate env repInfo m =
     throw_if (rany
        [Inr (msgSize m < 38),
         rpred (rd 22 8 (msgBody m)) (\<lambda>e. e \<noteq> selfEpoch env),
         Inr (sender m = myId repInfo),
         Inr (\<not> isIdOfReplica repInfo (sender m))])
      (Inr ())"

definition StartSlowCommitMsg_new :: "MsgEnv \<Rightarrow> ReplicaId \<Rightarrow> ViewNum \<Rightarrow> SeqNum \<Rightarrow> bytes \<Rightarrow> MessageBase" where
  "StartSlowCommitMsg_new env senderId v s span =
     new_msg senderId McStartSlowCommit span (le_s64 v @ le_s64 s @ le_bytes 8 (selfEpoch env)) []"

definition StartSlowCommitMsg_validate :: "MsgEnv \<Rightarrow> ReplicasInfo \<Rightarrow> MessageBase \<Rightarrow> unit result" where
  "StartSlowCommitMsg_validate env repInfo m =
     throw_if (rany
        [shorter m 30,
         rpred (rd 22 8 (msgBody m)) (\<lambda>e. e \<noteq> selfEpoch env),
         rpred (ss_viewNumber m) (\<lambda>v. primaryOfView repInfo v \<noteq> sender m)])
      (Inr ())"

definition ReqMissingDataMsg_new :: "MsgEnv \<Rightarrow> ReplicaId \<Rightarrow> ViewNum \<Rightarrow> SeqNum \<Rightarrow> bytes \<Rightarrow> MessageBase" where
  "ReqMissingDataMsg_new env senderId v s span =
     new_msg senderId McReqMissingData span (le_s64 v @ le_s64 s @ le_bytes 8 (selfEpoch env) @ le_bytes 2 0) []"

text \<open>The bit fields of the flags: the first eight fill the first byte, the last one is in the second.\<close>

datatype MissingFlag =
    prePrepareIsMissing | partialProofIsMissing | partialPrepareIsMissing | partialCommitIsMissing
  | fullCommitProofIsMissing | fullPrepareIsMissing | fullCommitIsMissing | slowPathHasStarted

fun flag_bit :: "MissingFlag \<Rightarrow> nat" where
  "flag_bit prePrepareIsMissing = 1"
| "flag_bit partialProofIsMissing = 2"
| "flag_bit partialPrepareIsMissing = 3"
| "flag_bit partialCommitIsMissing = 4"
| "flag_bit fullCommitProofIsMissing = 5"
| "flag_bit fullPrepareIsMissing = 6"
| "flag_bit fullCommitIsMissing = 7"
| "flag_bit slowPathHasStarted = 8"

definition rmd_getFlags :: "MessageBase \<Rightarrow> nat result" where
  "rmd_getFlags m = rd 30 2 (msgBody m)"

definition rmd_get :: "MissingFlag \<Rightarrow> MessageBase \<Rightarrow> bool result" where
  "rmd_get f m = rpred (rmd_getFlags m) (\<lambda>fl. bit fl (flag_bit f))"

definition rmd_set :: "MissingFlag \<Rightarrow> MessageBase \<Rightarrow> MessageBase result" where
  "rmd_set f m =
     rbind (rmd_getFlags m) (\<lambda>fl. rbind (wr 30 (le_bytes 2 (set_bit (flag_bit f) fl)) (msgBody m))
       (\<lambda>body. Inr (m\<lparr>msgBody := body\<rparr>)))"

definition rmd_resetFlags :: "MessageBase \<Rightarrow> MessageBase result" where
  "rmd_resetFlags m = rbind (wr 30 (le_bytes 2 0) (msgBody m)) (\<lambda>body. Inr (m\<lparr>msgBody := body\<rparr>))"

definition ReqMissingDataMsg_validate :: "MsgEnv \<Rightarrow> ReplicasInfo \<Rightarrow> MessageBase \<Rightarrow> unit result" where
  "ReqMissingDataMsg_validate env repInfo m =
     throw_if (rany
        [shorter m 32,
         Inr (sender m = myId repInfo),
         Inr (\<not> isIdOfReplica repInfo (sender m)),
         rpred (rd 22 8 (msgBody m)) (\<lambda>e. e \<noteq> selfEpoch env)])
      (Inr ())"

section \<open>ReplicaAsksToLeaveViewMsg, CheckpointMsg, AskForCheckpointMsg\<close>

datatype LeaveReason = ClientRequestTimeout | NewPrimaryGetInChargeTimeout | PrimarySentBadPreProcessResult

fun reason_code :: "LeaveReason \<Rightarrow> nat" where
  "reason_code ClientRequestTimeout = 0"
| "reason_code NewPrimaryGetInChargeTimeout = 1"
| "reason_code PrimarySentBadPreProcessResult = 2"

definition lv_header :: "MsgEnv \<Rightarrow> bytes \<Rightarrow> ReplicaId \<Rightarrow> ViewNum \<Rightarrow> LeaveReason \<Rightarrow> bytes" where
  "lv_header env span senderId v r =
     header_bytes (msg_code McReplicaAsksToLeaveView) (length span) @
     le_bytes 2 senderId @ le_s64 v @ le_bytes 8 (selfEpoch env) @ le_bytes 1 (reason_code r) @ le_bytes 2 (mySigLength env)"

definition ReplicaAsksToLeaveViewMsg_create :: "MsgEnv \<Rightarrow> ReplicaId \<Rightarrow> ViewNum \<Rightarrow> LeaveReason \<Rightarrow> bytes \<Rightarrow> MessageBase" where
  "ReplicaAsksToLeaveViewMsg_create env senderId v r span =
     MessageBase_of senderId (lv_header env span senderId v r @ span @ signData env (lv_header env span senderId v r)) True"

definition ReplicaAsksToLeaveViewMsg_validate :: "MsgEnv \<Rightarrow> ReplicasInfo \<Rightarrow> MessageBase \<Rightarrow> unit result" where
  "ReplicaAsksToLeaveViewMsg_validate env repInfo m =
     throw_if (rany
        [shorter m 27,
         rpred (rd 16 8 (msgBody m)) (\<lambda>e. e \<noteq> selfEpoch env),
         rpred (rd 6 2 (msgBody m)) (\<lambda>i. \<not> isIdOfReplica repInfo i)])
      (rbind (rd 6 2 (msgBody m)) (\<lambda>gen. rbind (spanContextSize m) (\<lambda>sp.
        let sigLen = u16 (sigLength env gen)
        in throw_if (shorter m (27 + sigLen))
            (throw_if (rbind (rd_bytes 0 27 (msgBody m)) (\<lambda>dat. rbind (rd_bytes (27 + sp) sigLen (msgBody m))
                (\<lambda>sig. Inr (\<not> verifySig env gen dat sig))))
              (Inr ())))))"

definition ckpt_header :: "MsgEnv \<Rightarrow> bytes \<Rightarrow> ReplicaId \<Rightarrow> SeqNum \<Rightarrow> nat \<Rightarrow> bytes \<Rightarrow> bytes \<Rightarrow> bytes \<Rightarrow> bool \<Rightarrow> bytes" where
  "ckpt_header env span genReplica s state stateDigest reservedPagesDigest rvbDataDigest stateIsStable =
     header_bytes (msg_code McCheckpoint) (length span) @
     le_s64 s @ le_bytes 8 (selfEpoch env) @ le_bytes 8 state @ stateDigest @ reservedPagesDigest @ rvbDataDigest @
     le_bytes 2 genReplica @ le_bytes 1 (if stateIsStable then 1 else 0)"

text \<open>The constructor leaves the signature zero, \<^verbatim>\<open>sign\<close> fills it in.\<close>

definition CheckpointMsg_new :: "MsgEnv \<Rightarrow> ReplicaId \<Rightarrow> SeqNum \<Rightarrow> nat \<Rightarrow> bytes \<Rightarrow> bytes \<Rightarrow> bytes \<Rightarrow> bool \<Rightarrow> bytes \<Rightarrow> MessageBase" where
  "CheckpointMsg_new env genReplica s state sd rd' vd stateIsStable span =
     MessageBase_of genReplica (ckpt_header env span genReplica s state sd rd' vd stateIsStable @ span @ replicate (mySigLength env) 0) True"

definition CheckpointMsg_sign :: "MsgEnv \<Rightarrow> MessageBase \<Rightarrow> MessageBase result" where
  "CheckpointMsg_sign env m =
     rbind (rd_bytes 0 129 (msgBody m)) (\<lambda>dat. rbind (spanContextSize m) (\<lambda>sp.
       rbind (wr (129 + sp) (signData env dat) (msgBody m)) (\<lambda>body. Inr (m\<lparr>msgBody := body\<rparr>))))"

definition ckpt_seqNumber :: "MessageBase \<Rightarrow> int result" where
  "ckpt_seqNumber m = rd_s64 6 (msgBody m)"

definition ckpt_state :: "MessageBase \<Rightarrow> nat result" where
  "ckpt_state m = rd 22 8 (msgBody m)"

definition ckpt_stateDigest :: "MessageBase \<Rightarrow> bytes result" where
  "ckpt_stateDigest m = rd_bytes 30 32 (msgBody m)"

definition ckpt_reservedPagesDigest :: "MessageBase \<Rightarrow> bytes result" where
  "ckpt_reservedPagesDigest m = rd_bytes 62 32 (msgBody m)"

definition ckpt_rvbDataDigest :: "MessageBase \<Rightarrow> bytes result" where
  "ckpt_rvbDataDigest m = rd_bytes 94 32 (msgBody m)"

definition ckpt_idOfGeneratedReplica :: "MessageBase \<Rightarrow> nat result" where
  "ckpt_idOfGeneratedReplica m = rd 126 2 (msgBody m)"

definition ckpt_isStableState :: "MessageBase \<Rightarrow> bool result" where
  "ckpt_isStableState m = rpred (rd 128 1 (msgBody m)) (\<lambda>fl. bit fl 0)"

definition isZero :: "bytes \<Rightarrow> bool" where
  "isZero d \<longleftrightarrow> list_all (\<lambda>b. b = 0) d"

definition checkpointWindow :: int where
  "checkpointWindow = 150"

definition CheckpointMsg_validate :: "MsgEnv \<Rightarrow> ReplicasInfo \<Rightarrow> MessageBase \<Rightarrow> unit result" where
  "CheckpointMsg_validate env repInfo m =
     rbind (msg_type m) (\<lambda>t. c_assert (t = msg_code McCheckpoint) (c_assert (sender m \<noteq> myId repInfo)
      (throw_if (rany
         [shorter m 129,
          Inr (\<not> isIdOfReplica repInfo (sender m)),
          rpred (ckpt_idOfGeneratedReplica m) (\<lambda>i. \<not> isIdOfReplica repInfo i),
          rpred (ckpt_seqNumber m) (\<lambda>s. s mod checkpointWindow \<noteq> 0),
          rbind (ckpt_stateDigest m) (\<lambda>a. rbind (ckpt_reservedPagesDigest m) (\<lambda>b. rpred (ckpt_rvbDataDigest m)
            (\<lambda>c. isZero a \<and> isZero b \<and> isZero c)))])
       (rbind (ckpt_idOfGeneratedReplica m) (\<lambda>gen. rbind (spanContextSize m) (\<lambda>sp.
         let sigLen = sigLength env gen
         in throw_if (shorter m (129 + sigLen))
             (throw_if (rbind (rd_bytes 0 129 (msgBody m)) (\<lambda>dat. rbind (rd_bytes (129 + sp) sigLen (msgBody m))
                 (\<lambda>sig. Inr (\<not> verifySig env gen dat sig))))
               (Inr ()))))))))"

definition CheckpointMsg_equivalent :: "MessageBase \<Rightarrow> MessageBase \<Rightarrow> bool result" where
  "CheckpointMsg_equivalent a b =
     rbind (ckpt_seqNumber a) (\<lambda>s. rbind (ckpt_seqNumber b) (\<lambda>s'.
     rbind (ckpt_stateDigest a) (\<lambda>d. rbind (ckpt_stateDigest b) (\<lambda>d'.
     rbind (ckpt_reservedPagesDigest a) (\<lambda>p. rbind (ckpt_reservedPagesDigest b) (\<lambda>p'.
     rbind (ckpt_rvbDataDigest a) (\<lambda>v. rbind (ckpt_rvbDataDigest b) (\<lambda>v'.
     rbind (ckpt_state a) (\<lambda>st. rpred (ckpt_state b) (\<lambda>st'. s = s' \<and> d = d' \<and> p = p' \<and> v = v' \<and> st = st'))))))))))"

definition AskForCheckpointMsg_new :: "ReplicaId \<Rightarrow> bytes \<Rightarrow> MessageBase" where
  "AskForCheckpointMsg_new senderId span = new_msg senderId McAskForCheckpoint span [] []"

definition AskForCheckpointMsg_validate :: "ReplicasInfo \<Rightarrow> MessageBase \<Rightarrow> unit result" where
  "AskForCheckpointMsg_validate repInfo m =
     rbind (msg_type m) (\<lambda>t. c_assert (t = msg_code McAskForCheckpoint) (c_assert (sender m \<noteq> myId repInfo)
       (throw_if (rpred (spanContextSize m) (\<lambda>sp. msgSize m > 6 + sp)) (Inr ()))))"

section \<open>ReplicaStatusMsg\<close>

definition kWorkWindow :: int where
  "kWorkWindow = 300"

definition MaxNumberOfReplicas :: nat where
  "MaxNumberOfReplicas = 64"

definition kWorkWindowBitMaskSize :: nat where
  "kWorkWindowBitMaskSize = 38"

definition maxNumberOfReplicasBitMaskSize :: nat where
  "maxNumberOfReplicasBitMaskSize = 8"

definition calcSizeOfReplicaStatusMsg :: "bool \<Rightarrow> bool \<Rightarrow> bool \<Rightarrow> bool \<Rightarrow> nat" where
  "calcSizeOfReplicaStatusMsg viewIsActive listOfPP listOfMissingVC listOfMissingPP =
     (if listOfPP \<and> viewIsActive then 39 + kWorkWindowBitMaskSize + maxNumberOfReplicasBitMaskSize
      else if viewIsActive then 39 + maxNumberOfReplicasBitMaskSize
      else if listOfMissingVC then 39 + 2 * maxNumberOfReplicasBitMaskSize
      else if listOfMissingPP then 39 + kWorkWindowBitMaskSize + maxNumberOfReplicasBitMaskSize
      else 39 + maxNumberOfReplicasBitMaskSize)"

definition status_flags :: "bool \<Rightarrow> bool \<Rightarrow> bool \<Rightarrow> bool \<Rightarrow> bool \<Rightarrow> nat" where
  "status_flags viewIsActive hasNewChangeMsg listOfPP listOfMissingVC listOfMissingPP =
     (if viewIsActive then 1 else 0) + (if hasNewChangeMsg then 2 else 0) +
     (if listOfPP then 4 else if listOfMissingVC then 8 else if listOfMissingPP then 16 else 0)"

definition ReplicaStatusMsg_new :: "MsgEnv \<Rightarrow> ReplicaId \<Rightarrow> ViewNum \<Rightarrow> SeqNum \<Rightarrow> SeqNum \<Rightarrow> bool \<Rightarrow> bool \<Rightarrow> bool \<Rightarrow> bool \<Rightarrow> bool \<Rightarrow>
    bytes \<Rightarrow> MessageBase result" where
  "ReplicaStatusMsg_new env senderId viewNumber lastStable lastExecuted viewIsActive hasNewChangeMsg listOfPP listOfMissingVC
     listOfMissingPP span =
     c_assert (lastExecuted \<ge> lastStable) (c_assert (lastStable mod checkpointWindow = 0)
      (c_assert (\<not> viewIsActive \<or> hasNewChangeMsg) (c_assert (\<not> viewIsActive \<or> \<not> listOfMissingVC)
       (c_assert (\<not> viewIsActive \<or> \<not> listOfMissingPP) (c_assert (viewIsActive \<or> \<not> listOfPP)
        (c_assert ((if listOfPP then 1 else 0) + (if listOfMissingVC then 1 else 0) + (if listOfMissingPP then 1 else 0) \<le> (1 :: nat))
          (Inr (new_msg senderId McReplicaStatus span
             (le_s64 viewNumber @ le_s64 lastStable @ le_s64 lastExecuted @ le_bytes 8 (selfEpoch env) @
              le_bytes 1 (status_flags viewIsActive hasNewChangeMsg listOfPP listOfMissingVC listOfMissingPP))
             (replicate (calcSizeOfReplicaStatusMsg viewIsActive listOfPP listOfMissingVC listOfMissingPP - 39) 0)))))))))"

definition rs_getLastStableSeqNum :: "MessageBase \<Rightarrow> int result" where
  "rs_getLastStableSeqNum m = rd_s64 14 (msgBody m)"

definition rs_getLastExecutedSeqNum :: "MessageBase \<Rightarrow> int result" where
  "rs_getLastExecutedSeqNum m = rd_s64 22 (msgBody m)"

definition rs_flag :: "nat \<Rightarrow> MessageBase \<Rightarrow> bool result" where
  "rs_flag i m = rpred (rd 38 1 (msgBody m)) (\<lambda>fl. bit fl i)"

definition rs_currentViewIsActive :: "MessageBase \<Rightarrow> bool result" where
  "rs_currentViewIsActive m = rs_flag 0 m"

definition rs_currentViewHasNewViewMessage :: "MessageBase \<Rightarrow> bool result" where
  "rs_currentViewHasNewViewMessage m = rs_flag 1 m"

definition rs_hasListOfPrePrepareMsgsInActiveWindow :: "MessageBase \<Rightarrow> bool result" where
  "rs_hasListOfPrePrepareMsgsInActiveWindow m = rs_flag 2 m"

definition rs_hasListOfMissingViewChangeMsg :: "MessageBase \<Rightarrow> bool result" where
  "rs_hasListOfMissingViewChangeMsg m = rs_flag 3 m"

definition rs_hasListOfMissingPrePrepareMsg :: "MessageBase \<Rightarrow> bool result" where
  "rs_hasListOfMissingPrePrepareMsg m = rs_flag 4 m"

definition ReplicaStatusMsg_validate :: "ReplicasInfo \<Rightarrow> MessageBase \<Rightarrow> unit result" where
  "ReplicaStatusMsg_validate repInfo m =
     throw_if (rany
        [shorter m 39,
         Inr (sender m = myId repInfo),
         Inr (\<not> isIdOfReplica repInfo (sender m)),
         rpred (rs_getLastStableSeqNum m) (\<lambda>s. s mod checkpointWindow \<noteq> 0),
         rbind (rs_getLastExecutedSeqNum m) (\<lambda>e. rpred (rs_getLastStableSeqNum m) (\<lambda>s. e < s))])
      (rbind (rs_currentViewIsActive m) (\<lambda>active. rbind (rs_currentViewHasNewViewMessage m) (\<lambda>newMsg.
       rbind (rs_hasListOfPrePrepareMsgsInActiveWindow m) (\<lambda>pp. rbind (rs_hasListOfMissingViewChangeMsg m) (\<lambda>vc.
       rbind (rs_hasListOfMissingPrePrepareMsg m) (\<lambda>mpp.
         throw_if (rany
            [Inr (\<not> (\<not> active \<or> newMsg)), Inr (\<not> (\<not> active \<or> \<not> vc)), Inr (\<not> (\<not> active \<or> \<not> mpp)), Inr (\<not> (active \<or> \<not> pp)),
             Inr ((if pp then 1 else 0) + (if vc then 1 else 0) + (if mpp then 1 else 0) \<ge> (2 :: nat)),
             rpred (spanContextSize m) (\<lambda>sp. msgSize m \<noteq> u32 (calcSizeOfReplicaStatusMsg active pp vc mpp + sp))])
          (Inr ())))))))"

text \<open>Bit \<open>index\<close> of the list that starts \<open>shift\<close> bytes after the header and the span context.\<close>

definition rs_get_bit :: "nat \<Rightarrow> nat \<Rightarrow> MessageBase \<Rightarrow> bool result" where
  "rs_get_bit shift index m =
     rbind (spanContextSize m) (\<lambda>sp. rpred (rd (39 + sp + shift + index div 8) 1 (msgBody m)) (\<lambda>b. bit b (index mod 8)))"

definition rs_set_bit :: "nat \<Rightarrow> nat \<Rightarrow> MessageBase \<Rightarrow> MessageBase result" where
  "rs_set_bit shift index m =
     rbind (spanContextSize m) (\<lambda>sp. rbind (rd (39 + sp + shift + index div 8) 1 (msgBody m))
       (\<lambda>b. rbind (wr (39 + sp + shift + index div 8) (le_bytes 1 (set_bit (index mod 8) b)) (msgBody m))
         (\<lambda>body. Inr (m\<lparr>msgBody := body\<rparr>))))"

text \<open>
  The index of a sequence number, after the assertions that the list is there and the number is in the window. The end of the
  window is a sum of 64-bit numbers; it wraps around for a stable sequence number near \<open>2\<^sup>6\<^sup>3\<close>, which validation does not refuse, and
  the assertion then fails.
\<close>

definition window_end :: "SeqNum \<Rightarrow> SeqNum" where
  "window_end s = (if s + kWorkWindow < 2 ^ 63 then s + kWorkWindow else s + kWorkWindow - 2 ^ 64)"

definition rs_seq_index :: "bool result \<Rightarrow> SeqNum \<Rightarrow> MessageBase \<Rightarrow> nat result" where
  "rs_seq_index has seqNum m =
     rbind has (\<lambda>h. c_assert h (rbind (rs_getLastStableSeqNum m) (\<lambda>s.
       c_assert (seqNum > s) (c_assert (seqNum \<le> window_end s) (Inr (nat (seqNum - s - 1)))))))"

definition rs_replica_index :: "bool result \<Rightarrow> ReplicaId \<Rightarrow> nat result" where
  "rs_replica_index has replicaId = rbind has (\<lambda>h. c_assert h (c_assert (replicaId < MaxNumberOfReplicas) (Inr replicaId)))"

definition isPrePrepareInActiveWindow :: "SeqNum \<Rightarrow> MessageBase \<Rightarrow> bool result" where
  "isPrePrepareInActiveWindow seqNum m =
     rbind (rs_seq_index (rs_hasListOfPrePrepareMsgsInActiveWindow m) seqNum m)
       (\<lambda>i. rs_get_bit maxNumberOfReplicasBitMaskSize i m)"

definition isMissingViewChangeMsgForViewChange :: "ReplicaId \<Rightarrow> MessageBase \<Rightarrow> bool result" where
  "isMissingViewChangeMsgForViewChange replicaId m =
     rbind (rs_replica_index (rs_hasListOfMissingViewChangeMsg m) replicaId)
       (\<lambda>i. rs_get_bit maxNumberOfReplicasBitMaskSize i m)"

definition isMissingPrePrepareMsgForViewChange :: "SeqNum \<Rightarrow> MessageBase \<Rightarrow> bool result" where
  "isMissingPrePrepareMsgForViewChange seqNum m =
     rbind (rs_seq_index (rs_hasListOfMissingPrePrepareMsg m) seqNum m)
       (\<lambda>i. rs_get_bit maxNumberOfReplicasBitMaskSize i m)"

definition setPrePrepareInActiveWindow :: "SeqNum \<Rightarrow> MessageBase \<Rightarrow> MessageBase result" where
  "setPrePrepareInActiveWindow seqNum m =
     rbind (rs_seq_index (rs_hasListOfPrePrepareMsgsInActiveWindow m) seqNum m)
       (\<lambda>i. rs_set_bit maxNumberOfReplicasBitMaskSize i m)"

definition setMissingViewChangeMsgForViewChange :: "ReplicaId \<Rightarrow> MessageBase \<Rightarrow> MessageBase result" where
  "setMissingViewChangeMsgForViewChange replicaId m =
     rbind (rs_replica_index (rs_hasListOfMissingViewChangeMsg m) replicaId)
       (\<lambda>i. rs_set_bit maxNumberOfReplicasBitMaskSize i m)"

definition setMissingPrePrepareMsgForViewChange :: "SeqNum \<Rightarrow> MessageBase \<Rightarrow> MessageBase result" where
  "setMissingPrePrepareMsgForViewChange seqNum m =
     rbind (rs_seq_index (rs_hasListOfMissingPrePrepareMsg m) seqNum m)
       (\<lambda>i. rs_set_bit maxNumberOfReplicasBitMaskSize i m)"

definition hasComplaintFromReplica :: "ReplicaId \<Rightarrow> MessageBase \<Rightarrow> bool result" where
  "hasComplaintFromReplica replicaId m = c_assert (replicaId < MaxNumberOfReplicas) (rs_get_bit 0 replicaId m)"

definition setComplaintFromReplica :: "ReplicaId \<Rightarrow> MessageBase \<Rightarrow> MessageBase result" where
  "setComplaintFromReplica replicaId m = c_assert (replicaId < MaxNumberOfReplicas) (rs_set_bit 0 replicaId m)"

section \<open>NewViewMsg\<close>

text \<open>The constructor allocates \<^verbatim>\<open>maxExternalMessageSize\<close> bytes; the elements are written behind the span context.\<close>

definition NewViewMsg_new :: "MsgEnv \<Rightarrow> ReplicaId \<Rightarrow> ViewNum \<Rightarrow> bytes \<Rightarrow> MessageBase" where
  "NewViewMsg_new env senderId newView span =
     new_msg senderId McNewView span (le_s64 newView @ le_bytes 8 (selfEpoch env) @ le_bytes 2 0)
       (replicate (maxMessageSize env - 24 - length span) 0)"

definition nv_newView :: "MessageBase \<Rightarrow> int result" where
  "nv_newView m = rd_s64 6 (msgBody m)"

definition nv_elementsCount :: "MessageBase \<Rightarrow> nat result" where
  "nv_elementsCount m = rd 22 2 (msgBody m)"

definition nv_replicaId :: "MessageBase \<Rightarrow> nat \<Rightarrow> nat result" where
  "nv_replicaId m i = rbind (spanContextSize m) (\<lambda>sp. rd (24 + sp + 34 * i) 2 (msgBody m))"

definition nv_digest :: "MessageBase \<Rightarrow> nat \<Rightarrow> bytes result" where
  "nv_digest m i = rbind (spanContextSize m) (\<lambda>sp. rd_bytes (24 + sp + 34 * i + 2) 32 (msgBody m))"

definition nv_addElement :: "MsgEnv \<Rightarrow> ReplicaId \<Rightarrow> bytes \<Rightarrow> MessageBase \<Rightarrow> MessageBase result" where
  "nv_addElement env replicaId viewChangeDigest m =
     rbind (nv_elementsCount m) (\<lambda>currNumOfElements.
       let requiredSize = u16 (24 + (currNumOfElements + 1) * 34)
       in c_assert (requiredSize \<le> maxMessageSize env)
           (rbind (if currNumOfElements = 0 then Inr True else rpred (nv_replicaId m (currNumOfElements - 1)) (\<lambda>l. replicaId > l))
             (\<lambda>sorted. c_assert sorted
               (rbind (spanContextSize m) (\<lambda>sp.
                rbind (wr (24 + sp + 34 * currNumOfElements) (le_bytes 2 replicaId @ viewChangeDigest) (msgBody m)) (\<lambda>b1.
                rbind (wr 22 (le_bytes 2 (currNumOfElements + 1)) b1) (\<lambda>b2. Inr (m\<lparr>msgBody := b2\<rparr>))))))))"

definition nv_finalizeMessage :: "ReplicasInfo \<Rightarrow> MessageBase \<Rightarrow> MessageBase result" where
  "nv_finalizeMessage repInfo m =
     rbind (nv_elementsCount m) (\<lambda>numOfElements.
       c_assert (numOfElements = 2 * fVal repInfo + 2 * cVal repInfo + 1)
        (rbind (spanContextSize m) (\<lambda>sp.
          rbind (setMsgSize (u16 (24 + numOfElements * 34 + sp)) m) shrinkToFit)))"

text \<open>The loop of \<^verbatim>\<open>validate\<close> over the elements \<open>i, i + 1, ...\<close>; the result is whether one of them is rejected.\<close>

fun nv_bad_elements :: "MessageBase \<Rightarrow> nat \<Rightarrow> nat \<Rightarrow> bool result" where
  "nv_bad_elements m i 0 = Inr False"
| "nv_bad_elements m i (Suc k) =
     rbind (rany
        [if i > 0 then rbind (nv_replicaId m (i - 1)) (\<lambda>a. rpred (nv_replicaId m i) (\<lambda>b. a \<ge> b)) else Inr False,
         rpred (nv_digest m i) isZero])
       (\<lambda>bad. if bad then Inr True else nv_bad_elements m (i + 1) k)"

definition NewViewMsg_validate :: "MsgEnv \<Rightarrow> ReplicasInfo \<Rightarrow> MessageBase \<Rightarrow> unit result" where
  "NewViewMsg_validate env repInfo m =
     (let expectedElements = u16 (2 * fVal repInfo + 2 * cVal repInfo + 1)
      in rbind (spanContextSize m) (\<lambda>sp.
           let contentSize = u16 (24 + expectedElements * 34 + sp)
           in throw_if (rany
                [Inr (msgSize m < contentSize),
                 Inr (\<not> isIdOfReplica repInfo (sender m)),
                 Inr (myId repInfo = sender m),
                 rpred (nv_newView m) (\<lambda>v. primaryOfView repInfo v \<noteq> sender m),
                 rpred (rd 14 8 (msgBody m)) (\<lambda>e. e \<noteq> selfEpoch env),
                 rpred (nv_elementsCount m) (\<lambda>c. c \<noteq> expectedElements)])
              (throw_if (nv_bad_elements m 0 expectedElements) (Inr ()))))"

fun nv_find :: "MessageBase \<Rightarrow> ReplicaId \<Rightarrow> bytes \<Rightarrow> nat \<Rightarrow> nat \<Rightarrow> bool result" where
  "nv_find m replicaId d i 0 = Inr False"
| "nv_find m replicaId d i (Suc k) =
     rbind (nv_replicaId m i) (\<lambda>currId.
       if currId = replicaId then rpred (nv_digest m i) (\<lambda>d'. d = d')
       else if currId > replicaId then Inr False
       else nv_find m replicaId d (i + 1) k)"

definition includesViewChangeFromReplica :: "ReplicaId \<Rightarrow> bytes \<Rightarrow> MessageBase \<Rightarrow> bool result" where
  "includesViewChangeFromReplica replicaId viewChangeReplica m =
     rbind (nv_elementsCount m) (\<lambda>n. nv_find m replicaId viewChangeReplica 0 n)"


section \<open>Validation stays inside the message\<close>

abbreviation span_of :: "MessageBase \<Rightarrow> nat" where
  "span_of m \<equiv> fld 2 4 (msgBody m)"

lemma net_span: "net_msg m \<Longrightarrow> spanContextSize m = Inr (span_of m)"
  by (simp add: spanContextSize_def net_msg_def header_size_def rd_fld)

lemma net_type: "net_msg m \<Longrightarrow> msg_type m = Inr (fld 0 2 (msgBody m))"
  by (simp add: msg_type_def net_msg_def header_size_def rd_fld)

lemma net_shorter: "net_msg m \<Longrightarrow> shorter m h = Inr (msgSize m < h + span_of m)"
  by (simp add: shorter_def rpred_def net_span)

lemma net_rd: "net_msg m \<Longrightarrow> off + k \<le> msgSize m \<Longrightarrow> rd off k (msgBody m) = Inr (fld off k (msgBody m))"
  by (simp add: net_msg_def rd_fld)

lemma net_rd_bytes: "net_msg m \<Longrightarrow> off + k \<le> msgSize m \<Longrightarrow> rd_bytes off k (msgBody m) = Inr (take k (drop off (msgBody m)))"
  by (simp add: net_msg_def rd_bytes_def)

lemma rpred_Inr [simp]: "rpred (Inr x) P = Inr (P x)" "rpred (Inl e) P = Inl e"
  by (simp_all add: rpred_def)

lemmas net_simps = net_span net_type net_shorter net_rd net_rd_bytes

lemmas accessor_defs = ss_viewNumber_def ss_seqNumber_def ss_signatureLen_def pcp_commitPath_def pcp_signatureLen_def
  ckpt_seqNumber_def ckpt_state_def ckpt_stateDigest_def ckpt_reservedPagesDigest_def ckpt_rvbDataDigest_def
  ckpt_idOfGeneratedReplica_def rs_getLastStableSeqNum_def rs_getLastExecutedSeqNum_def rs_flag_def
  rs_currentViewIsActive_def rs_currentViewHasNewViewMessage_def rs_hasListOfPrePrepareMsgsInActiveWindow_def
  rs_hasListOfMissingViewChangeMsg_def rs_hasListOfMissingPrePrepareMsg_def rd_s64_def

definition no_overread :: "'a result \<Rightarrow> bool" where
  "no_overread r \<longleftrightarrow> r \<noteq> Inl UndefinedBehaviour"

lemma no_overread_simps [simp]:
  "no_overread (Inr x)" "no_overread (Inl RuntimeError)" "no_overread (Inl AssertFailed)"
  "no_overread (c_assert b k) \<longleftrightarrow> (b \<longrightarrow> no_overread k)"
  "no_overread (if b then r else r') \<longleftrightarrow> (b \<longrightarrow> no_overread r) \<and> (\<not> b \<longrightarrow> no_overread r')"
  by (auto simp: no_overread_def c_assert_def)

lemma ss_validate_no_overread: "net_msg m \<Longrightarrow> no_overread (ss_validate env ri ty m)"
  by (cases "msgSize m < 32 + span_of m") (simp_all add: ss_validate_def net_simps accessor_defs)

lemma ss_validate_size:
  assumes "net_msg m" "ss_validate env ri ty m = Inr ()"
  shows "32 + span_of m + fld 30 2 (msgBody m) \<le> msgSize m"
  using assms by (cases "msgSize m < 32 + span_of m") (auto simp: ss_validate_def net_simps accessor_defs split: if_splits)

lemma partial_validate_no_overread:
  assumes "net_msg m"
  shows "no_overread (PreparePartialMsg_validate env ri m)" "no_overread (CommitPartialMsg_validate env ri m)"
proof -
  have *: "no_overread (rbind (ss_validate env ri ty m)
       (\<lambda>_. throw_if (rpred (ss_viewNumber m) (\<lambda>v. myId ri \<noteq> primaryOfView ri v)) (Inr ())))" for ty
  proof (cases "ss_validate env ri ty m")
    case (Inl e)
    then show ?thesis using ss_validate_no_overread [OF assms, of env ri ty] by (simp add: no_overread_def)
  next
    case (Inr u)
    then have "32 \<le> msgSize m" using ss_validate_size [OF assms, of env ri ty] by simp
    then show ?thesis using assms Inr by (simp add: net_simps accessor_defs)
  qed
  show "no_overread (PreparePartialMsg_validate env ri m)" "no_overread (CommitPartialMsg_validate env ri m)"
    unfolding PreparePartialMsg_validate_def CommitPartialMsg_validate_def by (rule *)+
qed

lemma PartialCommitProofMsg_no_overread: "net_msg m \<Longrightarrow> no_overread (PartialCommitProofMsg_validate env ri m)"
  by (cases "msgSize m < 33 + span_of m") (simp_all add: PartialCommitProofMsg_validate_def net_simps accessor_defs)

lemma FullCommitProofMsg_no_overread: "net_msg m \<Longrightarrow> no_overread (FullCommitProofMsg_validate env ri m)"
  by (cases "msgSize m < 32") (simp_all add: FullCommitProofMsg_validate_def net_simps accessor_defs)

lemma SimpleAckMsg_no_overread: "net_msg m \<Longrightarrow> no_overread (SimpleAckMsg_validate env ri m)"
  by (cases "msgSize m < 38") (simp_all add: SimpleAckMsg_validate_def net_simps accessor_defs)

lemma StartSlowCommitMsg_no_overread: "net_msg m \<Longrightarrow> no_overread (StartSlowCommitMsg_validate env ri m)"
  by (cases "msgSize m < 30 + span_of m") (simp_all add: StartSlowCommitMsg_validate_def net_simps accessor_defs)

lemma ReqMissingDataMsg_no_overread: "net_msg m \<Longrightarrow> no_overread (ReqMissingDataMsg_validate env ri m)"
  by (cases "msgSize m < 32 + span_of m") (simp_all add: ReqMissingDataMsg_validate_def net_simps accessor_defs)

lemma ReplicaAsksToLeaveViewMsg_no_overread: "net_msg m \<Longrightarrow> no_overread (ReplicaAsksToLeaveViewMsg_validate env ri m)"
  by (cases "msgSize m < 27 + span_of m")
    (simp_all add: ReplicaAsksToLeaveViewMsg_validate_def net_simps accessor_defs Let_def)

lemma CheckpointMsg_no_overread: "net_msg m \<Longrightarrow> no_overread (CheckpointMsg_validate env ri m)"
  by (cases "msgSize m < 129 + span_of m")
    (simp_all add: CheckpointMsg_validate_def net_simps accessor_defs Let_def)

lemma ReplicaStatusMsg_no_overread: "net_msg m \<Longrightarrow> no_overread (ReplicaStatusMsg_validate ri m)"
  by (cases "msgSize m < 39 + span_of m")
    (simp_all add: ReplicaStatusMsg_validate_def net_simps accessor_defs)

text \<open>
  C29. Validating a message that arrived from the network never reads outside of its bytes, whatever they are: for the
  prepare, commit, commit proof, acknowledgement, slow path, missing data, leave view, checkpoint and status messages.
\<close>

theorem validation_in_bounds:
  assumes "onNewMessage mx src bs = Some m"
  shows "no_overread (PreparePartialMsg_validate env ri m) \<and> no_overread (PrepareFullMsg_validate env ri m) \<and>
    no_overread (CommitPartialMsg_validate env ri m) \<and> no_overread (CommitFullMsg_validate env ri m) \<and>
    no_overread (PartialCommitProofMsg_validate env ri m) \<and> no_overread (FullCommitProofMsg_validate env ri m) \<and>
    no_overread (SimpleAckMsg_validate env ri m) \<and> no_overread (StartSlowCommitMsg_validate env ri m) \<and>
    no_overread (ReqMissingDataMsg_validate env ri m) \<and> no_overread (ReplicaAsksToLeaveViewMsg_validate env ri m) \<and>
    no_overread (CheckpointMsg_validate env ri m) \<and> no_overread (ReplicaStatusMsg_validate ri m)"
proof -
  have m: "net_msg m" using onNewMessage_net [OF assms] by simp
  show ?thesis
    using ss_validate_no_overread [OF m] partial_validate_no_overread [OF m] PartialCommitProofMsg_no_overread [OF m]
      FullCommitProofMsg_no_overread [OF m] SimpleAckMsg_no_overread [OF m] StartSlowCommitMsg_no_overread [OF m]
      ReqMissingDataMsg_no_overread [OF m] ReplicaAsksToLeaveViewMsg_no_overread [OF m] CheckpointMsg_no_overread [OF m]
      ReplicaStatusMsg_no_overread [OF m]
    by (simp add: PrepareFullMsg_validate_def CommitFullMsg_validate_def)
qed

definition example_env :: MsgEnv where
  "example_env = \<lparr>selfEpoch = 0, mySigLength = 2, signData = (\<lambda>d. [1, 2]), sigLength = (\<lambda>i. 2),
     verifySig = (\<lambda>i d s. s = [1, 2]), maxMessageSize = 1000, clientTransactionSigning = True, digestOf = (\<lambda>bs. replicate 32 (of_nat (length bs)))\<rparr>"

theorem validation_in_bounds_witness:
  "\<exists>ri m. ReplicasInfo_new (example_config True) True True = Inr ri \<and> onNewMessage 100 1 [113, 0, 0, 0, 0, 0] = Some m \<and>
     no_overread (CheckpointMsg_validate example_env ri m)"
proof -
  obtain ri where ri: "ReplicasInfo_new (example_config True) True True = Inr ri"
    by (auto simp: ReplicasInfo_new_def example_config_def)
  obtain m where m: "onNewMessage 100 1 [113, 0, 0, 0, 0, 0] = Some m" by (simp add: onNewMessage_def header_size_def)
  show ?thesis using validation_in_bounds [OF m, of example_env ri] ri m by blast
qed

section \<open>Shares and combined signatures are read back\<close>

lemma ss_create_fields:
  assumes "length sig < 65536" "length span < 2 ^ 32" "selfEpoch env < 2 ^ 64"
    "- (2 ^ 63) \<le> v" "v < 2 ^ 63" "- (2 ^ 63) \<le> s" "s < 2 ^ 63"
    and m_def: "m = ss_create env ty v s src sig span"
  shows "net_msg m" "msgSize m = 32 + length span + length sig" "sender m = src"
    "fld 0 2 (msgBody m) = msg_code ty" "span_of m = length span" "ss_viewNumber m = Inr v" "ss_seqNumber m = Inr s"
    "rd 22 8 (msgBody m) = Inr (selfEpoch env)" "ss_signatureLen m = Inr (length sig)" "ss_signatureBody m = Inr sig"
proof -
  let ?f = "le_s64 v @ le_s64 s @ le_bytes 8 (selfEpoch env) @ le_bytes 2 (length sig)"
  have b: "msgBody m = le_bytes 2 (msg_code ty) @ le_bytes 4 (length span) @ le_s64 v @ le_s64 s @
      le_bytes 8 (selfEpoch env) @ le_bytes 2 (length sig) @ span @ sig"
    by (simp add: m_def ss_create_def new_msg_def MessageBase_of_def header_bytes_def)
  have l: "length (msgBody m) = 32 + length span + length sig" by (simp add: b)
  show "net_msg m" "msgSize m = 32 + length span + length sig" "sender m = src"
    using l by (simp_all add: m_def ss_create_def new_msg_def MessageBase_of_def net_msg_def header_size_def)
  show "fld 0 2 (msgBody m) = msg_code ty" by (cases ty) (simp_all add: b fld_simps)
  show sp: "span_of m = length span" using assms(2) by (simp add: b fld_simps)
  show "ss_viewNumber m = Inr v" using l s64_le_s64 [OF assms(4,5)]
    by (simp add: ss_viewNumber_def rd_s64_def rd_fld, simp add: b fld_append1 fld_append2 fld_whole)
  show "ss_seqNumber m = Inr s" using l s64_le_s64 [OF assms(6,7)]
    by (simp add: ss_seqNumber_def rd_s64_def rd_fld, simp add: b fld_append1 fld_append2 fld_whole)
  show "rd 22 8 (msgBody m) = Inr (selfEpoch env)" using l assms(3) by (simp add: rd_fld, simp add: b fld_simps)
  show sl: "ss_signatureLen m = Inr (length sig)" using l assms(1) by (simp add: ss_signatureLen_def rd_fld, simp add: b fld_simps)
  have "spanContextSize m = Inr (length span)" using l sp by (simp add: spanContextSize_def rd_fld)
  moreover have "rd_bytes (32 + length span) (length sig) (msgBody m) = Inr sig" using l by (simp add: rd_bytes_def) (simp add: b)
  ultimately show "ss_signatureBody m = Inr sig" using sl by (simp add: ss_signatureBody_def)
qed

text \<open>
  A share that a replica creates is accepted by the primary of its view, if that is another replica in the same epoch,
  and the primary reads the view, the sequence number and the signature that went into it.
\<close>

theorem prepare_partial_accepted:
  assumes "length (signer (calcCombination d v s)) < 65536" "length span < 2 ^ 32" "selfEpoch env < 2 ^ 64" "selfEpoch env = selfEpoch env'"
    "0 \<le> v" "v < 2 ^ 63" "0 \<le> s" "s < 2 ^ 63" "isIdOfReplica ri src" "src \<noteq> myId ri" "myId ri = primaryOfView ri v"
  shows "\<exists>m. m = ss_create_signed env McPreparePartial v s src d signer span \<and> PreparePartialMsg_validate env' ri m = Inr () \<and>
    ss_viewNumber m = Inr v \<and> ss_seqNumber m = Inr s \<and> ss_signatureBody m = Inr (signer (calcCombination d v s))"
proof -
  define m where "m = ss_create_signed env McPreparePartial v s src d signer span"
  have b: "- (2 ^ 63) \<le> v" "- (2 ^ 63) \<le> s" using assms(5,7) by simp_all
  note f = ss_create_fields [OF assms(1-3) b(1) assms(6) b(2) assms(8) m_def [unfolded ss_create_signed_def]]
  have "PreparePartialMsg_validate env' ri m = Inr ()"
    using f assms by (simp add: PreparePartialMsg_validate_def ss_validate_def net_simps)
  then show ?thesis using f m_def by blast
qed

theorem prepare_partial_accepted_witness:
  "\<exists>ri m. ReplicasInfo_new (example_config True) True True = Inr ri \<and>
     m = ss_create_signed example_env McPreparePartial 9 5 4 makeZero (\<lambda>d. [1, 2, 3]) [] \<and>
     PreparePartialMsg_validate example_env ri m = Inr () \<and> ss_signatureBody m = Inr [1, 2, 3]"
proof -
  obtain ri where ri: "ReplicasInfo_new (example_config True) True True = Inr ri"
    by (auto simp: ReplicasInfo_new_def example_config_def)
  then have "myId ri = 2" "numberOfReplicas ri = 7" by (auto simp: ReplicasInfo_new_def example_config_def)
  then show ?thesis using ri prepare_partial_accepted [of "\<lambda>d. [1, 2, 3]" makeZero 9 5 "[]" example_env example_env ri 4]
    by (simp add: example_env_def isIdOfReplica_def primaryOfView_def)
qed

section \<open>The elements of a new view message\<close>

text \<open>
  \<^verbatim>\<open>NewViewMsg::validate\<close> computes the size it requires in 16 bits, with the span context size of the message: a message
  of 24 bytes whose span context size makes the sum a multiple of 65536 passes the size check, and the elements are
  then read past the end of the message.
\<close>

theorem new_view_validation_overreads:
  assumes n: "n = 2 * fVal ri + 2 * cVal ri + 1" "24 + 34 * n < 65536"
    and src: "isIdOfReplica ri src" "src \<noteq> myId ri" "primaryOfView ri v = src" "0 \<le> v" "v < 2 ^ 63" "selfEpoch env < 2 ^ 64"
  shows "NewViewMsg_validate env ri (MessageBase_of src
    (header_bytes (msg_code McNewView) (65536 - (24 + 34 * n)) @ le_s64 v @ le_bytes 8 (selfEpoch env) @ le_bytes 2 n) True) =
    Inl UndefinedBehaviour"
proof -
  define sp where "sp = 65536 - (24 + 34 * n)"
  define m where "m = MessageBase_of src
    (header_bytes (msg_code McNewView) sp @ le_s64 v @ le_bytes 8 (selfEpoch env) @ le_bytes 2 n) True"
  have b: "msgBody m = le_bytes 2 112 @ le_bytes 4 sp @ le_s64 v @ le_bytes 8 (selfEpoch env) @ le_bytes 2 n"
    by (simp add: m_def MessageBase_of_def header_bytes_def)
  have l: "length (msgBody m) = 24" "msgSize m = 24" "sender m = src" by (simp add: b) (simp_all add: m_def MessageBase_of_def)
  have n16: "n < 65536" using n(2) by simp
  have "spanContextSize m = Inr sp" using l by (simp add: spanContextSize_def rd_fld) (simp add: b fld_simps sp_def)
  moreover have "nv_elementsCount m = Inr n" using l n16 by (simp add: nv_elementsCount_def rd_fld) (simp add: b fld_simps)
  moreover have "nv_newView m = Inr v" using l s64_le_s64 [of v] src(4,5)
    by (simp add: nv_newView_def rd_s64_def rd_fld) (simp add: b fld_append1 fld_append2 fld_whole)
  moreover have "rd 14 8 (msgBody m) = Inr (selfEpoch env)" using l src(6) by (simp add: rd_fld) (simp add: b fld_simps)
  moreover have "nv_digest m 0 = Inl UndefinedBehaviour" using l calculation(1) by (simp add: nv_digest_def rd_bytes_def)
  moreover have "u16 (24 + n * 34 + sp) = 0" using n(2) by (simp add: sp_def u16_def)
  moreover obtain k where "n = Suc k" using n(1) by (cases n) auto
  ultimately have "NewViewMsg_validate env ri m = Inl UndefinedBehaviour"
    using src l n16 n(1) by (simp add: NewViewMsg_validate_def Let_def)
  then show ?thesis by (simp add: m_def sp_def)
qed

theorem new_view_validation_overreads_witness:
  "\<exists>ri. ReplicasInfo_new (example_config True) True True = Inr ri \<and>
     NewViewMsg_validate example_env ri (MessageBase_of 1
       (header_bytes (msg_code McNewView) (65536 - (24 + 34 * 5)) @ le_s64 8 @ le_bytes 8 (selfEpoch example_env) @ le_bytes 2 5) True) =
     Inl UndefinedBehaviour"
proof -
  obtain ri where ri: "ReplicasInfo_new (example_config True) True True = Inr ri"
    by (auto simp: ReplicasInfo_new_def example_config_def)
  then have "myId ri = 2" "numberOfReplicas ri = 7" "fVal ri = 2" "cVal ri = 0"
    by (auto simp: ReplicasInfo_new_def example_config_def)
  then show ?thesis using ri new_view_validation_overreads [of 5 ri 1 8 example_env]
    by (simp add: example_env_def isIdOfReplica_def primaryOfView_def)
qed

definition nv_id :: "MessageBase \<Rightarrow> nat \<Rightarrow> nat" where
  "nv_id m i = fld (24 + span_of m + 34 * i) 2 (msgBody m)"

definition nv_dg :: "MessageBase \<Rightarrow> nat \<Rightarrow> bytes" where
  "nv_dg m i = take 32 (drop (24 + span_of m + 34 * i + 2) (msgBody m))"

lemma nv_element:
  assumes "net_msg m" "24 + span_of m + 34 * n \<le> msgSize m" "i < n"
  shows "nv_replicaId m i = Inr (nv_id m i)" "nv_digest m i = Inr (nv_dg m i)"
  using assms by (simp_all add: nv_replicaId_def nv_digest_def nv_id_def nv_dg_def net_simps)

lemma nv_bad_elements_sorted:
  assumes m: "net_msg m" "24 + span_of m + 34 * n \<le> msgSize m"
  shows "nv_bad_elements m i k = Inr False \<Longrightarrow> i + k \<le> n \<Longrightarrow> i \<le> j \<Longrightarrow> j < i + k \<Longrightarrow> 0 < j \<Longrightarrow> nv_id m (j - 1) < nv_id m j"
proof (induction k arbitrary: i)
  case (Suc k)
  have e: "nv_replicaId m i = Inr (nv_id m i)" "0 < i \<longrightarrow> nv_replicaId m (i - 1) = Inr (nv_id m (i - 1))"
    using nv_element(1) [OF m, of i] nv_element(1) [OF m, of "i - 1"] Suc.prems(2) by simp_all
  have rec: "nv_bad_elements m (i + 1) k = Inr False" "0 < i \<longrightarrow> nv_id m (i - 1) < nv_id m i"
    using Suc.prems(1) e by (auto split: if_splits)
  show ?case
  proof (cases "j = i")
    case True
    then show ?thesis using rec(2) Suc.prems(5) by simp
  next
    case False
    then show ?thesis using Suc.IH [OF rec(1)] Suc.prems by simp
  qed
qed simp

lemma nv_sorted:
  assumes "\<And>j. 0 < j \<Longrightarrow> j < n \<Longrightarrow> nv_id m (j - 1) < nv_id m j" "i < j" "j < n"
  shows "nv_id m i < nv_id m j"
  using assms(2,3)
proof (induction j)
  case (Suc j)
  have "nv_id m j < nv_id m (Suc j)" using assms(1) [of "Suc j"] Suc.prems(2) by simp
  then show ?case using Suc by (cases "i = j") auto
qed simp

lemma nv_find_eq:
  assumes m: "net_msg m" "24 + span_of m + 34 * n \<le> msgSize m"
    and sorted: "\<And>i j. i < j \<Longrightarrow> j < n \<Longrightarrow> nv_id m i < nv_id m j"
  shows "i + k \<le> n \<Longrightarrow> nv_find m r d i k = Inr (\<exists>j. i \<le> j \<and> j < i + k \<and> nv_id m j = r \<and> nv_dg m j = d)"
proof (induction k arbitrary: i)
  case (Suc k)
  have i: "i < n" using Suc.prems by simp
  note e = nv_element [OF m i]
  have split: "(\<exists>j. i \<le> j \<and> j < i + Suc k \<and> P j) \<longleftrightarrow> P i \<or> (\<exists>j. i + 1 \<le> j \<and> j < i + 1 + k \<and> P j)" for P
  proof -
    have "(i \<le> j \<and> j < i + Suc k \<and> P j) = (j = i \<and> P j \<or> i + 1 \<le> j \<and> j < i + 1 + k \<and> P j)" for j by auto
    then show ?thesis by (simp add: ex_disj_distrib)
  qed
  have later: "\<not> (\<exists>j. i + 1 \<le> j \<and> j < i + 1 + k \<and> nv_id m j = r \<and> nv_dg m j = d)" if "r \<le> nv_id m i"
  proof
    assume "\<exists>j. i + 1 \<le> j \<and> j < i + 1 + k \<and> nv_id m j = r \<and> nv_dg m j = d"
    then obtain j where "i + 1 \<le> j" "j < i + 1 + k" "nv_id m j = r" by blast
    then show False using sorted [of i j] that Suc.prems by simp
  qed
  consider "nv_id m i = r" | "r < nv_id m i" | "nv_id m i < r" by linarith
  then show ?case
  proof cases
    case 1
    then show ?thesis unfolding split using e later by auto
  next
    case 2
    then show ?thesis unfolding split using e later by auto
  next
    case 3
    then show ?thesis unfolding split using e Suc.IH [of "i + 1"] Suc.prems by auto
  qed
qed auto

text \<open>
  C30. In an accepted new view message whose size does not wrap around, \<^verbatim>\<open>includesViewChangeFromReplica\<close>, which stops at the
  first larger identifier, finds a view change exactly if one of the elements is the replica's with that digest.
\<close>

theorem new_view_lookup:
  assumes m: "net_msg m" and v: "NewViewMsg_validate env ri m = Inr ()"
    and n: "n = 2 * fVal ri + 2 * cVal ri + 1" "24 + 34 * n + span_of m < 65536"
  shows "includesViewChangeFromReplica r d m = Inr (\<exists>i < n. nv_replicaId m i = Inr r \<and> nv_digest m i = Inr d)"
proof -
  have u: "u16 (Suc (2 * fVal ri + 2 * cVal ri)) = n" using n by simp
  from v have size: "24 + span_of m + 34 * n \<le> msgSize m" and cnt: "nv_elementsCount m = Inr n"
    and el: "nv_bad_elements m 0 n = Inr False"
    using n(2) by (auto simp: NewViewMsg_validate_def Let_def net_simps [OF m] u rpred_def split: if_splits)
  have "nv_id m (j - 1) < nv_id m j" if "0 < j" "j < n" for j
    by (rule nv_bad_elements_sorted [OF m size el]) (use that in auto)
  then have sorted: "nv_id m i < nv_id m j" if "i < j" "j < n" for i j using nv_sorted that by blast
  have "includesViewChangeFromReplica r d m = Inr (\<exists>j. 0 \<le> j \<and> j < 0 + n \<and> nv_id m j = r \<and> nv_dg m j = d)"
    using nv_find_eq [OF m size sorted, of 0 n r d] cnt by (simp add: includesViewChangeFromReplica_def)
  also have "(\<exists>j. 0 \<le> j \<and> j < 0 + n \<and> nv_id m j = r \<and> nv_dg m j = d) \<longleftrightarrow>
      (\<exists>i < n. nv_replicaId m i = Inr r \<and> nv_digest m i = Inr d)"
    using nv_element [OF m size] by auto
  finally show ?thesis .
qed

definition example_ri :: "ReplicaId \<Rightarrow> ReplicasInfo" where
  "example_ri i =
     \<lparr>myId = i, numberOfReplicas = 4, numberOfRoReplicas = 0, numOfClientProxies = 0, numberOfExternalClients = 0,
      numberOfClientServices = 0, numberOfInternalClients = 4, maxValidPrincipalId = 7, fVal = 1, cVal = 0,
      dynamicCollectorForPartialProofs = True, dynamicCollectorForExecutionProofs = False, idsOfPeerReplicas = [],
      idsOfPeerROReplicas = [], idsOfClientProxies = [], idsOfExternalClients = [], idsOfClientServices = [],
      idsOfInternalClients = []\<rparr>"

definition example_new_view :: MessageBase where
  "example_new_view = MessageBase_of 1
     (le_bytes 2 112 @ le_bytes 4 0 @ le_s64 5 @ le_bytes 8 0 @ le_bytes 2 3 @
      le_bytes 2 0 @ replicate 32 7 @ le_bytes 2 1 @ replicate 32 8 @ le_bytes 2 3 @ replicate 32 9) True"

lemma example_new_view_fields:
  "net_msg example_new_view" "span_of example_new_view = 0" "msgSize example_new_view = 126"
  "sender example_new_view = 1" "nv_newView example_new_view = Inr 5" "rd 14 8 (msgBody example_new_view) = Inr 0"
  "nv_elementsCount example_new_view = Inr 3"
  "nv_replicaId example_new_view 0 = Inr 0" "nv_replicaId example_new_view 1 = Inr 1" "nv_replicaId example_new_view 2 = Inr 3"
  "nv_digest example_new_view 0 = Inr (replicate 32 7)" "nv_digest example_new_view 1 = Inr (replicate 32 8)"
  "nv_digest example_new_view 2 = Inr (replicate 32 9)"
proof -
  let ?b = "le_bytes 2 112 @ le_bytes 4 0 @ le_s64 5 @ le_bytes 8 0 @ le_bytes 2 3 @
      le_bytes 2 0 @ replicate 32 7 @ le_bytes 2 1 @ replicate 32 8 @ le_bytes 2 3 @ replicate 32 9"
  have b: "msgBody example_new_view = ?b" by (simp add: example_new_view_def MessageBase_of_def)
  have l: "length (msgBody example_new_view) = 126" by (simp add: b)
  show 1: "net_msg example_new_view" "msgSize example_new_view = 126" "sender example_new_view = 1"
    by (simp_all add: example_new_view_def MessageBase_of_def net_msg_def header_size_def)
  show sp: "span_of example_new_view = 0" by (simp add: b fld_simps)
  show "nv_newView example_new_view = Inr 5" using l s64_le_s64 [of 5]
    by (simp add: nv_newView_def rd_s64_def rd_fld) (simp add: b fld_append1 fld_append2 fld_whole)
  show "rd 14 8 (msgBody example_new_view) = Inr 0" "nv_elementsCount example_new_view = Inr 3"
    using l by (simp_all add: nv_elementsCount_def rd_fld, simp_all add: b fld_simps)
  show "nv_replicaId example_new_view 0 = Inr 0" "nv_replicaId example_new_view 1 = Inr 1" "nv_replicaId example_new_view 2 = Inr 3"
    using l by (simp_all add: nv_replicaId_def net_span [OF 1(1)] sp rd_fld, simp_all add: b fld_simps)
  show "nv_digest example_new_view 0 = Inr (replicate 32 7)" "nv_digest example_new_view 1 = Inr (replicate 32 8)"
    "nv_digest example_new_view 2 = Inr (replicate 32 9)"
    using l by (simp_all add: nv_digest_def net_span [OF 1(1)] sp rd_bytes_def, simp_all add: b)
qed

theorem new_view_lookup_witness:
  "includesViewChangeFromReplica 1 (replicate 32 8) example_new_view =
     Inr (\<exists>i < 3. nv_replicaId example_new_view i = Inr 1 \<and> nv_digest example_new_view i = Inr (replicate 32 8)) \<and>
   (\<exists>i < 3. nv_replicaId example_new_view i = Inr 1 \<and> nv_digest example_new_view i = Inr (replicate 32 8))"
proof -
  note f = example_new_view_fields
  have z: "\<not> isZero (replicate 32 (7 :: 8 word))" "\<not> isZero (replicate 32 (8 :: 8 word))" "\<not> isZero (replicate 32 (9 :: 8 word))"
    by (simp_all add: isZero_def list_all_iff)
  have "NewViewMsg_validate example_env (example_ri 0) example_new_view = Inr ()"
    using f z f(10,13) [unfolded numeral_2_eq_2] by (simp add: NewViewMsg_validate_def net_span Let_def example_ri_def example_env_def isIdOfReplica_def
        primaryOfView_def numeral_3_eq_3)
  then have "includesViewChangeFromReplica 1 (replicate 32 8) example_new_view =
      Inr (\<exists>i < 3. nv_replicaId example_new_view i = Inr 1 \<and> nv_digest example_new_view i = Inr (replicate 32 8))"
    using new_view_lookup [of example_new_view example_env "example_ri 0" 3 1 "replicate 32 8"] f by (simp add: example_ri_def)
  moreover have "\<exists>i < 3. nv_replicaId example_new_view i = Inr 1 \<and> nv_digest example_new_view i = Inr (replicate 32 8)"
    using f by (intro exI [of _ 1]) simp
  ultimately show ?thesis by blast
qed

section \<open>The bit lists of a status message\<close>

definition status_bit :: "MessageBase \<Rightarrow> nat \<Rightarrow> bool" where
  "status_bit m i \<longleftrightarrow> bit (fld 38 1 (msgBody m)) i"

lemma status_flags_read:
  assumes "net_msg m" "39 \<le> msgSize m"
  shows "rs_flag i m = Inr (status_bit m i)"
  using assms by (simp add: rs_flag_def net_simps status_bit_def)

lemmas rs_flag_defs = rs_currentViewIsActive_def rs_currentViewHasNewViewMessage_def
  rs_hasListOfPrePrepareMsgsInActiveWindow_def rs_hasListOfMissingViewChangeMsg_def rs_hasListOfMissingPrePrepareMsg_def

lemma status_accepted:
  assumes m: "net_msg m" and v: "ReplicaStatusMsg_validate ri m = Inr ()"
  shows "39 + span_of m \<le> msgSize m"
    "msgSize m = calcSizeOfReplicaStatusMsg (status_bit m 0) (status_bit m 2) (status_bit m 3) (status_bit m 4) + span_of m"
    "status_bit m 2 \<longrightarrow> status_bit m 0" "status_bit m 0 \<longrightarrow> \<not> status_bit m 3 \<and> \<not> status_bit m 4"
    "\<not> (status_bit m 3 \<and> status_bit m 4)"
proof -
  show s: "39 + span_of m \<le> msgSize m"
    using v by (cases "msgSize m < 39 + span_of m") (auto simp: ReplicaStatusMsg_validate_def net_simps [OF m])
  have fl: "rs_flag i m = Inr (status_bit m i)" for i using status_flags_read [OF m] s by simp
  have b: "fld 2 4 (msgBody m) < 2 ^ 32" using fld_less [of 2 4 "msgBody m"] by simp
  have "msgSize m = u32 (calcSizeOfReplicaStatusMsg (status_bit m 0) (status_bit m 2) (status_bit m 3) (status_bit m 4) + span_of m) \<and>
      (status_bit m 2 \<longrightarrow> status_bit m 0) \<and> (status_bit m 0 \<longrightarrow> \<not> status_bit m 3 \<and> \<not> status_bit m 4) \<and>
      \<not> (status_bit m 3 \<and> status_bit m 4)"
    using v s by (auto simp: ReplicaStatusMsg_validate_def net_simps [OF m] fl rs_flag_defs
        rs_getLastStableSeqNum_def rs_getLastExecutedSeqNum_def rd_s64_def split: if_splits)
  note facts = this
  show "status_bit m 2 \<longrightarrow> status_bit m 0" "status_bit m 0 \<longrightarrow> \<not> status_bit m 3 \<and> \<not> status_bit m 4"
    "\<not> (status_bit m 3 \<and> status_bit m 4)" using facts by simp_all
  let ?c = "calcSizeOfReplicaStatusMsg (status_bit m 0) (status_bit m 2) (status_bit m 3) (status_bit m 4)"
  have c: "?c < 100" by (simp add: calcSizeOfReplicaStatusMsg_def kWorkWindowBitMaskSize_def maxNumberOfReplicasBitMaskSize_def)
  show "msgSize m = ?c + span_of m"
  proof (cases "?c + span_of m < 2 ^ 32")
    case True
    then show ?thesis using facts by simp
  next
    case False
    then have "u32 (?c + span_of m) = ?c + span_of m - 2 ^ 32" using b c by (simp add: u32_def mod_if)
    then show ?thesis using facts s False b c by simp
  qed
qed

lemma rs_get_bit_in:
  assumes "net_msg m" "39 + span_of m + shift + index div 8 < msgSize m"
  shows "no_overread (rs_get_bit shift index m)"
  using assms by (simp add: rs_get_bit_def net_simps)

lemma rs_seq_index_in:
  assumes "net_msg m" "39 \<le> msgSize m" "rs_seq_index (rs_flag i m) seqNum m = Inr idx"
  shows "status_bit m i" "idx < 300"
  using assms by (auto simp: rs_seq_index_def status_flags_read kWorkWindow_def window_end_def split: if_splits)

text \<open>
  C31. In a status message that was accepted, every bit a replica asks for is inside the message: the complaints, the pre-prepare
  messages of the window, and the missing view changes or pre-prepare messages.
\<close>

theorem status_lists_in_bounds:
  assumes m: "net_msg m" and v: "ReplicaStatusMsg_validate ri m = Inr ()"
  shows "no_overread (isPrePrepareInActiveWindow s m) \<and> no_overread (isMissingPrePrepareMsgForViewChange s m) \<and>
    no_overread (isMissingViewChangeMsgForViewChange r m) \<and> no_overread (hasComplaintFromReplica r m)"
proof -
  note a = status_accepted [OF m v]
  have s: "39 \<le> msgSize m" using a(1) by simp
  have sz: "calcSizeOfReplicaStatusMsg p q x y \<ge> 47" for p q x y
    by (simp add: calcSizeOfReplicaStatusMsg_def kWorkWindowBitMaskSize_def maxNumberOfReplicasBitMaskSize_def)
  have seq: "no_overread (rbind (rs_seq_index (rs_flag i m) s m) (\<lambda>x. rs_get_bit maxNumberOfReplicasBitMaskSize x m))"
    if i: "i = 2 \<or> i = 4" for i
  proof (cases "rs_seq_index (rs_flag i m) s m")
    case (Inl e)
    then have "e \<noteq> UndefinedBehaviour"
      using m s by (auto simp: rs_seq_index_def status_flags_read rs_getLastStableSeqNum_def rd_s64_def net_simps c_assert_def
          split: if_splits)
    then show ?thesis using Inl by (simp add: no_overread_def)
  next
    case (Inr x)
    note x = rs_seq_index_in [OF m s Inr]
    have "calcSizeOfReplicaStatusMsg (status_bit m 0) (status_bit m 2) (status_bit m 3) (status_bit m 4) = 85"
      using x(1) i a(3-5) by (auto simp: calcSizeOfReplicaStatusMsg_def kWorkWindowBitMaskSize_def maxNumberOfReplicasBitMaskSize_def)
    moreover have "x div 8 < 38" using x(2) by (simp add: less_mult_imp_div_less)
    ultimately show ?thesis using a(2) Inr m
      by (simp add: rs_get_bit_in maxNumberOfReplicasBitMaskSize_def)
  qed
  have rep: "no_overread (rbind (rs_replica_index (rs_flag 3 m) r) (\<lambda>x. rs_get_bit maxNumberOfReplicasBitMaskSize x m))"
  proof (cases "status_bit m 3 \<and> r < MaxNumberOfReplicas")
    case True
    then have "calcSizeOfReplicaStatusMsg (status_bit m 0) (status_bit m 2) (status_bit m 3) (status_bit m 4) = 55" "r div 8 < 8"
      using a(3-5) by (auto simp: calcSizeOfReplicaStatusMsg_def maxNumberOfReplicasBitMaskSize_def MaxNumberOfReplicas_def
          less_mult_imp_div_less)
    then show ?thesis using a(2) m s True
      by (simp add: rs_replica_index_def status_flags_read rs_get_bit_in maxNumberOfReplicasBitMaskSize_def)
  next
    case False
    then show ?thesis using m s by (auto simp: rs_replica_index_def status_flags_read no_overread_def c_assert_def)
  qed
  have "no_overread (hasComplaintFromReplica r m)"
  proof (cases "r < MaxNumberOfReplicas")
    case True
    then have "r div 8 < 8" by (simp add: MaxNumberOfReplicas_def less_mult_imp_div_less)
    then show ?thesis using a(2) sz [of "status_bit m 0" "status_bit m 2" "status_bit m 3" "status_bit m 4"] m
      by (simp add: hasComplaintFromReplica_def rs_get_bit_in)
  qed (simp add: hasComplaintFromReplica_def)
  then show ?thesis using seq [of 2] seq [of 4] rep
    by (simp add: isPrePrepareInActiveWindow_def isMissingPrePrepareMsgForViewChange_def
        isMissingViewChangeMsgForViewChange_def rs_flag_defs)
qed

theorem status_lists_in_bounds_witness:
  "\<exists>m. ReplicaStatusMsg_new example_env 1 3 150 200 True True True False False [] = Inr m \<and>
     ReplicaStatusMsg_validate (example_ri 0) m = Inr () \<and> no_overread (isPrePrepareInActiveWindow 151 m)"
proof -
  let ?f = "le_s64 3 @ le_s64 150 @ le_s64 200 @ le_bytes 8 0 @ le_bytes 1 7"
  define m where "m = new_msg 1 McReplicaStatus [] ?f (replicate 46 0)"
  have new: "ReplicaStatusMsg_new example_env 1 3 150 200 True True True False False [] = Inr m"
    by (simp add: ReplicaStatusMsg_new_def m_def example_env_def checkpointWindow_def status_flags_def calcSizeOfReplicaStatusMsg_def
        kWorkWindowBitMaskSize_def maxNumberOfReplicasBitMaskSize_def)
  have b: "msgBody m = le_bytes 2 115 @ le_bytes 4 0 @ ?f @ replicate 46 0"
    by (simp add: m_def new_msg_def MessageBase_of_def header_bytes_def)
  have l: "length (msgBody m) = 85" "net_msg m" "msgSize m = 85" "sender m = 1"
    by (simp add: b) (simp_all add: m_def new_msg_def MessageBase_of_def net_msg_def header_size_def)
  have sp: "span_of m = 0" by (simp add: b fld_simps)
  have fl: "rs_flag i m = Inr (bit (7 :: nat) i)" for i using l by (simp add: rs_flag_def rd_fld) (simp add: b fld_simps)
  have "rs_getLastStableSeqNum m = Inr 150" "rs_getLastExecutedSeqNum m = Inr 200"
    using l s64_le_s64 [of 150] s64_le_s64 [of 200]
    by (simp_all add: rs_getLastStableSeqNum_def rs_getLastExecutedSeqNum_def rd_s64_def rd_fld,
        simp_all add: b fld_append1 fld_append2 fld_whole)
  then have "ReplicaStatusMsg_validate (example_ri 0) m = Inr ()"
    using l sp by (simp add: ReplicaStatusMsg_validate_def bit_0 net_simps rs_flag_defs fl checkpointWindow_def example_ri_def
        isIdOfReplica_def calcSizeOfReplicaStatusMsg_def kWorkWindowBitMaskSize_def maxNumberOfReplicasBitMaskSize_def)
  then show ?thesis using new status_lists_in_bounds [OF l(2), of "example_ri 0" 151 0] by blast
qed

end
