(* ===== verification/Restart_Msgs.thy ===== *)
theory Restart_Msgs
  imports Consensus_Msgs
begin

text \<open>
  bftengine/src/bftengine/messages/ReplicaRestartReadyMsg.{hpp,cpp} and ReplicasRestartReadyProofMsg.{hpp,cpp}: the messages with
  which replicas agree that enough of them are ready to restart.
\<close>

section \<open>ReplicaRestartReadyMsg\<close>

datatype RestartReason = Scale | Install

fun restart_code :: "RestartReason \<Rightarrow> nat" where
  "restart_code Scale = 0"
| "restart_code Install = 1"

definition rr_data :: "MsgEnv \<Rightarrow> ReplicaId \<Rightarrow> SeqNum \<Rightarrow> RestartReason \<Rightarrow> bytes \<Rightarrow> bytes \<Rightarrow> bytes" where
  "rr_data env senderId s r extraData span =
     header_bytes (msg_code McReplicaRestartReady) (length span) @
     le_bytes 2 senderId @ le_s64 s @ le_bytes 8 (selfEpoch env) @ le_bytes 2 (mySigLength env) @ le_bytes 1 (restart_code r) @
     le_bytes 2 (length extraData) @ span @ extraData"

text \<open>The data that is signed is the message up to the signature, whose start is computed with the 16-bit length field.\<close>

definition ReplicaRestartReadyMsg_create :: "MsgEnv \<Rightarrow> ReplicaId \<Rightarrow> SeqNum \<Rightarrow> RestartReason \<Rightarrow> bytes \<Rightarrow> bytes \<Rightarrow> MessageBase" where
  "ReplicaRestartReadyMsg_create env senderId s r extraData span =
     (let dat = rr_data env senderId s r extraData span in MessageBase_of senderId (dat @ signData env dat) True)"

definition rr_idOfGeneratedReplica :: "MessageBase \<Rightarrow> nat result" where
  "rr_idOfGeneratedReplica m = rd 6 2 (msgBody m)"

definition rr_seqNum :: "MessageBase \<Rightarrow> int result" where
  "rr_seqNum m = rd_s64 8 (msgBody m)"

definition rr_extraDataLen :: "MessageBase \<Rightarrow> nat result" where
  "rr_extraDataLen m = rd 27 2 (msgBody m)"

definition rr_getExtraData :: "MessageBase \<Rightarrow> bytes result" where
  "rr_getExtraData m =
     rbind (rd 26 1 (msgBody m)) (\<lambda>r. if r = restart_code Scale then Inr []
       else rbind (spanContextSize m) (\<lambda>sp. rbind (rr_extraDataLen m) (\<lambda>l. rd_bytes (29 + sp) l (msgBody m))))"

definition ReplicaRestartReadyMsg_validate :: "MsgEnv \<Rightarrow> ReplicasInfo \<Rightarrow> MessageBase \<Rightarrow> unit result" where
  "ReplicaRestartReadyMsg_validate env repInfo m =
     rbind (rr_idOfGeneratedReplica m) (\<lambda>gen. rbind (spanContextSize m) (\<lambda>sp. rbind (rr_extraDataLen m) (\<lambda>extra.
       let dataSize = 29 + sp + extra
       in throw_if (rany
            [Inr (msgSize m < dataSize),
             Inr (\<not> isIdOfReplica repInfo gen),
             rpred (rd 16 8 (msgBody m)) (\<lambda>e. e \<noteq> selfEpoch env),
             rpred (rd 26 1 (msgBody m)) (\<lambda>r. r \<noteq> restart_code Scale \<and> r \<noteq> restart_code Install)])
          (let sigLen = u16 (sigLength env gen)
           in throw_if (Inr (msgSize m < dataSize + sigLen))
               (throw_if (rbind (rd_bytes 0 dataSize (msgBody m)) (\<lambda>dat. rbind (rd_bytes dataSize sigLen (msgBody m))
                   (\<lambda>sig. Inr (\<not> verifySig env gen dat sig))))
                 (Inr ()))))))"

section \<open>ReplicasRestartReadyProofMsg\<close>

definition ReplicasRestartReadyProofMsg_create :: "MsgEnv \<Rightarrow> ReplicaId \<Rightarrow> SeqNum \<Rightarrow> RestartReason \<Rightarrow> bytes \<Rightarrow> MessageBase" where
  "ReplicasRestartReadyProofMsg_create env i s r span =
     new_msg i McReplicasRestartReadyProof span
       (le_bytes 2 i @ le_s64 s @ le_bytes 8 (selfEpoch env) @ le_bytes 1 (restart_code r) @ le_bytes 2 0 @ le_bytes 4 0)
       (replicate (maxMessageSize env - 31 - length span) 0)"

definition rp_elementsCount :: "MessageBase \<Rightarrow> nat result" where
  "rp_elementsCount m = rd 25 2 (msgBody m)"

definition rp_locationAfterLast :: "MessageBase \<Rightarrow> nat result" where
  "rp_locationAfterLast m = rd 27 4 (msgBody m)"

definition rp_getBodySize :: "MessageBase \<Rightarrow> nat result" where
  "rp_getBodySize m =
     rbind (rp_locationAfterLast m) (\<lambda>loc. if loc = 0 then rbind (spanContextSize m) (\<lambda>sp. Inr (u32 (31 + sp))) else Inr loc)"

definition rp_addElement :: "MsgEnv \<Rightarrow> MessageBase \<Rightarrow> MessageBase \<Rightarrow> MessageBase result" where
  "rp_addElement env restartMsg m =
     rbind (rp_locationAfterLast m) (\<lambda>loc0. rbind (rp_elementsCount m) (\<lambda>cnt.
       rbind (if loc0 = 0 then c_assert (cnt = 0) (rbind (spanContextSize m) (\<lambda>sp. Inr (u32 (31 + sp)))) else Inr loc0) (\<lambda>loc.
         let requiredSpace = u32 (loc + msgSize restartMsg)
         in c_assert (u32 (requiredSpace + mySigLength env) \<le> storageSize m)
             (rbind (rd_bytes 0 (msgSize restartMsg) (msgBody restartMsg)) (\<lambda>elem.
              rbind (wr loc elem (msgBody m)) (\<lambda>b1. rbind (wr 25 (le_bytes 2 (cnt + 1)) b1) (\<lambda>b2.
              rbind (wr 27 (le_bytes 4 requiredSpace) b2) (\<lambda>b3. Inr (m\<lparr>msgBody := b3\<rparr>)))))))))"

definition rp_finalizeMessage :: "MessageBase \<Rightarrow> MessageBase result" where
  "rp_finalizeMessage m = rbind (rp_getBodySize m) (\<lambda>n. rbind (setMsgSize n m) shrinkToFit)"

text \<open>
  The loop of \<^verbatim>\<open>checkElements\<close> with \<open>k\<close> elements to come, the remaining bytes and the current location. It returns \<open>None\<close>
  where the source returns false, and otherwise the elements still missing and the bytes left. The variable
  \<^verbatim>\<open>extraDataLen\<close> of the loop condition stays zero.
\<close>

fun rp_check_loop :: "MsgEnv \<Rightarrow> ReplicasInfo \<Rightarrow> bytes \<Rightarrow> SeqNum \<Rightarrow> nat \<Rightarrow> nat \<Rightarrow> nat \<Rightarrow> nat \<Rightarrow> (nat \<times> nat) option result" where
  "rp_check_loop env repInfo buf seqNum sigSize 0 remainingBytes loc = Inr (Some (0, remainingBytes))"
| "rp_check_loop env repInfo buf seqNum sigSize (Suc k) remainingBytes loc =
     (if remainingBytes < 29 + sigSize then Inr (Some (Suc k, remainingBytes))
      else rbind (rd_s64 (loc + 8) buf) (\<lambda>s. if seqNum \<noteq> s then Inr None
      else rbind (rd (loc + 26) 1 buf) (\<lambda>r. if r \<noteq> restart_code Scale \<and> r \<noteq> restart_code Install then Inr None
      else rbind (rd (loc + 6) 2 buf) (\<lambda>gen. rbind (rd (loc + 27) 2 buf) (\<lambda>extra. rbind (rd (loc + 24) 2 buf) (\<lambda>sigLen.
           rbind (if myId repInfo \<noteq> gen
                  then rbind (rd_bytes loc (29 + extra) buf) (\<lambda>dat. rbind (rd_bytes (loc + (29 + extra)) sigLen buf)
                         (\<lambda>sig. Inr (verifySig env gen dat sig)))
                  else Inr True) (\<lambda>ok. if \<not> ok then Inr None
      else let n = 29 + extra + sigLen
           in if remainingBytes < n then Inr None
              else rp_check_loop env repInfo buf seqNum sigSize k (remainingBytes - n) (loc + n))))))))"

definition rp_checkElements :: "MsgEnv \<Rightarrow> ReplicasInfo \<Rightarrow> nat \<Rightarrow> MessageBase \<Rightarrow> bool result" where
  "rp_checkElements env repInfo sigSize m =
     rbind (spanContextSize m) (\<lambda>sp. rbind (rd_s64 8 (msgBody m)) (\<lambda>seqNum. rbind (rp_elementsCount m) (\<lambda>cnt.
       rbind (rp_check_loop env repInfo (msgBody m) seqNum sigSize cnt (msgSize m - 31 - sp) (31 + sp)) (\<lambda>res.
         case res of
           None \<Rightarrow> Inr False
         | Some (missing, remainingBytes) \<Rightarrow>
             if missing \<noteq> 0 then Inr False
             else rbind (rp_locationAfterLast m) (\<lambda>loc.
               if cnt > 0 then Inr (loc = msgSize m - remainingBytes) else Inr (loc = 0))))))"

definition ReplicasRestartReadyProofMsg_validate :: "MsgEnv \<Rightarrow> ReplicasInfo \<Rightarrow> MessageBase \<Rightarrow> unit result" where
  "ReplicasRestartReadyProofMsg_validate env repInfo m =
     throw_if (rany
        [shorter m 31,
         rpred (rd 6 2 (msgBody m)) (\<lambda>gen. \<not> isIdOfReplica repInfo gen),
         rpred (rd 16 8 (msgBody m)) (\<lambda>e. e \<noteq> selfEpoch env),
         rpred (rd 24 1 (msgBody m)) (\<lambda>r. r \<noteq> restart_code Scale \<and> r \<noteq> restart_code Install)])
      (rbind (rp_getBodySize m) (\<lambda>dataLength. rbind (rd 6 2 (msgBody m)) (\<lambda>gen.
        let sigLen = u16 (sigLength env gen)
        in throw_if (Inr (msgSize m < dataLength))
            (throw_if (rpred (rp_elementsCount m) (\<lambda>c. int c < int (numberOfReplicas repInfo) - int (fVal repInfo)))
              (throw_if (rpred (rp_checkElements env repInfo sigLen m) Not) (Inr ()))))))"

section \<open>Bounds\<close>

text \<open>
  \<^verbatim>\<open>ReplicaRestartReadyMsg::validate\<close> reads the length of the extra data before it has checked the size of the message: a
  message from the network that is shorter than the header is read past its end.
\<close>

theorem restart_ready_validation_overreads:
  assumes "onNewMessage mx src bs = Some m" "length bs < 29"
  shows "ReplicaRestartReadyMsg_validate env ri m = Inl UndefinedBehaviour"
proof -
  have b: "msgBody m = bs" "net_msg m" using onNewMessage_net [OF assms(1)] by simp_all
  have "rr_extraDataLen m = Inl UndefinedBehaviour" using assms(2) b by (simp add: rr_extraDataLen_def rd_short)
  moreover have "rr_idOfGeneratedReplica m = Inl UndefinedBehaviour \<or> (\<exists>g. rr_idOfGeneratedReplica m = Inr g)"
    by (simp add: rr_idOfGeneratedReplica_def rd_def)
  ultimately show ?thesis using net_span [OF b(2)] by (auto simp: ReplicaRestartReadyMsg_validate_def)
qed

theorem restart_ready_validation_overreads_witness:
  "\<exists>m. onNewMessage 100 1 [119, 0, 0, 0, 0, 0, 0] = Some m \<and>
     ReplicaRestartReadyMsg_validate example_env (example_ri 0) m = Inl UndefinedBehaviour"
proof -
  obtain m where m: "onNewMessage 100 1 [119, 0, 0, 0, 0, 0, 0] = Some m" by (simp add: onNewMessage_def header_size_def)
  show ?thesis using m restart_ready_validation_overreads [OF m] by simp
qed

section \<open>A proof that one replica makes up\<close>

text \<open>An element that names the receiver as its author.\<close>

definition forged_element :: "ReplicaId \<Rightarrow> SeqNum \<Rightarrow> nat \<Rightarrow> bytes" where
  "forged_element receiver s sigLen =
     header_bytes 0 0 @ le_bytes 2 receiver @ le_s64 s @ le_bytes 8 0 @ le_bytes 2 sigLen @ le_bytes 1 0 @ le_bytes 2 0 @
     replicate sigLen 0"

lemma forged_fields:
  assumes "buf = pre @ forged_element receiver s sigLen @ rest" "receiver < 65536" "sigLen < 65536" "- (2 ^ 63) \<le> s" "s < 2 ^ 63"
  shows "rd_s64 (length pre + 8) buf = Inr s" "rd (length pre + 26) 1 buf = Inr 0" "rd (length pre + 6) 2 buf = Inr receiver"
    "rd (length pre + 27) 2 buf = Inr 0" "rd (length pre + 24) 2 buf = Inr sigLen"
proof -
  have l: "length buf = length pre + 29 + sigLen + length rest" using assms(1) by (simp add: forged_element_def)
  show "rd_s64 (length pre + 8) buf = Inr s" using l s64_le_s64 [OF assms(4,5)]
    by (simp add: rd_s64_def rd_fld) (simp add: assms(1) forged_element_def header_bytes_def fld_append1 fld_append2 fld_whole)
  show "rd (length pre + 26) 1 buf = Inr 0" "rd (length pre + 6) 2 buf = Inr receiver"
    "rd (length pre + 27) 2 buf = Inr 0" "rd (length pre + 24) 2 buf = Inr sigLen"
    using l assms(2,3) by (simp_all add: rd_fld, simp_all add: assms(1) forged_element_def header_bytes_def fld_simps)
qed

lemma rp_check_forged:
  assumes "buf = pre @ concat (replicate k (forged_element (myId ri) s sigLen))" "myId ri < 65536" "sigLen < 65536"
    "- (2 ^ 63) \<le> s" "s < 2 ^ 63"
  shows "rp_check_loop env ri buf s sigLen k (k * (29 + sigLen)) (length pre) = Inr (Some (0, 0))"
  using assms(1)
proof (induction k arbitrary: pre)
  case (Suc k)
  let ?e = "forged_element (myId ri) s sigLen"
  have buf: "buf = pre @ ?e @ concat (replicate k ?e)" "buf = (pre @ ?e) @ concat (replicate k ?e)" using Suc.prems by simp_all
  have le: "length ?e = 29 + sigLen" by (simp add: forged_element_def)
  note f = forged_fields [OF buf(1) assms(2-)]
  have "rp_check_loop env ri buf s sigLen k (k * (29 + sigLen)) (length pre + (29 + sigLen)) = Inr (Some (0, 0))"
    using Suc.IH [OF buf(2)] le by simp
  then show ?case using f by (simp add: Let_def)
qed simp

text \<open>
  C32. A proof that enough replicas are ready can be made up by one of them: elements that name the receiver as their author
  are accepted without a signature, and they are not required to be of different replicas. A message with
  \<open>n - f\<close> such elements passes \<^verbatim>\<open>validate\<close>.
\<close>

theorem restart_proof_forgeable:
  assumes k: "k = numberOfReplicas ri - fVal ri" "0 < k" "k < 65536" "31 + k * (29 + sl) < 2 ^ 32"
    and sl: "sl = sigLength env src" "sl < 65536"
    and src: "isIdOfReplica ri src" "src < 65536" "myId ri < 65536" "0 \<le> s" "s < 2 ^ 63" "selfEpoch env < 2 ^ 64"
  shows "ReplicasRestartReadyProofMsg_validate env ri (MessageBase_of src
    (header_bytes (msg_code McReplicasRestartReadyProof) 0 @ le_bytes 2 src @ le_s64 s @ le_bytes 8 (selfEpoch env) @
     le_bytes 1 (restart_code Scale) @ le_bytes 2 k @ le_bytes 4 (31 + k * (29 + sl)) @
     concat (replicate k (forged_element (myId ri) s sl))) True) = Inr ()"
proof -
  let ?es = "concat (replicate k (forged_element (myId ri) s sl))"
  let ?pre = "header_bytes (msg_code McReplicasRestartReadyProof) 0 @ le_bytes 2 src @ le_s64 s @ le_bytes 8 (selfEpoch env) @
     le_bytes 1 (restart_code Scale) @ le_bytes 2 k @ le_bytes 4 (31 + k * (29 + sl))"
  define m where "m = MessageBase_of src (?pre @ ?es) True"
  have b: "msgBody m = ?pre @ ?es" "sender m = src" by (simp_all add: m_def MessageBase_of_def)
  have "length (concat (replicate j (forged_element (myId ri) s sl))) = j * (29 + sl)" for j
    by (induction j) (simp_all add: forged_element_def)
  then have l: "length (msgBody m) = 31 + k * (29 + sl)" "msgSize m = 31 + k * (29 + sl)"
    by (simp_all add: m_def MessageBase_of_def)
  have net: "net_msg m" using l by (simp add: net_msg_def m_def MessageBase_of_def header_size_def)
  have sp: "span_of m = 0" by (simp add: b header_bytes_def fld_simps)
  have gen: "rd 6 2 (msgBody m) = Inr src" using l src(2) by (simp add: rd_fld) (simp add: b header_bytes_def fld_simps)
  have ep: "rd 16 8 (msgBody m) = Inr (selfEpoch env)" using l src(6) by (simp add: rd_fld) (simp add: b header_bytes_def fld_simps)
  have rs: "rd 24 1 (msgBody m) = Inr 0" using l by (simp add: rd_fld) (simp add: b header_bytes_def fld_simps)
  have cnt: "rp_elementsCount m = Inr k" using l k(3) by (simp add: rp_elementsCount_def rd_fld) (simp add: b header_bytes_def fld_simps)
  have loc: "rp_locationAfterLast m = Inr (31 + k * (29 + sl))"
    using l k(4) by (simp add: rp_locationAfterLast_def rd_fld) (simp add: b header_bytes_def fld_simps)
  have sq: "rd_s64 8 (msgBody m) = Inr s" using l s64_le_s64 [of s] src(4,5)
    by (simp add: rd_s64_def rd_fld) (simp add: b header_bytes_def fld_append1 fld_append2 fld_whole)
  have "rp_check_loop env ri (msgBody m) s sl k (k * (29 + sl)) (length ?pre) = Inr (Some (0, 0))"
    by (rule rp_check_forged) (use src sl b in auto)
  then have "rp_checkElements env ri sl m = Inr True"
    using l k(2) sp net cnt loc sq by (simp add: rp_checkElements_def net_simps)
  then have "ReplicasRestartReadyProofMsg_validate env ri m = Inr ()"
    using gen ep rs cnt loc src(1) l sp net k sl
    by (simp add: ReplicasRestartReadyProofMsg_validate_def net_simps rp_getBodySize_def Let_def)
  then show ?thesis by (simp add: m_def)
qed

theorem restart_proof_forgeable_witness:
  "ReplicasRestartReadyProofMsg_validate example_env (example_ri 0) (MessageBase_of 2
    (header_bytes (msg_code McReplicasRestartReadyProof) 0 @ le_bytes 2 2 @ le_s64 600 @ le_bytes 8 (selfEpoch example_env) @
     le_bytes 1 (restart_code Scale) @ le_bytes 2 3 @ le_bytes 4 (31 + 3 * (29 + 2)) @
     concat (replicate 3 (forged_element (myId (example_ri 0)) 600 2))) True) = Inr ()"
  by (rule restart_proof_forgeable) (simp_all add: example_env_def example_ri_def isIdOfReplica_def)

end
