(* ===== verification/Sig_Collector.thy ===== *)
theory Sig_Collector
  imports Threshold_Scheme
begin

text \<open>
  bftengine/src/bftengine/CollectorOfThresholdSignatures.hpp: collecting signature shares, combining them in
  a background job, and the delivery of the job's result to the collector.
\<close>

section \<open>Collectors\<close>

datatype SigState = Unknown | Invalid

text \<open>\<open>partialSigMsg\<close> is \<open>None\<close> for the null pointer of an entry that \<^verbatim>\<open>operator[]\<close> has inserted.\<close>

record 'p RepInfo =
  partialSigMsg :: "'p option"
  sigState :: SigState

record ('p, 'f) collector =
  numOfRequiredSigs :: nat
  processingSignaturesInTheBackground :: bool
  numberOfUnknownSignatures :: nat
  replicasInfo :: "(ReplicaId \<times> 'p RepInfo) list"
  combinedValidSignatureMsg :: "'f option"
  candidateCombinedSignatureMsg :: "'f option"
  expectedSeqNumber :: SeqNum
  expectedView :: ViewNum
  expectedDigest :: Digest

text \<open>
  The template parameter \<^verbatim>\<open>ExternalFunc\<close> with the messages \<^verbatim>\<open>PART\<close> and \<^verbatim>\<open>FULL\<close>, and the iteration order of
  the unordered map \<^verbatim>\<open>replicasInfo\<close>.
\<close>

record ('p, 'f) ExternalFunc =
  numberOfRequiredSignatures :: nat
  thresholdVerifier :: "SeqNum \<Rightarrow> IThresholdVerifier"
  partSignature :: "'p \<Rightarrow> bytes"
  fullSignature :: "'f \<Rightarrow> bytes"
  createCombinedSignatureMsg :: "SeqNum \<Rightarrow> ViewNum \<Rightarrow> bytes \<Rightarrow> 'f"
  infoOrder :: "(ReplicaId \<times> 'p RepInfo) list \<Rightarrow> (ReplicaId \<times> 'p RepInfo) list"

datatype job =
    SignaturesProcessingJob SeqNum ViewNum Digest nat "(ReplicaId \<times> bytes) list"
  | CombinedSigVerificationJob SeqNum ViewNum Digest bytes

datatype InternalSigMsg =
    CombinedSigFailed SeqNum ViewNum "ReplicaId list"
  | CombinedSigSucceeded SeqNum ViewNum bytes
  | VerifyCombinedSigResult SeqNum ViewNum bool

definition collector_new :: "('p, 'f) collector" where
  "collector_new =
     \<lparr>numOfRequiredSigs = 0, processingSignaturesInTheBackground = False, numberOfUnknownSignatures = 0,
      replicasInfo = [], combinedValidSignatureMsg = None, candidateCombinedSignatureMsg = None,
      expectedSeqNumber = 0, expectedView = 0, expectedDigest = makeZero\<rparr>"

text \<open>The loop of \<^verbatim>\<open>trySendToBkThread\<close> that fills the job, with \<^verbatim>\<open>SignaturesProcessingJob::add\<close>; \<open>k\<close> are there already.\<close>

fun job_items :: "('p \<Rightarrow> bytes) \<Rightarrow> nat \<Rightarrow> nat \<Rightarrow> (ReplicaId \<times> 'p RepInfo) list \<Rightarrow> (ReplicaId \<times> bytes) list result" where
  "job_items sg req k [] = Inr []"
| "job_items sg req k ((r, info) # infos) =
     rbind
       (if sigState info \<noteq> Invalid
        then (case partialSigMsg info of
                None \<Rightarrow> Inl UndefinedBehaviour
              | Some msg \<Rightarrow> c_assert (k < req) (Inr [(r, sg msg)]))
        else Inr [])
       (\<lambda>its. if k + length its = req then Inr its
              else rbind (job_items sg req (k + length its) infos) (\<lambda>rest. Inr (its @ rest)))"

definition trySendToBkThread :: "('p, 'f) ExternalFunc \<Rightarrow> ('p, 'f) collector \<Rightarrow> (job option \<times> ('p, 'f) collector) result" where
  "trySendToBkThread ef c0 =
     c_assert (combinedValidSignatureMsg c0 = None)
      (let c = (if numOfRequiredSigs c0 = 0 then c0\<lparr>numOfRequiredSigs := numberOfRequiredSignatures ef\<rparr> else c0)
       in if processingSignaturesInTheBackground c \<or> expectedSeqNumber c = 0 then Inr (None, c)
          else case candidateCombinedSignatureMsg c of
            Some m \<Rightarrow>
              Inr (Some (CombinedSigVerificationJob (expectedSeqNumber c) (expectedView c) (expectedDigest c) (fullSignature ef m)),
                   c\<lparr>processingSignaturesInTheBackground := True\<rparr>)
          | None \<Rightarrow>
              if numberOfUnknownSignatures c \<ge> numOfRequiredSigs c
              then rbind (job_items (partSignature ef) (numOfRequiredSigs c) 0 (infoOrder ef (replicasInfo c)))
                     (\<lambda>items. c_assert (length items = numOfRequiredSigs c)
                       (Inr (Some (SignaturesProcessingJob (expectedSeqNumber c) (expectedView c) (expectedDigest c)
                                    (numOfRequiredSigs c) items),
                             c\<lparr>processingSignaturesInTheBackground := True\<rparr>)))
              else Inr (None, c))"

definition hasPartialMsgFromReplica :: "('p, 'f) collector \<Rightarrow> ReplicaId \<Rightarrow> bool" where
  "hasPartialMsgFromReplica c repId \<longleftrightarrow> repId \<in> set (map fst (replicasInfo c))"

definition getPartialMsgFromReplica :: "('p, 'f) collector \<Rightarrow> ReplicaId \<Rightarrow> 'p option" where
  "getPartialMsgFromReplica c repId =
     (case map_of (replicasInfo c) repId of None \<Rightarrow> None | Some info \<Rightarrow> partialSigMsg info)"

definition getMsgWithValidCombinedSignature :: "('p, 'f) collector \<Rightarrow> 'f option" where
  "getMsgWithValidCombinedSignature c = combinedValidSignatureMsg c"

definition collector_isComplete :: "('p, 'f) collector \<Rightarrow> bool" where
  "collector_isComplete c \<longleftrightarrow> combinedValidSignatureMsg c \<noteq> None"

definition addMsgWithPartialSignature :: "('p, 'f) ExternalFunc \<Rightarrow> 'p \<Rightarrow> ReplicaId \<Rightarrow> ('p, 'f) collector \<Rightarrow>
    (bool \<times> job option \<times> ('p, 'f) collector) result" where
  "addMsgWithPartialSignature ef msg repId c =
     (if combinedValidSignatureMsg c \<noteq> None \<or> hasPartialMsgFromReplica c repId then Inr (False, None, c)
      else
        let c1 = c\<lparr>replicasInfo := replicasInfo c @ [(repId, \<lparr>partialSigMsg = Some msg, sigState = Unknown\<rparr>)],
                   numberOfUnknownSignatures := u16 (numberOfUnknownSignatures c + 1)\<rparr>
        in rbind (trySendToBkThread ef c1) (\<lambda>(j, c2). Inr (True, j, c2)))"

definition addMsgWithCombinedSignature :: "('p, 'f) ExternalFunc \<Rightarrow> 'f \<Rightarrow> ('p, 'f) collector \<Rightarrow>
    (bool \<times> job option \<times> ('p, 'f) collector) result" where
  "addMsgWithCombinedSignature ef msg c =
     (if combinedValidSignatureMsg c \<noteq> None \<or> candidateCombinedSignatureMsg c \<noteq> None then Inr (False, None, c)
      else rbind (trySendToBkThread ef (c\<lparr>candidateCombinedSignatureMsg := Some msg\<rparr>)) (\<lambda>(j, c2). Inr (True, j, c2)))"

definition initExpected :: "SeqNum \<Rightarrow> ViewNum \<Rightarrow> Digest \<Rightarrow> ('p, 'f) collector \<Rightarrow> ('p, 'f) collector result" where
  "initExpected seqNumber view digest c =
     c_assert (seqNumber \<noteq> 0) (c_assert (expectedSeqNumber c = 0)
       (c_assert (\<not> processingSignaturesInTheBackground c)
         (Inr (c\<lparr>expectedSeqNumber := seqNumber, expectedView := view, expectedDigest := digest\<rparr>))))"

definition setExpected :: "('p, 'f) ExternalFunc \<Rightarrow> SeqNum \<Rightarrow> ViewNum \<Rightarrow> Digest \<Rightarrow> ('p, 'f) collector \<Rightarrow>
    (job option \<times> ('p, 'f) collector) result" where
  "setExpected ef seqNumber view digest c =
     c_assert (seqNumber \<noteq> 0) (c_assert (expectedSeqNumber c = 0)
       (c_assert (\<not> processingSignaturesInTheBackground c)
         (trySendToBkThread ef
           (c\<lparr>expectedSeqNumber := seqNumber, expectedView := view, expectedDigest := digest\<rparr>))))"

definition initMsgWithPartialSignature :: "('p, 'f) ExternalFunc \<Rightarrow> 'p \<Rightarrow> ReplicaId \<Rightarrow> ('p, 'f) collector \<Rightarrow>
    (bool \<times> ('p, 'f) collector) result" where
  "initMsgWithPartialSignature ef msg repId c =
     c_assert (\<not> processingSignaturesInTheBackground c) (c_assert (expectedSeqNumber c \<noteq> 0)
      (c_assert (combinedValidSignatureMsg c = None) (c_assert (candidateCombinedSignatureMsg c = None)
       (c_assert (\<not> hasPartialMsgFromReplica c repId) (c_assert (numberOfUnknownSignatures c = 0)
         (let c1 = c\<lparr>replicasInfo := replicasInfo c @ [(repId, \<lparr>partialSigMsg = Some msg, sigState = Unknown\<rparr>)],
                     numberOfUnknownSignatures := u16 (numberOfUnknownSignatures c + 1),
                     numOfRequiredSigs := (if numOfRequiredSigs c = 0 then numberOfRequiredSignatures ef
                                           else numOfRequiredSigs c)\<rparr>
          in c_assert (numberOfUnknownSignatures c1 < numOfRequiredSigs c1) (Inr (True, c1))))))))"

definition initMsgWithCombinedSignature :: "('p, 'f) ExternalFunc \<Rightarrow> 'f \<Rightarrow> ('p, 'f) collector \<Rightarrow> (bool \<times> ('p, 'f) collector) result" where
  "initMsgWithCombinedSignature ef msg c =
     c_assert (\<not> processingSignaturesInTheBackground c) (c_assert (expectedSeqNumber c \<noteq> 0)
      (c_assert (combinedValidSignatureMsg c = None) (c_assert (candidateCombinedSignatureMsg c = None)
        (rbind (tv_verify (thresholdVerifier ef (expectedSeqNumber c)) (expectedDigest c) (fullSignature ef msg))
          (\<lambda>succ. if \<not> succ then Inl RuntimeError else Inr (True, c\<lparr>combinedValidSignatureMsg := Some msg\<rparr>))))))"

definition resetContent :: "('p, 'f) collector \<Rightarrow> ('p, 'f) collector" where
  "resetContent c =
     c\<lparr>processingSignaturesInTheBackground := False, numberOfUnknownSignatures := 0, replicasInfo := [],
       combinedValidSignatureMsg := None, candidateCombinedSignatureMsg := None,
       expectedSeqNumber := 0,
       expectedView := (if expectedSeqNumber c \<noteq> 0 then 0 else expectedView c),
       expectedDigest := (if expectedSeqNumber c \<noteq> 0 then makeZero else expectedDigest c)\<rparr>"

definition already_empty :: "('p, 'f) collector \<Rightarrow> bool" where
  "already_empty c \<longleftrightarrow> replicasInfo c = [] \<and> combinedValidSignatureMsg c = None \<and>
     candidateCombinedSignatureMsg c = None \<and> expectedSeqNumber c = 0"

definition collector_resetAndFree :: "('p, 'f) collector \<Rightarrow> ('p, 'f) collector" where
  "collector_resetAndFree c = (if already_empty c then c else resetContent c)"

definition collector_getAndReset :: "('p, 'f) collector \<Rightarrow> 'f option \<times> ('p, 'f) collector" where
  "collector_getAndReset c =
     (combinedValidSignatureMsg c,
      if already_empty c then c else resetContent (c\<lparr>combinedValidSignatureMsg := None\<rparr>))"

text \<open>\<^verbatim>\<open>replicasInfo[repId].state = SigState::Invalid\<close>\<close>

fun mark_invalid :: "ReplicaId \<Rightarrow> (ReplicaId \<times> 'p RepInfo) list \<Rightarrow> (ReplicaId \<times> 'p RepInfo) list" where
  "mark_invalid repId [] = [(repId, \<lparr>partialSigMsg = None, sigState = Invalid\<rparr>)]"
| "mark_invalid repId ((r, info) # infos) =
     (if r = repId then (r, info\<lparr>sigState := Invalid\<rparr>) # infos else (r, info) # mark_invalid repId infos)"

fun mark_bad :: "ReplicaId list \<Rightarrow> ('p, 'f) collector \<Rightarrow> ('p, 'f) collector" where
  "mark_bad [] c = c"
| "mark_bad (r # rs) c =
     mark_bad rs (c\<lparr>replicasInfo := mark_invalid r (replicasInfo c),
                    numberOfUnknownSignatures := u16 (numberOfUnknownSignatures c + 65535)\<rparr>)"

definition assert_completion :: "SeqNum \<Rightarrow> ViewNum \<Rightarrow> ('p, 'f) collector \<Rightarrow> 'a result \<Rightarrow> 'a result" where
  "assert_completion seqNumber view c k =
     c_assert (expectedSeqNumber c = seqNumber) (c_assert (expectedView c = view)
       (c_assert (processingSignaturesInTheBackground c) (c_assert (combinedValidSignatureMsg c = None) k)))"

definition onCompletion_failed :: "('p, 'f) ExternalFunc \<Rightarrow> SeqNum \<Rightarrow> ViewNum \<Rightarrow> ReplicaId list \<Rightarrow> ('p, 'f) collector \<Rightarrow>
    (job option \<times> ('p, 'f) collector) result" where
  "onCompletion_failed ef seqNumber view replicasWithBadSigs c =
     assert_completion seqNumber view c
       (trySendToBkThread ef (mark_bad replicasWithBadSigs (c\<lparr>processingSignaturesInTheBackground := False\<rparr>)))"

definition onCompletion_succeeded :: "('p, 'f) ExternalFunc \<Rightarrow> SeqNum \<Rightarrow> ViewNum \<Rightarrow> bytes \<Rightarrow> ('p, 'f) collector \<Rightarrow>
    ('p, 'f) collector result" where
  "onCompletion_succeeded ef seqNumber view combinedSig c =
     assert_completion seqNumber view c
       (Inr (c\<lparr>processingSignaturesInTheBackground := False, candidateCombinedSignatureMsg := None,
               combinedValidSignatureMsg := Some (createCombinedSignatureMsg ef seqNumber view combinedSig)\<rparr>))"

definition onCompletionOfCombinedSigVerification :: "('p, 'f) ExternalFunc \<Rightarrow> SeqNum \<Rightarrow> ViewNum \<Rightarrow> bool \<Rightarrow> ('p, 'f) collector \<Rightarrow>
    (job option \<times> ('p, 'f) collector) result" where
  "onCompletionOfCombinedSigVerification ef seqNumber view isValid c =
     assert_completion seqNumber view c
      (c_assert (candidateCombinedSignatureMsg c \<noteq> None)
        (let c1 = c\<lparr>processingSignaturesInTheBackground := False, candidateCombinedSignatureMsg := None\<rparr>
         in if isValid then Inr (None, c1\<lparr>combinedValidSignatureMsg := candidateCombinedSignatureMsg c\<rparr>)
            else trySendToBkThread ef c1))"

section \<open>The background jobs\<close>

definition replicasWithBadSigs :: "nat list \<Rightarrow> ReplicaId list" where
  "replicasWithBadSigs shareIds = sort (remdups (map (\<lambda>shareId. u16 (u16 shareId + 65535)) shareIds))"

definition execute_processing :: "IThresholdVerifier \<Rightarrow> SeqNum \<Rightarrow> ViewNum \<Rightarrow> Digest \<Rightarrow> nat \<Rightarrow> (ReplicaId \<times> bytes) list \<Rightarrow>
    InternalSigMsg result" where
  "execute_processing vf seqNum view digest reqDataItems items =
     c_assert (length items = reqDataItems)
      (rbind (tv_accumulate vf False digest (map snd items))
        (\<lambda>(sig, _). rbind (tv_verify vf digest sig)
          (\<lambda>ok. if ok then Inr (CombinedSigSucceeded seqNum view sig)
                else rbind (tv_accumulate vf True digest (map snd items))
                  (\<lambda>(sig', invalid). rbind (tv_verify vf digest sig')
                    (\<lambda>ok'. if ok' then Inr (CombinedSigSucceeded seqNum view sig')
                            else Inr (CombinedSigFailed seqNum view (replicasWithBadSigs invalid)))))))"

definition execute_verification :: "IThresholdVerifier \<Rightarrow> SeqNum \<Rightarrow> ViewNum \<Rightarrow> Digest \<Rightarrow> bytes \<Rightarrow> InternalSigMsg result" where
  "execute_verification vf seqNum view digest sig =
     rbind (tv_verify vf digest sig) (\<lambda>succ. Inr (VerifyCombinedSigResult seqNum view succ))"

fun execute_job :: "('p, 'f) ExternalFunc \<Rightarrow> job \<Rightarrow> InternalSigMsg result" where
  "execute_job ef (SignaturesProcessingJob s v d n items) = execute_processing (thresholdVerifier ef s) s v d n items"
| "execute_job ef (CombinedSigVerificationJob s v d sig) = execute_verification (thresholdVerifier ef s) s v d sig"

fun deliver :: "('p, 'f) ExternalFunc \<Rightarrow> InternalSigMsg \<Rightarrow> ('p, 'f) collector \<Rightarrow> (job option \<times> ('p, 'f) collector) result" where
  "deliver ef (CombinedSigFailed s v bad) c = onCompletion_failed ef s v bad c"
| "deliver ef (CombinedSigSucceeded s v sig) c = rbind (onCompletion_succeeded ef s v sig c) (\<lambda>c'. Inr (None, c'))"
| "deliver ef (VerifyCombinedSigResult s v ok) c = onCompletionOfCombinedSigVerification ef s v ok c"

section \<open>A collector with its thread pool and its incoming messages\<close>

record ('p, 'f) csys =
  col :: "('p, 'f) collector"
  jobs :: "job list"
  inbox :: "InternalSigMsg list"

definition csys_new :: "('p, 'f) csys" where
  "csys_new = \<lparr>col = collector_new, jobs = [], inbox = []\<rparr>"

datatype ('p, 'f) cevent =
    EvPartial 'p ReplicaId
  | EvCombined 'f
  | EvExpected SeqNum ViewNum Digest
  | EvJob
  | EvDeliver

definition put :: "('p, 'f) csys \<Rightarrow> job option \<times> ('p, 'f) collector \<Rightarrow> ('p, 'f) csys result" where
  "put S = (\<lambda>(j, c). Inr (S\<lparr>col := c, jobs := jobs S @ (case j of None \<Rightarrow> [] | Some x \<Rightarrow> [x])\<rparr>))"

fun cstep :: "('p, 'f) ExternalFunc \<Rightarrow> ('p, 'f) cevent \<Rightarrow> ('p, 'f) csys \<Rightarrow> ('p, 'f) csys result" where
  "cstep ef (EvPartial p r) S = rbind (addMsgWithPartialSignature ef p r (col S)) (\<lambda>(_, jc). put S jc)"
| "cstep ef (EvCombined f) S = rbind (addMsgWithCombinedSignature ef f (col S)) (\<lambda>(_, jc). put S jc)"
| "cstep ef (EvExpected s v d) S = rbind (setExpected ef s v d (col S)) (put S)"
| "cstep ef EvJob S =
     (case jobs S of [] \<Rightarrow> Inr S
      | j # js \<Rightarrow> rbind (execute_job ef j) (\<lambda>m. Inr (S\<lparr>jobs := js, inbox := inbox S @ [m]\<rparr>)))"
| "cstep ef EvDeliver S =
     (case inbox S of [] \<Rightarrow> Inr S
      | m # ms \<Rightarrow> rbind (deliver ef m (col S)) (put (S\<lparr>inbox := ms\<rparr>)))"

fun crun :: "('p, 'f) ExternalFunc \<Rightarrow> ('p, 'f) cevent list \<Rightarrow> ('p, 'f) csys \<Rightarrow> ('p, 'f) csys result" where
  "crun ef [] S = Inr S"
| "crun ef (e # es) S = rbind (cstep ef e S) (crun ef es)"

section \<open>A valid combined signature was verified\<close>

fun job_ok :: "('p, 'f) ExternalFunc \<Rightarrow> ('p, 'f) collector \<Rightarrow> job \<Rightarrow> bool" where
  "job_ok ef c (SignaturesProcessingJob s v d n items) \<longleftrightarrow>
     s = expectedSeqNumber c \<and> v = expectedView c \<and> d = expectedDigest c"
| "job_ok ef c (CombinedSigVerificationJob s v d sig) \<longleftrightarrow>
     s = expectedSeqNumber c \<and> v = expectedView c \<and> d = expectedDigest c \<and>
     (\<exists>m. candidateCombinedSignatureMsg c = Some m \<and> sig = fullSignature ef m)"

text \<open>
  A combined signature has a 16-bit length, and the message created for a signature carries it.
\<close>

definition ef_ok :: "('p, 'f) ExternalFunc \<Rightarrow> bool" where
  "ef_ok ef \<longleftrightarrow>
     (\<forall>s b d xs sig bad. tv_accumulate (thresholdVerifier ef s) b d xs = Inr (sig, bad) \<longrightarrow> length sig < 65536) \<and>
     (\<forall>s v sig. length sig < 65536 \<longrightarrow> fullSignature ef (createCombinedSignatureMsg ef s v sig) = sig)"

definition verified :: "('p, 'f) ExternalFunc \<Rightarrow> ('p, 'f) collector \<Rightarrow> bytes \<Rightarrow> bool \<Rightarrow> bool" where
  "verified ef c sig ok \<longleftrightarrow> tv_verify (thresholdVerifier ef (expectedSeqNumber c)) (expectedDigest c) sig = Inr ok"

fun msg_ok :: "('p, 'f) ExternalFunc \<Rightarrow> ('p, 'f) collector \<Rightarrow> InternalSigMsg \<Rightarrow> bool" where
  "msg_ok ef c (CombinedSigFailed s v bad) \<longleftrightarrow> s = expectedSeqNumber c \<and> v = expectedView c"
| "msg_ok ef c (CombinedSigSucceeded s v sig) \<longleftrightarrow>
     s = expectedSeqNumber c \<and> v = expectedView c \<and> verified ef c sig True \<and> length sig < 65536"
| "msg_ok ef c (VerifyCombinedSigResult s v ok) \<longleftrightarrow>
     s = expectedSeqNumber c \<and> v = expectedView c \<and>
     (\<exists>m. candidateCombinedSignatureMsg c = Some m \<and> verified ef c (fullSignature ef m) ok)"

definition cinv :: "('p, 'f) ExternalFunc \<Rightarrow> ('p, 'f) csys \<Rightarrow> bool" where
  "cinv ef S \<longleftrightarrow>
     length (jobs S) + length (inbox S) = (if processingSignaturesInTheBackground (col S) then 1 else 0) \<and>
     (processingSignaturesInTheBackground (col S) \<longrightarrow>
        expectedSeqNumber (col S) \<noteq> 0 \<and> combinedValidSignatureMsg (col S) = None) \<and>
     (\<forall>j \<in> set (jobs S). job_ok ef (col S) j) \<and> (\<forall>m \<in> set (inbox S). msg_ok ef (col S) m) \<and>
     (\<forall>f. combinedValidSignatureMsg (col S) = Some f \<longrightarrow>
        expectedSeqNumber (col S) \<noteq> 0 \<and> verified ef (col S) (fullSignature ef f) True)"

lemma cinv_new: "cinv ef csys_new"
  by (simp add: cinv_def csys_new_def collector_new_def)

text \<open>Two collectors that agree on what jobs and messages refer to.\<close>

definition same_expected :: "('p, 'f) collector \<Rightarrow> ('p, 'f) collector \<Rightarrow> bool" where
  "same_expected c c' \<longleftrightarrow> expectedSeqNumber c' = expectedSeqNumber c \<and> expectedView c' = expectedView c \<and>
     expectedDigest c' = expectedDigest c"

lemma ok_same:
  assumes "same_expected c c'" "candidateCombinedSignatureMsg c \<noteq> None \<longrightarrow> candidateCombinedSignatureMsg c' = candidateCombinedSignatureMsg c"
  shows "job_ok ef c j \<Longrightarrow> job_ok ef c' j" "msg_ok ef c m \<Longrightarrow> msg_ok ef c' m"
    "verified ef c' sig b = verified ef c sig b"
  using assms by (cases j; cases m; auto simp: same_expected_def verified_def)+

lemma trySend_sem:
  assumes "trySendToBkThread ef c = Inr (j, c')"
  shows "c' = c\<lparr>numOfRequiredSigs := (if numOfRequiredSigs c = 0 then numberOfRequiredSignatures ef else numOfRequiredSigs c),
      processingSignaturesInTheBackground := processingSignaturesInTheBackground c \<or> j \<noteq> None\<rparr>"
    and "combinedValidSignatureMsg c = None"
    and "j = Some x \<Longrightarrow> \<not> processingSignaturesInTheBackground c \<and> expectedSeqNumber c \<noteq> 0 \<and> job_ok ef c x"
proof -
  show 1: "combinedValidSignatureMsg c = None" using assms by (simp add: trySendToBkThread_def)
  show "c' = c\<lparr>numOfRequiredSigs := (if numOfRequiredSigs c = 0 then numberOfRequiredSignatures ef else numOfRequiredSigs c),
      processingSignaturesInTheBackground := processingSignaturesInTheBackground c \<or> j \<noteq> None\<rparr>"
    using assms by (auto simp: trySendToBkThread_def Let_def split: if_splits option.splits)
  show "j = Some x \<Longrightarrow> \<not> processingSignaturesInTheBackground c \<and> expectedSeqNumber c \<noteq> 0 \<and> job_ok ef c x"
    using assms by (auto simp: trySendToBkThread_def Let_def split: if_splits option.splits)
qed

lemma put_trySend:
  assumes ts: "trySendToBkThread ef c = Inr (j, c')" and p: "put S (j, c') = Inr S'"
    and out: "length (jobs S) + length (inbox S) = (if processingSignaturesInTheBackground c then 1 else 0)"
    and pr: "processingSignaturesInTheBackground c \<longrightarrow> expectedSeqNumber c \<noteq> 0"
    and js: "\<forall>j \<in> set (jobs S). job_ok ef c j" and ms: "\<forall>m \<in> set (inbox S). msg_ok ef c m"
  shows "cinv ef S'"
proof -
  note t = trySend_sem [OF ts]
  have same: "same_expected c c'" "candidateCombinedSignatureMsg c' = candidateCombinedSignatureMsg c"
    unfolding t(1) by (simp_all add: same_expected_def)
  have S': "S' = S\<lparr>col := c', jobs := jobs S @ (case j of None \<Rightarrow> [] | Some x \<Rightarrow> [x])\<rparr>"
    using p by (simp add: put_def)
  have jobs': "\<forall>x \<in> set (jobs S'). job_ok ef c' x"
    using js t(3) ok_same(1) [OF same(1)] same(2) unfolding S' by (auto split: option.splits)
  have msgs': "\<forall>m \<in> set (inbox S'). msg_ok ef c' m"
    using ms ok_same(2) [OF same(1)] same(2) unfolding S' by auto
  have out': "length (jobs S') + length (inbox S') = (if processingSignaturesInTheBackground c' then 1 else 0)"
    using out t(3) unfolding S' t(1) by (cases j) auto
  have pr': "processingSignaturesInTheBackground c' \<longrightarrow> expectedSeqNumber c' \<noteq> 0"
    using pr t(3) unfolding t(1) by (cases j) auto
  have "combinedValidSignatureMsg c' = None" using t(2) unfolding t(1) by simp
  then show ?thesis using jobs' msgs' out' pr' unfolding cinv_def by (simp add: S')
qed

lemma cstep_partial_cinv:
  assumes inv: "cinv ef S" and st: "cstep ef (EvPartial p r) S = Inr S'"
  shows "cinv ef S'"
proof (cases "combinedValidSignatureMsg (col S) \<noteq> None \<or> hasPartialMsgFromReplica (col S) r")
  case True
  then have "S' = S" using st by (simp add: addMsgWithPartialSignature_def put_def)
  then show ?thesis using inv by simp
next
  case False
  let ?c1 = "(col S)\<lparr>replicasInfo := replicasInfo (col S) @ [(r, \<lparr>partialSigMsg = Some p, sigState = Unknown\<rparr>)],
                   numberOfUnknownSignatures := u16 (numberOfUnknownSignatures (col S) + 1)\<rparr>"
  from st False obtain j c' where t: "trySendToBkThread ef ?c1 = Inr (j, c')" and p: "put S (j, c') = Inr S'"
    by (auto simp: addMsgWithPartialSignature_def Let_def)
  have same: "same_expected (col S) ?c1" by (simp add: same_expected_def)
  show ?thesis
    by (rule put_trySend [OF t p])
      (use inv ok_same [OF same] in \<open>auto simp: cinv_def\<close>)
qed

lemma cstep_combined_cinv:
  assumes inv: "cinv ef S" and st: "cstep ef (EvCombined f) S = Inr S'"
  shows "cinv ef S'"
proof (cases "combinedValidSignatureMsg (col S) \<noteq> None \<or> candidateCombinedSignatureMsg (col S) \<noteq> None")
  case True
  then have "S' = S" using st by (simp add: addMsgWithCombinedSignature_def put_def)
  then show ?thesis using inv by simp
next
  case False
  let ?c1 = "(col S)\<lparr>candidateCombinedSignatureMsg := Some f\<rparr>"
  from st False obtain j c' where t: "trySendToBkThread ef ?c1 = Inr (j, c')" and p: "put S (j, c') = Inr S'"
    by (auto simp: addMsgWithCombinedSignature_def Let_def)
  have same: "same_expected (col S) ?c1" by (simp add: same_expected_def)
  show ?thesis
    by (rule put_trySend [OF t p])
      (use inv False ok_same [OF same] in \<open>auto simp: cinv_def\<close>)
qed

lemma cstep_expected_cinv:
  assumes inv: "cinv ef S" and st: "cstep ef (EvExpected s v d) S = Inr S'"
  shows "cinv ef S'"
proof -
  let ?c1 = "(col S)\<lparr>expectedSeqNumber := s, expectedView := v, expectedDigest := d\<rparr>"
  from st obtain j c' where t: "trySendToBkThread ef ?c1 = Inr (j, c')" and p: "put S (j, c') = Inr S'"
    and g: "s \<noteq> 0" "\<not> processingSignaturesInTheBackground (col S)"
    by (auto simp: setExpected_def)
  from inv g have "jobs S = []" "inbox S = []" by (auto simp: cinv_def)
  then show ?thesis using g by (intro put_trySend [OF t p]) simp_all
qed

lemma ef_ok_length:
  "tv_accumulate (thresholdVerifier ef s) b d xs = Inr (sig, bad) \<Longrightarrow> ef_ok ef \<Longrightarrow> length sig < 65536"
  unfolding ef_ok_def by blast

lemma execute_job_msg_ok:
  assumes "job_ok ef c j" "execute_job ef j = Inr m" "ef_ok ef"
  shows "msg_ok ef c m"
  using assms
  by (cases j) (auto simp: execute_processing_def execute_verification_def verified_def dest: ef_ok_length split: if_splits)

lemma cstep_job_cinv:
  assumes inv: "cinv ef S" and st: "cstep ef EvJob S = Inr S'" and ef: "ef_ok ef"
  shows "cinv ef S'"
proof (cases "jobs S")
  case Nil
  then show ?thesis using inv st by simp
next
  case (Cons j js)
  with st obtain m where m: "execute_job ef j = Inr m" and S': "S' = S\<lparr>jobs := js, inbox := inbox S @ [m]\<rparr>" by auto
  have "job_ok ef (col S) j" using inv Cons by (simp add: cinv_def)
  from execute_job_msg_ok [OF this m ef] show ?thesis using inv Cons unfolding cinv_def S' by auto
qed

lemma mark_bad_sel [simp]:
  "expectedSeqNumber (mark_bad rs c) = expectedSeqNumber c"
  "expectedView (mark_bad rs c) = expectedView c"
  "expectedDigest (mark_bad rs c) = expectedDigest c"
  "candidateCombinedSignatureMsg (mark_bad rs c) = candidateCombinedSignatureMsg c"
  "combinedValidSignatureMsg (mark_bad rs c) = combinedValidSignatureMsg c"
  "processingSignaturesInTheBackground (mark_bad rs c) = processingSignaturesInTheBackground c"
  "numOfRequiredSigs (mark_bad rs c) = numOfRequiredSigs c"
  by (induction rs c rule: mark_bad.induct) simp_all

lemma assert_completion_simps [simp]:
  "assert_completion s v c k = Inr x \<longleftrightarrow> expectedSeqNumber c = s \<and> expectedView c = v \<and>
     processingSignaturesInTheBackground c \<and> combinedValidSignatureMsg c = None \<and> k = Inr x"
  by (auto simp: assert_completion_def)

lemma cstep_deliver_cinv:
  assumes inv: "cinv ef S" and st: "cstep ef EvDeliver S = Inr S'"
    and create: "ef_ok ef"
  shows "cinv ef S'"
proof (cases "inbox S")
  case Nil
  then show ?thesis using inv st by simp
next
  case (Cons m ms)
  have m: "msg_ok ef (col S) m" and pr: "processingSignaturesInTheBackground (col S)" and e: "ms = []" "jobs S = []"
    and ex: "expectedSeqNumber (col S) \<noteq> 0"
    using inv Cons by (auto simp: cinv_def split: if_splits)
  from st Cons obtain j c' where d: "deliver ef m (col S) = Inr (j, c')" and p: "put (S\<lparr>inbox := ms\<rparr>) (j, c') = Inr S'"
    by auto
  have resend: "cinv ef S'" if "trySendToBkThread ef c1 = Inr (j, c')" "\<not> processingSignaturesInTheBackground c1" for c1
    by (rule put_trySend [OF that(1) p]) (use that(2) e in auto)
  show ?thesis
  proof (cases m)
    case (CombinedSigFailed s v bad)
    then show ?thesis using d by (intro resend) (auto simp: onCompletion_failed_def)
  next
    case (CombinedSigSucceeded s v sig)
    then have "c' = (col S)\<lparr>processingSignaturesInTheBackground := False, candidateCombinedSignatureMsg := None,
        combinedValidSignatureMsg := Some (createCombinedSignatureMsg ef s v sig)\<rparr>" "j = None"
      using d by (auto simp: onCompletion_succeeded_def)
    then show ?thesis using CombinedSigSucceeded m p e ex create by (auto simp: cinv_def put_def verified_def ef_ok_def)
  next
    case (VerifyCombinedSigResult s v ok)
    then show ?thesis
    proof (cases ok)
      case True
      then have "c' = (col S)\<lparr>processingSignaturesInTheBackground := False, candidateCombinedSignatureMsg := None,
          combinedValidSignatureMsg := candidateCombinedSignatureMsg (col S)\<rparr>" "j = None"
        using d VerifyCombinedSigResult by (auto simp: onCompletionOfCombinedSigVerification_def Let_def)
      then show ?thesis using VerifyCombinedSigResult True m p e ex by (auto simp: cinv_def put_def verified_def)
    next
      case False
      then show ?thesis using d VerifyCombinedSigResult
        by (intro resend) (auto simp: onCompletionOfCombinedSigVerification_def Let_def)
    qed
  qed
qed

lemma cstep_cinv:
  assumes "cinv ef S" "cstep ef e S = Inr S'"
    and "ef_ok ef"
  shows "cinv ef S'"
proof (cases e)
  case (EvPartial p r)
  show ?thesis by (rule cstep_partial_cinv [OF assms(1) assms(2) [unfolded EvPartial]])
next
  case (EvCombined f)
  show ?thesis by (rule cstep_combined_cinv [OF assms(1) assms(2) [unfolded EvCombined]])
next
  case (EvExpected s v d)
  show ?thesis by (rule cstep_expected_cinv [OF assms(1) assms(2) [unfolded EvExpected]])
next
  case EvJob
  show ?thesis by (rule cstep_job_cinv [OF assms(1) assms(2) [unfolded EvJob] assms(3)])
next
  case EvDeliver
  show ?thesis by (rule cstep_deliver_cinv [OF assms(1) assms(2) [unfolded EvDeliver] assms(3)])
qed

lemma crun_cinv:
  assumes "cinv ef S" "crun ef es S = Inr S'"
    and "ef_ok ef"
  shows "cinv ef S'"
  using assms(1,2)
proof (induction es arbitrary: S)
  case (Cons e es)
  then obtain S1 where "cstep ef e S = Inr S1" "crun ef es S1 = Inr S'" by auto
  then show ?case using Cons.IH [OF cstep_cinv [OF Cons.prems(1) _ assms(3)]] by simp
qed simp

section \<open>No assertion fails\<close>

definition unknown_infos :: "(ReplicaId \<times> 'p RepInfo) list \<Rightarrow> (ReplicaId \<times> 'p RepInfo) list" where
  "unknown_infos infos = filter (\<lambda>(r, i). sigState i = Unknown) infos"

lemma unknown_le: "length (unknown_infos infos) \<le> length infos"
  by (simp add: unknown_infos_def)

definition info_item :: "('p \<Rightarrow> bytes) \<Rightarrow> ReplicaId \<times> 'p RepInfo \<Rightarrow> ReplicaId \<times> bytes" where
  "info_item sg = (\<lambda>(r, i). (r, sg (the (partialSigMsg i))))"

lemma job_items_take:
  assumes "\<forall>(r, i) \<in> set infos. partialSigMsg i \<noteq> None" "k < req"
  shows "job_items sg req k infos = Inr (take (req - k) (map (info_item sg) (unknown_infos infos)))"
  using assms
proof (induction infos arbitrary: k)
  case (Cons x infos)
  obtain r i where x: "x = (r, i)" by (cases x)
  show ?case
  proof (cases "sigState i = Unknown")
    case True
    from Cons.prems x obtain p where p: "partialSigMsg i = Some p" by auto
    show ?thesis
    proof (cases "k + 1 = req")
      case True
      then have "req - k = Suc 0" by simp
      then show ?thesis using \<open>sigState i = Unknown\<close> p x Cons.prems True by (simp add: unknown_infos_def info_item_def)
    next
      case False
      then have "job_items sg req (k + 1) infos = Inr (take (req - (k + 1)) (map (info_item sg) (unknown_infos infos)))"
        using Cons.prems by (intro Cons.IH) auto
      moreover have "req - k = Suc (req - (k + 1))" using Cons.prems(2) by simp
      ultimately show ?thesis using \<open>sigState i = Unknown\<close> p x Cons.prems False
        by (simp add: unknown_infos_def info_item_def)
    qed
  next
    case False
    then have "sigState i = Invalid" by (cases "sigState i") auto
    moreover have "job_items sg req k infos = Inr (take (req - k) (map (info_item sg) (unknown_infos infos)))"
      using Cons.prems by (intro Cons.IH) auto
    ultimately show ?thesis using x Cons.prems by (simp add: unknown_infos_def)
  qed
qed (simp add: unknown_infos_def)

definition invalidate :: "ReplicaId set \<Rightarrow> (ReplicaId \<times> 'p RepInfo) list \<Rightarrow> (ReplicaId \<times> 'p RepInfo) list" where
  "invalidate R = map (\<lambda>(r, i). if r \<in> R then (r, i\<lparr>sigState := Invalid\<rparr>) else (r, i))"

lemma invalidate_simps [simp]:
  "map fst (invalidate R infos) = map fst infos"
  "invalidate {} infos = infos"
  "invalidate R (invalidate Q infos) = invalidate (R \<union> Q) infos"
  by (auto simp: invalidate_def)

lemma mark_invalid_map:
  assumes "distinct (map fst infos)" "r \<in> fst ` set infos"
  shows "mark_invalid r infos = invalidate {r} infos"
  using assms
proof (induction r infos rule: mark_invalid.induct)
  case (2 repId r info infos)
  show ?case
  proof (cases "r = repId")
    case True
    then have "\<forall>(q, i) \<in> set infos. q \<noteq> repId" using 2(2) by force
    then have "invalidate {repId} infos = infos" unfolding invalidate_def by (intro map_idI) auto
    then show ?thesis using True by (simp add: invalidate_def)
  next
    case False
    then show ?thesis using 2 by (auto simp: invalidate_def)
  qed
qed simp

lemma unknown_invalidate: "unknown_infos (invalidate R infos) = filter (\<lambda>p. fst p \<notin> R) (unknown_infos infos)"
  by (induction infos) (auto simp: unknown_infos_def invalidate_def)

lemma length_unknown_invalidate:
  assumes "distinct (map fst infos)" "R \<subseteq> fst ` set (unknown_infos infos)"
  shows "length (unknown_infos infos) = length (unknown_infos (invalidate R infos)) + card R"
proof -
  let ?u = "unknown_infos infos"
  have d: "distinct (map fst ?u)" unfolding unknown_infos_def by (rule distinct_map_filter [OF assms(1)])
  have "length ?u = length (filter (\<lambda>p. fst p \<in> R) ?u) + length (filter (\<lambda>p. fst p \<notin> R) ?u)"
    using sum_length_filter_compl [of "\<lambda>p. fst p \<in> R" ?u] by simp
  moreover have "length (filter (\<lambda>p. fst p \<in> R) ?u) = card R"
  proof -
    have "distinct (map fst (filter (\<lambda>p. fst p \<in> R) ?u))" by (rule distinct_map_filter [OF d])
    then have "length (filter (\<lambda>p. fst p \<in> R) ?u) = card (fst ` set (filter (\<lambda>p. fst p \<in> R) ?u))"
      using distinct_card [of "map fst (filter (\<lambda>p. fst p \<in> R) ?u)"] by simp
    also have "fst ` set (filter (\<lambda>p. fst p \<in> R) ?u) = R" using assms(2) by force
    finally show ?thesis .
  qed
  ultimately show ?thesis by (simp add: unknown_invalidate)
qed

lemma mark_bad_sem:
  assumes "distinct bad" "distinct (map fst (replicasInfo c))" "set bad \<subseteq> fst ` set (replicasInfo c)"
    and "length bad \<le> numberOfUnknownSignatures c" "numberOfUnknownSignatures c \<le> 65535"
  shows "mark_bad bad c = c\<lparr>replicasInfo := invalidate (set bad) (replicasInfo c),
    numberOfUnknownSignatures := numberOfUnknownSignatures c - length bad\<rparr>"
  using assms
proof (induction bad arbitrary: c)
  case (Cons r bad)
  have k: "1 \<le> numberOfUnknownSignatures c" using Cons.prems(4) by simp
  then have dec: "u16 (numberOfUnknownSignatures c + 65535) = numberOfUnknownSignatures c - 1"
    using Cons.prems(5) by (simp add: u16_def mod_if)
  have "mark_invalid r (replicasInfo c) = invalidate {r} (replicasInfo c)"
    by (rule mark_invalid_map) (use Cons.prems in auto)
  then have eq: "mark_bad (r # bad) c = mark_bad bad (c\<lparr>replicasInfo := invalidate {r} (replicasInfo c),
      numberOfUnknownSignatures := numberOfUnknownSignatures c - 1\<rparr>)" using dec by simp
  have keys: "fst ` set (invalidate {r} (replicasInfo c)) = fst ` set (replicasInfo c)"
    by (metis invalidate_simps(1) list.set_map)
  show ?case unfolding eq
    by (subst Cons.IH) (use Cons.prems keys in simp_all)
qed simp

definition sharesof :: "('p, 'f) collector \<Rightarrow> (ReplicaId \<times> 'p option) list" where
  "sharesof c = map (\<lambda>(r, i). (r, partialSigMsg i)) (replicasInfo c)"

lemma cstep_infos:
  assumes "cstep ef e S = Inr S'" "e \<noteq> EvDeliver"
  shows "sharesof (col S') = sharesof (col S) @
      (case e of EvPartial p r \<Rightarrow>
         if combinedValidSignatureMsg (col S) \<noteq> None \<or> hasPartialMsgFromReplica (col S) r then [] else [(r, Some p)]
       | _ \<Rightarrow> [])"
    "case e of EvExpected s v d \<Rightarrow> expectedSeqNumber (col S') = s \<and> expectedView (col S') = v \<and> expectedDigest (col S') = d
       | _ \<Rightarrow> same_expected (col S) (col S')"
  using assms
  by (cases e; fastforce simp: addMsgWithPartialSignature_def addMsgWithCombinedSignature_def setExpected_def Let_def put_def
      same_expected_def sharesof_def dest: trySend_sem(1) split: if_splits list.splits)+

lemma cstep_complete_stays:
  assumes "cinv ef S" "combinedValidSignatureMsg (col S) = Some f" "cstep ef e S = Inr S'"
  shows "combinedValidSignatureMsg (col S') = Some f"
proof -
  have "jobs S = []" "inbox S = []" using assms(1,2) by (auto simp: cinv_def split: if_splits)
  then show ?thesis using assms(2,3)
    by (cases e) (auto simp: addMsgWithPartialSignature_def addMsgWithCombinedSignature_def setExpected_def put_def
        trySendToBkThread_def)
qed

fun expected_events :: "('p, 'f) cevent list \<Rightarrow> (SeqNum \<times> ViewNum \<times> Digest) list" where
  "expected_events [] = []"
| "expected_events (EvExpected s v d # es) = (s, v, d) # expected_events es"
| "expected_events (_ # es) = expected_events es"

lemma expected_events_append [simp]: "expected_events (es @ es') = expected_events es @ expected_events es'"
  by (induction es rule: expected_events.induct) simp_all

fun cevent_proper :: "('p, 'f) ExternalFunc \<Rightarrow> IThresholdVerifier \<Rightarrow> (ReplicaId \<Rightarrow> bytes \<Rightarrow> bool) \<Rightarrow> ('p, 'f) cevent \<Rightarrow> bool" where
  "cevent_proper ef vf proper (EvPartial p r) \<longleftrightarrow> proper r (partSignature ef p)"
| "cevent_proper ef vf proper (EvCombined f) \<longleftrightarrow> (\<forall>d. \<exists>ok. tv_verify vf d (fullSignature ef f) = Inr ok)"
| "cevent_proper ef vf proper (EvExpected s v d) \<longleftrightarrow> s \<noteq> 0"
| "cevent_proper ef vf proper _ \<longleftrightarrow> True"

definition settle :: "nat \<Rightarrow> ('p, 'f) cevent list" where
  "settle n = concat (replicate n [EvJob, EvDeliver])"

lemma settle_Suc: "settle (Suc n) = EvJob # EvDeliver # settle n"
  by (simp add: settle_def)

lemma crun_append: "crun ef (es @ es') S = rbind (crun ef es S) (crun ef es')"
proof (induction es arbitrary: S)
  case (Cons e es)
  then show ?case by (cases "cstep ef e S") simp_all
qed simp

locale collector_client = threshold_scheme vf req proper good
  for vf :: IThresholdVerifier and req :: nat and proper :: "ReplicaId \<Rightarrow> bytes \<Rightarrow> bool"
    and good :: "Digest \<Rightarrow> ReplicaId \<Rightarrow> bytes \<Rightarrow> bool" +
  fixes ef :: "('p, 'f) ExternalFunc"
  assumes ef_verifier: "thresholdVerifier ef s = vf"
    and ef_required: "numberOfRequiredSignatures ef = req"
    and req_pos: "0 < req"
    and ef_create: "ef_ok ef"
begin

definition shares_ok :: "(ReplicaId \<times> 'p RepInfo) list \<Rightarrow> bool" where
  "shares_ok infos \<longleftrightarrow> distinct (map fst infos) \<and>
     (\<forall>(r, i) \<in> set infos. \<exists>p. partialSigMsg i = Some p \<and> proper r (partSignature ef p))"

definition items_ok :: "('p, 'f) collector \<Rightarrow> (ReplicaId \<times> bytes) list \<Rightarrow> bool" where
  "items_ok c items \<longleftrightarrow> length items = req \<and> distinct (map fst items) \<and>
     set items \<subseteq> info_item (partSignature ef) ` set (unknown_infos (replicasInfo c))"

fun job_proper :: "('p, 'f) collector \<Rightarrow> job \<Rightarrow> bool" where
  "job_proper c (SignaturesProcessingJob s v d n items) \<longleftrightarrow> n = req \<and> items_ok c items"
| "job_proper c (CombinedSigVerificationJob s v d sig) \<longleftrightarrow> (\<forall>d. \<exists>ok. tv_verify vf d sig = Inr ok)"

definition bad_in :: "('p, 'f) collector \<Rightarrow> ReplicaId \<Rightarrow> bool" where
  "bad_in c r \<longleftrightarrow> (\<exists>i. (r, i) \<in> set (replicasInfo c) \<and> sigState i = Unknown \<and>
     \<not> good (expectedDigest c) r (partSignature ef (the (partialSigMsg i))))"

fun msg_proper :: "('p, 'f) collector \<Rightarrow> InternalSigMsg \<Rightarrow> bool" where
  "msg_proper c (CombinedSigFailed s v bad) \<longleftrightarrow> distinct bad \<and> bad \<noteq> [] \<and> (\<forall>r \<in> set bad. bad_in c r)"
| "msg_proper c _ \<longleftrightarrow> True"

definition counts_ok :: "('p, 'f) collector \<Rightarrow> bool" where
  "counts_ok c \<longleftrightarrow> shares_ok (replicasInfo c) \<and>
     numberOfUnknownSignatures c = length (unknown_infos (replicasInfo c)) \<and>
     numOfRequiredSigs c \<in> {0, req} \<and>
     (expectedSeqNumber c = 0 \<longrightarrow> (\<forall>(r, i) \<in> set (replicasInfo c). sigState i = Unknown)) \<and>
     (\<forall>(r, i) \<in> set (replicasInfo c). sigState i = Invalid \<longrightarrow>
        \<not> good (expectedDigest c) r (partSignature ef (the (partialSigMsg i)))) \<and>
     (\<forall>f. candidateCombinedSignatureMsg c = Some f \<longrightarrow> (\<forall>d. \<exists>ok. tv_verify vf d (fullSignature ef f) = Inr ok))"

definition pinv :: "('p, 'f) csys \<Rightarrow> bool" where
  "pinv S \<longleftrightarrow> cinv ef S \<and> counts_ok (col S) \<and>
     (\<forall>j \<in> set (jobs S). job_proper (col S) j) \<and> (\<forall>m \<in> set (inbox S). msg_proper (col S) m) \<and>
     (\<not> processingSignaturesInTheBackground (col S) \<and> expectedSeqNumber (col S) \<noteq> 0 \<and>
        combinedValidSignatureMsg (col S) = None \<longrightarrow>
        candidateCombinedSignatureMsg (col S) = None \<and> numberOfUnknownSignatures (col S) < req)"

lemma pinv_new: "pinv csys_new"
  using cinv_new by (simp add: pinv_def counts_ok_def shares_ok_def csys_new_def collector_new_def unknown_infos_def)

lemma shares_bound: "shares_ok infos \<Longrightarrow> length infos \<le> 65535"
proof -
  assume a: "shares_ok infos"
  then have "fst ` set infos \<subseteq> {..<65535}" using proper_bound by (fastforce simp: shares_ok_def)
  then have "card (fst ` set infos) \<le> 65535" using card_mono [of "{..<65535}"] by fastforce
  moreover have "length infos = card (fst ` set infos)"
    using a distinct_card [of "map fst infos"] by (simp add: shares_ok_def)
  ultimately show ?thesis by simp
qed

lemma job_proper_mono:
  assumes "set (unknown_infos (replicasInfo c)) \<subseteq> set (unknown_infos (replicasInfo c'))" "job_proper c j"
  shows "job_proper c' j"
proof (cases j)
  case (SignaturesProcessingJob s v d n items)
  with assms(2) have n: "n = req" and i: "items_ok c items" by simp_all
  from i have "set items \<subseteq> info_item (partSignature ef) ` set (unknown_infos (replicasInfo c))"
    by (simp add: items_ok_def)
  from order_trans [OF this image_mono [OF assms(1)]] show ?thesis
    using SignaturesProcessingJob n i by (simp add: items_ok_def)
qed (use assms(2) in simp)

lemma items_of_order:
  assumes sh: "shares_ok infos" and order: "mset (ord infos) = mset infos"
    and enough: "req \<le> length (unknown_infos infos)"
  shows "\<exists>items. job_items (partSignature ef) req 0 (ord infos) = Inr items \<and> length items = req \<and>
    distinct (map fst items) \<and> set items \<subseteq> info_item (partSignature ef) ` set (unknown_infos infos)"
proof -
  have st: "set (ord infos) = set infos" using order by (metis set_mset_mset)
  have "\<forall>(r, i) \<in> set (ord infos). partialSigMsg i \<noteq> None" using sh st by (fastforce simp: shares_ok_def)
  then have items: "job_items (partSignature ef) req 0 (ord infos) =
      Inr (take req (map (info_item (partSignature ef)) (unknown_infos (ord infos))))"
    using job_items_take [of "ord infos" 0 req] req_pos by simp
  have um: "mset (unknown_infos (ord infos)) = mset (unknown_infos infos)" by (simp add: unknown_infos_def order)
  then have ul: "length (unknown_infos (ord infos)) = length (unknown_infos infos)" by (metis size_mset)
  have us: "set (unknown_infos (ord infos)) = set (unknown_infos infos)" by (simp add: unknown_infos_def st)
  have "distinct (map fst (ord infos))"
    using sh order by (metis shares_ok_def mset_eq_imp_distinct_iff mset_map)
  then have "distinct (map fst (unknown_infos (ord infos)))" unfolding unknown_infos_def by (rule distinct_map_filter)
  moreover have "map fst (map (info_item (partSignature ef)) xs) = map fst xs" for xs by (simp add: info_item_def split_beta)
  ultimately have "distinct (map fst (take req (map (info_item (partSignature ef)) (unknown_infos (ord infos)))))"
    by (metis distinct_take take_map)
  then show ?thesis using items ul us enough set_take_subset [of req "map (info_item (partSignature ef)) (unknown_infos (ord infos))"]
    by auto
qed

lemma trySend_total:
  assumes cnt: "counts_ok c" and valid: "combinedValidSignatureMsg c = None"
    and order: "\<forall>xs. mset (infoOrder ef xs) = mset xs"
  shows "\<exists>j c'. trySendToBkThread ef c = Inr (j, c') \<and> counts_ok c' \<and> (\<forall>x. j = Some x \<longrightarrow> job_proper c' x) \<and>
    (j = None \<and> \<not> processingSignaturesInTheBackground c \<and> expectedSeqNumber c \<noteq> 0 \<longrightarrow>
      candidateCombinedSignatureMsg c = None \<and> numberOfUnknownSignatures c < req)"
proof -
  let ?c = "c\<lparr>numOfRequiredSigs := req\<rparr>"
  have norm: "(if numOfRequiredSigs c = 0 then c\<lparr>numOfRequiredSigs := numberOfRequiredSignatures ef\<rparr> else c) = ?c"
    using cnt by (auto simp: counts_ok_def ef_required)
  let ?c' = "?c\<lparr>processingSignaturesInTheBackground := True\<rparr>"
  have ok: "counts_ok ?c" "counts_ok ?c'" using cnt by (auto simp: counts_ok_def)
  consider (wait) "processingSignaturesInTheBackground c \<or> expectedSeqNumber c = 0"
    | (verify) m where "\<not> processingSignaturesInTheBackground c" "expectedSeqNumber c \<noteq> 0" "candidateCombinedSignatureMsg c = Some m"
    | (combine) "\<not> processingSignaturesInTheBackground c" "expectedSeqNumber c \<noteq> 0" "candidateCombinedSignatureMsg c = None"
        "req \<le> numberOfUnknownSignatures c"
    | (idle) "\<not> processingSignaturesInTheBackground c" "expectedSeqNumber c \<noteq> 0" "candidateCombinedSignatureMsg c = None"
        "numberOfUnknownSignatures c < req" by fastforce
  then show ?thesis
  proof cases
    case wait
    then have "trySendToBkThread ef c = Inr (None, ?c)" using valid by (simp add: trySendToBkThread_def norm)
    then show ?thesis using wait ok by auto
  next
    case verify
    then have "trySendToBkThread ef c = Inr (Some (CombinedSigVerificationJob (expectedSeqNumber c) (expectedView c)
        (expectedDigest c) (fullSignature ef m)), ?c')"
      using valid by (simp add: trySendToBkThread_def norm)
    then show ?thesis using verify ok cnt by (auto simp: counts_ok_def)
  next
    case combine
    have "\<exists>items. job_items (partSignature ef) req 0 (infoOrder ef (replicasInfo c)) = Inr items \<and> length items = req \<and>
      distinct (map fst items) \<and> set items \<subseteq> info_item (partSignature ef) ` set (unknown_infos (replicasInfo c))"
      by (rule items_of_order) (use cnt order combine in \<open>auto simp: counts_ok_def\<close>)
    then obtain items where items: "job_items (partSignature ef) req 0 (infoOrder ef (replicasInfo c)) = Inr items"
      "items_ok c items" by (auto simp: items_ok_def)
    then have "trySendToBkThread ef c = Inr (Some (SignaturesProcessingJob (expectedSeqNumber c) (expectedView c)
        (expectedDigest c) req items), ?c')"
      using valid combine by (simp add: trySendToBkThread_def norm items_ok_def)
    moreover have "items_ok ?c' items" using items(2) by (simp add: items_ok_def)
    ultimately show ?thesis using ok by auto
  next
    case idle
    then have "trySendToBkThread ef c = Inr (None, ?c)" using valid by (simp add: trySendToBkThread_def norm)
    then show ?thesis using idle ok by auto
  qed
qed

text \<open>Every operation that ends with \<^verbatim>\<open>trySendToBkThread\<close>.\<close>

lemma send_pinv:
  assumes cnt: "counts_ok c" and valid: "combinedValidSignatureMsg c = None"
    and order: "\<forall>xs. mset (infoOrder ef xs) = mset xs"
    and out: "length (jobs S) + length (inbox S) = (if processingSignaturesInTheBackground c then 1 else 0)"
    and pr: "processingSignaturesInTheBackground c \<longrightarrow> expectedSeqNumber c \<noteq> 0"
    and js: "\<forall>j \<in> set (jobs S). job_ok ef c j \<and> job_proper c j" and ms: "\<forall>m \<in> set (inbox S). msg_ok ef c m \<and> msg_proper c m"
  shows "\<exists>S'. rbind (trySendToBkThread ef c) (put S) = Inr S' \<and> pinv S' \<and>
    replicasInfo (col S') = replicasInfo c \<and> same_expected c (col S') \<and>
    candidateCombinedSignatureMsg (col S') = candidateCombinedSignatureMsg c"
proof -
  from trySend_total [OF cnt valid order] obtain j c' where t: "trySendToBkThread ef c = Inr (j, c')"
    and c': "counts_ok c'" "\<forall>x. j = Some x \<longrightarrow> job_proper c' x"
    and idle: "j = None \<and> \<not> processingSignaturesInTheBackground c \<and> expectedSeqNumber c \<noteq> 0 \<longrightarrow>
      candidateCombinedSignatureMsg c = None \<and> numberOfUnknownSignatures c < req" by blast
  note ts = trySend_sem [OF t]
  let ?S' = "S\<lparr>col := c', jobs := jobs S @ (case j of None \<Rightarrow> [] | Some x \<Rightarrow> [x])\<rparr>"
  have p: "put S (j, c') = Inr ?S'" by (simp add: put_def)
  have "cinv ef ?S'" by (rule put_trySend [OF t p out pr]) (use js ms in auto)
  moreover have "\<forall>x \<in> set (jobs ?S'). job_proper c' x"
    using js c'(2) job_proper_mono [of c c'] unfolding ts(1) by (auto split: option.splits)
  moreover have "msg_proper c' m" if "msg_proper c m" for m
    using that unfolding ts(1) by (cases m) (auto simp: bad_in_def)
  moreover have "\<not> processingSignaturesInTheBackground c' \<and> expectedSeqNumber c' \<noteq> 0 \<and>
        combinedValidSignatureMsg c' = None \<longrightarrow>
        candidateCombinedSignatureMsg c' = None \<and> numberOfUnknownSignatures c' < req"
    using idle unfolding ts(1) by auto
  ultimately have "pinv ?S'" using c'(1) ms unfolding pinv_def by simp
  moreover have "replicasInfo c' = replicasInfo c" "same_expected c c'"
    "candidateCombinedSignatureMsg c' = candidateCombinedSignatureMsg c"
    unfolding ts(1) by (simp_all add: same_expected_def)
  ultimately show ?thesis using t p by (intro exI [of _ ?S']) simp
qed

lemma step_partial:
  assumes inv: "pinv S" and order: "\<forall>xs. mset (infoOrder ef xs) = mset xs" and pr: "proper r (partSignature ef p)"
  shows "\<exists>S'. cstep ef (EvPartial p r) S = Inr S' \<and> pinv S'"
proof (cases "combinedValidSignatureMsg (col S) \<noteq> None \<or> hasPartialMsgFromReplica (col S) r")
  case True
  then have "cstep ef (EvPartial p r) S = Inr S" by (simp add: addMsgWithPartialSignature_def put_def)
  then show ?thesis using inv by blast
next
  case False
  let ?infos = "replicasInfo (col S) @ [(r, \<lparr>partialSigMsg = Some p, sigState = Unknown\<rparr>)]"
  let ?c1 = "(col S)\<lparr>replicasInfo := ?infos, numberOfUnknownSignatures := u16 (numberOfUnknownSignatures (col S) + 1)\<rparr>"
  have cnt: "counts_ok (col S)" and cinv: "cinv ef S" using inv by (simp_all add: pinv_def)
  have sh: "shares_ok ?infos" using cnt False pr by (auto simp: counts_ok_def shares_ok_def hasPartialMsgFromReplica_def)
  have "numberOfUnknownSignatures (col S) + 1 = length (unknown_infos ?infos)"
    using cnt by (simp add: counts_ok_def unknown_infos_def)
  moreover have "length (unknown_infos ?infos) < 65536"
    using shares_bound [OF sh] unknown_le [of ?infos] by linarith
  ultimately have "u16 (numberOfUnknownSignatures (col S) + 1) = length (unknown_infos ?infos)" by simp
  then have cnt1: "counts_ok ?c1" using cnt sh by (auto simp: counts_ok_def)
  have same: "same_expected (col S) ?c1" by (simp add: same_expected_def)
  have jp: "job_proper ?c1 j" if "job_proper (col S) j" for j
    by (rule job_proper_mono [OF _ that]) (auto simp: unknown_infos_def)
  have mp: "msg_proper ?c1 m" if "msg_proper (col S) m" for m using that by (cases m) (auto simp: bad_in_def)
  have "\<exists>S'. rbind (trySendToBkThread ef ?c1) (put S) = Inr S' \<and> pinv S' \<and> replicasInfo (col S') = replicasInfo ?c1 \<and>
      same_expected ?c1 (col S') \<and> candidateCombinedSignatureMsg (col S') = candidateCombinedSignatureMsg ?c1"
    by (rule send_pinv [OF cnt1 _ order])
      (use inv cinv False jp mp ok_same [OF same] in \<open>auto simp: cinv_def pinv_def\<close>)
  moreover have "cstep ef (EvPartial p r) S = rbind (trySendToBkThread ef ?c1) (put S)"
    using False by (cases "trySendToBkThread ef ?c1") (auto simp: addMsgWithPartialSignature_def Let_def)
  ultimately show ?thesis by auto
qed

lemma step_combined:
  assumes inv: "pinv S" and order: "\<forall>xs. mset (infoOrder ef xs) = mset xs"
    and tot: "\<forall>d. \<exists>ok. tv_verify vf d (fullSignature ef f) = Inr ok"
  shows "\<exists>S'. cstep ef (EvCombined f) S = Inr S' \<and> pinv S'"
proof (cases "combinedValidSignatureMsg (col S) \<noteq> None \<or> candidateCombinedSignatureMsg (col S) \<noteq> None")
  case True
  then have "cstep ef (EvCombined f) S = Inr S" by (simp add: addMsgWithCombinedSignature_def put_def)
  then show ?thesis using inv by blast
next
  case False
  let ?c1 = "(col S)\<lparr>candidateCombinedSignatureMsg := Some f\<rparr>"
  have cnt: "counts_ok (col S)" and cinv: "cinv ef S" using inv by (simp_all add: pinv_def)
  have cnt1: "counts_ok ?c1" using cnt tot by (auto simp: counts_ok_def)
  have same: "same_expected (col S) ?c1" by (simp add: same_expected_def)
  have jp: "job_proper ?c1 j" if "job_proper (col S) j" for j
    by (rule job_proper_mono [OF _ that]) simp
  have mp: "msg_proper ?c1 m" if "msg_proper (col S) m" for m using that by (cases m) (auto simp: bad_in_def)
  have "\<exists>S'. rbind (trySendToBkThread ef ?c1) (put S) = Inr S' \<and> pinv S' \<and> replicasInfo (col S') = replicasInfo ?c1 \<and>
      same_expected ?c1 (col S') \<and> candidateCombinedSignatureMsg (col S') = candidateCombinedSignatureMsg ?c1"
    by (rule send_pinv [OF cnt1 _ order])
      (use inv cinv False jp mp ok_same [OF same] in \<open>auto simp: cinv_def pinv_def\<close>)
  moreover have "cstep ef (EvCombined f) S = rbind (trySendToBkThread ef ?c1) (put S)"
    using False by (cases "trySendToBkThread ef ?c1") (auto simp: addMsgWithCombinedSignature_def Let_def)
  ultimately show ?thesis by auto
qed

lemma step_expected:
  assumes inv: "pinv S" and order: "\<forall>xs. mset (infoOrder ef xs) = mset xs"
    and ok: "s \<noteq> 0" "expectedSeqNumber (col S) = 0"
  shows "\<exists>S'. cstep ef (EvExpected s v d) S = Inr S' \<and> pinv S' \<and> expectedSeqNumber (col S') = s"
proof -
  let ?c1 = "(col S)\<lparr>expectedSeqNumber := s, expectedView := v, expectedDigest := d\<rparr>"
  have cnt: "counts_ok (col S)" and cinv: "cinv ef S" using inv by (simp_all add: pinv_def)
  have e: "\<not> processingSignaturesInTheBackground (col S)" "combinedValidSignatureMsg (col S) = None" "jobs S = []" "inbox S = []"
    using cinv ok(2) by (auto simp: cinv_def)
  have cnt1: "counts_ok ?c1" using cnt ok by (fastforce simp: counts_ok_def)
  have "\<exists>S'. rbind (trySendToBkThread ef ?c1) (put S) = Inr S' \<and> pinv S' \<and> replicasInfo (col S') = replicasInfo ?c1 \<and>
      same_expected ?c1 (col S') \<and> candidateCombinedSignatureMsg (col S') = candidateCombinedSignatureMsg ?c1"
    by (rule send_pinv [OF cnt1 _ order]) (use e in auto)
  moreover have "cstep ef (EvExpected s v d) S = rbind (trySendToBkThread ef ?c1) (put S)"
    using ok e by (simp add: setExpected_def)
  ultimately show ?thesis by (auto simp: same_expected_def)
qed

lemma bad_replicas:
  assumes "distinct bad" "set bad = {Suc r |r. P r}" "\<forall>r. P r \<longrightarrow> r < 65535"
  shows "distinct (replicasWithBadSigs bad) \<and> set (replicasWithBadSigs bad) = {r. P r}"
proof -
  have "u16 (u16 (Suc r) + 65535) = r" if "P r" for r
  proof -
    have r: "r < 65535" using assms(3) that by blast
    then have "u16 (Suc r) = Suc r" by (simp add: u16_def)
    moreover have "Suc r + 65535 = r + 65536" by simp
    moreover have "u16 (r + 65536) = r" using r by (simp add: u16_def)
    ultimately show ?thesis by presburger
  qed
  then have "(\<lambda>i. u16 (u16 i + 65535)) ` set bad = {r. P r}"
    unfolding assms(2) by (simp add: setcompr_eq_image image_image)
  then show ?thesis by (simp add: replicasWithBadSigs_def)
qed

lemma execute_items:
  assumes items: "length items = req" "distinct (map fst items)" "\<forall>(r, sg) \<in> set items. proper r sg"
  shows "(\<exists>sig. execute_processing vf s v d req items = Inr (CombinedSigSucceeded s v sig)) \<or>
    (\<exists>bad. execute_processing vf s v d req items = Inr (CombinedSigFailed s v bad) \<and> distinct bad \<and> bad \<noteq> [] \<and>
      (\<forall>r \<in> set bad. \<exists>sg. (r, sg) \<in> set items \<and> \<not> good d r sg))"
proof -
  have ne: "items \<noteq> []" using items(1) req_pos by auto
  from acc_total [OF ne items(2,3), of False d] obtain sig1 bad1 ok1 where
    a1: "tv_accumulate vf False d (map snd items) = Inr (sig1, bad1)" "tv_verify vf d sig1 = Inr ok1" by blast
  from acc_total [OF ne items(2,3), of True d] obtain sig2 bad2 ok2 where
    a2: "tv_accumulate vf True d (map snd items) = Inr (sig2, bad2)" "tv_verify vf d sig2 = Inr ok2" by blast
  show ?thesis
  proof (cases "ok1 \<or> ok2")
    case True
    then show ?thesis using a1 a2 items(1) by (auto simp: execute_processing_def)
  next
    case False
    then have ex: "execute_processing vf s v d req items = Inr (CombinedSigFailed s v (replicasWithBadSigs bad2))"
      using a1 a2 items(1) by (simp add: execute_processing_def)
    have b: "distinct bad2" "set bad2 = {Suc r |r. \<exists>sg. (r, sg) \<in> set items \<and> \<not> good d r sg}"
      using acc_bad [OF ne items(2,3) a2(1)] by simp_all
    have "bad2 \<noteq> []" by (rule failure_names_bad [OF ne items(2,3,1) a2(1)]) (use a2(2) False in simp)
    moreover have "distinct (replicasWithBadSigs bad2) \<and>
        set (replicasWithBadSigs bad2) = {r. \<exists>sg. (r, sg) \<in> set items \<and> \<not> good d r sg}"
      by (rule bad_replicas [OF b]) (use items(3) proper_bound in fast)
    moreover have "replicasWithBadSigs bad2 \<noteq> []" using \<open>bad2 \<noteq> []\<close> by (simp add: replicasWithBadSigs_def flip: set_empty)
    ultimately show ?thesis using ex by (intro disjI2 exI [of _ "replicasWithBadSigs bad2"]) simp
  qed
qed

lemma items_proper:
  assumes "items_ok c items" "shares_ok (replicasInfo c)" "(r, sg) \<in> set items"
  shows "proper r sg" "\<exists>i. (r, i) \<in> set (replicasInfo c) \<and> sigState i = Unknown \<and> sg = partSignature ef (the (partialSigMsg i))"
proof -
  from assms(1,3) obtain i where i: "(r, i) \<in> set (unknown_infos (replicasInfo c))" "sg = partSignature ef (the (partialSigMsg i))"
    by (auto simp: items_ok_def info_item_def)
  then show "\<exists>i. (r, i) \<in> set (replicasInfo c) \<and> sigState i = Unknown \<and> sg = partSignature ef (the (partialSigMsg i))"
    by (auto simp: unknown_infos_def)
  from i show "proper r sg" using assms(2) by (fastforce simp: shares_ok_def unknown_infos_def)
qed

lemma step_job:
  assumes inv: "pinv S"
  shows "\<exists>S'. cstep ef EvJob S = Inr S' \<and> pinv S' \<and> col S' = col S \<and> jobs S' = []"
proof (cases "jobs S")
  case Nil
  then show ?thesis using inv by auto
next
  case (Cons j js)
  have cnt: "counts_ok (col S)" and cinv: "cinv ef S" and jp: "job_proper (col S) j" and jo: "job_ok ef (col S) j"
    using inv Cons by (simp_all add: pinv_def cinv_def)
  have js: "js = []" "inbox S = []" using cinv Cons by (auto simp: cinv_def split: if_splits)
  have "\<exists>m. execute_job ef j = Inr m \<and> msg_proper (col S) m"
  proof (cases j)
    case (SignaturesProcessingJob s v d n items)
    then have n: "n = req" and io: "items_ok (col S) items" and d: "d = expectedDigest (col S)" using jp jo by simp_all
    have sh: "shares_ok (replicasInfo (col S))" using cnt by (simp add: counts_ok_def)
    have "\<forall>(r, sg) \<in> set items. proper r sg" using items_proper(1) [OF io sh] by blast
    with io have ei: "(\<exists>sig. execute_processing vf s v d req items = Inr (CombinedSigSucceeded s v sig)) \<or>
      (\<exists>bad. execute_processing vf s v d req items = Inr (CombinedSigFailed s v bad) \<and> distinct bad \<and> bad \<noteq> [] \<and>
        (\<forall>r \<in> set bad. \<exists>sg. (r, sg) \<in> set items \<and> \<not> good d r sg))"
      by (intro execute_items) (simp_all add: items_ok_def)
    have "bad_in (col S) r" if "(r, sg) \<in> set items" "\<not> good d r sg" for r sg
      using items_proper(2) [OF io sh that(1)] that(2) d by (auto simp: bad_in_def)
    then show ?thesis using ei SignaturesProcessingJob n ef_verifier by fastforce
  next
    case (CombinedSigVerificationJob s v d sig)
    then have "\<exists>ok. tv_verify vf d sig = Inr ok" using jp by simp
    then show ?thesis using CombinedSigVerificationJob ef_verifier by (auto simp: execute_verification_def)
  qed
  then obtain m where m: "execute_job ef j = Inr m" "msg_proper (col S) m" by blast
  let ?S' = "S\<lparr>jobs := [], inbox := [m]\<rparr>"
  have st: "cstep ef EvJob S = Inr ?S'" using Cons js m by simp
  have "cinv ef ?S'" by (rule cstep_job_cinv [OF cinv st ef_create])
  then have "pinv ?S'" using inv m(2) by (simp add: pinv_def)
  then show ?thesis using st by auto
qed

definition goods :: "('p, 'f) collector \<Rightarrow> ReplicaId set" where
  "goods c = {r. \<exists>i. (r, i) \<in> set (replicasInfo c) \<and> good (expectedDigest c) r (partSignature ef (the (partialSigMsg i)))}"

definition todo :: "('p, 'f) collector \<Rightarrow> nat" where
  "todo c = length (unknown_infos (replicasInfo c)) + (if candidateCombinedSignatureMsg c = None then 0 else 1)"

lemma invalidate_mem:
  "(r, i) \<in> set (invalidate R infos) \<longleftrightarrow> (\<exists>i0. (r, i0) \<in> set infos \<and> i = (if r \<in> R then i0\<lparr>sigState := Invalid\<rparr> else i0))"
  unfolding invalidate_def by (force simp: image_iff split: prod.splits)

lemma invalidate_ex:
  "(\<exists>i. (r, i) \<in> set (invalidate R infos) \<and> Q i) \<longleftrightarrow>
   (\<exists>i. (r, i) \<in> set infos \<and> Q (if r \<in> R then i\<lparr>sigState := Invalid\<rparr> else i))"
  unfolding invalidate_mem by blast

lemma goods_invalidate: "goods (c\<lparr>replicasInfo := invalidate R (replicasInfo c)\<rparr>) = goods c"
  by (simp add: goods_def invalidate_ex if_distrib cong: if_cong)

lemma counts_ok_mark_bad:
  assumes cnt: "counts_ok c" and bad: "distinct bad" "\<forall>r \<in> set bad. bad_in c r" and ex: "expectedSeqNumber c \<noteq> 0"
  shows "counts_ok (mark_bad bad c) \<and> goods (mark_bad bad c) = goods c \<and>
    todo (mark_bad bad c) + length bad = todo c \<and> sharesof (mark_bad bad c) = sharesof c"
proof -
  let ?infos = "replicasInfo c"
  have sh: "distinct (map fst ?infos)" "shares_ok ?infos" using cnt by (simp_all add: counts_ok_def shares_ok_def)
  have bu: "set bad \<subseteq> fst ` set (unknown_infos ?infos)" using bad(2) by (force simp: bad_in_def unknown_infos_def)
  then have bi: "set bad \<subseteq> fst ` set ?infos" by (auto simp: unknown_infos_def)
  note len = length_unknown_invalidate [OF sh(1) bu]
  have cb: "card (set bad) = length bad" using bad(1) by (rule distinct_card)
  have n: "numberOfUnknownSignatures c = length (unknown_infos ?infos)" using cnt by (simp add: counts_ok_def)
  have eq: "mark_bad bad c = c\<lparr>replicasInfo := invalidate (set bad) ?infos,
      numberOfUnknownSignatures := numberOfUnknownSignatures c - length bad\<rparr>"
    by (rule mark_bad_sem [OF bad(1) sh(1) bi])
      (use n len cb shares_bound [OF sh(2)] unknown_le [of ?infos] in linarith)+
  have uniq: "i = i'" if "(r, i) \<in> set ?infos" "(r, i') \<in> set ?infos" for r i i'
    using that sh(1) by (meson eq_key_imp_eq_value)
  have inv: "\<not> good (expectedDigest c) r (partSignature ef (the (partialSigMsg i)))"
    if "r \<in> set bad" "(r, i) \<in> set ?infos" for r i using bad(2) that uniq by (fastforce simp: bad_in_def)
  let ?infos' = "invalidate (set bad) ?infos"
  have 1: "shares_ok ?infos'" unfolding shares_ok_def
  proof (intro conjI ballI)
    show "distinct (map fst ?infos')" using sh(1) by simp
    fix x assume x: "x \<in> set ?infos'"
    obtain r i where ri: "x = (r, i)" by (cases x)
    with x obtain i0 where "(r, i0) \<in> set ?infos" "partialSigMsg i = partialSigMsg i0"
      by (auto simp: invalidate_mem split: if_splits)
    then show "case x of (r, i) \<Rightarrow> \<exists>p. partialSigMsg i = Some p \<and> proper r (partSignature ef p)"
      using sh(2) ri by (auto simp: shares_ok_def)
  qed
  have 2: "\<not> good (expectedDigest c) r (partSignature ef (the (partialSigMsg i)))"
    if "(r, i) \<in> set ?infos'" "sigState i = Invalid" for r i
  proof -
    from that(1) obtain i0 where i0: "(r, i0) \<in> set ?infos" "i = (if r \<in> set bad then i0\<lparr>sigState := Invalid\<rparr> else i0)"
      by (auto simp: invalidate_mem)
    show ?thesis
    proof (cases "r \<in> set bad")
      case True
      then show ?thesis using inv [OF True i0(1)] i0(2) by simp
    next
      case False
      then show ?thesis using cnt i0 that(2) by (auto simp: counts_ok_def)
    qed
  qed
  have 3: "numberOfUnknownSignatures c - length bad = length (unknown_infos ?infos')" using len cb n by simp
  have "counts_ok (mark_bad bad c)" using cnt ex 1 2 3 unfolding eq counts_ok_def by auto
  moreover have "goods (mark_bad bad c) = goods c"
    using goods_invalidate [of "set bad" c] unfolding eq by (simp add: goods_def)
  moreover have "todo (mark_bad bad c) + length bad = todo c" using len cb unfolding eq todo_def by simp
  moreover have "sharesof (mark_bad bad c) = sharesof c" unfolding eq by (simp add: sharesof_def invalidate_def split_beta)
  ultimately show ?thesis by blast
qed

lemma todo_send:
  assumes "replicasInfo c' = replicasInfo c" "candidateCombinedSignatureMsg c' = candidateCombinedSignatureMsg c"
    "same_expected c c'"
  shows "todo c' = todo c \<and> goods c' = goods c"
  using assms by (simp add: todo_def goods_def same_expected_def)

definition delivered :: "('p, 'f) csys \<Rightarrow> ('p, 'f) csys \<Rightarrow> bool" where
  "delivered S S' \<longleftrightarrow> pinv S' \<and> same_expected (col S) (col S') \<and> goods (col S') = goods (col S) \<and>
     sharesof (col S') = sharesof (col S) \<and>
     (combinedValidSignatureMsg (col S') \<noteq> None \<or> todo (col S') < todo (col S))"

lemma resend_delivered:
  assumes order: "\<forall>xs. mset (infoOrder ef xs) = mset xs"
    and c1: "counts_ok c1" "same_expected (col S) c1" "goods c1 = goods (col S)" "todo c1 < todo (col S)"
      "combinedValidSignatureMsg c1 = None" "\<not> processingSignaturesInTheBackground c1" "sharesof c1 = sharesof (col S)"
    and e: "jobs S = []"
  shows "\<exists>S'. rbind (trySendToBkThread ef c1) (put (S\<lparr>inbox := []\<rparr>)) = Inr S' \<and> delivered S S'"
proof -
  have "\<exists>S'. rbind (trySendToBkThread ef c1) (put (S\<lparr>inbox := []\<rparr>)) = Inr S' \<and> pinv S' \<and>
      replicasInfo (col S') = replicasInfo c1 \<and> same_expected c1 (col S') \<and>
      candidateCombinedSignatureMsg (col S') = candidateCombinedSignatureMsg c1"
    by (rule send_pinv [OF c1(1) _ order]) (use c1 e in simp_all)
  then obtain S' where S': "rbind (trySendToBkThread ef c1) (put (S\<lparr>inbox := []\<rparr>)) = Inr S'" "pinv S'"
    "replicasInfo (col S') = replicasInfo c1" "same_expected c1 (col S')"
    "candidateCombinedSignatureMsg (col S') = candidateCombinedSignatureMsg c1" by - (elim exE conjE, rule that)
  moreover have "same_expected (col S) (col S')" using S'(4) c1(2) by (simp add: same_expected_def)
  ultimately show ?thesis using todo_send [OF S'(3,5,4)] c1 by (auto simp: delivered_def sharesof_def)
qed

lemma step_deliver:
  assumes inv: "pinv S" and order: "\<forall>xs. mset (infoOrder ef xs) = mset xs" and box: "inbox S = m # ms"
  shows "\<exists>S'. cstep ef EvDeliver S = Inr S' \<and> delivered S S'"
proof -
  have cnt: "counts_ok (col S)" and cinv: "cinv ef S" and mp: "msg_proper (col S) m" and mo: "msg_ok ef (col S) m"
    using inv box by (simp_all add: pinv_def cinv_def)
  have e: "ms = []" "jobs S = []" and pr: "processingSignaturesInTheBackground (col S)"
    and ex: "expectedSeqNumber (col S) \<noteq> 0" and nv: "combinedValidSignatureMsg (col S) = None"
    using cinv box by (auto simp: cinv_def split: if_splits)
  let ?c0 = "(col S)\<lparr>processingSignaturesInTheBackground := False\<rparr>"
  have cnt0: "counts_ok ?c0" and g0: "goods ?c0 = goods (col S)" and t0: "todo ?c0 = todo (col S)"
    using cnt by (simp_all add: counts_ok_def goods_def todo_def)
  have finish: ?thesis if "deliver ef m (col S) = Inr (None, c')" "same_expected (col S) c'" "replicasInfo c' = replicasInfo (col S)"
      "combinedValidSignatureMsg c' \<noteq> None" "counts_ok c'" "\<not> processingSignaturesInTheBackground c'" for c'
  proof -
    have st: "cstep ef EvDeliver S = Inr (S\<lparr>inbox := [], col := c'\<rparr>)" using that(1) box e by (simp add: put_def)
    have "cinv ef (S\<lparr>inbox := [], col := c'\<rparr>)" by (rule cstep_deliver_cinv [OF cinv st ef_create])
    then have "delivered S (S\<lparr>inbox := [], col := c'\<rparr>)"
      using that e by (auto simp: delivered_def pinv_def goods_def same_expected_def sharesof_def)
    then show ?thesis using st by blast
  qed
  show ?thesis
  proof (cases m)
    case (CombinedSigFailed s v bad)
    have b: "distinct bad" "bad \<noteq> []" "\<forall>r \<in> set bad. bad_in ?c0 r" using mp CombinedSigFailed by (auto simp: bad_in_def)
    note mb = counts_ok_mark_bad [OF cnt0 b(1,3)]
    have "\<exists>S'. rbind (trySendToBkThread ef (mark_bad bad ?c0)) (put (S\<lparr>inbox := []\<rparr>)) = Inr S' \<and> delivered S S'"
    proof (rule resend_delivered [OF order])
      show "todo (mark_bad bad ?c0) < todo (col S)" using mb ex b(2) t0 by (cases bad) auto
    qed (use mb ex g0 nv e in \<open>auto simp: same_expected_def sharesof_def\<close>)
    moreover have "cstep ef EvDeliver S = rbind (trySendToBkThread ef (mark_bad bad ?c0)) (put (S\<lparr>inbox := []\<rparr>))"
      using box e mo CombinedSigFailed pr nv by (simp add: onCompletion_failed_def assert_completion_def)
    ultimately show ?thesis by simp
  next
    case (CombinedSigSucceeded s v sig)
    show ?thesis
      by (rule finish [of "(col S)\<lparr>processingSignaturesInTheBackground := False, candidateCombinedSignatureMsg := None,
          combinedValidSignatureMsg := Some (createCombinedSignatureMsg ef s v sig)\<rparr>"])
        (use CombinedSigSucceeded mo pr nv cnt in \<open>auto simp: onCompletion_succeeded_def same_expected_def counts_ok_def\<close>)
  next
    case (VerifyCombinedSigResult s v ok)
    then obtain f where f: "candidateCombinedSignatureMsg (col S) = Some f" using mo by auto
    let ?c1 = "(col S)\<lparr>processingSignaturesInTheBackground := False, candidateCombinedSignatureMsg := None\<rparr>"
    show ?thesis
    proof (cases ok)
      case True
      then show ?thesis
        by (intro finish [of "?c1\<lparr>combinedValidSignatureMsg := Some f\<rparr>"])
          (use VerifyCombinedSigResult mo pr nv cnt f in
            \<open>auto simp: onCompletionOfCombinedSigVerification_def same_expected_def counts_ok_def Let_def\<close>)
    next
      case False
      have "\<exists>S'. rbind (trySendToBkThread ef ?c1) (put (S\<lparr>inbox := []\<rparr>)) = Inr S' \<and> delivered S S'"
        by (rule resend_delivered [OF order])
          (use cnt nv e f in \<open>auto simp: counts_ok_def same_expected_def goods_def todo_def sharesof_def\<close>)
      moreover have "cstep ef EvDeliver S = rbind (trySendToBkThread ef ?c1) (put (S\<lparr>inbox := []\<rparr>))"
        using box e mo VerifyCombinedSigResult False pr nv f
        by (simp add: onCompletionOfCombinedSigVerification_def assert_completion_def)
      ultimately show ?thesis by simp
    qed
  qed
qed

text \<open>What the collector knows after the events \<open>es\<close>.\<close>

definition tracks :: "('p, 'f) cevent list \<Rightarrow> ('p, 'f) csys \<Rightarrow> bool" where
  "tracks es S \<longleftrightarrow> pinv S \<and>
     (\<forall>(r, x) \<in> set (sharesof (col S)). \<exists>p. x = Some p \<and> EvPartial p r \<in> set es) \<and>
     (combinedValidSignatureMsg (col S) = None \<longrightarrow> (\<forall>p r. EvPartial p r \<in> set es \<longrightarrow> r \<in> fst ` set (sharesof (col S)))) \<and>
     length (sharesof (col S)) \<le> length es \<and>
     (case expected_events es of [] \<Rightarrow> expectedSeqNumber (col S) = 0
      | (s, v, d) # _ \<Rightarrow> expectedSeqNumber (col S) = s \<and> expectedView (col S) = v \<and> expectedDigest (col S) = d)"

lemma tracks_new: "tracks [] csys_new"
  using pinv_new by (simp add: tracks_def csys_new_def collector_new_def sharesof_def)

lemma cstep_total:
  assumes "pinv S" and order: "\<forall>xs. mset (infoOrder ef xs) = mset xs" and e: "cevent_proper ef vf proper e"
    and "expected_events [e] \<noteq> [] \<longrightarrow> expectedSeqNumber (col S) = 0"
  shows "\<exists>S'. cstep ef e S = Inr S' \<and> pinv S' \<and> (e = EvDeliver \<longrightarrow> sharesof (col S') = sharesof (col S) \<and> same_expected (col S) (col S'))"
proof (cases e)
  case (EvPartial p r)
  show ?thesis using step_partial [OF assms(1) order, of r p] e EvPartial by auto
next
  case (EvCombined f)
  show ?thesis using step_combined [OF assms(1) order, of f] e EvCombined by auto
next
  case (EvExpected s v d)
  show ?thesis using step_expected [OF assms(1) order, of s v d] e EvExpected assms(4) by auto
next
  case EvJob
  show ?thesis using step_job [OF assms(1)] EvJob by blast
next
  case EvDeliver
  show ?thesis
  proof (cases "inbox S")
    case Nil
    then show ?thesis using assms(1) EvDeliver by (simp add: same_expected_def)
  next
    case (Cons m ms)
    show ?thesis using step_deliver [OF assms(1) order Cons] EvDeliver by (auto simp: delivered_def)
  qed
qed

lemma tracks_step:
  assumes tr: "tracks es S" and order: "\<forall>xs. mset (infoOrder ef xs) = mset xs" and e: "cevent_proper ef vf proper e"
    and one: "length (expected_events (es @ [e])) \<le> 1"
  shows "\<exists>S'. cstep ef e S = Inr S' \<and> tracks (es @ [e]) S'"
proof -
  have pi: "pinv S" and ci: "cinv ef S" using tr by (simp_all add: tracks_def pinv_def)
  have "expected_events [e] \<noteq> [] \<longrightarrow> expected_events es = []" using one by (cases "expected_events es") (auto simp: Suc_le_eq)
  then have "expected_events [e] \<noteq> [] \<longrightarrow> expectedSeqNumber (col S) = 0" using tr by (auto simp: tracks_def)
  from cstep_total [OF pi order e this] obtain S' where st: "cstep ef e S = Inr S'" and pi': "pinv S'"
    and del: "e = EvDeliver \<longrightarrow> sharesof (col S') = sharesof (col S) \<and> same_expected (col S) (col S')" by blast
  let ?new = "case e of EvPartial p r \<Rightarrow>
         if combinedValidSignatureMsg (col S) \<noteq> None \<or> hasPartialMsgFromReplica (col S) r then [] else [(r, Some p)]
       | _ \<Rightarrow> []"
  have sh: "sharesof (col S') = sharesof (col S) @ ?new"
    using del cstep_infos(1) [OF st] by (cases "e = EvDeliver") simp_all
  have ex: "case e of EvExpected s v d \<Rightarrow> expectedSeqNumber (col S') = s \<and> expectedView (col S') = v \<and> expectedDigest (col S') = d
       | _ \<Rightarrow> same_expected (col S) (col S')"
    using del cstep_infos(2) [OF st] by (cases "e = EvDeliver") simp_all
  have keys: "hasPartialMsgFromReplica (col S) r \<longleftrightarrow> r \<in> fst ` set (sharesof (col S))" for r
    by (simp add: hasPartialMsgFromReplica_def sharesof_def image_image split_beta)
  have "\<forall>(r, x) \<in> set (sharesof (col S')). \<exists>p. x = Some p \<and> EvPartial p r \<in> set (es @ [e])"
  proof (intro ballI)
    fix x assume x: "x \<in> set (sharesof (col S'))"
    have old: "\<forall>(r, x) \<in> set (sharesof (col S)). \<exists>p. x = Some p \<and> EvPartial p r \<in> set es" using tr by (simp add: tracks_def)
    show "case x of (r, x) \<Rightarrow> \<exists>p. x = Some p \<and> EvPartial p r \<in> set (es @ [e])"
    proof (cases "x \<in> set (sharesof (col S))")
      case True
      then show ?thesis using old by auto
    next
      case False
      then have "x \<in> set ?new" using x unfolding sh by simp
      then show ?thesis by (cases e) (auto split: if_splits)
    qed
  qed
  moreover have "\<forall>p r. EvPartial p r \<in> set (es @ [e]) \<longrightarrow> r \<in> fst ` set (sharesof (col S'))"
    if "combinedValidSignatureMsg (col S') = None"
  proof -
    have "combinedValidSignatureMsg (col S) = None"
      using cstep_complete_stays [OF ci _ st] that by (cases "combinedValidSignatureMsg (col S)") auto
    then have "\<forall>p r. EvPartial p r \<in> set es \<longrightarrow> r \<in> fst ` set (sharesof (col S))" using tr by (simp add: tracks_def)
    then show ?thesis using \<open>combinedValidSignatureMsg (col S) = None\<close> keys unfolding sh by (cases e) auto
  qed
  moreover have "length (sharesof (col S')) \<le> length (es @ [e])"
    using tr unfolding sh tracks_def by (cases e) auto
  moreover have "case expected_events (es @ [e]) of [] \<Rightarrow> expectedSeqNumber (col S') = 0
      | (s, v, d) # _ \<Rightarrow> expectedSeqNumber (col S') = s \<and> expectedView (col S') = v \<and> expectedDigest (col S') = d"
    using tr ex \<open>expected_events [e] \<noteq> [] \<longrightarrow> expected_events es = []\<close> unfolding tracks_def
    by (cases e; cases "expected_events es") (auto simp: same_expected_def)
  ultimately show ?thesis using st pi' by (auto simp: tracks_def)
qed

lemma crun_tracks:
  assumes order: "\<forall>xs. mset (infoOrder ef xs) = mset xs" and "\<forall>e \<in> set es. cevent_proper ef vf proper e"
    and "length (expected_events es) \<le> 1"
  shows "\<exists>S. crun ef es csys_new = Inr S \<and> tracks es S"
  using assms(2,3)
proof (induction es rule: rev_induct)
  case Nil
  then show ?case using tracks_new by simp
next
  case (snoc e es)
  then obtain S where S: "crun ef es csys_new = Inr S" "tracks es S" by auto
  from tracks_step [OF S(2) order _ snoc.prems(2)] snoc.prems(1) obtain S' where
    "cstep ef e S = Inr S'" "tracks (es @ [e]) S'" by auto
  then show ?case using S(1) by (auto simp: crun_append)
qed

lemma goods_unknown:
  assumes "counts_ok c"
  shows "card (goods c) \<le> length (unknown_infos (replicasInfo c))"
proof -
  have "goods c \<subseteq> fst ` set (unknown_infos (replicasInfo c))"
  proof
    fix r assume "r \<in> goods c"
    then obtain i where i: "(r, i) \<in> set (replicasInfo c)" "good (expectedDigest c) r (partSignature ef (the (partialSigMsg i)))"
      by (auto simp: goods_def)
    then have "sigState i \<noteq> Invalid" using assms by (auto simp: counts_ok_def)
    then have "sigState i = Unknown" by (cases "sigState i") auto
    then show "r \<in> fst ` set (unknown_infos (replicasInfo c))" using i(1) by (force simp: unknown_infos_def)
  qed
  then have "card (goods c) \<le> card (fst ` set (unknown_infos (replicasInfo c)))" by (intro card_mono) simp_all
  also have "\<dots> \<le> length (unknown_infos (replicasInfo c))" by (metis card_length length_map list.set_map)
  finally show ?thesis .
qed

lemma settle_completes:
  assumes order: "\<forall>xs. mset (infoOrder ef xs) = mset xs"
    and "pinv S" "expectedSeqNumber (col S) \<noteq> 0" "req \<le> card (goods (col S))"
    and "combinedValidSignatureMsg (col S) \<noteq> None \<or> todo (col S) \<le> n"
  shows "\<exists>S'. crun ef (settle n) S = Inr S' \<and> combinedValidSignatureMsg (col S') \<noteq> None"
  using assms(2-)
proof (induction n arbitrary: S)
  case 0
  have "card (goods (col S)) \<le> todo (col S)"
    using goods_unknown [of "col S"] 0(1) by (simp add: pinv_def todo_def)
  then have "combinedValidSignatureMsg (col S) \<noteq> None" using 0 req_pos by auto
  then show ?case by (simp add: settle_def)
next
  case (Suc n)
  have ci: "cinv ef S" and cnt: "counts_ok (col S)" using Suc.prems(1) by (simp_all add: pinv_def)
  show ?case
  proof (cases "processingSignaturesInTheBackground (col S)")
    case False
    then have e: "jobs S = []" "inbox S = []" using ci by (auto simp: cinv_def)
    have "\<not> length (unknown_infos (replicasInfo (col S))) < req"
      using goods_unknown [OF cnt] Suc.prems(3) by linarith
    moreover have "numberOfUnknownSignatures (col S) = length (unknown_infos (replicasInfo (col S)))"
      using cnt by (simp add: counts_ok_def)
    ultimately have "combinedValidSignatureMsg (col S) \<noteq> None" using Suc.prems(1,2) False by (auto simp: pinv_def)
    then show ?thesis using Suc.IH [OF Suc.prems(1,2,3)] e by (simp add: settle_Suc)
  next
    case True
    from step_job [OF Suc.prems(1)] obtain S1 where S1: "cstep ef EvJob S = Inr S1" "pinv S1" "col S1 = col S" "jobs S1 = []"
      by blast
    then obtain m ms where box: "inbox S1 = m # ms" using True by (cases "inbox S1") (auto simp: pinv_def cinv_def)
    from step_deliver [OF S1(2) order box] obtain S2 where S2: "cstep ef EvDeliver S1 = Inr S2" "delivered S1 S2" by blast
    have "\<exists>S'. crun ef (settle n) S2 = Inr S' \<and> combinedValidSignatureMsg (col S') \<noteq> None"
      by (rule Suc.IH) (use S2(2) S1(3) Suc.prems True ci in \<open>auto simp: delivered_def same_expected_def cinv_def\<close>)
    then show ?thesis using S1 S2 by (auto simp: settle_Suc)
  qed
qed

lemma crun_completes:
  assumes order: "\<forall>xs. mset (infoOrder ef xs) = mset xs" and pr: "\<forall>e \<in> set es. cevent_proper ef vf proper e"
    and ex: "expected_events es = [(s, v, d)]"
    and H: "finite H" "req \<le> card H" "\<forall>r \<in> H. \<exists>p. EvPartial p r \<in> set es"
      "\<forall>r p. r \<in> H \<longrightarrow> EvPartial p r \<in> set es \<longrightarrow> good d r (partSignature ef p)"
  shows "\<exists>S. crun ef (es @ settle (Suc (length es))) csys_new = Inr S \<and> combinedValidSignatureMsg (col S) \<noteq> None"
proof -
  have len: "length (expected_events es) \<le> 1" using ex by simp
  from crun_tracks [OF order pr len] obtain S where S: "crun ef es csys_new = Inr S" and tr: "tracks es S" by blast
  have pi: "pinv S" using tr by (simp add: tracks_def)
  have exp: "expectedSeqNumber (col S) = s" "expectedDigest (col S) = d" using tr ex by (simp_all add: tracks_def)
  have "EvExpected s v d \<in> set es" using ex by (induction es rule: expected_events.induct) auto
  then have s0: "s \<noteq> 0" using pr by fastforce
  have "\<exists>S'. crun ef (settle (Suc (length es))) S = Inr S' \<and> combinedValidSignatureMsg (col S') \<noteq> None"
  proof (cases "combinedValidSignatureMsg (col S)")
    case None
    have "H \<subseteq> goods (col S)"
    proof
      fix r assume r: "r \<in> H"
      with H(3) obtain p where "EvPartial p r \<in> set es" by blast
      then have "r \<in> fst ` set (sharesof (col S))" using tr None by (auto simp: tracks_def)
      then obtain i where i: "(r, i) \<in> set (replicasInfo (col S))" by (auto simp: sharesof_def)
      then have "(r, partialSigMsg i) \<in> set (sharesof (col S))" by (force simp: sharesof_def)
      then obtain q where "partialSigMsg i = Some q" "EvPartial q r \<in> set es" using tr by (auto simp: tracks_def)
      then show "r \<in> goods (col S)" using i exp(2) H(4) r by (auto simp: goods_def)
    qed
    moreover have "finite (goods (col S))"
      by (rule finite_subset [of _ "fst ` set (replicasInfo (col S))"]) (force simp: goods_def)+
    ultimately have "card H \<le> card (goods (col S))" by (intro card_mono)
    moreover have "length (replicasInfo (col S)) \<le> length es" using tr by (simp add: tracks_def sharesof_def)
    then have "todo (col S) \<le> Suc (length es)" using unknown_le [of "replicasInfo (col S)"] by (simp add: todo_def)
    ultimately show ?thesis using settle_completes [OF order pi] exp s0 H(2) by simp
  next
    case (Some f)
    have idle: "crun ef (settle n) S = Inr S" for n
    proof (induction n)
      case (Suc n)
      have "jobs S = []" "inbox S = []" using pi Some by (auto simp: pinv_def cinv_def split: if_splits)
      then show ?case using Suc by (simp add: settle_Suc)
    qed (simp add: settle_def)
    show ?thesis using idle Some by simp
  qed
  then show ?thesis using S by (auto simp: crun_append)
qed

end

end
