(* ===== verification/Client_Msgs.thy ===== *)
theory Client_Msgs
  imports Consensus_Msgs
begin

text \<open>
  bftengine/src/bftengine/messages/ClientRequestMsg.{hpp,cpp} and ClientReplyMsg.{hpp,cpp}, with the headers of
  bftengine/include/bftengine/ClientMsgs.hpp.
\<close>

section \<open>ClientRequestMsg\<close>

text \<open>\<^verbatim>\<open>MsgFlag\<close> of bftengine/include/bftengine/Replica.hpp: the flags are bits.\<close>

definition READ_ONLY_BIT :: nat where "READ_ONLY_BIT = 0"
definition HAS_PRE_PROCESSED_BIT :: nat where "HAS_PRE_PROCESSED_BIT = 2"
definition KEY_EXCHANGE_BIT :: nat where "KEY_EXCHANGE_BIT = 3"
definition RECONFIG_BIT :: nat where "RECONFIG_BIT = 5"
definition INTERNAL_BIT :: nat where "INTERNAL_BIT = 6"

record ClientRequest =
  rq_client :: nat
  rq_flags :: nat
  rq_result :: nat
  rq_seqNum :: nat
  rq_timeout :: nat
  rq_indexInBatch :: nat
  rq_span :: bytes
  rq_request :: bytes
  rq_cid :: bytes
  rq_signature :: bytes
  rq_extra :: bytes

text \<open>
  The layout of a request: the header of 52 bytes, then the span context, the request, the correlation id, the signature and the
  extra data. The constructor asserts that the pointer to the signature is null exactly if its length is zero; a
  signature that is given as a list of bytes satisfies this.
\<close>

definition req_header :: "ClientRequest \<Rightarrow> bytes" where
  "req_header r =
     header_bytes (msg_code McClientRequest) (length (rq_span r)) @ le_bytes 2 (rq_client r) @ le_bytes 8 (rq_flags r) @
     le_bytes 4 (rq_result r) @ le_bytes 8 (rq_seqNum r) @ le_bytes 4 (length (rq_request r)) @ le_bytes 8 (rq_timeout r) @
     le_bytes 4 (length (rq_cid r)) @ le_bytes 2 (length (rq_signature r)) @ le_bytes 4 (length (rq_extra r)) @
     le_bytes 2 (rq_indexInBatch r)"

definition req_bytes :: "ClientRequest \<Rightarrow> bytes" where
  "req_bytes r = req_header r @ rq_span r @ rq_request r @ rq_cid r @ rq_signature r @ rq_extra r"

definition ClientRequestMsg_new :: "ClientRequest \<Rightarrow> MessageBase" where
  "ClientRequestMsg_new r = MessageBase_of (rq_client r) (req_bytes r) True"

text \<open>The constructor without a request, which clears all flags but one of a zeroed header.\<close>

definition ClientRequestMsg_empty :: "nat \<Rightarrow> MessageBase result" where
  "ClientRequestMsg_empty src =
     rbind (MessageBase_new src (msg_code McClientRequest) 0 52) (\<lambda>m.
       rbind (rd 8 8 (msgBody m)) (\<lambda>fl. rbind (wr 8 (le_bytes 8 (and fl 16)) (msgBody m)) (\<lambda>b. Inr (m\<lparr>msgBody := b\<rparr>))))"

text \<open>
  \<^verbatim>\<open>compRequestMsgSize\<close> of the request at position \<open>pos\<close>: the sum is 64 bits wide and is returned as \<^verbatim>\<open>int32_t\<close>, then
  converted to \<^verbatim>\<open>uint32_t\<close>.
\<close>

definition compRequestMsgSize :: "bytes \<Rightarrow> nat \<Rightarrow> nat result" where
  "compRequestMsgSize buf pos =
     rbind (rd (pos + 2) 4 buf) (\<lambda>sp. rbind (rd (pos + 28) 4 buf) (\<lambda>len. rbind (rd (pos + 40) 4 buf) (\<lambda>cid.
     rbind (rd (pos + 44) 2 buf) (\<lambda>sig. rbind (rd (pos + 46) 4 buf) (\<lambda>extra. Inr (u32 (52 + sp + len + cid + sig + extra)))))))"

text \<open>
  A request inside another message: the constructor from a header keeps a pointer to the bytes at \<open>pos\<close>. Its body is modelled by
  the rest of the buffer, so that reads past the request are still reads inside the buffer.
\<close>

definition ClientRequestMsg_at :: "bytes \<Rightarrow> nat \<Rightarrow> MessageBase result" where
  "ClientRequestMsg_at buf pos =
     rbind (rd (pos + 6) 2 buf) (\<lambda>client. rbind (compRequestMsgSize buf pos) (\<lambda>n.
       Inr \<lparr>msgBody = drop pos buf, msgSize = n, storageSize = n, sender = client, owner = False\<rparr>))"

definition req_flags :: "MessageBase \<Rightarrow> nat result" where
  "req_flags m = rd 8 8 (msgBody m)"

definition req_isReadOnly :: "MessageBase \<Rightarrow> bool result" where
  "req_isReadOnly m = rpred (req_flags m) (\<lambda>fl. bit fl READ_ONLY_BIT)"

definition req_requestSeqNum :: "MessageBase \<Rightarrow> nat result" where
  "req_requestSeqNum m = rd 20 8 (msgBody m)"

definition req_requestLength :: "MessageBase \<Rightarrow> nat result" where
  "req_requestLength m = rd 28 4 (msgBody m)"

definition req_cidLength :: "MessageBase \<Rightarrow> nat result" where
  "req_cidLength m = rd 40 4 (msgBody m)"

definition req_signatureLength :: "MessageBase \<Rightarrow> nat result" where
  "req_signatureLength m = rd 44 2 (msgBody m)"

definition req_requestBuf :: "MessageBase \<Rightarrow> bytes result" where
  "req_requestBuf m = rbind (spanContextSize m) (\<lambda>sp. rbind (req_requestLength m) (\<lambda>l. rd_bytes (52 + sp) l (msgBody m)))"

definition req_getCid :: "MessageBase \<Rightarrow> bytes result" where
  "req_getCid m =
     rbind (spanContextSize m) (\<lambda>sp. rbind (req_requestLength m) (\<lambda>l. rbind (req_cidLength m) (\<lambda>c. rd_bytes (52 + l + sp) c (msgBody m))))"

text \<open>\<^verbatim>\<open>requestSignature()\<close>, with the bytes the pointer is used for.\<close>

definition req_signature :: "MessageBase \<Rightarrow> bytes option result" where
  "req_signature m =
     rbind (req_signatureLength m) (\<lambda>n. if n > 0
       then rbind (spanContextSize m) (\<lambda>sp. rbind (req_requestLength m) (\<lambda>l. rbind (req_cidLength m) (\<lambda>c.
              rbind (rd_bytes (52 + sp + l + c) n (msgBody m)) (\<lambda>s. Inr (Some s)))))
       else Inr None)"

definition req_shouldValidateAsync :: "MessageBase \<Rightarrow> bool result" where
  "req_shouldValidateAsync m = rpred (req_flags m) (\<lambda>fl. \<not> (bit fl RECONFIG_BIT \<or> bit fl KEY_EXCHANGE_BIT \<or> bit fl INTERNAL_BIT))"

text \<open>The expected length of the signature and whether it is verified.\<close>

definition req_expected_sig :: "MsgEnv \<Rightarrow> ReplicasInfo \<Rightarrow> nat \<Rightarrow> nat \<Rightarrow> nat \<Rightarrow> nat \<Rightarrow> (nat \<times> bool) result" where
  "req_expected_sig env repInfo client fl requestLength sigLen =
     (if isIdOfExternalClient repInfo client
      then if bit fl RECONFIG_BIT then Inr (sigLen, False)
           else if clientTransactionSigning env
           then if requestLength = 0 then Inr (0, False)
                else let e = u16 (sigLength env client)
                     in if e = 0 then Inl RuntimeError else Inr (e, \<not> bit fl HAS_PRE_PROCESSED_BIT)
           else Inr (0, False)
      else Inr (0, False))"

definition ClientRequestMsg_validateImp :: "MsgEnv \<Rightarrow> ReplicasInfo \<Rightarrow> MessageBase \<Rightarrow> unit result" where
  "ClientRequestMsg_validateImp env repInfo m =
     throw_if (shorter m 52)
      (rbind (rd 6 2 (msgBody m)) (\<lambda>client. rbind (req_flags m) (\<lambda>fl. rbind (spanContextSize m) (\<lambda>sp.
       c_assert (\<not> (\<not> bit fl RECONFIG_BIT \<and> \<not> bit fl INTERNAL_BIT) \<or> sender m \<noteq> myId repInfo)
       (rbind (req_cidLength m) (\<lambda>cid. rbind (req_signatureLength m) (\<lambda>sigLen. rbind (req_requestLength m) (\<lambda>len.
        rbind (rd 46 4 (msgBody m)) (\<lambda>extra.
         let minMsgSize = 52 + cid + sp + sigLen
         in if msgSize m < minMsgSize then Inl RuntimeError
            else if (bit fl RECONFIG_BIT \<or> bit fl INTERNAL_BIT) \<and> (isIdOfReplica repInfo client \<or> isIdOfPeerRoReplica repInfo client)
            then Inr ()
            else if \<not> isValidPrincipalId repInfo client then Inl RuntimeError
            else if \<not> isValidPrincipalId repInfo (sender m) then Inl RuntimeError
            else rbind (req_expected_sig env repInfo client fl len sigLen) (\<lambda>(expectedSigLen, doSigVerify).
              if expectedSigLen \<noteq> sigLen then Inl RuntimeError
              else let expectedMsgSize = 52 + len + cid + sp + expectedSigLen + extra
                   in if msgSize m < minMsgSize \<or> msgSize m \<noteq> expectedMsgSize then Inl RuntimeError
                      else if doSigVerify
                      then throw_if (rbind (req_requestBuf m) (\<lambda>rq. rbind (req_signature m) (\<lambda>s.
                             Inr (\<not> verifySig env client rq (case s of None \<Rightarrow> [] | Some x \<Rightarrow> x)))))
                            (Inr ())
                      else Inr ()))))))))))"

section \<open>ClientReplyMsg\<close>

definition reply_header :: "nat \<Rightarrow> nat \<Rightarrow> nat \<Rightarrow> nat \<Rightarrow> bytes" where
  "reply_header primaryId reqSeqNum replyLength res =
     header_bytes (msg_code McClientReply) 0 @ le_bytes 2 primaryId @ le_bytes 8 reqSeqNum @ le_bytes 4 res @
     le_bytes 4 replyLength @ le_bytes 4 0"

text \<open>The four constructors; the first one reserves a buffer of the maximal size.\<close>

definition ClientReplyMsg_reserve :: "MsgEnv \<Rightarrow> ReplicaId \<Rightarrow> nat \<Rightarrow> ReplicaId \<Rightarrow> MessageBase result" where
  "ClientReplyMsg_reserve env primaryId reqSeqNum replicaId =
     setMsgSize 28 (MessageBase_of replicaId (reply_header primaryId reqSeqNum 0 0 @ replicate (maxMessageSize env - 28) 0) True)"

definition ClientReplyMsg_new :: "ReplicaId \<Rightarrow> nat \<Rightarrow> bytes \<Rightarrow> nat \<Rightarrow> MessageBase" where
  "ClientReplyMsg_new replicaId reqSeqNum reply res =
     MessageBase_of replicaId (reply_header 0 reqSeqNum (length reply) res @ reply) True"

definition ClientReplyMsg_blank :: "ReplicaId \<Rightarrow> nat \<Rightarrow> nat \<Rightarrow> MessageBase" where
  "ClientReplyMsg_blank replicaId replyLength res =
     MessageBase_of replicaId (reply_header 0 0 replyLength res @ replicate replyLength 0) True"

definition ClientReplyMsg_error :: "ReplicaId \<Rightarrow> nat \<Rightarrow> ReplicaId \<Rightarrow> nat \<Rightarrow> MessageBase" where
  "ClientReplyMsg_error primaryId reqSeqNum replicaId res =
     MessageBase_of replicaId (reply_header primaryId reqSeqNum 0 res) True"

definition reply_replyLength :: "MessageBase \<Rightarrow> nat result" where
  "reply_replyLength m = rd 20 4 (msgBody m)"

definition reply_maxReplyLength :: "MessageBase \<Rightarrow> nat" where
  "reply_maxReplyLength m = u32 (storageSize m + (2 ^ 32 - 28))"

definition reply_replyBuf :: "MessageBase \<Rightarrow> bytes result" where
  "reply_replyBuf m = rbind (reply_replyLength m) (\<lambda>n. rd_bytes 28 n (msgBody m))"

definition reply_setReplyLength :: "nat \<Rightarrow> MessageBase \<Rightarrow> MessageBase result" where
  "reply_setReplyLength n m =
     c_assert (n \<le> reply_maxReplyLength m)
       (rbind (wr 20 (le_bytes 4 n) (msgBody m)) (\<lambda>b. setMsgSize (u32 (28 + n)) (m\<lparr>msgBody := b\<rparr>)))"

definition reply_setReplicaSpecificInfoLength :: "nat \<Rightarrow> MessageBase \<Rightarrow> MessageBase result" where
  "reply_setReplicaSpecificInfoLength n m =
     c_assert (n \<le> reply_maxReplyLength m) (rbind (wr 24 (le_bytes 4 n) (msgBody m)) (\<lambda>b. Inr (m\<lparr>msgBody := b\<rparr>)))"

definition reply_setPrimaryId :: "ReplicaId \<Rightarrow> MessageBase \<Rightarrow> MessageBase result" where
  "reply_setPrimaryId p m = rbind (wr 6 (le_bytes 2 p) (msgBody m)) (\<lambda>b. Inr (m\<lparr>msgBody := b\<rparr>))"

text \<open>The sum in the comparison is an \<^verbatim>\<open>uint32_t\<close>.\<close>

definition ClientReplyMsg_validate :: "MessageBase \<Rightarrow> unit result" where
  "ClientReplyMsg_validate m = throw_if (rpred (reply_replyLength m) (\<lambda>n. msgSize m < u32 (28 + n))) (Inr ())"

text \<open>\<^verbatim>\<open>debugHash\<close>: the exclusive or of the reply as 64-bit words, the first of which may be shorter.\<close>

fun xor_words :: "nat \<Rightarrow> bytes \<Rightarrow> nat \<Rightarrow> nat" where
  "xor_words 0 bs acc = acc"
| "xor_words (Suc k) bs acc = xor_words k (drop 8 bs) (xor acc (le_nat (take 8 bs)))"

definition reply_debugHash :: "MessageBase \<Rightarrow> nat result" where
  "reply_debugHash m =
     rbind (reply_replyLength m) (\<lambda>replyLen. c_assert (replyLen > 0)
       (let firstWordLen = (if replyLen mod 8 = 0 then 8 else replyLen mod 8)
        in c_assert ((replyLen - firstWordLen) mod 8 = 0)
            (let numberOfWords = (replyLen - firstWordLen) div 8 + 1
             in rbind (reply_replyBuf m) (\<lambda>buf.
                  Inr (xor_words (numberOfWords - 1) (drop firstWordLen buf) (le_nat (take firstWordLen buf)))))))"

section \<open>Validated requests\<close>

lemmas req_defs = req_flags_def req_requestLength_def req_cidLength_def req_signatureLength_def req_requestBuf_def req_signature_def

lemma ClientRequestMsg_no_overread: "net_msg m \<Longrightarrow> no_overread (ClientRequestMsg_validateImp env ri m)"
  by (cases "msgSize m < 52 + span_of m")
    (auto simp: ClientRequestMsg_validateImp_def net_simps req_defs req_expected_sig_def Let_def)

text \<open>
  C12. When client transactions are signed, a request of an external client that was accepted and is neither a reconfiguration request nor
  marked as pre-processed nor empty carries a signature of that client on the request; validating it reads only its bytes.
\<close>

theorem client_request_authentic:
  assumes m: "net_msg m" and v: "ClientRequestMsg_validateImp env ri m = Inr ()" and sign: "clientTransactionSigning env"
    and client: "rd 6 2 (msgBody m) = Inr c" "isIdOfExternalClient ri c" "\<not> isIdOfReplica ri c" "\<not> isIdOfPeerRoReplica ri c"
    and fl: "req_flags m = Inr fl" "\<not> bit fl RECONFIG_BIT" "\<not> bit fl HAS_PRE_PROCESSED_BIT"
    and len: "req_requestLength m = Inr n" "0 < n"
  shows "\<exists>rq sig. req_requestBuf m = Inr rq \<and> length rq = n \<and> req_signature m = Inr (Some sig) \<and> verifySig env c rq sig"
proof -
  have s: "52 + span_of m \<le> msgSize m"
    using v by (cases "msgSize m < 52 + span_of m") (auto simp: ClientRequestMsg_validateImp_def net_simps [OF m])
  let ?cid = "fld 40 4 (msgBody m)" and ?sl = "fld 44 2 (msgBody m)" and ?x = "fld 46 4 (msgBody m)"
  have rds: "req_cidLength m = Inr ?cid" "req_signatureLength m = Inr ?sl" "rd 46 4 (msgBody m) = Inr ?x"
    using s by (simp_all add: req_defs net_simps [OF m])
  have v': "u16 (sigLength env c) \<noteq> 0" "u16 (sigLength env c) = ?sl" "msgSize m = 52 + n + ?cid + span_of m + ?sl + ?x"
    "\<exists>rq s. req_requestBuf m = Inr rq \<and> req_signature m = Inr s \<and> verifySig env c rq (case s of None \<Rightarrow> [] | Some x \<Rightarrow> x)"
    using v s client fl sign len rds
    by (auto simp: ClientRequestMsg_validateImp_def net_simps [OF m] req_expected_sig_def Let_def split: if_splits)
  have "req_requestBuf m = Inr (take n (drop (52 + span_of m) (msgBody m)))"
    using v'(3) len by (simp add: req_requestBuf_def net_simps [OF m])
  moreover have "length (take n (drop (52 + span_of m) (msgBody m))) = n" using v'(3) m by (simp add: net_msg_def)
  moreover have "req_signature m = Inr (Some (take ?sl (drop (52 + span_of m + n + ?cid) (msgBody m))))"
    using v'(1,2,3) len rds by (simp add: req_signature_def net_simps [OF m])
  ultimately show ?thesis using v'(4) by auto
qed

text \<open>The fields of a request at a position of a buffer.\<close>

definition req_fits :: "ClientRequest \<Rightarrow> bool" where
  "req_fits r \<longleftrightarrow> length (req_bytes r) < 2 ^ 32 \<and> length (rq_signature r) < 65536 \<and> rq_client r < 65536 \<and> rq_flags r < 2 ^ 64 \<and>
     rq_seqNum r < 2 ^ 64"

lemma length_req_header [simp]: "length (req_header r) = 52"
  by (simp add: req_header_def)

lemma length_req_bytes: "length (req_bytes r) =
    52 + length (rq_span r) + length (rq_request r) + length (rq_cid r) + length (rq_signature r) + length (rq_extra r)"
  by (simp add: req_bytes_def)

lemma req_at_fields:
  assumes "buf = pre @ req_bytes r @ rest" "req_fits r"
  shows "rd (length pre + 2) 4 buf = Inr (length (rq_span r))" "rd (length pre + 28) 4 buf = Inr (length (rq_request r))"
    "rd (length pre + 40) 4 buf = Inr (length (rq_cid r))" "rd (length pre + 44) 2 buf = Inr (length (rq_signature r))"
    "rd (length pre + 46) 4 buf = Inr (length (rq_extra r))" "rd (length pre + 6) 2 buf = Inr (rq_client r)"
    "rd (length pre + 8) 8 buf = Inr (rq_flags r)" "rd (length pre + 20) 8 buf = Inr (rq_seqNum r)"
proof -
  have l: "length buf = length pre + 52 + length (rq_span r) + length (rq_request r) + length (rq_cid r) +
      length (rq_signature r) + length (rq_extra r) + length rest"
    using assms(1) by (simp add: length_req_bytes)
  have s: "length (rq_span r) < 4294967296" "length (rq_request r) < 4294967296" "length (rq_cid r) < 4294967296"
    "length (rq_extra r) < 4294967296" "length (rq_signature r) < 65536" "rq_client r < 65536"
    "rq_flags r < 18446744073709551616" "rq_seqNum r < 18446744073709551616"
    using assms(2) by (simp_all add: req_fits_def length_req_bytes)
  note d = assms(1) req_bytes_def req_header_def header_bytes_def fld_simps
  show "rd (length pre + 2) 4 buf = Inr (length (rq_span r))" "rd (length pre + 28) 4 buf = Inr (length (rq_request r))"
    "rd (length pre + 40) 4 buf = Inr (length (rq_cid r))" "rd (length pre + 44) 2 buf = Inr (length (rq_signature r))"
    "rd (length pre + 46) 4 buf = Inr (length (rq_extra r))" "rd (length pre + 6) 2 buf = Inr (rq_client r)"
    "rd (length pre + 8) 8 buf = Inr (rq_flags r)" "rd (length pre + 20) 8 buf = Inr (rq_seqNum r)"
    using l s by (simp_all add: rd_fld, simp_all add: d)
qed

lemma compRequestMsgSize_at:
  assumes "buf = pre @ req_bytes r @ rest" "req_fits r"
  shows "compRequestMsgSize buf (length pre) = Inr (length (req_bytes r))"
  using req_at_fields [OF assms] assms(2)
  by (simp add: compRequestMsgSize_def length_req_bytes req_fits_def)

theorem client_request_authentic_witness:
  "\<exists>m rq sig. m = ClientRequestMsg_new \<lparr>rq_client = 20, rq_flags = 0, rq_result = 1, rq_seqNum = 5, rq_timeout = 0, rq_indexInBatch = 0,
       rq_span = [], rq_request = [7, 7, 7], rq_cid = [], rq_signature = [1, 2], rq_extra = []\<rparr> \<and>
     req_requestBuf m = Inr rq \<and> length rq = 3 \<and> req_signature m = Inr (Some sig) \<and> verifySig example_env 20 rq sig"
proof -
  define r where "r = \<lparr>rq_client = 20, rq_flags = 0, rq_result = 1, rq_seqNum = 5, rq_timeout = 0, rq_indexInBatch = 0,
       rq_span = [], rq_request = [7, 7, 7], rq_cid = [], rq_signature = [1, 2], rq_extra = []\<rparr>"
  define m where "m = ClientRequestMsg_new r"
  obtain ri where ri: "ReplicasInfo_new (example_config True) True True = Inr ri"
    by (auto simp: ReplicasInfo_new_def example_config_def)
  note ids = ReplicasInfo_ids [OF ri]
  have ids: "isIdOfExternalClient ri 20" "\<not> isIdOfReplica ri 20" "\<not> isIdOfPeerRoReplica ri 20" "isValidPrincipalId ri 20" "myId ri = 2"
    using ids by (simp_all add: example_config_def config_fits_def)
  have b: "msgBody m = [] @ req_bytes r @ []" "sender m = 20" "msgSize m = 57"
    by (simp_all add: m_def ClientRequestMsg_new_def MessageBase_of_def length_req_bytes r_def)
  have fit: "req_fits r" by (simp add: req_fits_def length_req_bytes r_def)
  note f = req_at_fields [OF b(1) fit]
  have net: "net_msg m" by (simp add: m_def ClientRequestMsg_new_def MessageBase_of_def net_msg_def length_req_bytes header_size_def)
  have sp: "span_of m = 0" using f(1) by (simp add: rd_Inr r_def numeral_2_eq_2)
  have buf: "req_requestBuf m = Inr [7, 7, 7]" "req_signature m = Inr (Some [1, 2])"
    using f b(3) net sp by (simp_all add: req_requestBuf_def req_signature_def req_defs(2-4) net_simps,
        simp_all add: r_def b req_bytes_def req_header_def header_bytes_def rd_bytes_def)
  have "ClientRequestMsg_validateImp example_env ri m = Inr ()"
    using f b ids net sp buf
    by (simp add: ClientRequestMsg_validateImp_def net_simps req_defs(1-4) req_expected_sig_def example_env_def r_def)
  from client_request_authentic [OF net this _ _ ids(1-3)] f
  show ?thesis by (auto simp: r_def m_def req_defs(1,2) example_env_def)
qed

section \<open>Reply lengths\<close>

text \<open>
  \<^verbatim>\<open>ClientReplyMsg::validate\<close> adds the reply length to the size of the header in 32 bits: a header that claims a reply of
  at least \<open>2 ^ 32 - 28\<close> bytes is accepted, and the reply buffer is then read past the end of the message.
\<close>

theorem reply_length_wraps:
  assumes "2 ^ 32 - 28 \<le> n" "n < 2 ^ 32"
  shows "ClientReplyMsg_validate (MessageBase_of src (reply_header p s n res) True) = Inr () \<and>
    reply_replyBuf (MessageBase_of src (reply_header p s n res) True) = Inl UndefinedBehaviour"
proof -
  define m where "m = MessageBase_of src (reply_header p s n res) True"
  have l: "length (msgBody m) = 28" "msgSize m = 28" by (simp_all add: m_def MessageBase_of_def reply_header_def)
  have n: "reply_replyLength m = Inr n" using l assms(2)
    by (simp add: reply_replyLength_def rd_fld) (simp add: m_def MessageBase_of_def reply_header_def header_bytes_def fld_simps)
  have "u32 (28 + n) \<le> 28"
  proof -
    obtain k where k: "n = 2 ^ 32 - 28 + k" using assms(1) le_Suc_ex by blast
    then have "28 + n = k + 2 ^ 32" by simp
    moreover have "k < 28" using k assms(2) by simp
    ultimately show ?thesis by (simp add: u32_def)
  qed
  then have "ClientReplyMsg_validate m = Inr ()" using n l by (simp add: ClientReplyMsg_validate_def)
  moreover have "reply_replyBuf m = Inl UndefinedBehaviour" using n l assms(1) by (simp add: reply_replyBuf_def rd_bytes_def)
  ultimately show ?thesis by (simp add: m_def)
qed

theorem reply_length_wraps_witness:
  "ClientReplyMsg_validate (MessageBase_of 1 (reply_header 0 5 4294967290 0) True) = Inr () \<and>
   reply_replyBuf (MessageBase_of 1 (reply_header 0 5 4294967290 0) True) = Inl UndefinedBehaviour"
  using reply_length_wraps [of 4294967290 1 0 5 0] by simp

lemma le_nat_zeros: "le_nat (replicate k 0) = 0"
  by (induction k) (simp_all add: le_nat_def)

text \<open>The flags of an empty request are zero, not \<^verbatim>\<open>EMPTY_CLIENT_REQ\<close>: the constructor applies \<^verbatim>\<open>&=\<close> to a zeroed field.\<close>

lemma empty_request_flags:
  assumes "ClientRequestMsg_empty src = Inr m"
  shows "req_flags m = Inr 0"
proof -
  let ?b = "header_bytes (msg_code McClientRequest) 0 @ replicate 46 0"
  have "wr 0 (header_bytes (msg_code McClientRequest) 0) (replicate 52 0) = Inr ?b" by (simp add: wr_def)
  moreover have "rd 8 8 ?b = Inr 0"
    using le_nat_zeros [of 8] by (simp add: rd_fld fld_append2) (simp add: fld_def)
  ultimately obtain b where "wr 8 (le_bytes 8 0) ?b = Inr b" "msgBody m = b"
    using assms by (auto simp: ClientRequestMsg_empty_def MessageBase_new_def Let_def)
  then have "fld 8 8 (msgBody m) = 0" "length (msgBody m) = 52"
    using fld_wr_same [of 8 "le_bytes 8 0" ?b b 8] length_wr by (fastforce simp: le_nat_bytes)+
  then show ?thesis by (simp add: req_flags_def rd_fld)
qed

end
