(* ===== verification/Pre_Prepare.thy ===== *)
theory Pre_Prepare
  imports Client_Msgs
begin

text \<open>
  bftengine/src/bftengine/messages/PrePrepareMsg.{hpp,cpp}: the batch of client requests that the primary proposes, how it is
  built, iterated and validated. The digests that the thread pool computes are computed in place.
\<close>

section \<open>The header\<close>

definition pp_viewNumber :: "MessageBase \<Rightarrow> int result" where
  "pp_viewNumber m = rd_s64 6 (msgBody m)"

definition pp_seqNumber :: "MessageBase \<Rightarrow> int result" where
  "pp_seqNumber m = rd_s64 14 (msgBody m)"

definition pp_flags :: "MessageBase \<Rightarrow> nat result" where
  "pp_flags m = rd 30 2 (msgBody m)"

definition pp_batchCidLength :: "MessageBase \<Rightarrow> nat result" where
  "pp_batchCidLength m = rd 32 8 (msgBody m)"

definition pp_getTime :: "MessageBase \<Rightarrow> int result" where
  "pp_getTime m = rd_s64 40 (msgBody m)"

definition pp_digestOfRequests :: "MessageBase \<Rightarrow> bytes result" where
  "pp_digestOfRequests m = rd_bytes 48 32 (msgBody m)"

definition pp_numberOfRequests :: "MessageBase \<Rightarrow> nat result" where
  "pp_numberOfRequests m = rd 80 2 (msgBody m)"

definition pp_endLocationOfLastRequest :: "MessageBase \<Rightarrow> nat result" where
  "pp_endLocationOfLastRequest m = rd 82 4 (msgBody m)"

definition pp_isNull :: "MessageBase \<Rightarrow> bool result" where
  "pp_isNull m = rpred (pp_flags m) (\<lambda>fl. \<not> bit fl 0)"

definition pp_isReady :: "MessageBase \<Rightarrow> bool result" where
  "pp_isReady m = rpred (pp_flags m) (\<lambda>fl. bit fl 1)"

definition pp_firstPath :: "MessageBase \<Rightarrow> CommitPath result" where
  "pp_firstPath m = rbind (pp_flags m) (\<lambda>fl.
     let n = (fl div 4) mod 4
     in c_assert (n \<le> 2) (Inr (if n = 0 then OPTIMISTIC_FAST else if n = 1 then FAST_WITH_THRESHOLD else SLOW)))"

definition pp_payloadShift :: "MessageBase \<Rightarrow> nat result" where
  "pp_payloadShift m = rbind (pp_batchCidLength m) (\<lambda>cid. rbind (spanContextSize m) (\<lambda>sp. Inr (u32 (86 + cid + sp))))"

definition nullDigest :: bytes where
  "nullDigest = replicate 32 24"

text \<open>The path is shifted as an \<^verbatim>\<open>int16_t\<close>; \<^verbatim>\<open>NA\<close> is \<open>- 1\<close> and passes the assertion.\<close>

fun path_bits :: "CommitPath \<Rightarrow> nat" where
  "path_bits NA = 65532"
| "path_bits OPTIMISTIC_FAST = 0"
| "path_bits FAST_WITH_THRESHOLD = 4"
| "path_bits SLOW = 8"

definition computeFlagsForPrePrepareMsg :: "bool \<Rightarrow> bool \<Rightarrow> CommitPath \<Rightarrow> nat result" where
  "computeFlagsForPrePrepareMsg isNull isReady firstPath =
     c_assert (\<not> isNull \<or> isReady) (Inr (path_bits firstPath + (if isReady then 2 else 0) + (if isNull then 0 else 1)))"

section \<open>Building\<close>

definition PrePrepareMsg_new :: "MsgEnv \<Rightarrow> ReplicaId \<Rightarrow> ViewNum \<Rightarrow> SeqNum \<Rightarrow> CommitPath \<Rightarrow> bytes \<Rightarrow> bytes \<Rightarrow> nat \<Rightarrow> MessageBase result" where
  "PrePrepareMsg_new env src v s firstPath span batchCid reqsSize =
     (let n = reqsSize + 86 + length batchCid;
          n' = (if n + length span < maxMessageSize env then n else maxMessageSize env - length span);
          ready = (reqsSize = 0)
      in rbind (MessageBase_new src (msg_code McPrePrepare) (length span) n') (\<lambda>m.
         rbind (computeFlagsForPrePrepareMsg ready ready firstPath) (\<lambda>fl.
         rbind (wr 6 (le_s64 v @ le_s64 s @ le_bytes 8 (selfEpoch env) @ le_bytes 2 fl @ le_bytes 8 (length batchCid) @ le_s64 0 @
                     (if ready then nullDigest else replicate 32 0) @ le_bytes 2 0 @
                     le_bytes 4 (86 + length batchCid + length span)) (msgBody m)) (\<lambda>b1.
         rbind (wr 86 (span @ batchCid) b1) (\<lambda>b2. Inr (m\<lparr>msgBody := b2\<rparr>))))))"

definition pp_remainingSizeForRequests :: "MessageBase \<Rightarrow> nat result" where
  "pp_remainingSizeForRequests m =
     rbind (pp_isReady m) (\<lambda>r. c_assert (\<not> r) (rbind (pp_isNull m) (\<lambda>nl. c_assert (\<not> nl)
       (rbind (pp_endLocationOfLastRequest m) (\<lambda>e. rbind (pp_payloadShift m) (\<lambda>sh. c_assert (e \<ge> sh)
         (Inr (u32 (storageSize m + (2 ^ 32 - e)))))))))) "

definition pp_requestsSize :: "MessageBase \<Rightarrow> nat result" where
  "pp_requestsSize m = rbind (pp_endLocationOfLastRequest m) (\<lambda>e. Inr (u32 (e + (2 ^ 32 - 80))))"

definition pp_addRequest :: "bytes \<Rightarrow> nat \<Rightarrow> MessageBase \<Rightarrow> MessageBase result" where
  "pp_addRequest pRequest requestSize m =
     rbind (compRequestMsgSize pRequest 0) (\<lambda>n. c_assert (n = requestSize)
     (rbind (pp_isNull m) (\<lambda>nl. c_assert (\<not> nl)
     (rbind (pp_isReady m) (\<lambda>r. c_assert (\<not> r)
     (rbind (pp_remainingSizeForRequests m) (\<lambda>rem. c_assert (rem \<ge> requestSize)
     (rbind (pp_endLocationOfLastRequest m) (\<lambda>e. rbind (pp_numberOfRequests m) (\<lambda>k.
      rbind (rd_bytes 0 requestSize pRequest) (\<lambda>rq.
      rbind (wr e rq (msgBody m)) (\<lambda>b1. rbind (wr 82 (le_bytes 4 (e + requestSize)) b1) (\<lambda>b2.
      rbind (wr 80 (le_bytes 2 (k + 1)) b2) (\<lambda>b3. Inr (m\<lparr>msgBody := b3\<rparr>)))))))))))))))"

definition pp_updateView :: "ViewNum \<Rightarrow> CommitPath \<Rightarrow> MessageBase \<Rightarrow> MessageBase result" where
  "pp_updateView v firstPath m =
     rbind (wr 6 (le_s64 v) (msgBody m)) (\<lambda>b1. rbind (pp_isNull m) (\<lambda>nl. rbind (pp_isReady m) (\<lambda>r.
       rbind (computeFlagsForPrePrepareMsg nl r firstPath) (\<lambda>fl. rbind (wr 30 (le_bytes 2 fl) b1) (\<lambda>b2. Inr (m\<lparr>msgBody := b2\<rparr>))))))"

definition pp_setSeqNumber :: "SeqNum \<Rightarrow> MessageBase \<Rightarrow> MessageBase result" where
  "pp_setSeqNumber s m = rbind (wr 14 (le_s64 s) (msgBody m)) (\<lambda>b. Inr (m\<lparr>msgBody := b\<rparr>))"

definition pp_setTime :: "int \<Rightarrow> MessageBase \<Rightarrow> MessageBase result" where
  "pp_setTime t m = rbind (wr 40 (le_s64 t) (msgBody m)) (\<lambda>b. Inr (m\<lparr>msgBody := b\<rparr>))"

definition pp_getCid :: "MessageBase \<Rightarrow> bytes result" where
  "pp_getCid m = rbind (pp_payloadShift m) (\<lambda>sh. rbind (pp_batchCidLength m) (\<lambda>c. rd_bytes (sh - c) c (msgBody m)))"

text \<open>The decimal digits of a sequence number, which is not negative.\<close>

fun dec_digits :: "nat \<Rightarrow> bytes" where
  "dec_digits n = (if n < 10 then [word_of_nat (48 + n)] else dec_digits (n div 10) @ [word_of_nat (48 + n mod 10)])"

declare dec_digits.simps [simp del]

definition pp_setCid :: "SeqNum \<Rightarrow> MessageBase \<Rightarrow> MessageBase result" where
  "pp_setCid s m =
     (let cidStr = dec_digits (nat s)
      in rbind (pp_payloadShift m) (\<lambda>sh. rbind (pp_batchCidLength m) (\<lambda>c.
           if length cidStr \<ge> c
           then rbind (rd_bytes 0 c cidStr) (\<lambda>x. rbind (wr (sh - c) x (msgBody m)) (\<lambda>b. Inr (m\<lparr>msgBody := b\<rparr>)))
           else rbind (rd_bytes 0 (c - 1) cidStr) (\<lambda>x. rbind (wr (sh - c + 1) x (msgBody m)) (\<lambda>b. Inr (m\<lparr>msgBody := b\<rparr>))))))"

section \<open>Iterating\<close>

definition it_new :: "MessageBase \<Rightarrow> nat result" where
  "it_new m = rbind (pp_payloadShift m) (\<lambda>sh. rbind (pp_isReady m) (\<lambda>r. c_assert r (Inr sh)))"

definition it_end :: "MessageBase \<Rightarrow> nat \<Rightarrow> bool result" where
  "it_end m currLoc = rbind (pp_endLocationOfLastRequest m) (\<lambda>e. c_assert (currLoc \<le> e) (Inr (currLoc = e)))"

definition it_getCurrent :: "MessageBase \<Rightarrow> nat \<Rightarrow> nat option result" where
  "it_getCurrent m currLoc = rbind (it_end m currLoc) (\<lambda>b. Inr (if b then None else Some currLoc))"

definition it_gotoNext :: "MessageBase \<Rightarrow> nat \<Rightarrow> nat result" where
  "it_gotoNext m currLoc =
     rbind (it_end m currLoc) (\<lambda>b. c_assert (\<not> b)
       (rbind (compRequestMsgSize (msgBody m) currLoc) (\<lambda>n. rbind (pp_endLocationOfLastRequest m) (\<lambda>e.
         let loc = u32 (currLoc + n) in c_assert (loc \<le> e) (Inr loc)))))"

definition it_getAndGoToNext :: "MessageBase \<Rightarrow> nat \<Rightarrow> (nat option \<times> nat) result" where
  "it_getAndGoToNext m currLoc =
     rbind (it_getCurrent m currLoc) (\<lambda>p. case p of
        None \<Rightarrow> Inr (None, currLoc)
      | Some x \<Rightarrow> rbind (it_gotoNext m currLoc) (\<lambda>loc. Inr (Some x, loc)))"

text \<open>
  \<^verbatim>\<open>while (it.getAndGoToNext(requestBody))\<close>: the positions it visits. The size of a request can be zero modulo \<open>2 ^ 32\<close>, so the loop
  need not end: \<open>None\<close> is the result when \<open>fuel\<close> steps were not enough.
\<close>

fun it_all :: "nat \<Rightarrow> MessageBase \<Rightarrow> nat \<Rightarrow> nat list result option" where
  "it_all 0 m currLoc = None"
| "it_all (Suc fuel) m currLoc =
     (case it_getAndGoToNext m currLoc of
        Inl e \<Rightarrow> Some (Inl e)
      | Inr (None, _) \<Rightarrow> Some (Inr [])
      | Inr (Some p, loc) \<Rightarrow> map_option (\<lambda>r. rbind r (\<lambda>ps. Inr (p # ps))) (it_all fuel m loc))"

section \<open>Digest and checks\<close>

text \<open>What a request contributes to the digest: its signature, or the digest of its bytes.\<close>

definition sig_or_digest :: "MsgEnv \<Rightarrow> bytes \<Rightarrow> nat \<Rightarrow> bytes result" where
  "sig_or_digest env buf pos =
     rbind (ClientRequestMsg_at buf pos) (\<lambda>req. rbind (req_signature req) (\<lambda>sig. case sig of
        Some s \<Rightarrow> Inr s
      | None \<Rightarrow> rbind (rd_bytes pos (msgSize req) buf) (\<lambda>bs. Inr (digestOf env bs))))"

fun sigs_or_digests :: "MsgEnv \<Rightarrow> bytes \<Rightarrow> nat list \<Rightarrow> bytes result" where
  "sigs_or_digests env buf [] = Inr []"
| "sigs_or_digests env buf (p # ps) =
     rbind (sig_or_digest env buf p) (\<lambda>x. rbind (sigs_or_digests env buf ps) (\<lambda>xs. Inr (x @ xs)))"

definition calculateDigestOfRequests :: "MsgEnv \<Rightarrow> nat \<Rightarrow> MessageBase \<Rightarrow> bytes result option" where
  "calculateDigestOfRequests env fuel m =
     (case rbind (pp_numberOfRequests m) (\<lambda>k. rbind (it_new m) (\<lambda>loc. Inr (k, loc))) of
        Inl e \<Rightarrow> Some (Inl e)
      | Inr (k, loc) \<Rightarrow> map_option (\<lambda>r. rbind r (\<lambda>ps.
          if length ps > k then Inl UndefinedBehaviour
          else rbind (sigs_or_digests env (msgBody m) ps) (\<lambda>xs. Inr (digestOf env xs)))) (it_all fuel m loc))"

fun pp_check_loop :: "bytes \<Rightarrow> nat \<Rightarrow> nat \<Rightarrow> nat \<Rightarrow> bool result" where
  "pp_check_loop buf e 0 i = Inr False"
| "pp_check_loop buf e (Suc remainReqs) i =
     rbind (compRequestMsgSize buf i) (\<lambda>n.
       let i' = u32 (i + n)
       in if remainReqs > 0 then (if i' \<ge> e then Inr False else pp_check_loop buf e remainReqs i') else Inr (i' = e))"

definition checkRequests :: "MessageBase \<Rightarrow> bool result" where
  "checkRequests m =
     rbind (pp_numberOfRequests m) (\<lambda>k. rbind (pp_endLocationOfLastRequest m) (\<lambda>e. rbind (pp_payloadShift m) (\<lambda>sh.
       if k = 0 then Inr (e = sh)
       else if sh \<ge> e then Inr False
       else pp_check_loop (msgBody m) e k sh)))"

text \<open>The assertions of \<^verbatim>\<open>finishAddingRequests\<close> and the flag; the result has the end location.\<close>

definition pp_markReady :: "MessageBase \<Rightarrow> (nat \<times> MessageBase) result" where
  "pp_markReady m =
     rbind (pp_isNull m) (\<lambda>nl. c_assert (\<not> nl)
     (rbind (pp_isReady m) (\<lambda>r. c_assert (\<not> r)
     (rbind (pp_numberOfRequests m) (\<lambda>k. c_assert (k > 0)
     (rbind (pp_endLocationOfLastRequest m) (\<lambda>e. rbind (pp_payloadShift m) (\<lambda>sh. c_assert (e > sh)
     (rbind (pp_digestOfRequests m) (\<lambda>d. c_assert (isZero d)
     (rbind (checkRequests m) (\<lambda>ok. c_assert ok
     (rbind (pp_flags m) (\<lambda>fl. rbind (wr 30 (le_bytes 2 (or fl 2)) (msgBody m)) (\<lambda>b. Inr (e, m\<lparr>msgBody := b\<rparr>))))))))))))))))"

definition pp_finishAddingRequests :: "MsgEnv \<Rightarrow> nat \<Rightarrow> MessageBase \<Rightarrow> MessageBase result option" where
  "pp_finishAddingRequests env fuel m =
     (case pp_markReady m of
        Inl x \<Rightarrow> Some (Inl x)
      | Inr (e, m1) \<Rightarrow>
          map_option (\<lambda>r. rbind r (\<lambda>d. rbind (wr 48 d (msgBody m1)) (\<lambda>b.
            rbind (setMsgSize e (m1\<lparr>msgBody := b\<rparr>)) shrinkToFit)))
            (calculateDigestOfRequests env fuel m1))"

fun validate_requests :: "MsgEnv \<Rightarrow> ReplicasInfo \<Rightarrow> bytes \<Rightarrow> nat list \<Rightarrow> unit result" where
  "validate_requests env repInfo buf [] = Inr ()"
| "validate_requests env repInfo buf (p # ps) =
     rbind (ClientRequestMsg_at buf p) (\<lambda>req. rbind (ClientRequestMsg_validateImp env repInfo req)
       (\<lambda>_. validate_requests env repInfo buf ps))"

definition pp_validate_header :: "MsgEnv \<Rightarrow> ReplicasInfo \<Rightarrow> MessageBase \<Rightarrow> unit result" where
  "pp_validate_header env repInfo m =
     c_assert (sender m \<noteq> myId repInfo)
      (throw_if (rany
         [shorter m 86,
          Inr (\<not> isIdOfReplica repInfo (sender m)),
          rpred (rd 22 8 (msgBody m)) (\<lambda>e. e \<noteq> selfEpoch env)])
       (rbind (pp_flags m) (\<lambda>fl. throw_if (rany
         [rpred (pp_seqNumber m) (\<lambda>s. s = 0),
          Inr (\<not> bit fl 0),
          Inr (\<not> bit fl 1),
          Inr ((fl div 4) mod 4 \<ge> 3),
          rpred (pp_firstPath m) (\<lambda>p. p = FAST_WITH_THRESHOLD \<and> cVal repInfo = 0),
          Inr (fl div 16 \<noteq> 0),
          rpred (pp_endLocationOfLastRequest m) (\<lambda>e. e > msgSize m),
          rpred (pp_numberOfRequests m) (\<lambda>k. k = 0),
          rbind (pp_numberOfRequests m) (\<lambda>k. rpred (pp_endLocationOfLastRequest m) (\<lambda>e. k \<ge> e)),
          rpred (checkRequests m) Not])
        (Inr ()))))"

definition PrePrepareMsg_validate :: "MsgEnv \<Rightarrow> ReplicasInfo \<Rightarrow> nat \<Rightarrow> MessageBase \<Rightarrow> unit result option" where
  "PrePrepareMsg_validate env repInfo fuel m =
     (case pp_validate_header env repInfo m of
        Inl e \<Rightarrow> Some (Inl e)
      | Inr _ \<Rightarrow>
          (case calculateDigestOfRequests env fuel m of
             None \<Rightarrow> None
           | Some r \<Rightarrow>
               (case rbind r (\<lambda>d. rbind (pp_digestOfRequests m) (\<lambda>d'. if d \<noteq> d' then Inl RuntimeError else it_new m)) of
                  Inl e \<Rightarrow> Some (Inl e)
                | Inr loc \<Rightarrow>
                    if clientTransactionSigning env
                    then map_option (\<lambda>ps. rbind ps (validate_requests env repInfo (msgBody m))) (it_all fuel m loc)
                    else Some (Inr ()))))"

text \<open>\<^verbatim>\<open>getClientCorrelationIdForMsg\<close> and \<^verbatim>\<open>getBatchCorrelationIdAsString\<close>.\<close>

fun it_skip :: "MessageBase \<Rightarrow> nat \<Rightarrow> nat \<Rightarrow> nat result" where
  "it_skip m currLoc 0 = Inr currLoc"
| "it_skip m currLoc (Suc k) = rbind (it_end m currLoc) (\<lambda>b. if b then Inr currLoc else rbind (it_gotoNext m currLoc) (\<lambda>loc. it_skip m loc k))"

definition getClientCorrelationIdForMsg :: "nat \<Rightarrow> MessageBase \<Rightarrow> bytes result" where
  "getClientCorrelationIdForMsg index m =
     rbind (it_new m) (\<lambda>loc. rbind (it_skip m loc index) (\<lambda>loc'. rbind (it_end m loc') (\<lambda>b.
       if b then Inr [] else rbind (ClientRequestMsg_at (msgBody m) loc') req_getCid)))"

fun join_cids :: "bytes \<Rightarrow> nat list \<Rightarrow> bytes result" where
  "join_cids buf [] = Inr []"
| "join_cids buf (p # ps) =
     rbind (ClientRequestMsg_at buf p) (\<lambda>req. rbind (req_getCid req) (\<lambda>c. rbind (join_cids buf ps) (\<lambda>cs. Inr (c @ [59] @ cs))))"

definition getBatchCorrelationIdAsString :: "nat \<Rightarrow> MessageBase \<Rightarrow> bytes result option" where
  "getBatchCorrelationIdAsString fuel m =
     (case it_new m of Inl e \<Rightarrow> Some (Inl e)
      | Inr loc \<Rightarrow> map_option (\<lambda>ps. rbind ps (join_cids (msgBody m))) (it_all fuel m loc))"

section \<open>Reading past the end\<close>

lemma compRequestMsgSize_short:
  assumes "length buf < pos + 50"
  shows "compRequestMsgSize buf pos = Inl UndefinedBehaviour"
  using assms by (auto simp: compRequestMsgSize_def rd_def rbind_def split: sum.splits)

lemmas pp_header_defs = pp_flags_def pp_batchCidLength_def pp_digestOfRequests_def pp_numberOfRequests_def
  pp_endLocationOfLastRequest_def pp_seqNumber_def pp_viewNumber_def

text \<open>
  C34. \<^verbatim>\<open>PrePrepareMsg::validate\<close> reads the header of a request as soon as the request starts before the end of the message: a
  pre-prepare message that announces one request, has no span context and no batch identifier, and has a payload of 1 to 49 bytes is
  read past its end. The fields of the request header that are read end at its byte 50, so that a payload of 50 or 51 bytes, which is
  also shorter than the header of a request, is not.
\<close>

theorem pre_prepare_validation_overreads:
  assumes m: "onNewMessage mx src (header_bytes (msg_code McPrePrepare) 0 @ le_s64 v @ le_s64 s @ le_bytes 8 (selfEpoch env) @
      le_bytes 2 3 @ le_bytes 8 0 @ le_s64 0 @ d @ le_bytes 2 1 @ le_bytes 4 (86 + length pay) @ pay) = Some m"
    and pay: "0 < length pay" "length pay < 50" and d: "length d = 32"
    and src: "src < 65536" "isIdOfReplica ri src" "src \<noteq> myId ri" "0 < s" "s < 2 ^ 63" "selfEpoch env < 2 ^ 64"
  shows "PrePrepareMsg_validate env ri fuel m = Some (Inl UndefinedBehaviour)"
proof -
  have b: "msgBody m = header_bytes (msg_code McPrePrepare) 0 @ le_s64 v @ le_s64 s @ le_bytes 8 (selfEpoch env) @
      le_bytes 2 3 @ le_bytes 8 0 @ le_s64 0 @ d @ le_bytes 2 1 @ le_bytes 4 (86 + length pay) @ pay" and net: "net_msg m"
    using onNewMessage_net [OF m] by simp_all
  have snd: "sender m = src" using m src(1) by (auto simp: onNewMessage_def MessageBase_of_def split: if_splits)
  have l: "length (msgBody m) = 86 + length pay" using d by (simp add: b)
  then have sz: "msgSize m = 86 + length pay" using net by (simp add: net_msg_def)
  have sp: "span_of m = 0" by (simp add: b header_bytes_def fld_simps)
  have fs: "rd 22 8 (msgBody m) = Inr (selfEpoch env)" "rd 30 2 (msgBody m) = Inr 3" "rd 32 8 (msgBody m) = Inr 0"
    "rd 80 2 (msgBody m) = Inr 1" "rd 82 4 (msgBody m) = Inr (86 + length pay)"
    using l pay d src(6) by (simp_all add: rd_fld, simp_all add: b header_bytes_def fld_simps)
  have sq: "rd_s64 14 (msgBody m) = Inr s" using l s64_le_s64 [of s] src(4,5)
    by (simp add: rd_s64_def rd_fld) (simp add: b header_bytes_def fld_append1 fld_append2 fld_whole)
  have "compRequestMsgSize (msgBody m) 86 = Inl UndefinedBehaviour"
    by (rule compRequestMsgSize_short) (use l pay in simp)
  then have "checkRequests m = Inl UndefinedBehaviour"
    using fs sp net pay
    by (simp add: checkRequests_def pp_header_defs pp_payloadShift_def net_simps)
  then have "pp_validate_header env ri m = Inl UndefinedBehaviour"
    using fs sq sp net pay src snd sz
    by (simp add: pp_validate_header_def pp_header_defs pp_firstPath_def net_simps bit_0 bit_Suc)
  then show ?thesis by (simp add: PrePrepareMsg_validate_def)
qed

theorem pre_prepare_validation_overreads_witness:
  "\<exists>m. onNewMessage 200 1 (header_bytes (msg_code McPrePrepare) 0 @ le_s64 0 @ le_s64 7 @ le_bytes 8 (selfEpoch example_env) @
      le_bytes 2 3 @ le_bytes 8 0 @ le_s64 0 @ replicate 32 9 @ le_bytes 2 1 @ le_bytes 4 (86 + length [42 :: 8 word]) @ [42]) = Some m \<and>
    PrePrepareMsg_validate example_env (example_ri 0) 10 m = Some (Inl UndefinedBehaviour)"
proof -
  let ?bs = "header_bytes (msg_code McPrePrepare) 0 @ le_s64 0 @ le_s64 7 @ le_bytes 8 (selfEpoch example_env) @
      le_bytes 2 3 @ le_bytes 8 0 @ le_s64 0 @ replicate 32 9 @ le_bytes 2 1 @ le_bytes 4 (86 + length [42 :: 8 word]) @ [42]"
  have "length ?bs = 87" by simp
  then obtain m where m: "onNewMessage 200 1 ?bs = Some m" by (simp add: onNewMessage_def header_size_def)
  from pre_prepare_validation_overreads [OF m, of "example_ri 0" 10] m show ?thesis
    by (simp add: example_ri_def isIdOfReplica_def example_env_def)
qed

section \<open>The iteration ends\<close>

lemma check_loop_iterates:
  assumes e: "pp_endLocationOfLastRequest m = Inr e"
  shows "pp_check_loop (msgBody m) e (Suc k) i = Inr True \<Longrightarrow> i < e \<Longrightarrow>
    \<exists>ps. it_all (Suc (Suc k)) m i = Some (Inr ps) \<and> length ps = Suc k"
proof (induction k arbitrary: i)
  case 0
  then obtain n where n: "compRequestMsgSize (msgBody m) i = Inr n" "u32 (i + n) = e" by (auto simp: Let_def)
  have "it_getAndGoToNext m i = Inr (Some i, e)" "it_getAndGoToNext m e = Inr (None, e)"
    using n 0(2) e by (simp_all add: it_getAndGoToNext_def it_getCurrent_def it_gotoNext_def it_end_def)
  then show ?case by simp
next
  case (Suc k)
  then obtain n where n: "compRequestMsgSize (msgBody m) i = Inr n" "u32 (i + n) < e"
      "pp_check_loop (msgBody m) e (Suc k) (u32 (i + n)) = Inr True"
    by (auto simp: Let_def not_le split: if_splits simp del: pp_check_loop.simps(2)) (auto simp: Let_def not_le split: if_splits)
  from Suc.IH [OF n(3,2)] obtain ps where "it_all (Suc (Suc k)) m (u32 (i + n)) = Some (Inr ps)" "length ps = Suc k" by blast
  moreover have "it_getAndGoToNext m i = Inr (Some i, u32 (i + n))"
    using n Suc.prems(2) e by (simp add: it_getAndGoToNext_def it_getCurrent_def it_gotoNext_def it_end_def)
  ultimately show ?case by simp
qed

text \<open>
  C33. For a message that passes \<^verbatim>\<open>checkRequests\<close>, the loop over the requests ends after exactly as many steps as the header has requests,
  although the size of a request is computed modulo \<open>2 ^ 32\<close> and may be zero.
\<close>

theorem iteration_terminates:
  assumes "checkRequests m = Inr True" "pp_numberOfRequests m = Inr k" "0 < k" "it_new m = Inr loc"
  shows "\<exists>ps. it_all (Suc k) m loc = Some (Inr ps) \<and> length ps = k"
proof -
  from assms(4) have sh: "pp_payloadShift m = Inr loc" by (auto simp: it_new_def)
  from assms(1,2,3) sh obtain e where e: "pp_endLocationOfLastRequest m = Inr e" "loc < e"
      "pp_check_loop (msgBody m) e k loc = Inr True"
    by (auto simp: checkRequests_def split: if_splits)
  obtain j where "k = Suc j" using assms(3) by (cases k) auto
  then show ?thesis using check_loop_iterates [OF e(1), of j loc] e by simp
qed

section \<open>A batch is read back\<close>

definition batch_bytes :: "ClientRequest list \<Rightarrow> bytes" where
  "batch_bytes rs = concat (map req_bytes rs)"

fun req_positions :: "nat \<Rightarrow> ClientRequest list \<Rightarrow> nat list" where
  "req_positions i [] = []"
| "req_positions i (r # rs) = i # req_positions (i + length (req_bytes r)) rs"

lemma length_req_positions [simp]: "length (req_positions i rs) = length rs"
  by (induction rs arbitrary: i) simp_all

lemma batch_bytes_simps [simp]: "batch_bytes [] = []" "batch_bytes (r # rs) = req_bytes r @ batch_bytes rs"
  "batch_bytes (rs @ rs') = batch_bytes rs @ batch_bytes rs'"
  by (simp_all add: batch_bytes_def)

lemma req_positions_bytes:
  assumes "j < length rs"
  shows "take (length (req_bytes (rs ! j))) (drop (req_positions (length pre) rs ! j) (pre @ batch_bytes rs @ rest)) = req_bytes (rs ! j)"
  using assms
proof (induction rs arbitrary: j pre)
  case (Cons r rs)
  show ?case
  proof (cases j)
    case (Suc j')
    then have "take (length (req_bytes (rs ! j'))) (drop (req_positions (length (pre @ req_bytes r)) rs ! j')
        ((pre @ req_bytes r) @ batch_bytes rs @ rest)) = req_bytes (rs ! j')" using Cons by (intro Cons.IH) simp
    then show ?thesis using Suc by simp
  qed simp
qed simp

lemma check_loop_batch:
  assumes "buf = pre @ batch_bytes rs @ rest" "rs \<noteq> []" "\<forall>r \<in> set rs. req_fits r" "length pre + length (batch_bytes rs) < 2 ^ 32"
  shows "pp_check_loop buf (length pre + length (batch_bytes rs)) (length rs) (length pre) = Inr True"
  using assms
proof (induction rs arbitrary: pre)
  case (Cons r rs)
  have buf: "buf = pre @ req_bytes r @ (batch_bytes rs @ rest)" "buf = (pre @ req_bytes r) @ batch_bytes rs @ rest"
    using Cons.prems(1) by simp_all
  have n: "compRequestMsgSize buf (length pre) = Inr (length (req_bytes r))"
    by (rule compRequestMsgSize_at [OF buf(1)]) (use Cons.prems in simp)
  have u: "u32 (length pre + length (req_bytes r)) = length pre + length (req_bytes r)" using Cons.prems(4) by simp
  show ?case
  proof (cases "rs = []")
    case True
    then show ?thesis using n u by simp
  next
    case False
    then have "0 < length (batch_bytes rs)" by (cases rs) (simp_all add: length_req_bytes)
    moreover have "pp_check_loop buf (length (pre @ req_bytes r) + length (batch_bytes rs)) (length rs) (length (pre @ req_bytes r)) = Inr True"
      using Cons.prems False by (intro Cons.IH [OF buf(2)]) auto
    ultimately show ?thesis using n u False by (simp add: add.assoc)
  qed
qed simp

lemma it_all_batch:
  assumes "msgBody m = pre @ batch_bytes rs @ rest" "\<forall>r \<in> set rs. req_fits r"
    "pp_endLocationOfLastRequest m = Inr (length pre + length (batch_bytes rs))" "length pre + length (batch_bytes rs) < 2 ^ 32"
  shows "it_all (Suc (length rs)) m (length pre) = Some (Inr (req_positions (length pre) rs))"
  using assms
proof (induction rs arbitrary: pre)
  case Nil
  then show ?case by (simp add: it_getAndGoToNext_def it_getCurrent_def it_end_def)
next
  case (Cons r rs)
  have buf: "msgBody m = pre @ req_bytes r @ (batch_bytes rs @ rest)" "msgBody m = (pre @ req_bytes r) @ batch_bytes rs @ rest"
    using Cons.prems(1) by simp_all
  have n: "compRequestMsgSize (msgBody m) (length pre) = Inr (length (req_bytes r))"
    by (rule compRequestMsgSize_at [OF buf(1)]) (use Cons.prems in simp)
  have l: "0 < length (req_bytes r)" by (simp add: length_req_bytes)
  have "it_getAndGoToNext m (length pre) = Inr (Some (length pre), length (pre @ req_bytes r))"
    using n l Cons.prems(3,4) by (simp add: it_getAndGoToNext_def it_getCurrent_def it_gotoNext_def it_end_def)
  moreover have "it_all (Suc (length rs)) m (length (pre @ req_bytes r)) = Some (Inr (req_positions (length (pre @ req_bytes r)) rs))"
    using Cons.prems by (intro Cons.IH [OF buf(2)]) auto
  ultimately show ?case by simp
qed

text \<open>A message that requests are being added to.\<close>

definition pp_building :: "MessageBase \<Rightarrow> bytes \<Rightarrow> ClientRequest list \<Rightarrow> bool" where
  "pp_building m pre rs \<longleftrightarrow> owner m \<and> length (msgBody m) = storageSize m \<and> storageSize m < 2 ^ 32 \<and>
     (\<exists>rest. msgBody m = pre @ batch_bytes rs @ rest) \<and> 86 \<le> length pre \<and>
     86 + fld 32 8 pre + fld 2 4 pre = length pre \<and> bit (fld 30 2 pre) 0 \<and> \<not> bit (fld 30 2 pre) 1 \<and>
     fld 80 2 pre = length rs \<and> fld 82 4 pre = length pre + length (batch_bytes rs) \<and>
     isZero (take 32 (drop 48 pre))"

lemma pp_building_fields:
  assumes "pp_building m pre rs"
  shows "pp_flags m = Inr (fld 30 2 pre)" "pp_isNull m = Inr False" "pp_isReady m = Inr False" "pp_payloadShift m = Inr (length pre)"
    "pp_numberOfRequests m = Inr (length rs)" "pp_endLocationOfLastRequest m = Inr (length pre + length (batch_bytes rs))"
    "pp_digestOfRequests m = Inr (take 32 (drop 48 pre))"
proof -
  note a = assms [unfolded pp_building_def]
  obtain rest where b: "msgBody m = pre @ batch_bytes rs @ rest" using a by blast
  have l: "86 \<le> length (msgBody m)" "86 \<le> length pre" using a b by simp_all
  have f: "fld off k (msgBody m) = fld off k pre" if "off + k \<le> 86" for off k
    using that a by (simp add: b fld_append1)
  show fl: "pp_flags m = Inr (fld 30 2 pre)" using l f by (simp add: pp_flags_def rd_fld)
  show "pp_isNull m = Inr False" "pp_isReady m = Inr False" using fl a by (simp_all add: pp_isNull_def pp_isReady_def)
  have "length pre < 4294967296" using a b by auto
  then show "pp_payloadShift m = Inr (length pre)"
    using l f a by (simp add: pp_payloadShift_def pp_batchCidLength_def spanContextSize_def rd_fld)
  show "pp_numberOfRequests m = Inr (length rs)" "pp_endLocationOfLastRequest m = Inr (length pre + length (batch_bytes rs))"
    using l f a by (simp_all add: pp_numberOfRequests_def pp_endLocationOfLastRequest_def rd_fld)
  show "pp_digestOfRequests m = Inr (take 32 (drop 48 pre))" using l by (simp add: pp_digestOfRequests_def rd_bytes_def b)
qed

lemma wr_in_prefix:
  "off + length bs \<le> length pre \<Longrightarrow> wr off bs (pre @ X) = Inr ((take off pre @ bs @ drop (off + length bs) pre) @ X)"
  by (simp add: wr_def)

lemma wr_behind: "length bs \<le> length rest \<Longrightarrow> wr (length p) bs (p @ rest) = Inr (p @ bs @ drop (length bs) rest)"
  by (simp add: wr_def)

definition counted :: "bytes \<Rightarrow> nat \<Rightarrow> nat \<Rightarrow> bytes" where
  "counted pre k e = take 80 pre @ le_bytes 2 k @ le_bytes 4 e @ drop 86 pre"

lemma counted_fields:
  assumes "86 \<le> length pre" "k < 65536" "e < 2 ^ 32"
  shows "length (counted pre k e) = length pre" "off + j \<le> 80 \<Longrightarrow> fld off j (counted pre k e) = fld off j pre"
    "fld 80 2 (counted pre k e) = k" "fld 82 4 (counted pre k e) = e"
    "off + j \<le> 80 \<Longrightarrow> take j (drop off (counted pre k e)) = take j (drop off pre)"
proof -
  have l: "length (take 80 pre) = 80" using assms(1) by simp
  show "length (counted pre k e) = length pre" using assms(1) by (simp add: counted_def)
  show "fld 80 2 (counted pre k e) = k" "fld 82 4 (counted pre k e) = e"
    using l assms(2,3) by (simp_all add: counted_def fld_simps)
  show *: "take j (drop off (counted pre k e)) = take j (drop off pre)" if "off + j \<le> 80" for off j
  proof -
    have "min j (80 - off) = j" using that by simp
    then show ?thesis using that l by (simp add: counted_def drop_take)
  qed
  show "off + j \<le> 80 \<Longrightarrow> fld off j (counted pre k e) = fld off j pre" by (simp add: fld_def *)
qed

lemma addRequest_building:
  assumes bl: "pp_building m pre rs" and r: "req_fits r" and k: "length rs + 1 < 65536"
    and room: "length pre + length (batch_bytes rs) + length (req_bytes r) \<le> storageSize m"
  shows "\<exists>m'. pp_addRequest (req_bytes r) (length (req_bytes r)) m = Inr m' \<and> storageSize m' = storageSize m \<and> sender m' = sender m \<and>
    pp_building m' (counted pre (length rs + 1) (length pre + length (batch_bytes rs) + length (req_bytes r))) (rs @ [r])"
proof -
  note a = bl [unfolded pp_building_def]
  note f = pp_building_fields [OF bl]
  obtain rest where b: "msgBody m = pre @ batch_bytes rs @ rest" using a by blast
  let ?n = "length (req_bytes r)" and ?e = "length pre + length (batch_bytes rs)"
  let ?pre' = "counted pre (length rs + 1) (?e + ?n)"
  have e32: "?e + ?n < 2 ^ 32" using room a by simp
  have pre: "86 \<le> length pre" using a by simp
  have nr: "?n \<le> length rest" using room a b by simp
  have "compRequestMsgSize (req_bytes r) 0 = Inr ?n" using compRequestMsgSize_at [of "req_bytes r" "[]" r "[]"] r by simp
  moreover have "pp_remainingSizeForRequests m = Inr (storageSize m - ?e)"
  proof -
    have "u32 (storageSize m + (2 ^ 32 - ?e)) = storageSize m - ?e"
    proof -
      have "storageSize m + (2 ^ 32 - ?e) = (storageSize m - ?e) + 2 ^ 32" using room a by simp
      moreover have "storageSize m - ?e < 2 ^ 32" using a by (meson diff_le_self le_less_trans)
      ultimately show ?thesis by (simp add: u32_def)
    qed
    then show ?thesis using f by (simp add: pp_remainingSizeForRequests_def)
  qed
  moreover have "wr ?e (req_bytes r) (msgBody m) = Inr (pre @ batch_bytes (rs @ [r]) @ drop ?n rest)"
    using wr_behind [of "req_bytes r" rest "pre @ batch_bytes rs"] nr by (simp add: b)
  moreover have "wr 82 (le_bytes 4 (?e + ?n)) (pre @ batch_bytes (rs @ [r]) @ drop ?n rest) =
      Inr ((take 82 pre @ le_bytes 4 (?e + ?n) @ drop 86 pre) @ batch_bytes (rs @ [r]) @ drop ?n rest)"
    using wr_in_prefix [of 82 "le_bytes 4 (?e + ?n)" pre] pre by simp
  moreover have "wr 80 (le_bytes 2 (length rs + 1)) ((take 82 pre @ le_bytes 4 (?e + ?n) @ drop 86 pre) @ batch_bytes (rs @ [r]) @ drop ?n rest) =
      Inr (?pre' @ batch_bytes (rs @ [r]) @ drop ?n rest)"
    using wr_in_prefix [of 80 "le_bytes 2 (length rs + 1)" "take 82 pre @ le_bytes 4 (?e + ?n) @ drop 86 pre"] pre
    by (simp add: counted_def)
  moreover have "rd_bytes 0 ?n (req_bytes r) = Inr (req_bytes r)" by (simp add: rd_bytes_def)
  ultimately have "pp_addRequest (req_bytes r) ?n m = Inr (m\<lparr>msgBody := ?pre' @ batch_bytes (rs @ [r]) @ drop ?n rest\<rparr>)"
    using f room by (simp add: pp_addRequest_def del: batch_bytes_simps)
  moreover note c = counted_fields [OF pre k e32]
  have "pp_building (m\<lparr>msgBody := ?pre' @ batch_bytes (rs @ [r]) @ drop ?n rest\<rparr>) ?pre' (rs @ [r])"
    using a c nr b by (auto simp: pp_building_def)
  ultimately show ?thesis by auto
qed

text \<open>Adding a list of requests.\<close>

fun pp_addRequests :: "ClientRequest list \<Rightarrow> MessageBase \<Rightarrow> MessageBase result" where
  "pp_addRequests [] m = Inr m"
| "pp_addRequests (r # rs) m = rbind (pp_addRequest (req_bytes r) (length (req_bytes r)) m) (pp_addRequests rs)"

lemma addRequests_building:
  assumes "pp_building m pre rs0" "\<forall>r \<in> set rs. req_fits r" "length rs0 + length rs < 65536"
    "length pre + length (batch_bytes rs0) + length (batch_bytes rs) \<le> storageSize m"
  shows "\<exists>m' pre'. pp_addRequests rs m = Inr m' \<and> storageSize m' = storageSize m \<and> sender m' = sender m \<and>
    pp_building m' pre' (rs0 @ rs) \<and> length pre' = length pre \<and> (\<forall>off j. off + j \<le> 80 \<longrightarrow> fld off j pre' = fld off j pre)"
  using assms
proof (induction rs arbitrary: m pre rs0)
  case (Cons r rs)
  let ?e = "length pre + length (batch_bytes rs0) + length (req_bytes r)"
  have pre: "86 \<le> length pre" "length rs0 + 1 < 65536" "?e < 2 ^ 32" using Cons.prems by (auto simp: pp_building_def)
  note c = counted_fields [OF pre]
  have "\<exists>m'. pp_addRequest (req_bytes r) (length (req_bytes r)) m = Inr m' \<and> storageSize m' = storageSize m \<and> sender m' = sender m \<and>
      pp_building m' (counted pre (length rs0 + 1) ?e) (rs0 @ [r])"
    by (rule addRequest_building [OF Cons.prems(1)]) (use Cons.prems in auto)
  then obtain m1 where m1: "pp_addRequest (req_bytes r) (length (req_bytes r)) m = Inr m1" "storageSize m1 = storageSize m"
      "sender m1 = sender m" "pp_building m1 (counted pre (length rs0 + 1) ?e) (rs0 @ [r])" by blast
  have "\<exists>m' pre'. pp_addRequests rs m1 = Inr m' \<and> storageSize m' = storageSize m1 \<and> sender m' = sender m1 \<and>
      pp_building m' pre' ((rs0 @ [r]) @ rs) \<and> length pre' = length (counted pre (length rs0 + 1) ?e) \<and>
      (\<forall>off j. off + j \<le> 80 \<longrightarrow> fld off j pre' = fld off j (counted pre (length rs0 + 1) ?e))"
    by (rule Cons.IH [OF m1(4)]) (use Cons.prems m1 c(1) in auto)
  then show ?case using m1 c(1,2) by fastforce
qed auto

text \<open>What a request contributes to the digest of the batch.\<close>

definition req_material :: "MsgEnv \<Rightarrow> ClientRequest \<Rightarrow> bytes" where
  "req_material env r = (if rq_signature r = [] then digestOf env (req_bytes r) else rq_signature r)"

lemma sig_or_digest_at:
  assumes b: "buf = pre @ req_bytes r @ rest" and r: "req_fits r"
  shows "sig_or_digest env buf (length pre) = Inr (req_material env r)"
proof -
  note f = req_at_fields [OF b r] compRequestMsgSize_at [OF b r]
  have d: "drop (length pre) buf = [] @ req_bytes r @ rest" by (simp add: b)
  note g = req_at_fields [OF d r, simplified]
  have "ClientRequestMsg_at buf (length pre) = Inr \<lparr>msgBody = req_bytes r @ rest, msgSize = length (req_bytes r),
      storageSize = length (req_bytes r), sender = rq_client r, owner = False\<rparr>"
    using f d by (simp add: ClientRequestMsg_at_def)
  moreover have "rd_bytes (length pre) (length (req_bytes r)) buf = Inr (req_bytes r)" by (simp add: b rd_bytes_def)
  moreover have "rd_bytes (52 + length (rq_span r) + length (rq_request r) + length (rq_cid r)) (length (rq_signature r)) (req_bytes r @ rest) =
      Inr (rq_signature r)" by (simp add: req_bytes_def rd_bytes_def)
  ultimately show ?thesis
    using g d by (simp add: sig_or_digest_def req_signature_def req_material_def req_defs spanContextSize_def numeral_2_eq_2)
qed

lemma sigs_or_digests_batch:
  assumes "buf = pre @ batch_bytes rs @ rest" "\<forall>r \<in> set rs. req_fits r"
  shows "sigs_or_digests env buf (req_positions (length pre) rs) = Inr (concat (map (req_material env) rs))"
  using assms
proof (induction rs arbitrary: pre)
  case (Cons r rs)
  have b: "buf = pre @ req_bytes r @ (batch_bytes rs @ rest)" "buf = (pre @ req_bytes r) @ batch_bytes rs @ rest"
    using Cons.prems by simp_all
  have "sig_or_digest env buf (length pre) = Inr (req_material env r)" using sig_or_digest_at [OF b(1)] Cons.prems by simp
  moreover have "sigs_or_digests env buf (req_positions (length (pre @ req_bytes r)) rs) = Inr (concat (map (req_material env) rs))"
    using Cons.prems by (intro Cons.IH [OF b(2)]) simp
  ultimately show ?case by simp
qed simp

lemma PrePrepareMsg_new_building:
  assumes sz: "0 < reqsSize" "86 + length span + length cid + reqsSize < maxMessageSize env" "maxMessageSize env \<le> 2 ^ 32"
  shows "\<exists>m pre. PrePrepareMsg_new env src v s fp span cid reqsSize = Inr m \<and> pp_building m pre [] \<and> sender m = src \<and>
    storageSize m = 86 + length span + length cid + reqsSize \<and> length pre = 86 + length span + length cid \<and>
    fld 6 8 pre = le_nat (le_s64 v) \<and> fld 14 8 pre = le_nat (le_s64 s)"
proof -
  let ?n = "reqsSize + 86 + length cid" and ?fl = "path_bits fp + 1"
  let ?X = "le_s64 v @ le_s64 s @ le_bytes 8 (selfEpoch env) @ le_bytes 2 ?fl @ le_bytes 8 (length cid) @ le_s64 0 @
      replicate 32 0 @ le_bytes 2 0 @ le_bytes 4 (86 + length cid + length span)"
  let ?h = "header_bytes (msg_code McPrePrepare) (length span)"
  let ?pre = "?h @ ?X @ span @ cid"
  have u: "u32 (?n + length span) = 86 + length span + length cid + reqsSize" using sz by simp
  have w0: "wr 0 ?h (replicate (86 + length span + length cid + reqsSize) 0) = Inr (?h @ replicate (80 + length span + length cid + reqsSize) 0)"
    using wr_behind [of ?h "replicate (86 + length span + length cid + reqsSize) 0" "[]"] by simp
  have w1: "wr 6 ?X (?h @ replicate (80 + length span + length cid + reqsSize) 0) = Inr ((?h @ ?X) @ replicate (length span + length cid + reqsSize) 0)"
    using wr_behind [of ?X "replicate (80 + length span + length cid + reqsSize) 0" ?h] by simp
  have w2: "wr 86 (span @ cid) ((?h @ ?X) @ replicate (length span + length cid + reqsSize) 0) = Inr (?pre @ replicate reqsSize 0)"
    using wr_behind [of "span @ cid" "replicate (length span + length cid + reqsSize) 0" "?h @ ?X"] by simp
  let ?m = "\<lparr>msgBody = ?pre @ replicate reqsSize 0, msgSize = 86 + length span + length cid + reqsSize,
      storageSize = 86 + length span + length cid + reqsSize, sender = src, owner = True\<rparr>"
  have mb: "MessageBase_new src (msg_code McPrePrepare) (length span) ?n =
      Inr (?m\<lparr>msgBody := ?h @ replicate (80 + length span + length cid + reqsSize) 0\<rparr>)"
    unfolding MessageBase_new_def Let_def u w0 by simp
  have n: "(if ?n + length span < maxMessageSize env then ?n else maxMessageSize env - length span) = ?n" using sz by simp
  have fls: "computeFlagsForPrePrepareMsg False False fp = Inr ?fl" by (simp add: computeFlagsForPrePrepareMsg_def)
  have "PrePrepareMsg_new env src v s fp span cid reqsSize = Inr ?m"
    unfolding PrePrepareMsg_new_def Let_def n mb using sz(1) w1 w2 by (simp add: fls)
  moreover have fl: "?fl < 65536" "bit ?fl 0" "\<not> bit ?fl 1" by (cases fp; simp add: bit_0 bit_Suc)+
  have sm: "length cid < 18446744073709551616" "length span < 4294967296" "86 + length cid + length span < 4294967296" using sz by auto
  have "pp_building ?m ?pre []"
    using sz fl sm by (auto simp: pp_building_def header_bytes_def fld_simps isZero_def list_all_iff)
  moreover have "fld 6 8 ?pre = le_nat (le_s64 v)" "fld 14 8 ?pre = le_nat (le_s64 s)"
    by (simp_all add: header_bytes_def fld_append1 fld_append2 fld_whole)
  ultimately show ?thesis by (intro exI [of _ ?m] exI [of _ ?pre]) simp
qed

lemma fld_patch:
  assumes "off + length bs \<le> length pre"
  shows "o' + k \<le> off \<or> off + length bs \<le> o' \<Longrightarrow> fld o' k (take off pre @ bs @ drop (off + length bs) pre) = fld o' k pre"
    "fld off (length bs) (take off pre @ bs @ drop (off + length bs) pre) = le_nat bs"
proof -
  have w: "wr off bs pre = Inr (take off pre @ bs @ drop (off + length bs) pre)" using assms by (simp add: wr_def)
  show "o' + k \<le> off \<or> off + length bs \<le> o' \<Longrightarrow> fld o' k (take off pre @ bs @ drop (off + length bs) pre) = fld o' k pre"
    by (rule fld_wr_other [OF w])
  show "fld off (length bs) (take off pre @ bs @ drop (off + length bs) pre) = le_nat bs" by (rule fld_wr_same [OF w refl])
qed

text \<open>A message that is ready: what \<^verbatim>\<open>finishAddingRequests\<close> leaves.\<close>

definition pp_ready :: "MessageBase \<Rightarrow> bytes \<Rightarrow> ClientRequest list \<Rightarrow> bool" where
  "pp_ready m pre rs \<longleftrightarrow> (\<exists>rest. msgBody m = pre @ batch_bytes rs @ rest) \<and> length (msgBody m) < 2 ^ 32 \<and> 86 \<le> length pre \<and>
     86 + fld 32 8 pre + fld 2 4 pre = length pre \<and> bit (fld 30 2 pre) 1 \<and>
     fld 80 2 pre = length rs \<and> fld 82 4 pre = length pre + length (batch_bytes rs)"

lemma pp_ready_fields:
  assumes "pp_ready m pre rs" "\<forall>r \<in> set rs. req_fits r" "rs \<noteq> []"
  shows "it_new m = Inr (length pre)" "pp_numberOfRequests m = Inr (length rs)" "checkRequests m = Inr True"
    "it_all (Suc (length rs)) m (length pre) = Some (Inr (req_positions (length pre) rs))"
    "calculateDigestOfRequests env (Suc (length rs)) m = Some (Inr (digestOf env (concat (map (req_material env) rs))))"
    "pp_digestOfRequests m = Inr (take 32 (drop 48 pre))"
proof -
  note a = assms(1) [unfolded pp_ready_def]
  obtain rest where b: "msgBody m = pre @ batch_bytes rs @ rest" using a by blast
  have l: "86 \<le> length (msgBody m)" "86 \<le> length pre" using a b by simp_all
  have small: "length pre + length (batch_bytes rs) < 2 ^ 32" using a b by auto
  have f: "fld off k (msgBody m) = fld off k pre" if "off + k \<le> 86" for off k
    using that a by (simp add: b fld_append1)
  have fl: "pp_flags m = Inr (fld 30 2 pre)" using l f by (simp add: pp_flags_def rd_fld)
  have rdy: "pp_isReady m = Inr True" using fl a by (simp add: pp_isReady_def)
  have ps: "pp_payloadShift m = Inr (length pre)"
    using l f a small by (simp add: pp_payloadShift_def pp_batchCidLength_def spanContextSize_def rd_fld)
  show loc: "it_new m = Inr (length pre)" using ps rdy by (simp add: it_new_def)
  show k: "pp_numberOfRequests m = Inr (length rs)" using l f a by (simp add: pp_numberOfRequests_def rd_fld)
  have e: "pp_endLocationOfLastRequest m = Inr (length pre + length (batch_bytes rs))"
    using l f a by (simp add: pp_endLocationOfLastRequest_def rd_fld)
  have "0 < length (batch_bytes rs)" using assms(3) by (cases rs) (simp_all add: length_req_bytes)
  then show "checkRequests m = Inr True"
    using check_loop_batch [OF b assms(3,2) small] k e ps assms(3) by (simp add: checkRequests_def)
  show it: "it_all (Suc (length rs)) m (length pre) = Some (Inr (req_positions (length pre) rs))"
    by (rule it_all_batch [OF b assms(2) e small])
  show "calculateDigestOfRequests env (Suc (length rs)) m = Some (Inr (digestOf env (concat (map (req_material env) rs))))"
    using it k loc sigs_or_digests_batch [OF b assms(2)] by (simp add: calculateDigestOfRequests_def del: it_all.simps)
  show "pp_digestOfRequests m = Inr (take 32 (drop 48 pre))" using l by (simp add: pp_digestOfRequests_def rd_bytes_def b)
qed

lemma bit_or_flags: "bit ((or (fl :: nat) 2) mod 65536) 1"
proof -
  have "bit (2 :: nat) 1" by (simp add: bit_Suc bit_0)
  then have "bit (take_bit 16 (or fl 2)) 1" by (simp only: bit_take_bit_iff bit_or_iff) simp
  then show ?thesis by (simp add: take_bit_eq_mod)
qed

lemma finishAddingRequests_ready:
  assumes bl: "pp_building m pre rs" and fit: "\<forall>r \<in> set rs. req_fits r" and ne: "rs \<noteq> []"
    and dg: "\<And>x. length (digestOf env x) = 32"
  shows "\<exists>m' pre'. pp_finishAddingRequests env (Suc (length rs)) m = Some (Inr m') \<and> pp_ready m' pre' rs \<and> length pre' = length pre \<and>
    msgBody m' = pre' @ batch_bytes rs \<and> sender m' = sender m \<and> msgSize m' = length (msgBody m') \<and>
    take 32 (drop 48 pre') = digestOf env (concat (map (req_material env) rs)) \<and>
    (\<forall>off k. off + k \<le> 30 \<longrightarrow> fld off k pre' = fld off k pre)"
proof -
  note a = bl [unfolded pp_building_def] and f = pp_building_fields [OF bl]
  obtain rest where b: "msgBody m = pre @ batch_bytes rs @ rest" using a by blast
  have pre: "86 \<le> length pre" using a by simp
  let ?fl = "or (fld 30 2 pre) 2" and ?d = "digestOf env (concat (map (req_material env) rs))"
  define pre1 where "pre1 = take 30 pre @ le_bytes 2 ?fl @ drop 32 pre"
  define pre2 where "pre2 = take 48 pre1 @ ?d @ drop 80 pre1"
  have l1: "length pre1 = length pre" and l2: "length pre2 = length pre" using pre dg by (simp_all add: pre1_def pre2_def)
  note p1 = fld_patch [of 30 "le_bytes 2 ?fl" pre, simplified, folded pre1_def]
  note p2 = fld_patch [of 48 ?d pre1, unfolded dg, simplified, folded pre2_def]
  have k: "0 < length rs" "0 < length (batch_bytes rs)" using ne by (cases rs; simp add: length_req_bytes)+
  have small: "length pre + length (batch_bytes rs) < 2 ^ 32" using a b by auto
  have chk: "checkRequests m = Inr True"
    using check_loop_batch [OF b ne fit small] f k by (simp add: checkRequests_def)
  have w1: "wr 30 (le_bytes 2 ?fl) (msgBody m) = Inr (pre1 @ batch_bytes rs @ rest)"
    using wr_in_prefix [of 30 "le_bytes 2 ?fl" pre "batch_bytes rs @ rest"] pre by (simp add: b pre1_def)
  let ?m1 = "m\<lparr>msgBody := pre1 @ batch_bytes rs @ rest\<rparr>"
  have mk: "pp_markReady m = Inr (length pre + length (batch_bytes rs), ?m1)"
    using f k a chk w1 by (simp add: pp_markReady_def)
  have f1: "fld off j pre1 = fld off j pre" if "off + j \<le> 30 \<or> 32 \<le> off" for off j using p1(1) that pre by simp
  have f2: "fld off j pre2 = fld off j pre1" if "off + j \<le> 48 \<or> 80 \<le> off" for off j using p2(1) that pre l1 by simp
  have fl1: "bit (fld 30 2 pre1) 1" using p1(2) pre bit_or_flags [of "fld 30 2 pre"] by (simp add: le_nat_bytes)
  have r1: "pp_ready ?m1 pre1 rs" using a l1 f1 fl1 b by (auto simp: pp_ready_def)
  have w2: "wr 48 ?d (pre1 @ batch_bytes rs @ rest) = Inr (pre2 @ batch_bytes rs @ rest)"
    using wr_in_prefix [of 48 ?d pre1 "batch_bytes rs @ rest"] pre dg l1 by (simp add: pre2_def)
  let ?m2 = "m\<lparr>msgBody := pre2 @ batch_bytes rs, msgSize := length pre + length (batch_bytes rs),
      storageSize := length pre + length (batch_bytes rs)\<rparr>"
  have "pp_finishAddingRequests env (Suc (length rs)) m = Some (Inr ?m2)"
    using mk pp_ready_fields(5) [OF r1 fit ne] w2 a b l2 k
    by (auto simp add: pp_finishAddingRequests_def setMsgSize_def shrinkToFit_def)
  moreover have "pp_ready ?m2 pre2 rs" using r1 f2 l1 l2 small by (auto simp: pp_ready_def)
  moreover have "take 32 (drop 48 pre2) = ?d" using pre l1 dg by (simp add: pre2_def)
  ultimately show ?thesis using l2 f1 f2 by (intro exI [of _ ?m2] exI [of _ pre2]) simp
qed

lemma batch_built:
  assumes ne: "rs \<noteq> []" and fit: "\<forall>r \<in> set rs. req_fits r" and k: "length rs < 65536"
    and sz: "86 + length span + length cid + length (batch_bytes rs) < maxMessageSize env" "maxMessageSize env \<le> 2 ^ 32"
    and dg: "\<And>x. length (digestOf env x) = 32"
  shows "\<exists>m0 m1 m pre. PrePrepareMsg_new env src v s fp span cid (length (batch_bytes rs)) = Inr m0 \<and> pp_addRequests rs m0 = Inr m1 \<and>
    pp_finishAddingRequests env (Suc (length rs)) m1 = Some (Inr m) \<and> pp_ready m pre rs \<and> msgBody m = pre @ batch_bytes rs \<and>
    take 32 (drop 48 pre) = digestOf env (concat (map (req_material env) rs))"
proof -
  have "0 < length (batch_bytes rs)" using ne by (cases rs) (simp_all add: length_req_bytes)
  from PrePrepareMsg_new_building [OF this sz] obtain m0 pre0 where
    m0: "PrePrepareMsg_new env src v s fp span cid (length (batch_bytes rs)) = Inr m0" "pp_building m0 pre0 []"
      "storageSize m0 = 86 + length span + length cid + length (batch_bytes rs)" "length pre0 = 86 + length span + length cid" by blast
  have "\<exists>m' pre'. pp_addRequests rs m0 = Inr m' \<and> pp_building m' pre' rs"
    using addRequests_building [OF m0(2) fit] k m0(3,4) by fastforce
  then obtain m1 pre1 where m1: "pp_addRequests rs m0 = Inr m1" "pp_building m1 pre1 rs" by blast
  from finishAddingRequests_ready [OF m1(2) fit ne dg] m0(1) m1(1) show ?thesis by blast
qed

text \<open>
  C9. A batch survives its message: the pre-prepare message built by the constructor, by adding the requests in turn and by
  \<^verbatim>\<open>finishAddingRequests\<close> counts the requests, passes its own checks, has the digest of their signatures (or digests) in order, and
  the iterator ends after visiting, for every request, a position that holds the bytes of exactly that request.
\<close>

theorem pre_prepare_round_trip:
  assumes "rs \<noteq> []" "\<forall>r \<in> set rs. req_fits r" "length rs < 65536"
    "86 + length span + length cid + length (batch_bytes rs) < maxMessageSize env" "maxMessageSize env \<le> 2 ^ 32"
    "\<And>x. length (digestOf env x) = 32"
  shows "\<exists>m0 m1 m loc ps. PrePrepareMsg_new env src v s fp span cid (length (batch_bytes rs)) = Inr m0 \<and> pp_addRequests rs m0 = Inr m1 \<and>
    pp_finishAddingRequests env (Suc (length rs)) m1 = Some (Inr m) \<and>
    pp_numberOfRequests m = Inr (length rs) \<and> checkRequests m = Inr True \<and>
    pp_digestOfRequests m = Inr (digestOf env (concat (map (req_material env) rs))) \<and>
    calculateDigestOfRequests env (Suc (length rs)) m = Some (pp_digestOfRequests m) \<and>
    it_new m = Inr loc \<and> it_all (Suc (length rs)) m loc = Some (Inr ps) \<and> length ps = length rs \<and>
    (\<forall>j < length rs. rd_bytes (ps ! j) (length (req_bytes (rs ! j))) (msgBody m) = Inr (req_bytes (rs ! j)))"
proof -
  from batch_built [OF assms] obtain m0 m1 m pre where
    m: "PrePrepareMsg_new env src v s fp span cid (length (batch_bytes rs)) = Inr m0" "pp_addRequests rs m0 = Inr m1"
      "pp_finishAddingRequests env (Suc (length rs)) m1 = Some (Inr m)" and
    r: "pp_ready m pre rs" "msgBody m = pre @ batch_bytes rs" "take 32 (drop 48 pre) = digestOf env (concat (map (req_material env) rs))"
    by blast
  note f = pp_ready_fields [OF r(1) assms(2,1)]
  have rd: "rd_bytes (req_positions (length pre) rs ! j) (length (req_bytes (rs ! j))) (msgBody m) = Inr (req_bytes (rs ! j))"
    if "j < length rs" for j
  proof -
    have t: "take (length (req_bytes (rs ! j))) (drop (req_positions (length pre) rs ! j) (msgBody m)) = req_bytes (rs ! j)"
      using req_positions_bytes [OF that, of pre "[]"] r(2) by simp
    then have "length (req_bytes (rs ! j)) \<le> length (msgBody m) - req_positions (length pre) rs ! j"
      by (metis length_drop length_take min.cobounded1 min.commute)
    moreover have "0 < length (req_bytes (rs ! j))" by (simp add: length_req_bytes)
    ultimately have "req_positions (length pre) rs ! j + length (req_bytes (rs ! j)) \<le> length (msgBody m)" by linarith
    then show ?thesis using t by (simp add: rd_bytes_Inr)
  qed
  show ?thesis using m f r(3) rd
    by (intro exI [of _ m0] exI [of _ m1] exI [of _ m] exI [of _ "length pre"] exI [of _ "req_positions (length pre) rs"])
      (simp del: it_all.simps)
qed

definition example_request :: ClientRequest where
  "example_request = \<lparr>rq_client = 20, rq_flags = 0, rq_result = 1, rq_seqNum = 5, rq_timeout = 0, rq_indexInBatch = 0,
     rq_span = [], rq_request = [7, 7, 7], rq_cid = [], rq_signature = [1, 2], rq_extra = []\<rparr>"

lemma example_request_fits: "req_fits example_request" "length (req_bytes example_request) = 57"
  by (simp_all add: req_fits_def length_req_bytes example_request_def)

lemma example_batch_fits:
  "86 + length ([] :: bytes) + length ([9] :: bytes) + length (batch_bytes [example_request, example_request]) < maxMessageSize example_env"
  "maxMessageSize example_env \<le> 2 ^ 32" "length (digestOf example_env x) = 32"
  by (simp_all add: example_env_def example_request_fits)

theorem pre_prepare_round_trip_witness:
  "\<exists>m0 m1 m loc ps. PrePrepareMsg_new example_env 1 0 7 SLOW [] [9] (length (batch_bytes [example_request, example_request])) = Inr m0 \<and>
    pp_addRequests [example_request, example_request] m0 = Inr m1 \<and> pp_finishAddingRequests example_env 3 m1 = Some (Inr m) \<and>
    it_new m = Inr loc \<and> it_all 3 m loc = Some (Inr ps) \<and> length ps = 2 \<and>
    rd_bytes (ps ! 1) 57 (msgBody m) = Inr (req_bytes example_request)"
proof -
  have n: "Suc (length [example_request, example_request]) = 3" "Suc (Suc (Suc 0)) = (3 :: nat)" by simp_all
  have fit: "\<forall>r \<in> set [example_request, example_request]. req_fits r" by (simp add: example_request_fits)
  from pre_prepare_round_trip [OF _ fit _ example_batch_fits(1,2,3), of 1 0 7 SLOW, unfolded n] obtain m0 m1 m loc ps where
    "PrePrepareMsg_new example_env 1 0 7 SLOW [] [9] (length (batch_bytes [example_request, example_request])) = Inr m0"
    "pp_addRequests [example_request, example_request] m0 = Inr m1" "pp_finishAddingRequests example_env 3 m1 = Some (Inr m)"
    "it_new m = Inr loc" "it_all 3 m loc = Some (Inr ps)" "length ps = length [example_request, example_request]"
    "\<forall>j < length [example_request, example_request]. rd_bytes (ps ! j) (length (req_bytes ([example_request, example_request] ! j)))
       (msgBody m) = Inr (req_bytes ([example_request, example_request] ! j))"
    by auto
  then show ?thesis by (intro exI [of _ m0] exI [of _ m1] exI [of _ m] exI [of _ loc] exI [of _ ps])
      (auto simp: example_request_fits dest: spec [of _ 1])
qed

theorem iteration_terminates_witness:
  "\<exists>m loc ps. checkRequests m = Inr True \<and> pp_numberOfRequests m = Inr 2 \<and> it_new m = Inr loc \<and>
    it_all (Suc 2) m loc = Some (Inr ps) \<and> length ps = 2"
proof -
  let ?rs = "[example_request, example_request]"
  have fit: "\<forall>r \<in> set ?rs. req_fits r" by (simp add: example_request_fits)
  have "?rs \<noteq> []" "length ?rs < 65536" by simp_all
  from batch_built [OF this(1) fit this(2) example_batch_fits(1,2,3), of 1 0 7 SLOW] obtain m pre where r: "pp_ready m pre ?rs" by blast
  note f = pp_ready_fields [OF r fit]
  have "pp_numberOfRequests m = Inr 2" using f(2) by simp
  from iteration_terminates [OF f(3) this _ f(1)] this f(1,3) show ?thesis by auto
qed

end
