(* ===== verification/Seq_Num_Info.thy ===== *)
theory Seq_Num_Info
  imports Sig_Collector Pre_Prepare
begin

text \<open>
  bftengine/src/bftengine/SeqNumInfo.{hpp,cpp}: what a replica knows about one sequence number, with the four collectors of
  signatures and the functions the collectors are instantiated with. Metrics, logging and tracing spans are left out; the monotonic
  clock is the argument \<open>now\<close>.
\<close>

section \<open>The state\<close>

type_synonym msg_collector = "(MessageBase, MessageBase) collector"

text \<open>The smallest value of a \<^verbatim>\<open>Time\<close>.\<close>

definition MinTime :: int where
  "MinTime = - (2 ^ 63)"

record SeqNumInfo =
  prePrepareMsg :: "MessageBase option"
  prepareSigCollector :: msg_collector
  commitMsgsCollector :: msg_collector
  fastPathOptimisticCollector :: msg_collector
  fastPathThresholdCollector :: msg_collector
  fastPathTimeOfSelfPartialProof :: int
  sni_primary :: bool
  forcedCompleted :: bool
  slowPathHasStarted :: bool
  isTimeCorrect :: bool
  firstSeenFromPrimary :: int
  timeOfLastInfoRequest :: int
  commitUpdateTime :: int

text \<open>
  What the class reads through the replica: the identities, the verifiers that \<^verbatim>\<open>CryptoManager\<close> has for a sequence number, and
  the iteration order of the unordered maps.
\<close>

record SniEnv =
  sni_msgEnv :: MsgEnv
  sni_ri :: ReplicasInfo
  thresholdVerifierForSlowPathCommit :: "SeqNum \<Rightarrow> IThresholdVerifier"
  thresholdVerifierForOptimisticCommit :: "SeqNum \<Rightarrow> IThresholdVerifier"
  thresholdVerifierForCommit :: "SeqNum \<Rightarrow> IThresholdVerifier"
  sni_order :: "(ReplicaId \<times> MessageBase RepInfo) list \<Rightarrow> (ReplicaId \<times> MessageBase RepInfo) list"

datatype CollectorKind = PrepareC | CommitC | OptimisticC | ThresholdC

section \<open>The functions of the collectors\<close>

text \<open>
  The signature of a message that has passed validation, which has checked that it lies inside the message: the other case of
  the definitions does not occur (\<open>share_of_validated\<close>).
\<close>

definition share_of :: "MessageBase \<Rightarrow> bytes" where
  "share_of m = (case ss_signatureBody m of Inr s \<Rightarrow> s | Inl _ \<Rightarrow> [])"

definition pcp_share_of :: "MessageBase \<Rightarrow> bytes" where
  "pcp_share_of m = (case pcp_signatureBody m of Inr s \<Rightarrow> s | Inl _ \<Rightarrow> [])"

lemma share_of_validated:
  assumes "net_msg m"
  shows "ss_validate env ri ty m = Inr () \<Longrightarrow> ss_signatureBody m = Inr (share_of m)"
    "PartialCommitProofMsg_validate env ri m = Inr () \<Longrightarrow> pcp_signatureBody m = Inr (pcp_share_of m)"
proof -
  have "\<exists>s. ss_signatureBody m = Inr s" if "ss_validate env ri ty m = Inr ()"
    using that assms by (cases "msgSize m < 32 + span_of m")
      (auto simp: ss_validate_def ss_signatureBody_def ss_signatureLen_def net_simps rd_bytes_def net_msg_def split: if_splits)
  then show "ss_validate env ri ty m = Inr () \<Longrightarrow> ss_signatureBody m = Inr (share_of m)" by (auto simp: share_of_def)
  have "\<exists>s. pcp_signatureBody m = Inr s" if "PartialCommitProofMsg_validate env ri m = Inr ()"
    using that assms by (cases "msgSize m < 33 + span_of m")
      (auto simp: PartialCommitProofMsg_validate_def pcp_signatureBody_def pcp_signatureLen_def net_simps rd_bytes_def net_msg_def split: if_splits)
  then show "PartialCommitProofMsg_validate env ri m = Inr () \<Longrightarrow> pcp_signatureBody m = Inr (pcp_share_of m)" by (auto simp: pcp_share_of_def)
qed

definition ExFuncForPrepareCollector :: "SniEnv \<Rightarrow> (MessageBase, MessageBase) ExternalFunc" where
  "ExFuncForPrepareCollector e =
     \<lparr>numberOfRequiredSignatures = u16 (fVal (sni_ri e) * 2 + cVal (sni_ri e) + 1),
      thresholdVerifier = thresholdVerifierForSlowPathCommit e, partSignature = share_of, fullSignature = share_of,
      createCombinedSignatureMsg = (\<lambda>s v sig. ss_create (sni_msgEnv e) McPrepareFull v s (myId (sni_ri e)) sig []),
      infoOrder = sni_order e\<rparr>"

definition ExFuncForCommitCollector :: "SniEnv \<Rightarrow> (MessageBase, MessageBase) ExternalFunc" where
  "ExFuncForCommitCollector e =
     \<lparr>numberOfRequiredSignatures = u16 (fVal (sni_ri e) * 2 + cVal (sni_ri e) + 1),
      thresholdVerifier = thresholdVerifierForSlowPathCommit e, partSignature = share_of, fullSignature = share_of,
      createCombinedSignatureMsg = (\<lambda>s v sig. ss_create (sni_msgEnv e) McCommitFull v s (myId (sni_ri e)) sig []),
      infoOrder = sni_order e\<rparr>"

definition ExFuncForFastPathOptimisticCollector :: "SniEnv \<Rightarrow> (MessageBase, MessageBase) ExternalFunc" where
  "ExFuncForFastPathOptimisticCollector e =
     \<lparr>numberOfRequiredSignatures = u16 (3 * fVal (sni_ri e) + 2 * cVal (sni_ri e) + 1),
      thresholdVerifier = thresholdVerifierForOptimisticCommit e, partSignature = pcp_share_of, fullSignature = share_of,
      createCombinedSignatureMsg = (\<lambda>s v sig. FullCommitProofMsg_new (sni_msgEnv e) (myId (sni_ri e)) v s sig []),
      infoOrder = sni_order e\<rparr>"

definition ExFuncForFastPathThresholdCollector :: "SniEnv \<Rightarrow> (MessageBase, MessageBase) ExternalFunc" where
  "ExFuncForFastPathThresholdCollector e =
     \<lparr>numberOfRequiredSignatures = u16 (3 * fVal (sni_ri e) + cVal (sni_ri e) + 1),
      thresholdVerifier = thresholdVerifierForCommit e, partSignature = pcp_share_of, fullSignature = share_of,
      createCombinedSignatureMsg = (\<lambda>s v sig. FullCommitProofMsg_new (sni_msgEnv e) (myId (sni_ri e)) v s sig []),
      infoOrder = sni_order e\<rparr>"

fun exf :: "SniEnv \<Rightarrow> CollectorKind \<Rightarrow> (MessageBase, MessageBase) ExternalFunc" where
  "exf e PrepareC = ExFuncForPrepareCollector e"
| "exf e CommitC = ExFuncForCommitCollector e"
| "exf e OptimisticC = ExFuncForFastPathOptimisticCollector e"
| "exf e ThresholdC = ExFuncForFastPathThresholdCollector e"

fun sni_col :: "CollectorKind \<Rightarrow> SeqNumInfo \<Rightarrow> msg_collector" where
  "sni_col PrepareC st = prepareSigCollector st"
| "sni_col CommitC st = commitMsgsCollector st"
| "sni_col OptimisticC st = fastPathOptimisticCollector st"
| "sni_col ThresholdC st = fastPathThresholdCollector st"

fun sni_set_col :: "CollectorKind \<Rightarrow> msg_collector \<Rightarrow> SeqNumInfo \<Rightarrow> SeqNumInfo" where
  "sni_set_col PrepareC c st = st\<lparr>prepareSigCollector := c\<rparr>"
| "sni_set_col CommitC c st = st\<lparr>commitMsgsCollector := c\<rparr>"
| "sni_set_col OptimisticC c st = st\<lparr>fastPathOptimisticCollector := c\<rparr>"
| "sni_set_col ThresholdC c st = st\<lparr>fastPathThresholdCollector := c\<rparr>"

text \<open>The \<^verbatim>\<open>switch\<close> over the commit path, whose default asserts; the second one is over the byte in a message.\<close>

fun commit_collector :: "CommitPath \<Rightarrow> CollectorKind result" where
  "commit_collector SLOW = Inr CommitC"
| "commit_collector OPTIMISTIC_FAST = Inr OptimisticC"
| "commit_collector FAST_WITH_THRESHOLD = Inr ThresholdC"
| "commit_collector NA = Inl AssertFailed"

definition fast_collector :: "nat \<Rightarrow> CollectorKind result" where
  "fast_collector p =
     (if p = path_code OPTIMISTIC_FAST then Inr OptimisticC
      else if p = path_code FAST_WITH_THRESHOLD then Inr ThresholdC
      else Inl AssertFailed)"

section \<open>Operations\<close>

text \<open>An operation returns its result, the jobs it has handed to the thread pool, and the state.\<close>

type_synonym sni_jobs = "(CollectorKind \<times> job) list"

definition tagged :: "CollectorKind \<Rightarrow> job option \<Rightarrow> sni_jobs" where
  "tagged k j = (case j of None \<Rightarrow> [] | Some x \<Rightarrow> [(k, x)])"

definition SeqNumInfo_new :: SeqNumInfo where
  "SeqNumInfo_new =
     \<lparr>prePrepareMsg = None, prepareSigCollector = collector_new, commitMsgsCollector = collector_new,
      fastPathOptimisticCollector = collector_new, fastPathThresholdCollector = collector_new,
      fastPathTimeOfSelfPartialProof = MinTime, sni_primary = False, forcedCompleted = False, slowPathHasStarted = False,
      isTimeCorrect = True, firstSeenFromPrimary = MinTime, timeOfLastInfoRequest = MinTime, commitUpdateTime = MinTime\<rparr>"

definition resetCommitSignatures :: "CommitPath \<Rightarrow> SeqNumInfo \<Rightarrow> SeqNumInfo result" where
  "resetCommitSignatures cPath st =
     rbind (commit_collector cPath) (\<lambda>k. Inr (sni_set_col k (collector_resetAndFree (sni_col k st)) st))"

definition resetPrepareSignatures :: "SeqNumInfo \<Rightarrow> SeqNumInfo" where
  "resetPrepareSignatures st = st\<lparr>prepareSigCollector := collector_resetAndFree (prepareSigCollector st)\<rparr>"

definition sni_resetAndFree :: "int \<Rightarrow> SeqNumInfo \<Rightarrow> SeqNumInfo" where
  "sni_resetAndFree now st =
     st\<lparr>prePrepareMsg := None,
        prepareSigCollector := collector_resetAndFree (prepareSigCollector st),
        commitMsgsCollector := collector_resetAndFree (commitMsgsCollector st),
        fastPathOptimisticCollector := collector_resetAndFree (fastPathOptimisticCollector st),
        fastPathThresholdCollector := collector_resetAndFree (fastPathThresholdCollector st),
        fastPathTimeOfSelfPartialProof := MinTime, sni_primary := False, forcedCompleted := False, slowPathHasStarted := False,
        firstSeenFromPrimary := MinTime, timeOfLastInfoRequest := MinTime, commitUpdateTime := now\<rparr>"

definition sni_getAndReset :: "int \<Rightarrow> SeqNumInfo \<Rightarrow> MessageBase option \<times> MessageBase option \<times> SeqNumInfo" where
  "sni_getAndReset now st =
     (case collector_getAndReset (prepareSigCollector st) of
        (full, c) \<Rightarrow> (prePrepareMsg st, full, sni_resetAndFree now (st\<lparr>prePrepareMsg := None, prepareSigCollector := c\<rparr>)))"

text \<open>What a collector expects for a pre-prepare message.\<close>

definition pp_expected :: "MessageBase \<Rightarrow> (SeqNum \<times> ViewNum \<times> Digest) result" where
  "pp_expected m =
     rbind (pp_digestOfRequests m) (\<lambda>d. rbind (pp_viewNumber m) (\<lambda>v. rbind (pp_seqNumber m) (\<lambda>s.
       Inr (s, v, calcCombination (digest_words d) v s))))"

definition sni_expect :: "SniEnv \<Rightarrow> CollectorKind \<Rightarrow> bool \<Rightarrow> SeqNum \<Rightarrow> ViewNum \<Rightarrow> Digest \<Rightarrow> SeqNumInfo \<Rightarrow> (sni_jobs \<times> SeqNumInfo) result" where
  "sni_expect e k directAdd s v d st =
     (if \<not> directAdd
      then rbind (setExpected (exf e k) s v d (sni_col k st)) (\<lambda>(j, c). Inr (tagged k j, sni_set_col k c st))
      else rbind (initExpected s v d (sni_col k st)) (\<lambda>c. Inr ([], sni_set_col k c st)))"

definition sni_add_partial :: "SniEnv \<Rightarrow> CollectorKind \<Rightarrow> bool \<Rightarrow> MessageBase \<Rightarrow> SeqNumInfo \<Rightarrow> (bool \<times> sni_jobs \<times> SeqNumInfo) result" where
  "sni_add_partial e k directAdd m st =
     (if \<not> directAdd
      then rbind (addMsgWithPartialSignature (exf e k) m (sender m) (sni_col k st))
             (\<lambda>(r, j, c). Inr (r, tagged k j, sni_set_col k c st))
      else rbind (initMsgWithPartialSignature (exf e k) m (sender m) (sni_col k st))
             (\<lambda>(r, c). Inr (r, [], sni_set_col k c st)))"

definition sni_add_combined :: "SniEnv \<Rightarrow> CollectorKind \<Rightarrow> bool \<Rightarrow> MessageBase \<Rightarrow> SeqNumInfo \<Rightarrow> (bool \<times> sni_jobs \<times> SeqNumInfo) result" where
  "sni_add_combined e k directAdd m st =
     (if \<not> directAdd
      then rbind (addMsgWithCombinedSignature (exf e k) m (sni_col k st))
             (\<lambda>(r, j, c). Inr (r, tagged k j, sni_set_col k c st))
      else rbind (initMsgWithCombinedSignature (exf e k) m (sni_col k st))
             (\<lambda>(r, c). Inr (r, [], sni_set_col k c st)))"

definition seen :: "int \<Rightarrow> SeqNumInfo \<Rightarrow> SeqNumInfo" where
  "seen now st = (if firstSeenFromPrimary st = MinTime then st\<lparr>firstSeenFromPrimary := now\<rparr> else st)"

definition addMsg_PrePrepare :: "SniEnv \<Rightarrow> int \<Rightarrow> bool \<Rightarrow> bool \<Rightarrow> MessageBase \<Rightarrow> SeqNumInfo \<Rightarrow> (bool \<times> sni_jobs \<times> SeqNumInfo) result" where
  "addMsg_PrePrepare e now directAdd timeCorrect m st =
     (if prePrepareMsg st \<noteq> None then Inr (False, [], st)
      else c_assert (\<not> sni_primary st) (c_assert (\<not> forcedCompleted st)
        (c_assert (\<not> hasPartialMsgFromReplica (prepareSigCollector st) (myId (sni_ri e)))
          (rbind (pp_expected m) (\<lambda>(s, v, d).
             rbind (sni_expect e PrepareC directAdd s v d (st\<lparr>prePrepareMsg := Some m, isTimeCorrect := timeCorrect\<rparr>))
               (\<lambda>(js, st1). Inr (True, js, seen now st1)))))))"

definition addSelfMsg_PrePrepare :: "SniEnv \<Rightarrow> int \<Rightarrow> bool \<Rightarrow> MessageBase \<Rightarrow> SeqNumInfo \<Rightarrow> (bool \<times> sni_jobs \<times> SeqNumInfo) result" where
  "addSelfMsg_PrePrepare e now directAdd m st =
     c_assert (\<not> sni_primary st)
      (rbind (pp_viewNumber m) (\<lambda>w. c_assert (myId (sni_ri e) = primaryOfView (sni_ri e) w)
        (c_assert (\<not> forcedCompleted st) (c_assert (prePrepareMsg st = None)
          (rbind (pp_expected m) (\<lambda>(s, v, d).
             rbind (sni_expect e PrepareC directAdd s v d (st\<lparr>prePrepareMsg := Some m, sni_primary := True\<rparr>))
               (\<lambda>(js, st1). Inr (True, js, seen now st1))))))))"

definition addMsg_PreparePartial :: "SniEnv \<Rightarrow> MessageBase \<Rightarrow> SeqNumInfo \<Rightarrow> (bool \<times> sni_jobs \<times> SeqNumInfo) result" where
  "addMsg_PreparePartial e m st =
     c_assert (myId (sni_ri e) \<noteq> sender m) (c_assert (\<not> forcedCompleted st) (sni_add_partial e PrepareC False m st))"

definition addSelfMsg_PreparePartial :: "SniEnv \<Rightarrow> bool \<Rightarrow> MessageBase \<Rightarrow> SeqNumInfo \<Rightarrow> (bool \<times> sni_jobs \<times> SeqNumInfo) result" where
  "addSelfMsg_PreparePartial e directAdd m st =
     c_assert (myId (sni_ri e) = sender m) (c_assert (\<not> forcedCompleted st)
       (rbind (sni_add_partial e PrepareC directAdd m st) (\<lambda>(r, js, st1). c_assert r (Inr (True, js, st1)))))"

definition addMsg_PrepareFull :: "SniEnv \<Rightarrow> bool \<Rightarrow> MessageBase \<Rightarrow> SeqNumInfo \<Rightarrow> (bool \<times> sni_jobs \<times> SeqNumInfo) result" where
  "addMsg_PrepareFull e directAdd m st =
     c_assert (directAdd \<or> myId (sni_ri e) \<noteq> sender m) (c_assert (\<not> forcedCompleted st) (sni_add_combined e PrepareC directAdd m st))"

definition commit_updated :: "int \<Rightarrow> bool \<times> sni_jobs \<times> SeqNumInfo \<Rightarrow> bool \<times> sni_jobs \<times> SeqNumInfo" where
  "commit_updated now = (\<lambda>(r, js, st). (r, js, if r then st\<lparr>commitUpdateTime := now\<rparr> else st))"

definition addMsg_CommitPartial :: "SniEnv \<Rightarrow> int \<Rightarrow> MessageBase \<Rightarrow> SeqNumInfo \<Rightarrow> (bool \<times> sni_jobs \<times> SeqNumInfo) result" where
  "addMsg_CommitPartial e now m st =
     c_assert (myId (sni_ri e) \<noteq> sender m) (c_assert (\<not> forcedCompleted st)
       (rbind (sni_add_partial e CommitC False m st) (\<lambda>x. Inr (commit_updated now x))))"

definition addSelfCommitPartialMsgAndDigest :: "SniEnv \<Rightarrow> int \<Rightarrow> bool \<Rightarrow> Digest \<Rightarrow> MessageBase \<Rightarrow> SeqNumInfo \<Rightarrow> (bool \<times> sni_jobs \<times> SeqNumInfo) result" where
  "addSelfCommitPartialMsgAndDigest e now directAdd commitDigest m st =
     c_assert (myId (sni_ri e) = sender m) (c_assert (\<not> forcedCompleted st)
      (rbind (ss_viewNumber m) (\<lambda>v. rbind (ss_seqNumber m) (\<lambda>s.
         rbind (sni_expect e CommitC directAdd s v (calcCombination commitDigest v s) st) (\<lambda>(js, st1).
           rbind (sni_add_partial e CommitC directAdd m st1) (\<lambda>(r, js', st2).
             c_assert r (Inr (True, js @ js', st2\<lparr>commitUpdateTime := now\<rparr>))))))))"

definition addMsg_CommitFull :: "SniEnv \<Rightarrow> int \<Rightarrow> bool \<Rightarrow> MessageBase \<Rightarrow> SeqNumInfo \<Rightarrow> (bool \<times> sni_jobs \<times> SeqNumInfo) result" where
  "addMsg_CommitFull e now directAdd m st =
     c_assert (directAdd \<or> myId (sni_ri e) \<noteq> sender m) (c_assert (\<not> forcedCompleted st)
       (rbind (sni_add_combined e CommitC directAdd m st) (\<lambda>x. Inr (commit_updated now x))))"

definition hasFastPathFullCommitProof :: "SeqNumInfo \<Rightarrow> bool" where
  "hasFastPathFullCommitProof st \<longleftrightarrow>
     getMsgWithValidCombinedSignature (fastPathOptimisticCollector st) \<noteq> None \<or>
     getMsgWithValidCombinedSignature (fastPathThresholdCollector st) \<noteq> None"

definition forceComplete :: "int \<Rightarrow> SeqNumInfo \<Rightarrow> SeqNumInfo result" where
  "forceComplete now st =
     c_assert (\<not> forcedCompleted st) (c_assert (prePrepareMsg st \<noteq> None) (c_assert (hasFastPathFullCommitProof st)
       (Inr (st\<lparr>forcedCompleted := True, commitUpdateTime := now\<rparr>))))"

section \<open>Queries\<close>

definition getSelfPrePrepareMsg :: "SeqNumInfo \<Rightarrow> MessageBase option" where
  "getSelfPrePrepareMsg st = (if sni_primary st then prePrepareMsg st else None)"

definition getSelfPreparePartialMsg :: "SniEnv \<Rightarrow> SeqNumInfo \<Rightarrow> MessageBase option" where
  "getSelfPreparePartialMsg e st = getPartialMsgFromReplica (prepareSigCollector st) (myId (sni_ri e))"

definition getValidPrepareFullMsg :: "SeqNumInfo \<Rightarrow> MessageBase option" where
  "getValidPrepareFullMsg st = getMsgWithValidCombinedSignature (prepareSigCollector st)"

definition getSelfCommitPartialMsg :: "SniEnv \<Rightarrow> SeqNumInfo \<Rightarrow> MessageBase option" where
  "getSelfCommitPartialMsg e st = getPartialMsgFromReplica (commitMsgsCollector st) (myId (sni_ri e))"

definition getValidCommitFullMsg :: "SeqNumInfo \<Rightarrow> MessageBase option" where
  "getValidCommitFullMsg st = getMsgWithValidCombinedSignature (commitMsgsCollector st)"

definition hasMatchingPrePrepare :: "SeqNum \<Rightarrow> SeqNumInfo \<Rightarrow> bool result" where
  "hasMatchingPrePrepare seqNum st =
     (case prePrepareMsg st of None \<Rightarrow> Inr False | Some m \<Rightarrow> rpred (pp_seqNumber m) (\<lambda>s. s = seqNum))"

definition isPrepared :: "SeqNumInfo \<Rightarrow> bool" where
  "isPrepared st \<longleftrightarrow> forcedCompleted st \<or> (prePrepareMsg st \<noteq> None \<and> collector_isComplete (prepareSigCollector st))"

definition isCommitted__gg :: "SeqNumInfo \<Rightarrow> bool" where
  "isCommitted__gg st \<longleftrightarrow> forcedCompleted st \<or> collector_isComplete (commitMsgsCollector st)"

definition preparedOrHasPreparePartialFromReplica :: "ReplicaId \<Rightarrow> SeqNumInfo \<Rightarrow> bool" where
  "preparedOrHasPreparePartialFromReplica repId st \<longleftrightarrow> isPrepared st \<or> hasPartialMsgFromReplica (prepareSigCollector st) repId"

definition committedOrHasCommitPartialFromReplica :: "ReplicaId \<Rightarrow> SeqNumInfo \<Rightarrow> bool" where
  "committedOrHasCommitPartialFromReplica repId st \<longleftrightarrow> isCommitted__gg st \<or> hasPartialMsgFromReplica (commitMsgsCollector st) repId"

definition hasFastPathPartialCommitProofFromReplica :: "ReplicaId \<Rightarrow> SeqNumInfo \<Rightarrow> bool" where
  "hasFastPathPartialCommitProofFromReplica repId st \<longleftrightarrow>
     getPartialMsgFromReplica (fastPathOptimisticCollector st) repId \<noteq> None \<or>
     getPartialMsgFromReplica (fastPathThresholdCollector st) repId \<noteq> None"

definition getFastPathSelfPartialCommitProofMsg :: "SniEnv \<Rightarrow> SeqNumInfo \<Rightarrow> MessageBase option result" where
  "getFastPathSelfPartialCommitProofMsg e st =
     (let optimistic = getPartialMsgFromReplica (fastPathOptimisticCollector st) (myId (sni_ri e));
          threshold = getPartialMsgFromReplica (fastPathThresholdCollector st) (myId (sni_ri e))
      in c_assert (\<not> (optimistic \<noteq> None \<and> threshold \<noteq> None)) (Inr (if optimistic \<noteq> None then optimistic else threshold)))"

definition getFastPathFullCommitProofMsg :: "SeqNumInfo \<Rightarrow> MessageBase option result" where
  "getFastPathFullCommitProofMsg st =
     (let optimistic = getMsgWithValidCombinedSignature (fastPathOptimisticCollector st);
          threshold = getMsgWithValidCombinedSignature (fastPathThresholdCollector st)
      in c_assert (\<not> (optimistic \<noteq> None \<and> threshold \<noteq> None)) (Inr (if optimistic \<noteq> None then optimistic else threshold)))"

section \<open>The fast path\<close>

definition addFastPathSelfPartialCommitMsgAndDigest :: "SniEnv \<Rightarrow> Digest \<Rightarrow> MessageBase \<Rightarrow> SeqNumInfo \<Rightarrow> (bool \<times> sni_jobs \<times> SeqNumInfo) result" where
  "addFastPathSelfPartialCommitMsgAndDigest e commitDigest m st =
     c_assert (sender m = myId (sni_ri e))
      (rbind (ss_seqNumber m) (\<lambda>s. rbind (hasMatchingPrePrepare s st) (\<lambda>match. c_assert match
        (c_assert (\<not> hasFastPathFullCommitProof st) (c_assert (getSelfCommitPartialMsg e st = None)
          (rbind (pcp_commitPath m) (\<lambda>p. rbind (fast_collector p) (\<lambda>k. rbind (ss_viewNumber m) (\<lambda>v.
             rbind (sni_expect e k False s v commitDigest st) (\<lambda>(js, st1).
               rbind (sni_add_partial e k False m st1) (\<lambda>(r, js', st2). Inr (r, js @ js', st2)))))))))))) "

definition addFastPathPartialCommitMsg :: "SniEnv \<Rightarrow> MessageBase \<Rightarrow> SeqNumInfo \<Rightarrow> (bool \<times> sni_jobs \<times> SeqNumInfo) result" where
  "addFastPathPartialCommitMsg e m st =
     c_assert (sender m \<noteq> myId (sni_ri e)) (c_assert (isIdOfReplica (sni_ri e) (sender m))
      (rbind (ss_seqNumber m) (\<lambda>s. rbind (hasMatchingPrePrepare s st) (\<lambda>match. c_assert (prePrepareMsg st = None \<or> match)
        (if hasFastPathFullCommitProof st then Inr (False, [], st)
         else rbind (getFastPathSelfPartialCommitProofMsg e st) (\<lambda>self.
           rbind (pcp_commitPath m) (\<lambda>p.
             rbind (case self of None \<Rightarrow> Inr True | Some mine \<Rightarrow> rpred (pcp_commitPath mine) (\<lambda>q. q = p)) (\<lambda>same.
               if \<not> same then Inr (False, [], st)
               else rbind (fast_collector p) (\<lambda>k. sni_add_partial e k False m st)))))))))"

definition addFastPathFullCommitMsg :: "SniEnv \<Rightarrow> bool \<Rightarrow> MessageBase \<Rightarrow> SeqNumInfo \<Rightarrow> (bool \<times> sni_jobs \<times> SeqNumInfo) result" where
  "addFastPathFullCommitMsg e directAdd m st =
     (if hasFastPathFullCommitProof st then Inr (False, [], st)
      else rbind (getFastPathSelfPartialCommitProofMsg e st) (\<lambda>self. case self of
         None \<Rightarrow> Inr (False, [], st)
       | Some myPCP \<Rightarrow>
           rbind (ss_seqNumber m) (\<lambda>s. rbind (ss_seqNumber myPCP) (\<lambda>s'. rbind (ss_viewNumber m) (\<lambda>v. rbind (ss_viewNumber myPCP) (\<lambda>v'.
             if s \<noteq> s' \<or> v \<noteq> v' then Inr (False, [], st)
             else rbind (pcp_commitPath myPCP) (\<lambda>p. rbind (fast_collector p) (\<lambda>k. sni_add_combined e k directAdd m st))))))))"

definition startSlowPath :: "SeqNumInfo \<Rightarrow> SeqNumInfo" where
  "startSlowPath st = st\<lparr>slowPathHasStarted := True\<rparr>"

section \<open>Results of the jobs\<close>

definition sni_deliver :: "SniEnv \<Rightarrow> CollectorKind \<Rightarrow> InternalSigMsg \<Rightarrow> SeqNumInfo \<Rightarrow> (sni_jobs \<times> SeqNumInfo) result" where
  "sni_deliver e k im st =
     rbind (deliver (exf e k) im (sni_col k st)) (\<lambda>(j, c). Inr (tagged k j, sni_set_col k c st))"

definition onCompletionOfPrepareSignaturesProcessing :: "SniEnv \<Rightarrow> SeqNum \<Rightarrow> ViewNum \<Rightarrow> ReplicaId list + bytes \<Rightarrow> SeqNumInfo \<Rightarrow> (sni_jobs \<times> SeqNumInfo) result" where
  "onCompletionOfPrepareSignaturesProcessing e s v res st =
     sni_deliver e PrepareC (case res of Inl bad \<Rightarrow> CombinedSigFailed s v bad | Inr sig \<Rightarrow> CombinedSigSucceeded s v sig) st"

definition onCompletionOfCombinedPrepareSigVerification :: "SniEnv \<Rightarrow> SeqNum \<Rightarrow> ViewNum \<Rightarrow> bool \<Rightarrow> SeqNumInfo \<Rightarrow> (sni_jobs \<times> SeqNumInfo) result" where
  "onCompletionOfCombinedPrepareSigVerification e s v isValid st = sni_deliver e PrepareC (VerifyCombinedSigResult s v isValid) st"

definition onCompletionOfCommitSignaturesProcessing :: "SniEnv \<Rightarrow> SeqNum \<Rightarrow> ViewNum \<Rightarrow> CommitPath \<Rightarrow> ReplicaId list + bytes \<Rightarrow> SeqNumInfo \<Rightarrow>
    (sni_jobs \<times> SeqNumInfo) result" where
  "onCompletionOfCommitSignaturesProcessing e s v cPath res st =
     rbind (commit_collector cPath) (\<lambda>k.
       sni_deliver e k (case res of Inl bad \<Rightarrow> CombinedSigFailed s v bad | Inr sig \<Rightarrow> CombinedSigSucceeded s v sig) st)"

definition onCompletionOfCombinedCommitSigVerification :: "SniEnv \<Rightarrow> SeqNum \<Rightarrow> ViewNum \<Rightarrow> CommitPath \<Rightarrow> bool \<Rightarrow> SeqNumInfo \<Rightarrow>
    (sni_jobs \<times> SeqNumInfo) result" where
  "onCompletionOfCombinedCommitSigVerification e s v cPath isValid st =
     rbind (commit_collector cPath) (\<lambda>k. sni_deliver e k (VerifyCombinedSigResult s v isValid) st)"

section \<open>A sequence number with its jobs\<close>

text \<open>The jobs in the thread pool and the internal messages that wait in the queue of the replica, by collector.\<close>

record sni_sys =
  info :: SeqNumInfo
  sjobs :: "CollectorKind \<Rightarrow> job list"
  sbox :: "CollectorKind \<Rightarrow> InternalSigMsg list"

definition sni_sys_new :: sni_sys where
  "sni_sys_new = \<lparr>info = SeqNumInfo_new, sjobs = (\<lambda>k. []), sbox = (\<lambda>k. [])\<rparr>"

datatype sni_event =
    EvPrePrepare bool bool MessageBase
  | EvSelfPrePrepare bool MessageBase
  | EvPreparePartial MessageBase
  | EvSelfPreparePartial bool MessageBase
  | EvPrepareFull bool MessageBase
  | EvCommitPartial MessageBase
  | EvSelfCommitPartial bool Digest MessageBase
  | EvCommitFull bool MessageBase
  | EvForceComplete
  | EvSelfPartialProof Digest MessageBase
  | EvPartialProof MessageBase
  | EvFullProof bool MessageBase
  | EvStartSlowPath
  | EvRunJob CollectorKind
  | EvResult CollectorKind
  | EvResultWhileCollecting CollectorKind
  | EvReset
  | EvGetAndReset

text \<open>
  While the replica collects state, the handler of a result resets the signatures of its collector instead
  (\<^verbatim>\<open>ReplicaImp::onPrepareCombinedSigFailed\<close> and the like).
\<close>

fun sni_reset_signatures :: "CollectorKind \<Rightarrow> SeqNumInfo \<Rightarrow> SeqNumInfo result" where
  "sni_reset_signatures PrepareC st = Inr (resetPrepareSignatures st)"
| "sni_reset_signatures CommitC st = resetCommitSignatures SLOW st"
| "sni_reset_signatures OptimisticC st = resetCommitSignatures OPTIMISTIC_FAST st"
| "sni_reset_signatures ThresholdC st = resetCommitSignatures FAST_WITH_THRESHOLD st"

text \<open>The dispatch of an internal message to the operation of its collector.\<close>

fun sni_dispatch :: "SniEnv \<Rightarrow> CollectorKind \<Rightarrow> InternalSigMsg \<Rightarrow> SeqNumInfo \<Rightarrow> (sni_jobs \<times> SeqNumInfo) result" where
  "sni_dispatch e PrepareC (CombinedSigFailed s v bad) = onCompletionOfPrepareSignaturesProcessing e s v (Inl bad)"
| "sni_dispatch e PrepareC (CombinedSigSucceeded s v sig) = onCompletionOfPrepareSignaturesProcessing e s v (Inr sig)"
| "sni_dispatch e PrepareC (VerifyCombinedSigResult s v ok) = onCompletionOfCombinedPrepareSigVerification e s v ok"
| "sni_dispatch e k (CombinedSigFailed s v bad) =
     onCompletionOfCommitSignaturesProcessing e s v (case k of OptimisticC \<Rightarrow> OPTIMISTIC_FAST | ThresholdC \<Rightarrow> FAST_WITH_THRESHOLD | _ \<Rightarrow> SLOW) (Inl bad)"
| "sni_dispatch e k (CombinedSigSucceeded s v sig) =
     onCompletionOfCommitSignaturesProcessing e s v (case k of OptimisticC \<Rightarrow> OPTIMISTIC_FAST | ThresholdC \<Rightarrow> FAST_WITH_THRESHOLD | _ \<Rightarrow> SLOW) (Inr sig)"
| "sni_dispatch e k (VerifyCombinedSigResult s v ok) =
     onCompletionOfCombinedCommitSigVerification e s v (case k of OptimisticC \<Rightarrow> OPTIMISTIC_FAST | ThresholdC \<Rightarrow> FAST_WITH_THRESHOLD | _ \<Rightarrow> SLOW) ok"

definition sni_put :: "sni_jobs \<Rightarrow> SeqNumInfo \<Rightarrow> sni_sys \<Rightarrow> sni_sys" where
  "sni_put js st S = S\<lparr>info := st, sjobs := (\<lambda>k. sjobs S k @ map snd (filter (\<lambda>p. fst p = k) js))\<rparr>"

definition sni_posted :: "sni_sys \<Rightarrow> (bool \<times> sni_jobs \<times> SeqNumInfo) result \<Rightarrow> sni_sys result" where
  "sni_posted S r = rbind r (\<lambda>(_, js, st). Inr (sni_put js st S))"

text \<open>
  A slot is reset when the replica leaves the view or the number leaves the window. The results of the jobs of that view are then
  dropped by their handlers, which compare the view and the window, so that a reset takes the jobs and the results away. (While the
  replica collects state, the handlers do not compare the view; a result of an earlier view that arrives then is not an event of
  the model.)
\<close>

fun sni_step :: "SniEnv \<Rightarrow> int \<Rightarrow> sni_event \<Rightarrow> sni_sys \<Rightarrow> sni_sys result" where
  "sni_step e now (EvPrePrepare directAdd tc m) S = sni_posted S (addMsg_PrePrepare e now directAdd tc m (info S))"
| "sni_step e now (EvSelfPrePrepare directAdd m) S = sni_posted S (addSelfMsg_PrePrepare e now directAdd m (info S))"
| "sni_step e now (EvPreparePartial m) S = sni_posted S (addMsg_PreparePartial e m (info S))"
| "sni_step e now (EvSelfPreparePartial directAdd m) S = sni_posted S (addSelfMsg_PreparePartial e directAdd m (info S))"
| "sni_step e now (EvPrepareFull directAdd m) S = sni_posted S (addMsg_PrepareFull e directAdd m (info S))"
| "sni_step e now (EvCommitPartial m) S = sni_posted S (addMsg_CommitPartial e now m (info S))"
| "sni_step e now (EvSelfCommitPartial directAdd d m) S = sni_posted S (addSelfCommitPartialMsgAndDigest e now directAdd d m (info S))"
| "sni_step e now (EvCommitFull directAdd m) S = sni_posted S (addMsg_CommitFull e now directAdd m (info S))"
| "sni_step e now EvForceComplete S = rbind (forceComplete now (info S)) (\<lambda>st. Inr (S\<lparr>info := st\<rparr>))"
| "sni_step e now (EvSelfPartialProof d m) S = sni_posted S (addFastPathSelfPartialCommitMsgAndDigest e d m (info S))"
| "sni_step e now (EvPartialProof m) S = sni_posted S (addFastPathPartialCommitMsg e m (info S))"
| "sni_step e now (EvFullProof directAdd m) S = sni_posted S (addFastPathFullCommitMsg e directAdd m (info S))"
| "sni_step e now EvStartSlowPath S = Inr (S\<lparr>info := startSlowPath (info S)\<rparr>)"
| "sni_step e now (EvRunJob k) S =
     (case sjobs S k of [] \<Rightarrow> Inr S
      | j # js \<Rightarrow> rbind (execute_job (exf e k) j) (\<lambda>m. Inr (S\<lparr>sjobs := (sjobs S)(k := js), sbox := (sbox S)(k := sbox S k @ [m])\<rparr>)))"
| "sni_step e now (EvResult k) S =
     (case sbox S k of [] \<Rightarrow> Inr S
      | m # ms \<Rightarrow> rbind (sni_dispatch e k m (info S)) (\<lambda>(js, st). Inr (sni_put js st (S\<lparr>sbox := (sbox S)(k := ms)\<rparr>))))"
| "sni_step e now (EvResultWhileCollecting k) S =
     (case sbox S k of [] \<Rightarrow> Inr S
      | m # ms \<Rightarrow> rbind (sni_reset_signatures k (info S)) (\<lambda>st. Inr (S\<lparr>info := st, sbox := (sbox S)(k := ms)\<rparr>)))"
| "sni_step e now EvReset S = Inr (S\<lparr>info := sni_resetAndFree now (info S), sjobs := (\<lambda>k. []), sbox := (\<lambda>k. [])\<rparr>)"
| "sni_step e now EvGetAndReset S =
     (case sni_getAndReset now (info S) of (_, _, st) \<Rightarrow> Inr (S\<lparr>info := st, sjobs := (\<lambda>k. []), sbox := (\<lambda>k. [])\<rparr>))"

text \<open>A run: every step with the time at which it happens.\<close>

fun sni_run :: "SniEnv \<Rightarrow> (int \<times> sni_event) list \<Rightarrow> sni_sys \<Rightarrow> sni_sys result" where
  "sni_run e [] S = Inr S"
| "sni_run e ((now, ev) # evs) S = rbind (sni_step e now ev S) (sni_run e evs)"

section \<open>What holds in every reachable state\<close>

lemma sni_col_set [simp]: "sni_col k (sni_set_col k' c st) = (if k = k' then c else sni_col k st)"
  by (cases k; cases k') simp_all

lemma sni_set_col_sel [simp]:
  "prePrepareMsg (sni_set_col k c st) = prePrepareMsg st" "forcedCompleted (sni_set_col k c st) = forcedCompleted st"
  "isTimeCorrect (sni_set_col k c st) = isTimeCorrect st"
  by (cases k; simp)+

lemma sni_dispatch_deliver: "sni_dispatch e k m = sni_deliver e k m"
  by (rule ext, cases k; cases m; simp add: onCompletionOfPrepareSignaturesProcessing_def
      onCompletionOfCombinedPrepareSigVerification_def onCompletionOfCommitSignaturesProcessing_def
      onCompletionOfCombinedCommitSigVerification_def)

text \<open>What an operation on one collector does to the collectors and their jobs.\<close>

definition prim_ok :: "SniEnv \<Rightarrow> CollectorKind \<Rightarrow> SeqNumInfo \<Rightarrow> sni_jobs \<Rightarrow> SeqNumInfo \<Rightarrow> bool" where
  "prim_ok e k st js st1 \<longleftrightarrow> (\<exists>c. st1 = sni_set_col k c st \<and> fst ` set js \<subseteq> {k} \<and>
     (combinedValidSignatureMsg (sni_col k st) \<noteq> None \<longrightarrow> combinedValidSignatureMsg c = combinedValidSignatureMsg (sni_col k st)) \<and>
     (\<forall>xs ms. cinv (exf e k) \<lparr>col = sni_col k st, jobs = xs, inbox = ms\<rparr> \<longrightarrow>
        cinv (exf e k) \<lparr>col = c, jobs = xs @ map snd js, inbox = ms\<rparr>))"

lemma put_tagged: "put S (j, c) = Inr (S\<lparr>col := c, jobs := jobs S @ map snd (tagged k j)\<rparr>)"
  by (cases j) (simp_all add: put_def tagged_def)

lemma tagged_fst: "fst ` set (tagged k j) \<subseteq> {k}"
  by (cases j) (simp_all add: tagged_def)

lemma sni_expect_prim:
  assumes "sni_expect e k directAdd s v d st = Inr (js, st1)"
  shows "prim_ok e k st js st1 \<and> expectedSeqNumber (sni_col k st1) = s \<and> expectedView (sni_col k st1) = v \<and> expectedDigest (sni_col k st1) = d"
proof (cases directAdd)
  case True
  with assms obtain c where c: "initExpected s v d (sni_col k st) = Inr c" "js = []" "st1 = sni_set_col k c st"
    by (auto simp: sni_expect_def)
  then show ?thesis by (auto simp: prim_ok_def initExpected_def cinv_def intro!: exI [of _ c])
next
  case False
  with assms obtain j c where c: "setExpected (exf e k) s v d (sni_col k st) = Inr (j, c)" "js = tagged k j" "st1 = sni_set_col k c st"
    by (auto simp: sni_expect_def)
  then have ts: "trySendToBkThread (exf e k) ((sni_col k st)\<lparr>expectedSeqNumber := s, expectedView := v, expectedDigest := d\<rparr>) = Inr (j, c)"
    by (simp add: setExpected_def)
  note t = trySend_sem(1,2) [OF ts]
  have "cinv (exf e k) \<lparr>col = c, jobs = xs @ map snd js, inbox = ms\<rparr>"
    if "cinv (exf e k) \<lparr>col = sni_col k st, jobs = xs, inbox = ms\<rparr>" for xs ms
    by (rule cstep_expected_cinv [OF that, of s v d]) (simp add: c put_tagged [of _ j c k])
  then show ?thesis using t c tagged_fst by (auto simp: prim_ok_def t(1))
qed

lemma sni_add_partial_prim:
  assumes "sni_add_partial e k directAdd m st = Inr (r, js, st1)"
  shows "prim_ok e k st js st1 \<and> same_expected (sni_col k st) (sni_col k st1)"
proof (cases directAdd)
  case True
  with assms obtain c where c: "initMsgWithPartialSignature (exf e k) m (sender m) (sni_col k st) = Inr (r, c)" "js = []" "st1 = sni_set_col k c st"
    by (auto simp: sni_add_partial_def)
  then have "cinv (exf e k) \<lparr>col = c, jobs = xs, inbox = ms\<rparr>"
    if "cinv (exf e k) \<lparr>col = sni_col k st, jobs = xs, inbox = ms\<rparr>" for xs ms
    using that by (auto simp: initMsgWithPartialSignature_def Let_def cinv_def split: if_splits)
  then show ?thesis using c by (auto simp: prim_ok_def initMsgWithPartialSignature_def Let_def same_expected_def)
next
  case False
  with assms obtain j c where c: "addMsgWithPartialSignature (exf e k) m (sender m) (sni_col k st) = Inr (r, j, c)" "js = tagged k j"
      "st1 = sni_set_col k c st" by (auto simp: sni_add_partial_def)
  let ?S = "\<lambda>xs ms. \<lparr>col = sni_col k st, jobs = xs, inbox = ms\<rparr>"
  have step: "cstep (exf e k) (EvPartial m (sender m)) (?S xs ms) = Inr \<lparr>col = c, jobs = xs @ map snd js, inbox = ms\<rparr>" for xs ms
    using c by (simp add: put_tagged [of _ j c k])
  have "cinv (exf e k) \<lparr>col = c, jobs = xs @ map snd js, inbox = ms\<rparr>" if "cinv (exf e k) (?S xs ms)" for xs ms
    by (rule cstep_partial_cinv [OF that step])
  moreover have "combinedValidSignatureMsg c = combinedValidSignatureMsg (sni_col k st)" if "combinedValidSignatureMsg (sni_col k st) \<noteq> None"
    using that c(1) by (simp add: addMsgWithPartialSignature_def)
  moreover have "same_expected (sni_col k st) c" using cstep_infos(2) [OF step] by simp
  ultimately show ?thesis using c tagged_fst by (auto simp: prim_ok_def)
qed

lemma sni_add_combined_prim:
  assumes "sni_add_combined e k directAdd m st = Inr (r, js, st1)"
  shows "prim_ok e k st js st1 \<and> same_expected (sni_col k st) (sni_col k st1)"
proof (cases directAdd)
  case True
  with assms obtain c where c: "initMsgWithCombinedSignature (exf e k) m (sni_col k st) = Inr (r, c)" "js = []" "st1 = sni_set_col k c st"
    by (auto simp: sni_add_combined_def)
  then have "cinv (exf e k) \<lparr>col = c, jobs = xs, inbox = ms\<rparr>"
    if "cinv (exf e k) \<lparr>col = sni_col k st, jobs = xs, inbox = ms\<rparr>" for xs ms
    using that by (auto simp: initMsgWithCombinedSignature_def cinv_def verified_def split: if_splits)
  then show ?thesis using c by (auto simp: prim_ok_def initMsgWithCombinedSignature_def same_expected_def split: if_splits)
next
  case False
  with assms obtain j c where c: "addMsgWithCombinedSignature (exf e k) m (sni_col k st) = Inr (r, j, c)" "js = tagged k j"
      "st1 = sni_set_col k c st" by (auto simp: sni_add_combined_def)
  let ?S = "\<lambda>xs ms. \<lparr>col = sni_col k st, jobs = xs, inbox = ms\<rparr>"
  have step: "cstep (exf e k) (EvCombined m) (?S xs ms) = Inr \<lparr>col = c, jobs = xs @ map snd js, inbox = ms\<rparr>" for xs ms
    using c by (simp add: put_tagged [of _ j c k])
  have "cinv (exf e k) \<lparr>col = c, jobs = xs @ map snd js, inbox = ms\<rparr>" if "cinv (exf e k) (?S xs ms)" for xs ms
    by (rule cstep_combined_cinv [OF that step])
  moreover have "combinedValidSignatureMsg c = combinedValidSignatureMsg (sni_col k st)" if "combinedValidSignatureMsg (sni_col k st) \<noteq> None"
    using that c(1) by (simp add: addMsgWithCombinedSignature_def)
  moreover have "same_expected (sni_col k st) c" using cstep_infos(2) [OF step] by simp
  ultimately show ?thesis using c tagged_fst by (auto simp: prim_ok_def)
qed

lemma deliver_same_expected:
  assumes "deliver ef m c = Inr (j, c')"
  shows "same_expected c c'"
  using assms
  by (cases m) (auto simp: onCompletion_failed_def onCompletion_succeeded_def onCompletionOfCombinedSigVerification_def Let_def
      same_expected_def dest!: trySend_sem(1) split: if_splits)

text \<open>
  The invariant: every collector with its jobs satisfies its own, the collector of the prepare shares expects the digest of the
  pre-prepare message, and completion is forced only with a proof of the fast path.
\<close>

abbreviation csys_of :: "sni_sys \<Rightarrow> CollectorKind \<Rightarrow> (MessageBase, MessageBase) csys" where
  "csys_of S k \<equiv> \<lparr>col = sni_col k (info S), jobs = sjobs S k, inbox = sbox S k\<rparr>"

definition pp_link :: "SeqNumInfo \<Rightarrow> bool" where
  "pp_link st \<longleftrightarrow> (case prePrepareMsg st of
     None \<Rightarrow> expectedSeqNumber (prepareSigCollector st) = 0
   | Some m \<Rightarrow> (\<exists>s v d. pp_expected m = Inr (s, v, d) \<and> (expectedSeqNumber (prepareSigCollector st) = 0 \<or>
       expectedSeqNumber (prepareSigCollector st) = s \<and> expectedView (prepareSigCollector st) = v \<and> expectedDigest (prepareSigCollector st) = d)))"

definition sni_inv :: "SniEnv \<Rightarrow> sni_sys \<Rightarrow> bool" where
  "sni_inv e S \<longleftrightarrow> (\<forall>k. cinv (exf e k) (csys_of S k)) \<and> pp_link (info S) \<and>
     (forcedCompleted (info S) \<longrightarrow> prePrepareMsg (info S) \<noteq> None \<and> hasFastPathFullCommitProof (info S))"

text \<open>The part of it that the operations on a collector keep, when \<open>st\<close> is the state they start from and \<open>js\<close> are posted already.\<close>

definition cols_inv :: "SniEnv \<Rightarrow> sni_sys \<Rightarrow> sni_jobs \<Rightarrow> SeqNumInfo \<Rightarrow> bool" where
  "cols_inv e S js st \<longleftrightarrow> (\<forall>k. cinv (exf e k) (csys_of (sni_put js st S) k)) \<and>
     (forcedCompleted st \<longrightarrow> prePrepareMsg st \<noteq> None \<and> hasFastPathFullCommitProof st)"

lemma prim_cols_inv:
  assumes "prim_ok e k st js' st1" "cols_inv e S js st"
  shows "cols_inv e S (js @ js') st1"
proof -
  from assms(1) obtain c where c: "st1 = sni_set_col k c st" "fst ` set js' \<subseteq> {k}"
    "combinedValidSignatureMsg (sni_col k st) \<noteq> None \<longrightarrow> combinedValidSignatureMsg c = combinedValidSignatureMsg (sni_col k st)"
    "\<And>xs ms. cinv (exf e k) \<lparr>col = sni_col k st, jobs = xs, inbox = ms\<rparr> \<Longrightarrow> cinv (exf e k) \<lparr>col = c, jobs = xs @ map snd js', inbox = ms\<rparr>"
    by (auto simp: prim_ok_def)
  have js: "filter (\<lambda>p. fst p = k) js' = js'" "\<And>k'. k' \<noteq> k \<Longrightarrow> filter (\<lambda>p. fst p = k') js' = []"
    using c(2) by (auto simp: filter_id_conv filter_empty_conv)
  have "cinv (exf e k') (csys_of (sni_put (js @ js') st1 S) k')" for k'
  proof (cases "k' = k")
    case True
    have "cinv (exf e k) \<lparr>col = c, jobs = (sjobs S k @ map snd (filter (\<lambda>p. fst p = k) js)) @ map snd js', inbox = sbox S k\<rparr>"
      by (rule c(4)) (use assms(2) in \<open>simp add: cols_inv_def sni_put_def\<close>)
    then show ?thesis using True js(1) by (simp add: sni_put_def c(1))
  next
    case False
    then show ?thesis using assms(2) js(2) by (simp add: cols_inv_def sni_put_def c(1))
  qed
  moreover have "hasFastPathFullCommitProof st1" if "hasFastPathFullCommitProof st"
    using that c(3) by (cases k) (auto simp: hasFastPathFullCommitProof_def getMsgWithValidCombinedSignature_def c(1))
  ultimately show ?thesis using assms(2) c(1) by (auto simp: cols_inv_def)
qed

lemma prim_link:
  assumes "prim_ok e k st js st1" "pp_link st" "same_expected (sni_col k st) (sni_col k st1) \<or> k \<noteq> PrepareC"
  shows "pp_link st1"
  using assms by (cases k) (auto simp: prim_ok_def pp_link_def same_expected_def split: option.splits)

lemma prim_fields:
  assumes "prim_ok e k st js st1"
  shows "prePrepareMsg st1 = prePrepareMsg st" "forcedCompleted st1 = forcedCompleted st"
    "k' \<noteq> k \<Longrightarrow> sni_col k' st1 = sni_col k' st"
  using assms by (auto simp: prim_ok_def)

text \<open>Fields that do not matter for the invariant.\<close>

lemma sni_put_inv:
  assumes "cols_inv e S js st" "pp_link st"
  shows "sni_inv e (sni_put js st S)"
  using assms by (auto simp: sni_inv_def cols_inv_def) (simp_all add: sni_put_def)

definition same_cols :: "SeqNumInfo \<Rightarrow> SeqNumInfo \<Rightarrow> bool" where
  "same_cols st st' \<longleftrightarrow> (\<forall>k. sni_col k st' = sni_col k st) \<and> prePrepareMsg st' = prePrepareMsg st \<and> forcedCompleted st' = forcedCompleted st"

lemma same_cols_inv:
  assumes "same_cols st st'"
  shows "cols_inv e S js st \<Longrightarrow> cols_inv e S js st'" "pp_link st \<Longrightarrow> pp_link st'"
proof -
  have c: "\<And>k. sni_col k st' = sni_col k st" "prePrepareMsg st' = prePrepareMsg st" "forcedCompleted st' = forcedCompleted st"
    using assms by (simp_all add: same_cols_def)
  have "prepareSigCollector st' = prepareSigCollector st" "fastPathOptimisticCollector st' = fastPathOptimisticCollector st"
    "fastPathThresholdCollector st' = fastPathThresholdCollector st"
    using c(1) [of PrepareC] c(1) [of OptimisticC] c(1) [of ThresholdC] by simp_all
  then show "cols_inv e S js st \<Longrightarrow> cols_inv e S js st'" "pp_link st \<Longrightarrow> pp_link st'"
    using c by (simp_all add: cols_inv_def pp_link_def hasFastPathFullCommitProof_def sni_put_def split: option.splits)
qed

lemma sni_col_upd [simp]:
  "sni_col k (st\<lparr>firstSeenFromPrimary := a\<rparr>) = sni_col k st" "sni_col k (st\<lparr>commitUpdateTime := a\<rparr>) = sni_col k st"
  "sni_col k (st\<lparr>prePrepareMsg := b\<rparr>) = sni_col k st" "sni_col k (st\<lparr>isTimeCorrect := x\<rparr>) = sni_col k st"
  "sni_col k (st\<lparr>sni_primary := x\<rparr>) = sni_col k st" "sni_col k (st\<lparr>forcedCompleted := x\<rparr>) = sni_col k st"
  "sni_col k (st\<lparr>slowPathHasStarted := x\<rparr>) = sni_col k st"
  by (cases k; simp)+

lemma upd_cols: "same_cols st (seen now st)" "same_cols st (st\<lparr>commitUpdateTime := now\<rparr>)" "same_cols st (startSlowPath st)"
  by (simp_all add: same_cols_def seen_def startSlowPath_def)

lemma sni_start:
  assumes "sni_inv e S"
  shows "cols_inv e S [] (info S)" "pp_link (info S)"
  using assms by (simp_all add: sni_inv_def cols_inv_def sni_put_def)

text \<open>An operation that adds to one collector.\<close>

lemma add_inv:
  assumes "prim_ok e k st js' st1 \<and> same_expected (sni_col k st) (sni_col k st1)" "cols_inv e S js st" "pp_link st"
  shows "cols_inv e S (js @ js') st1" "pp_link st1"
  using prim_cols_inv [OF _ assms(2)] prim_link [OF _ assms(3)] assms(1) by blast+

lemma posted_inv:
  assumes "sni_posted S r = Inr S'" "\<And>b js st. r = Inr (b, js, st) \<Longrightarrow> cols_inv e S js st \<and> pp_link st"
  shows "sni_inv e S'"
  using assms by (auto simp: sni_posted_def intro: sni_put_inv)

lemma pre_prepare_inv:
  assumes inv: "sni_inv e S" and none: "prePrepareMsg (info S) = None" and f: "\<not> forcedCompleted (info S)"
    and st: "\<And>k. sni_col k st = sni_col k (info S)" "prePrepareMsg st = Some m" "\<not> forcedCompleted st"
    and ex: "pp_expected m = Inr (s, v, d)" and op: "sni_expect e PrepareC directAdd s v d st = Inr (js, st1)"
  shows "cols_inv e S js (seen now st1) \<and> pp_link (seen now st1)"
proof -
  have "cols_inv e S [] st" using sni_start(1) [OF inv] st by (simp add: cols_inv_def sni_put_def)
  then have c: "cols_inv e S js st1" using prim_cols_inv sni_expect_prim [OF op] by fastforce
  have "pp_link st1" using sni_expect_prim [OF op] ex st(2) prim_fields(1) by (force simp: pp_link_def)
  with c show ?thesis using same_cols_inv [OF upd_cols(1)] by blast
qed

lemma step_prePrepare_inv:
  assumes "sni_inv e S" "sni_step e now ev S = Inr S'" "ev = EvPrePrepare directAdd tc m \<or> ev = EvSelfPrePrepare directAdd m"
  shows "sni_inv e S'"
proof -
  note st = sni_start [OF assms(1)]
  have "cols_inv e S js st1 \<and> pp_link st1" if op: "addMsg_PrePrepare e now directAdd tc m (info S) = Inr (b, js, st1)" for b js st1
  proof (cases "prePrepareMsg (info S)")
    case None
    with op obtain s v d st2 where o: "\<not> forcedCompleted (info S)" "pp_expected m = Inr (s, v, d)" "st1 = seen now st2"
        "sni_expect e PrepareC directAdd s v d ((info S)\<lparr>prePrepareMsg := Some m, isTimeCorrect := tc\<rparr>) = Inr (js, st2)"
      by (auto simp: addMsg_PrePrepare_def)
    show ?thesis unfolding o(3) by (rule pre_prepare_inv [OF assms(1) None o(1) _ _ _ o(2,4)]) (use o(1) in simp_all)
  next
    case (Some x)
    then show ?thesis using op st by (simp add: addMsg_PrePrepare_def)
  qed
  moreover have "cols_inv e S js st1 \<and> pp_link st1" if op: "addSelfMsg_PrePrepare e now directAdd m (info S) = Inr (b, js, st1)" for b js st1
  proof -
    from op obtain s v d st2 where o: "\<not> forcedCompleted (info S)" "pp_expected m = Inr (s, v, d)" "st1 = seen now st2"
        "sni_expect e PrepareC directAdd s v d ((info S)\<lparr>prePrepareMsg := Some m, sni_primary := True\<rparr>) = Inr (js, st2)"
        "prePrepareMsg (info S) = None"
      by (auto simp: addSelfMsg_PrePrepare_def)
    show ?thesis unfolding o(3) by (rule pre_prepare_inv [OF assms(1) o(5,1) _ _ _ o(2,4)]) (use o(1) in simp_all)
  qed
  ultimately show ?thesis using assms(2,3) by (auto elim!: posted_inv)
qed

lemma step_prepare_inv:
  assumes "sni_inv e S" "sni_step e now ev S = Inr S'"
    "ev = EvPreparePartial m \<or> ev = EvSelfPreparePartial directAdd m \<or> ev = EvPrepareFull directAdd m"
  shows "sni_inv e S'"
proof -
  note st = sni_start [OF assms(1)]
  have p: "cols_inv e S js st1 \<and> pp_link st1" if "sni_add_partial e PrepareC b m (info S) = Inr (r, js, st1)" for b r js st1
    using add_inv [OF sni_add_partial_prim [OF that] st] by simp
  have c: "cols_inv e S js st1 \<and> pp_link st1" if "sni_add_combined e PrepareC b m (info S) = Inr (r, js, st1)" for b r js st1
    using add_inv [OF sni_add_combined_prim [OF that] st] by simp
  from assms(2,3) show ?thesis
    by (auto simp: addMsg_PreparePartial_def addSelfMsg_PreparePartial_def addMsg_PrepareFull_def elim!: posted_inv dest!: p c)
qed

lemma other_inv:
  assumes "prim_ok e k st js' st1" "k \<noteq> PrepareC" "cols_inv e S js st \<and> pp_link st"
  shows "cols_inv e S (js @ js') st1 \<and> pp_link st1"
  using prim_cols_inv [OF assms(1)] prim_link [OF assms(1)] assms(2,3) by blast

lemma commit_updated_inv:
  assumes "commit_updated now (r, js, st) = (r', js', st')" "cols_inv e S js st \<and> pp_link st"
  shows "cols_inv e S js' st' \<and> pp_link st'"
  using assms same_cols_inv [OF upd_cols(2)] by (auto simp: commit_updated_def split: if_splits)

lemma step_commit_inv:
  assumes "sni_inv e S" "sni_step e now ev S = Inr S'"
    "ev = EvCommitPartial m \<or> ev = EvSelfCommitPartial directAdd d m \<or> ev = EvCommitFull directAdd m"
  shows "sni_inv e S'"
proof -
  have st: "cols_inv e S [] (info S) \<and> pp_link (info S)" using sni_start [OF assms(1)] by simp
  have "cols_inv e S js st1 \<and> pp_link st1" if op: "addMsg_CommitPartial e now m (info S) = Inr (b, js, st1)" for b js st1
  proof -
    from op obtain r js' st' where o: "sni_add_partial e CommitC False m (info S) = Inr (r, js', st')"
        "commit_updated now (r, js', st') = (b, js, st1)" by (auto simp: addMsg_CommitPartial_def)
    show ?thesis by (rule commit_updated_inv [OF o(2)]) (use other_inv [OF conjunct1 [OF sni_add_partial_prim [OF o(1)]] _ st] in simp)
  qed
  moreover have "cols_inv e S js st1 \<and> pp_link st1" if op: "addMsg_CommitFull e now directAdd m (info S) = Inr (b, js, st1)" for b js st1
  proof -
    from op obtain r js' st' where o: "sni_add_combined e CommitC directAdd m (info S) = Inr (r, js', st')"
        "commit_updated now (r, js', st') = (b, js, st1)" by (auto simp: addMsg_CommitFull_def)
    show ?thesis by (rule commit_updated_inv [OF o(2)]) (use other_inv [OF conjunct1 [OF sni_add_combined_prim [OF o(1)]] _ st] in simp)
  qed
  moreover have "cols_inv e S js st1 \<and> pp_link st1"
    if op: "addSelfCommitPartialMsgAndDigest e now directAdd d m (info S) = Inr (b, js, st1)" for b js st1
  proof -
    from op obtain v s js1 st2 r js2 st3 where o: "sni_expect e CommitC directAdd s v (calcCombination d v s) (info S) = Inr (js1, st2)"
        "sni_add_partial e CommitC directAdd m st2 = Inr (r, js2, st3)" "js = js1 @ js2" "st1 = st3\<lparr>commitUpdateTime := now\<rparr>"
      by (auto simp: addSelfCommitPartialMsgAndDigest_def)
    have "cols_inv e S js1 st2 \<and> pp_link st2" using other_inv [OF conjunct1 [OF sni_expect_prim [OF o(1)]] _ st] by simp
    from other_inv [OF conjunct1 [OF sni_add_partial_prim [OF o(2)]] _ this] show ?thesis
      using same_cols_inv [OF upd_cols(2)] o(3,4) by simp
  qed
  ultimately show ?thesis using assms(2,3) by (auto elim!: posted_inv)
qed

lemma fast_collector_other: "fast_collector p = Inr k \<Longrightarrow> k \<noteq> PrepareC"
  by (auto simp: fast_collector_def split: if_splits)

lemma step_fast_inv:
  assumes "sni_inv e S" "sni_step e now ev S = Inr S'"
    "ev = EvSelfPartialProof d m \<or> ev = EvPartialProof m \<or> ev = EvFullProof directAdd m"
  shows "sni_inv e S'"
proof -
  have st: "cols_inv e S [] (info S) \<and> pp_link (info S)" using sni_start [OF assms(1)] by simp
  have "cols_inv e S js st1 \<and> pp_link st1" if op: "addFastPathSelfPartialCommitMsgAndDigest e d m (info S) = Inr (b, js, st1)" for b js st1
  proof -
    from op obtain s v k p js1 st2 js2 where o: "fast_collector p = Inr k" "sni_expect e k False s v d (info S) = Inr (js1, st2)"
        "sni_add_partial e k False m st2 = Inr (b, js2, st1)" "js = js1 @ js2"
      by (auto simp: addFastPathSelfPartialCommitMsgAndDigest_def)
    note k = fast_collector_other [OF o(1)]
    have "cols_inv e S js1 st2 \<and> pp_link st2" using other_inv [OF conjunct1 [OF sni_expect_prim [OF o(2)]] k st] by simp
    from other_inv [OF conjunct1 [OF sni_add_partial_prim [OF o(3)]] k this] show ?thesis using o(4) by simp
  qed
  moreover have "cols_inv e S js st1 \<and> pp_link st1" if op: "addFastPathPartialCommitMsg e m (info S) = Inr (b, js, st1)" for b js st1
  proof -
    from op consider "js = []" "st1 = info S" | p k where "fast_collector p = Inr k" "sni_add_partial e k False m (info S) = Inr (b, js, st1)"
      by (auto simp: addFastPathPartialCommitMsg_def split: if_splits)
    then show ?thesis
    proof cases
      case 2
      from other_inv [OF conjunct1 [OF sni_add_partial_prim [OF 2(2)]] fast_collector_other [OF 2(1)] st] show ?thesis by simp
    qed (use st in simp)
  qed
  moreover have "cols_inv e S js st1 \<and> pp_link st1" if op: "addFastPathFullCommitMsg e directAdd m (info S) = Inr (b, js, st1)" for b js st1
  proof -
    from op consider "js = []" "st1 = info S" | p k where "fast_collector p = Inr k" "sni_add_combined e k directAdd m (info S) = Inr (b, js, st1)"
      by (auto simp: addFastPathFullCommitMsg_def split: if_splits option.splits)
    then show ?thesis
    proof cases
      case 2
      from other_inv [OF conjunct1 [OF sni_add_combined_prim [OF 2(2)]] fast_collector_other [OF 2(1)] st] show ?thesis by simp
    qed (use st in simp)
  qed
  ultimately show ?thesis using assms(2,3) by (auto elim!: posted_inv)
qed

lemma step_job_inv:
  assumes inv: "sni_inv e S" and op: "sni_step e now (EvRunJob k) S = Inr S'" and ok: "ef_ok (exf e k)"
  shows "sni_inv e S'"
proof (cases "sjobs S k")
  case (Cons j js)
  with op obtain m where m: "execute_job (exf e k) j = Inr m" "S' = S\<lparr>sjobs := (sjobs S)(k := js), sbox := (sbox S)(k := sbox S k @ [m])\<rparr>" by auto
  have "cinv (exf e k) (csys_of S k)" using inv by (simp add: sni_inv_def)
  from cstep_job_cinv [OF this _ ok, of "csys_of S' k"] have "cinv (exf e k) (csys_of S' k)" using m Cons by simp
  then show ?thesis using inv m(2) by (auto simp: sni_inv_def)
qed (use assms in simp)

lemma step_result_inv:
  assumes inv: "sni_inv e S" and op: "sni_step e now (EvResult k) S = Inr S'" and ok: "ef_ok (exf e k)"
  shows "sni_inv e S'"
proof (cases "sbox S k")
  case (Cons m ms)
  with op obtain j c where d: "deliver (exf e k) m (sni_col k (info S)) = Inr (j, c)"
      "S' = sni_put (tagged k j) (sni_set_col k c (info S)) (S\<lparr>sbox := (sbox S)(k := ms)\<rparr>)"
    by (auto simp: sni_dispatch_deliver sni_deliver_def)
  have ci: "cinv (exf e k) (csys_of S k)" using inv by (simp add: sni_inv_def)
  have tg: "map snd (filter (\<lambda>p. fst p = k) (tagged k j)) = map snd (tagged k j)"
    "k' \<noteq> k \<Longrightarrow> filter (\<lambda>p. fst p = k') (tagged k j) = []" for k' by (cases j; simp add: tagged_def)+
  have step: "cstep (exf e k) EvDeliver (csys_of S k) = Inr (csys_of S' k)"
    using Cons d tg(1) by (simp add: put_tagged [of _ j c k] sni_put_def)
  have c: "cinv (exf e k) (csys_of S' k)" by (rule cstep_deliver_cinv [OF ci step ok])
  have "combinedValidSignatureMsg (sni_col k (info S)) = None" using ci Cons by (auto simp: cinv_def split: if_splits)
  then have fp: "hasFastPathFullCommitProof (info S')" if "hasFastPathFullCommitProof (info S)"
    using that d(2) by (cases k) (auto simp: hasFastPathFullCommitProof_def getMsgWithValidCombinedSignature_def sni_put_def)
  have "pp_link (info S')"
    using inv deliver_same_expected [OF d(1)] d(2)
    by (cases k) (auto simp: sni_inv_def pp_link_def sni_put_def same_expected_def split: option.splits)
  moreover have "cinv (exf e k') (csys_of S' k')" for k'
    using c inv d(2) tg(2) by (cases "k' = k") (auto simp: sni_inv_def sni_put_def)
  moreover have "prePrepareMsg (info S') = prePrepareMsg (info S)" "forcedCompleted (info S') = forcedCompleted (info S)"
    by (simp_all add: d(2) sni_put_def)
  ultimately show ?thesis using fp inv by (auto simp: sni_inv_def)
qed (use assms in simp)

text \<open>A collector that is reset has no work left, and none is in flight when its result has just been taken.\<close>

lemma collector_reset_facts:
  "expectedSeqNumber (collector_resetAndFree c) = 0"
  "\<not> processingSignaturesInTheBackground c \<or> expectedSeqNumber c \<noteq> 0 \<Longrightarrow> \<not> processingSignaturesInTheBackground (collector_resetAndFree c)"
  "combinedValidSignatureMsg (collector_resetAndFree c) = None"
  by (auto simp: collector_resetAndFree_def already_empty_def resetContent_def)

lemma collector_reset_cinv:
  assumes "cinv ef S"
  shows "cinv ef \<lparr>col = collector_resetAndFree (col S), jobs = [], inbox = []\<rparr>"
  using assms by (auto simp: cinv_def collector_reset_facts)

lemma sni_reset_signatures_eq:
  "sni_reset_signatures k st = Inr (sni_set_col k (collector_resetAndFree (sni_col k st)) st)"
  by (cases k) (simp_all add: resetPrepareSignatures_def resetCommitSignatures_def)

lemma step_collecting_inv:
  assumes inv: "sni_inv e S" and op: "sni_step e now (EvResultWhileCollecting k) S = Inr S'"
  shows "sni_inv e S'"
proof (cases "sbox S k")
  case (Cons m ms)
  have ci: "cinv (exf e k) (csys_of S k)" using inv by (simp add: sni_inv_def)
  then have e: "ms = []" "sjobs S k = []" "combinedValidSignatureMsg (sni_col k (info S)) = None"
    using Cons by (auto simp: cinv_def split: if_splits)
  let ?st = "sni_set_col k (collector_resetAndFree (sni_col k (info S))) (info S)"
  have S': "S' = S\<lparr>info := ?st, sbox := (sbox S)(k := [])\<rparr>" using op Cons e(1) by (simp add: sni_reset_signatures_eq)
  have "cinv (exf e k') (csys_of S' k')" for k'
    using collector_reset_cinv [OF ci] inv e(2) by (cases "k' = k") (simp_all add: S' sni_inv_def)
  moreover have "hasFastPathFullCommitProof ?st" if "hasFastPathFullCommitProof (info S)"
    using that e(3) by (cases k) (auto simp: hasFastPathFullCommitProof_def getMsgWithValidCombinedSignature_def)
  moreover have "pp_link ?st"
    using inv by (cases k) (auto simp: sni_inv_def pp_link_def collector_reset_facts split: option.splits)
  ultimately show ?thesis using inv by (auto simp: sni_inv_def S')
qed (use assms in simp)

lemma sni_reset_col: "sni_col k (sni_resetAndFree now st) = collector_resetAndFree (sni_col k st)"
  by (cases k) (simp_all add: sni_resetAndFree_def)

lemma reset_sys_inv:
  assumes "\<And>k. \<not> processingSignaturesInTheBackground (sni_col k st) \<or> expectedSeqNumber (sni_col k st) \<noteq> 0"
  shows "sni_inv e (S\<lparr>info := sni_resetAndFree now st, sjobs := (\<lambda>k. []), sbox := (\<lambda>k. [])\<rparr>)"
proof -
  have "pp_link (sni_resetAndFree now st)" "\<not> forcedCompleted (sni_resetAndFree now st)"
    by (simp_all add: pp_link_def sni_resetAndFree_def collector_reset_facts)
  then show ?thesis using assms by (auto simp: sni_inv_def cinv_def sni_reset_col collector_reset_facts)
qed

lemma step_reset_inv:
  assumes inv: "sni_inv e S" and op: "sni_step e now ev S = Inr S'" "ev = EvReset \<or> ev = EvGetAndReset"
  shows "sni_inv e S'"
proof -
  have c: "\<not> processingSignaturesInTheBackground (sni_col k (info S)) \<or> expectedSeqNumber (sni_col k (info S)) \<noteq> 0" for k
  proof -
    have "cinv (exf e k) (csys_of S k)" using inv by (simp add: sni_inv_def)
    then show ?thesis by (auto simp: cinv_def)
  qed
  let ?p = "snd (collector_getAndReset (prepareSigCollector (info S)))"
  let ?st = "(info S)\<lparr>prePrepareMsg := None, prepareSigCollector := ?p\<rparr>"
  have "\<not> processingSignaturesInTheBackground ?p"
    using c [of PrepareC] by (auto simp: collector_getAndReset_def already_empty_def resetContent_def)
  then have "\<not> processingSignaturesInTheBackground (sni_col k ?st) \<or> expectedSeqNumber (sni_col k ?st) \<noteq> 0" for k
    using c [of k] by (cases k) simp_all
  from reset_sys_inv [OF c] reset_sys_inv [OF this] show ?thesis
    using op by (auto simp: sni_getAndReset_def split: prod.splits)
qed

lemma step_inv:
  assumes inv: "sni_inv e S" and op: "sni_step e now ev S = Inr S'" and ok: "\<forall>k. ef_ok (exf e k)"
  shows "sni_inv e S'"
proof (cases ev)
  case EvForceComplete
  then show ?thesis using inv op
    by (auto simp: forceComplete_def sni_inv_def pp_link_def hasFastPathFullCommitProof_def split: option.splits)
next
  case EvStartSlowPath
  then show ?thesis using inv op by (auto simp: startSlowPath_def sni_inv_def pp_link_def hasFastPathFullCommitProof_def split: option.splits)
next
  case (EvRunJob k)
  then show ?thesis using step_job_inv [OF inv] op ok by blast
next
  case (EvResult k)
  then show ?thesis using step_result_inv [OF inv] op ok by blast
next
  case (EvResultWhileCollecting k)
  then show ?thesis using step_collecting_inv [OF inv] op by blast
qed (use step_reset_inv [OF inv op] step_prePrepare_inv [OF inv op] step_prepare_inv [OF inv op] step_commit_inv [OF inv op] step_fast_inv [OF inv op] in blast)+

lemma run_inv:
  assumes "sni_inv e S" "sni_run e evs S = Inr S'" "\<forall>k. ef_ok (exf e k)"
  shows "sni_inv e S'"
  using assms(1,2)
proof (induction evs arbitrary: S)
  case (Cons p evs)
  obtain now ev where p: "p = (now, ev)" by (cases p)
  with Cons.prems obtain S1 where "sni_step e now ev S = Inr S1" "sni_run e evs S1 = Inr S'" by auto
  then show ?case using Cons.IH [OF step_inv [OF Cons.prems(1) _ assms(3)]] by blast
qed simp

lemma new_inv: "sni_inv e sni_sys_new"
proof -
  have "csys_of sni_sys_new k = csys_new" for k by (cases k) (simp_all add: sni_sys_new_def SeqNumInfo_new_def csys_new_def)
  then have "cinv (exf e k) (csys_of sni_sys_new k)" for k using cinv_new by simp
  then show ?thesis
    by (simp add: sni_inv_def) (simp add: sni_sys_new_def SeqNumInfo_new_def pp_link_def collector_new_def)
qed

section \<open>Prepared and committed only with a certificate\<close>

text \<open>\<open>f\<close> is a certificate of the collector \<open>k\<close> for what it expects.\<close>

definition certifies :: "SniEnv \<Rightarrow> CollectorKind \<Rightarrow> SeqNumInfo \<Rightarrow> MessageBase \<Rightarrow> bool" where
  "certifies e k st f \<longleftrightarrow> getMsgWithValidCombinedSignature (sni_col k st) = Some f \<and>
     tv_verify (thresholdVerifier (exf e k) (expectedSeqNumber (sni_col k st))) (expectedDigest (sni_col k st)) (share_of f) = Inr True"

lemma fullSignature_exf [simp]: "fullSignature (exf e k) = share_of"
  by (cases k) (simp_all add: ExFuncForPrepareCollector_def ExFuncForCommitCollector_def ExFuncForFastPathOptimisticCollector_def
      ExFuncForFastPathThresholdCollector_def)

lemma inv_certifies:
  assumes "sni_inv e S" "getMsgWithValidCombinedSignature (sni_col k (info S)) = Some f"
  shows "certifies e k (info S) f"
proof -
  have "cinv (exf e k) (csys_of S k)" using assms(1) by (simp add: sni_inv_def)
  then show ?thesis using assms(2) by (auto simp: cinv_def certifies_def verified_def getMsgWithValidCombinedSignature_def)
qed

lemma prepared_expected:
  assumes inv: "sni_inv e S" and m: "prePrepareMsg (info S) = Some m" and f: "getValidPrepareFullMsg (info S) = Some f"
  shows "pp_expected m = Inr (expectedSeqNumber (prepareSigCollector (info S)), expectedView (prepareSigCollector (info S)),
    expectedDigest (prepareSigCollector (info S)))"
proof -
  have "cinv (exf e PrepareC) (csys_of S PrepareC)" using inv by (simp only: sni_inv_def)
  then have "expectedSeqNumber (prepareSigCollector (info S)) \<noteq> 0"
    using f by (auto simp: cinv_def getValidPrepareFullMsg_def getMsgWithValidCombinedSignature_def)
  then show ?thesis using inv m by (auto simp: sni_inv_def pp_link_def)
qed

text \<open>
  C1. Whatever messages a replica handles for a sequence number, however they interleave with the jobs in the thread pool and with
  resets of the slot, the number is prepared only with a pre-prepare message and either a combined signature that the slow path verifier accepts for the
  digest of this message combined with its view and sequence number, or a proof of the fast path that its verifier accepts.
\<close>

theorem prepared_is_certified:
  assumes "sni_run e evs sni_sys_new = Inr S" "\<forall>k. ef_ok (exf e k)" "isPrepared (info S)"
  shows "\<exists>m s v d. prePrepareMsg (info S) = Some m \<and> pp_expected m = Inr (s, v, d) \<and>
    ((\<exists>f. getValidPrepareFullMsg (info S) = Some f \<and> tv_verify (thresholdVerifierForSlowPathCommit e s) d (share_of f) = Inr True) \<or>
     (\<exists>f. certifies e OptimisticC (info S) f \<or> certifies e ThresholdC (info S) f))"
proof -
  note inv = run_inv [OF new_inv assms(1,2)]
  have "prePrepareMsg (info S) \<noteq> None" using inv assms(3) by (auto simp: isPrepared_def sni_inv_def)
  then obtain m where m: "prePrepareMsg (info S) = Some m" by blast
  obtain s v d where ex: "pp_expected m = Inr (s, v, d)" using inv m by (auto simp: sni_inv_def pp_link_def)
  show ?thesis
  proof (cases "forcedCompleted (info S)")
    case True
    then have "hasFastPathFullCommitProof (info S)" using inv by (simp add: sni_inv_def)
    then show ?thesis using m ex inv_certifies [OF inv, of OptimisticC] inv_certifies [OF inv, of ThresholdC]
      by (auto simp: hasFastPathFullCommitProof_def)
  next
    case False
    then obtain f where f: "getValidPrepareFullMsg (info S) = Some f"
      using assms(3) by (auto simp: isPrepared_def collector_isComplete_def getValidPrepareFullMsg_def getMsgWithValidCombinedSignature_def)
    then show ?thesis using m prepared_expected [OF inv m f] inv_certifies [OF inv, of PrepareC f]
      by (auto simp: certifies_def getValidPrepareFullMsg_def ExFuncForPrepareCollector_def)
  qed
qed

section \<open>The collectors with EdDSA multisignatures\<close>

text \<open>The identities of a cluster: what the constructor of \<^verbatim>\<open>ReplicasInfo\<close> asserts, with few enough replicas for a signature of 16-bit length.\<close>

typedef Cluster = "{ri :: ReplicasInfo. numberOfReplicas ri = 3 * fVal ri + 2 * cVal ri + 1 \<and> numberOfReplicas ri * single_size < 65536}"
  by (rule exI [of _ "example_ri 0"]) (simp add: example_ri_def single_size_def)

fun quorum :: "ReplicasInfo \<Rightarrow> CollectorKind \<Rightarrow> nat" where
  "quorum ri OptimisticC = 3 * fVal ri + 2 * cVal ri + 1"
| "quorum ri ThresholdC = 3 * fVal ri + cVal ri + 1"
| "quorum ri _ = fVal ri * 2 + cVal ri + 1"

text \<open>The verifiers of \<^verbatim>\<open>CryptoSystemWrapper::init\<close>; \<open>check i d sig\<close> is the check of one Ed25519 signature with the key of signer \<open>i\<close>.\<close>

definition ed_verifier :: "(nat \<Rightarrow> Digest \<Rightarrow> bytes \<Rightarrow> bool) \<Rightarrow> ReplicasInfo \<Rightarrow> CollectorKind \<Rightarrow> EdDSAMultisigVerifier" where
  "ed_verifier check ri k = \<lparr>verifyBuffer = check, signersCount = numberOfReplicas ri, ed_threshold = quorum ri k\<rparr>"

text \<open>An iteration order of a map: some rearrangement of its entries.\<close>

definition rearranged :: "('a list \<Rightarrow> 'a list) \<Rightarrow> 'a list \<Rightarrow> 'a list" where
  "rearranged ord xs = (if mset (ord xs) = mset xs then ord xs else xs)"

lemma mset_rearranged [simp]: "mset (rearranged ord xs) = mset xs"
  by (simp add: rearranged_def)

definition ed_sni_env :: "MsgEnv \<Rightarrow> (nat \<Rightarrow> Digest \<Rightarrow> bytes \<Rightarrow> bool) \<Rightarrow>
    ((nat \<times> SingleEdDSASignature) list \<Rightarrow> (nat \<times> SingleEdDSASignature) list) \<Rightarrow>
    ((ReplicaId \<times> MessageBase RepInfo) list \<Rightarrow> (ReplicaId \<times> MessageBase RepInfo) list) \<Rightarrow> ReplicasInfo \<Rightarrow> SniEnv" where
  "ed_sni_env menv check sord iord ri =
     \<lparr>sni_msgEnv = menv, sni_ri = ri,
      thresholdVerifierForSlowPathCommit = (\<lambda>s. ed_IThresholdVerifier (rearranged sord) (ed_verifier check ri PrepareC)),
      thresholdVerifierForOptimisticCommit = (\<lambda>s. ed_IThresholdVerifier (rearranged sord) (ed_verifier check ri OptimisticC)),
      thresholdVerifierForCommit = (\<lambda>s. ed_IThresholdVerifier (rearranged sord) (ed_verifier check ri ThresholdC)),
      sni_order = rearranged iord\<rparr>"

lemma exf_defs:
  "exf e PrepareC = ExFuncForPrepareCollector e" "exf e CommitC = ExFuncForCommitCollector e"
  "exf e OptimisticC = ExFuncForFastPathOptimisticCollector e" "exf e ThresholdC = ExFuncForFastPathThresholdCollector e"
  by simp_all

lemmas ExFunc_defs = ExFuncForPrepareCollector_def ExFuncForCommitCollector_def ExFuncForFastPathOptimisticCollector_def
  ExFuncForFastPathThresholdCollector_def

lemma exf_verifier: "thresholdVerifier (exf (ed_sni_env menv check sord iord ri) k) s = ed_IThresholdVerifier (rearranged sord) (ed_verifier check ri k)"
  by (cases k) (simp_all add: ExFunc_defs ed_sni_env_def ed_verifier_def)

lemma share_of_created: "length sig < 65536 \<Longrightarrow> share_of (ss_create menv ty v s src sig []) = sig"
proof -
  assume sig: "length sig < 65536"
  define m where "m = ss_create menv ty v s src sig []"
  have b: "msgBody m = le_bytes 2 (msg_code ty) @ le_bytes 4 0 @ le_s64 v @ le_s64 s @ le_bytes 8 (selfEpoch menv) @
      le_bytes 2 (length sig) @ sig"
    by (simp add: m_def ss_create_def new_msg_def MessageBase_of_def header_bytes_def)
  have l: "length (msgBody m) = 32 + length sig" by (simp add: b)
  have "spanContextSize m = Inr 0" using l by (simp add: spanContextSize_def rd_fld) (simp add: b fld_simps)
  moreover have "ss_signatureLen m = Inr (length sig)" using l sig by (simp add: ss_signatureLen_def rd_fld) (simp add: b fld_simps)
  moreover have "rd_bytes 32 (length sig) (msgBody m) = Inr sig" using l by (simp add: rd_bytes_def) (simp add: b)
  ultimately have "ss_signatureBody m = Inr sig" by (simp add: ss_signatureBody_def)
  then show "share_of (ss_create menv ty v s src sig []) = sig" by (simp add: share_of_def m_def)
qed

lemma ed_add_lengths:
  assumes "ed_add_all v xs acc = Inr acc'" "\<forall>p \<in> set (ed_signatures acc). length (ser_single (snd p)) = single_size"
  shows "\<forall>p \<in> set (ed_signatures acc'). length (ser_single (snd p)) = single_size"
  using assms
proof (induction xs arbitrary: acc)
  case (Cons x xs)
  then obtain acc1 where a: "ed_add v x acc = Inr acc1" "ed_add_all v xs acc1 = Inr acc'" by auto
  have "\<forall>p \<in> set (ed_signatures acc1). length (ser_single (snd p)) = single_size"
    using a(1) Cons.prems(2) by (auto simp: ed_add_def Let_def ser_parse_single split: if_splits)
  then show ?case by (rule Cons.IH [OF a(2)])
qed simp

lemma length_concat_const: "\<forall>x \<in> set xs. length (f x) = n \<Longrightarrow> length (concat (map f xs)) = length xs * n"
  by (induction xs) simp_all

lemma ed_accumulate_length:
  assumes "tv_accumulate (ed_IThresholdVerifier (rearranged sord) v) b d xs = Inr (sig, bad)"
  shows "length sig < 65536"
proof -
  from assms obtain acc where acc: "length (ed_signatures acc) * single_size \<le> u16 (requiredLengthForSignedData v)"
      "sig = concat (map (ser_single \<circ> snd) (rearranged sord (ed_signatures acc)))"
      "ed_add_all v xs (ed_setExpectedDigest d (ed_newAccumulator b)) = Inr acc"
    by (auto simp: ed_IThresholdVerifier_def ed_getFullSignedData_def)
  have "\<forall>p \<in> set (ed_signatures acc). length (ser_single (snd p)) = single_size"
    by (rule ed_add_lengths [OF acc(3)]) (simp add: ed_setExpectedDigest_def ed_newAccumulator_def)
  then have "\<forall>p \<in> set (rearranged sord (ed_signatures acc)). length (ser_single (snd p)) = single_size"
    by (metis mset_rearranged set_mset_mset)
  then have "length sig = length (rearranged sord (ed_signatures acc)) * single_size"
    unfolding acc(2) by (intro length_concat_const) simp
  also have "length (rearranged sord (ed_signatures acc)) = length (ed_signatures acc)" by (metis mset_rearranged size_mset)
  finally have "length sig \<le> u16 (requiredLengthForSignedData v)" using acc(1) by simp
  then show ?thesis using u16_bound [of "requiredLengthForSignedData v"] by (rule le_less_trans)
qed

lemma ed_ef_ok: "ef_ok (exf (ed_sni_env menv check sord iord ri) k)"
proof -
  let ?e = "ed_sni_env menv check sord iord ri"
  have "share_of (createCombinedSignatureMsg (exf ?e k) s v sig) = sig" if "length sig < 65536" for s v sig
    using share_of_created [OF that] by (cases k) (simp_all add: ExFunc_defs FullCommitProofMsg_new_def)
  then show ?thesis using ed_accumulate_length by (auto simp: ef_ok_def exf_verifier)
qed

interpretation slot: collector_client "ed_IThresholdVerifier (rearranged sord) (ed_verifier check (Rep_Cluster cl) k)" "quorum (Rep_Cluster cl) k"
  "ed_proper (rearranged sord) (ed_verifier check (Rep_Cluster cl) k)" "ed_good (ed_verifier check (Rep_Cluster cl) k)"
  "exf (ed_sni_env menv check sord iord (Rep_Cluster cl)) k"
  for menv check sord iord cl k
proof -
  have cl: "quorum (Rep_Cluster cl) k \<le> numberOfReplicas (Rep_Cluster cl)" "numberOfReplicas (Rep_Cluster cl) < 65536"
    using Rep_Cluster [of cl] by (cases k; simp add: single_size_def)+
  have "threshold_scheme (ed_IThresholdVerifier (rearranged sord) (ed_verifier check (Rep_Cluster cl) k)) (quorum (Rep_Cluster cl) k)
      (ed_proper (rearranged sord) (ed_verifier check (Rep_Cluster cl) k)) (ed_good (ed_verifier check (Rep_Cluster cl) k))"
    using ed.threshold_scheme_axioms [of "rearranged sord" "ed_verifier check (Rep_Cluster cl) k"] by (simp add: ed_verifier_def)
  moreover have "collector_client_axioms (ed_IThresholdVerifier (rearranged sord) (ed_verifier check (Rep_Cluster cl) k)) (quorum (Rep_Cluster cl) k)
      (exf (ed_sni_env menv check sord iord (Rep_Cluster cl)) k)"
  proof
    show "numberOfRequiredSignatures (exf (ed_sni_env menv check sord iord (Rep_Cluster cl)) k) = quorum (Rep_Cluster cl) k"
      using cl by (cases k) (simp_all add: ExFunc_defs ed_sni_env_def)
    show "0 < quorum (Rep_Cluster cl) k" by (cases k) simp_all
  qed (simp_all add: exf_verifier ed_ef_ok)
  ultimately show "collector_client (ed_IThresholdVerifier (rearranged sord) (ed_verifier check (Rep_Cluster cl) k)) (quorum (Rep_Cluster cl) k)
      (ed_proper (rearranged sord) (ed_verifier check (Rep_Cluster cl) k)) (ed_good (ed_verifier check (Rep_Cluster cl) k))
      (exf (ed_sni_env menv check sord iord (Rep_Cluster cl)) k)"
    by (rule collector_client.intro)
qed

end
