(* ===== verification/Slot_Certificates.thy ===== *)
theory Slot_Certificates
  imports Seq_Num_Info
begin

text \<open>
  What the collectors of a slot (theory \<open>Seq_Num_Info\<close>) guarantee when the threshold signatures are EdDSA multisignatures: they
  complete, two certificates of a slot have signers in common, and one signer can fill a certificate.
\<close>

section \<open>The collectors complete\<close>

text \<open>
  C8. With EdDSA multisignatures every collector of a slot completes: once enough replicas have sent shares that are valid for the
  expected digest, running the pending jobs and delivering their results gives a valid combined signature, and no assertion fails on
  the way, in whatever order the messages came and however the jobs were interleaved with them. The other replicas may have sent
  shares with any signature bytes, as long as a share has the size of one and carries the identifier of its sender, and combined
  signatures that are not valid, as long as their verification returns: the assertions on the size and on the identifiers
  (\<^verbatim>\<open>EdDSAMultisigVerifier.cpp\<close>, lines 17 and 95) fail for other bytes.
\<close>

theorem collector_live:
  assumes "numberOfReplicas ri = 3 * fVal ri + 2 * cVal ri + 1" "numberOfReplicas ri * single_size < 65536"
    and ef: "ef = exf (ed_sni_env menv check sord iord ri) k" and vf: "v = ed_verifier check ri k"
    and "\<forall>e \<in> set es. cevent_proper ef (ed_IThresholdVerifier (rearranged sord) v) (ed_proper (rearranged sord) v) e"
    and "expected_events es = [(s, w, d)]"
    and "finite H" "quorum ri k \<le> card H" "\<forall>r \<in> H. \<exists>p. EvPartial p r \<in> set es"
      "\<forall>r p. r \<in> H \<longrightarrow> EvPartial p r \<in> set es \<longrightarrow> ed_good v d r (partSignature ef p)"
  shows "\<exists>S. crun ef (es @ settle (Suc (length es))) csys_new = Inr S \<and> collector_isComplete (col S)"
proof -
  obtain cl where cl: "Rep_Cluster cl = ri" using assms(1,2) Abs_Cluster_inverse [of ri] by auto
  have ord: "\<forall>xs. mset (infoOrder ef xs) = mset xs" unfolding ef by (cases k) (simp_all add: ExFunc_defs ed_sni_env_def)
  from slot.crun_completes [of menv check sord iord cl k es s w d H, unfolded cl, folded ef vf, OF ord assms(5-10)]
  show ?thesis by (simp add: collector_isComplete_def)
qed

section \<open>Two certificates of a view\<close>

lemma ed_certificate_signers:
  assumes "ed_verify (ed_verifier check ri k) d (concat xs) = Inr True" "\<forall>x \<in> set xs. length x = single_size"
    "distinct (map (sg_id \<circ> parse_single) xs)"
  shows "\<exists>R \<subseteq> {1..numberOfReplicas ri}. quorum ri k \<le> card R \<and>
    (\<forall>i \<in> R. \<exists>x \<in> set xs. sg_id (parse_single x) = i \<and> check i d (signatureBytes (parse_single x)))"
proof -
  let ?v = "ed_verifier check ri k"
  let ?ys = "filter (sig_counts ?v d) (map parse_single xs)"
  have "distinct (map sg_id (map parse_single xs))" using assms(3) by simp
  then have "distinct (map sg_id ?ys)" by (rule distinct_map_filter)
  then have "card (sg_id ` set ?ys) = length ?ys" by (metis distinct_card length_map list.set_map)
  moreover have "quorum ri k \<le> length ?ys" using assms(1) ed_verify_iff [OF assms(2)] by (simp add: ed_verifier_def)
  moreover have "sg_id ` set ?ys \<subseteq> {1..numberOfReplicas ri}" by (auto simp: sig_counts_def ed_verifier_def)
  moreover have "\<forall>i \<in> sg_id ` set ?ys. \<exists>x \<in> set xs. sg_id (parse_single x) = i \<and> check i d (signatureBytes (parse_single x))"
    by (auto simp: sig_counts_def ed_verifier_def)
  ultimately show ?thesis by (intro exI [of _ "sg_id ` set ?ys"]) simp
qed

lemma quorums_meet:
  assumes "R1 \<subseteq> {1..n}" "R2 \<subseteq> {1..n}" "n = 3 * f + 2 * c + 1" "2 * f + c + 1 \<le> card R1" "2 * f + c + 1 \<le> card R2"
  shows "f + 1 \<le> card (R1 \<inter> R2)"
proof -
  have fin: "finite R1" "finite R2" using assms(1,2) finite_subset by blast+
  have "card (R1 \<union> R2) \<le> n" using card_mono [of "{1..n}" "R1 \<union> R2"] assms(1,2) by simp
  then show ?thesis using card_Un_Int [OF fin] assms(3-5) by linarith
qed

text \<open>
  C2. Agreement in a view: if two replicas have prepare certificates for pre-prepare messages of the same view and sequence number (or
  any others), and no signer occurs twice in a certificate, then at least \<open>F + 1\<close> replicas have signed for both messages. So with
  at most \<open>F\<close> replicas that sign for two messages, the digests that the certificates cover are equal.
\<close>

theorem prepare_agreement:
  assumes run1: "sni_run (ed_sni_env menv1 check sord1 iord1 ri1) evs1 sni_sys_new = Inr S1"
    and run2: "sni_run (ed_sni_env menv2 check sord2 iord2 ri2) evs2 sni_sys_new = Inr S2"
    and n: "numberOfReplicas ri1 = 3 * fVal ri1 + 2 * cVal ri1 + 1" "numberOfReplicas ri2 = numberOfReplicas ri1"
      "fVal ri2 = fVal ri1" "cVal ri2 = cVal ri1"
    and c1: "prePrepareMsg (info S1) = Some m1" "getValidPrepareFullMsg (info S1) = Some f1" "share_of f1 = concat xs1"
      "\<forall>x \<in> set xs1. length x = single_size" "distinct (map (sg_id \<circ> parse_single) xs1)"
    and c2: "prePrepareMsg (info S2) = Some m2" "getValidPrepareFullMsg (info S2) = Some f2" "share_of f2 = concat xs2"
      "\<forall>x \<in> set xs2. length x = single_size" "distinct (map (sg_id \<circ> parse_single) xs2)"
  shows "\<exists>s1 v1 d1 s2 v2 d2 R. pp_expected m1 = Inr (s1, v1, d1) \<and> pp_expected m2 = Inr (s2, v2, d2) \<and>
    R \<subseteq> {1..numberOfReplicas ri1} \<and> fVal ri1 + 1 \<le> card R \<and>
    (\<forall>i \<in> R. (\<exists>x \<in> set xs1. sg_id (parse_single x) = i \<and> check i d1 (signatureBytes (parse_single x))) \<and>
              (\<exists>y \<in> set xs2. sg_id (parse_single y) = i \<and> check i d2 (signatureBytes (parse_single y))))"
proof -
  have cert: "\<exists>s v d R. pp_expected m = Inr (s, v, d) \<and> R \<subseteq> {1..numberOfReplicas ri} \<and> quorum ri PrepareC \<le> card R \<and>
      (\<forall>i \<in> R. \<exists>x \<in> set xs. sg_id (parse_single x) = i \<and> check i d (signatureBytes (parse_single x)))"
    if run: "sni_run (ed_sni_env menv check sord iord ri) evs sni_sys_new = Inr S" and m: "prePrepareMsg (info S) = Some m"
      and f: "getValidPrepareFullMsg (info S) = Some f" "share_of f = concat xs"
      and xs: "\<forall>x \<in> set xs. length x = single_size" "distinct (map (sg_id \<circ> parse_single) xs)"
    for menv sord iord ri evs S m f xs
  proof -
    note inv = run_inv [OF new_inv run allI [OF ed_ef_ok]]
    let ?c = "prepareSigCollector (info S)"
    have ex: "pp_expected m = Inr (expectedSeqNumber ?c, expectedView ?c, expectedDigest ?c)" by (rule prepared_expected [OF inv m f(1)])
    have "certifies (ed_sni_env menv check sord iord ri) PrepareC (info S) f"
      using f(1) by (intro inv_certifies [OF inv]) (simp add: getValidPrepareFullMsg_def)
    then have "tv_verify (thresholdVerifier (exf (ed_sni_env menv check sord iord ri) PrepareC) (expectedSeqNumber ?c)) (expectedDigest ?c)
        (concat xs) = Inr True" by (simp add: certifies_def f(2))
    then have "ed_verify (ed_verifier check ri PrepareC) (expectedDigest ?c) (concat xs) = Inr True"
      unfolding exf_verifier by (simp add: ed_IThresholdVerifier_def)
    from ed_certificate_signers [OF this xs] show ?thesis using ex by blast
  qed
  from cert [OF run1 c1] obtain s1 v1 d1 R1 where 1: "pp_expected m1 = Inr (s1, v1, d1)" "R1 \<subseteq> {1..numberOfReplicas ri1}"
    "quorum ri1 PrepareC \<le> card R1" "\<forall>i \<in> R1. \<exists>x \<in> set xs1. sg_id (parse_single x) = i \<and> check i d1 (signatureBytes (parse_single x))" by blast
  from cert [OF run2 c2] obtain s2 v2 d2 R2 where 2: "pp_expected m2 = Inr (s2, v2, d2)" "R2 \<subseteq> {1..numberOfReplicas ri1}"
    "quorum ri2 PrepareC \<le> card R2" "\<forall>i \<in> R2. \<exists>x \<in> set xs2. sg_id (parse_single x) = i \<and> check i d2 (signatureBytes (parse_single x))"
    unfolding n by blast
  have f: "fVal ri1 + 1 \<le> card (R1 \<inter> R2)" using quorums_meet [OF 1(2) 2(2) n(1)] 1(3) 2(3) n by (simp add: mult.commute)
  have sub: "R1 \<inter> R2 \<subseteq> {1..numberOfReplicas ri1}" using 1(2) by blast
  have both: "\<forall>i \<in> R1 \<inter> R2. (\<exists>x \<in> set xs1. sg_id (parse_single x) = i \<and> check i d1 (signatureBytes (parse_single x))) \<and>
      (\<exists>y \<in> set xs2. sg_id (parse_single y) = i \<and> check i d2 (signatureBytes (parse_single y)))" using 1(4) 2(4) by blast
  show ?thesis by (intro exI conjI) (rule 1(1), rule 2(1), rule sub, rule f, rule both)
qed

text \<open>A certificate that arrives after the pre-prepare message, and its verification.\<close>

lemma certificate_run:
  assumes n: "numberOfReplicas ri = 3 * fVal ri + 2 * cVal ri + 1" "numberOfReplicas ri < 65536"
    and m: "pp_expected m = Inr (s, v, d)" "s \<noteq> 0"
    and f: "ed_verify (ed_verifier check ri PrepareC) d (share_of f) = Inr True" "sender f \<noteq> myId ri"
  shows "\<exists>S. sni_run (ed_sni_env menv check sord iord ri)
      [(t1, EvPrePrepare False True m), (t2, EvPrepareFull False f), (t3, EvRunJob PrepareC), (t4, EvResult PrepareC)] sni_sys_new = Inr S \<and>
    isPrepared (info S) \<and> prePrepareMsg (info S) = Some m \<and> getValidPrepareFullMsg (info S) = Some f"
proof -
  let ?e = "ed_sni_env menv check sord iord ri"
  let ?q = "numberOfRequiredSignatures (ExFuncForPrepareCollector ?e)"
  have vf: "tv_verify (thresholdVerifier (ExFuncForPrepareCollector ?e) s) d (share_of f) = Inr True"
    using f(1) by (simp add: ExFuncForPrepareCollector_def ed_sni_env_def ed_IThresholdVerifier_def)
  have fs: "fullSignature (ExFuncForPrepareCollector ?e) = share_of" by (simp add: ExFuncForPrepareCollector_def)
  have my: "sni_ri ?e = ri" by (simp add: ed_sni_env_def)
  have q: "?q = quorum ri PrepareC" using n by (simp add: ExFuncForPrepareCollector_def ed_sni_env_def)
  let ?c1 = "collector_new\<lparr>expectedSeqNumber := s, expectedView := v, expectedDigest := d, numOfRequiredSigs := ?q\<rparr>"
  let ?c2 = "?c1\<lparr>candidateCombinedSignatureMsg := Some f, processingSignaturesInTheBackground := True\<rparr>"
  let ?c3 = "?c1\<lparr>combinedValidSignatureMsg := Some f\<rparr>"
  let ?st = "seen t1 (SeqNumInfo_new\<lparr>prePrepareMsg := Some m, prepareSigCollector := ?c1\<rparr>)"
  have 1: "setExpected (ExFuncForPrepareCollector ?e) s v d collector_new = Inr (None, ?c1)"
    using m(2) q by (simp add: setExpected_def trySendToBkThread_def collector_new_def)
  have 2: "addMsgWithCombinedSignature (ExFuncForPrepareCollector ?e) f ?c1 =
      Inr (True, Some (CombinedSigVerificationJob s v d (share_of f)), ?c2)"
    using m(2) fs q by (simp add: addMsgWithCombinedSignature_def trySendToBkThread_def collector_new_def)
  have 3: "execute_job (ExFuncForPrepareCollector ?e) (CombinedSigVerificationJob s v d (share_of f)) = Inr (VerifyCombinedSigResult s v True)"
    using vf by (simp add: execute_verification_def)
  have 4: "deliver (ExFuncForPrepareCollector ?e) (VerifyCombinedSigResult s v True) ?c2 = Inr (None, ?c3)"
    by (simp add: onCompletionOfCombinedSigVerification_def assert_completion_def collector_new_def)
  have s1: "addMsg_PrePrepare ?e t1 False True m SeqNumInfo_new = Inr (True, [], ?st)"
    using 1 m(1) by (simp add: addMsg_PrePrepare_def sni_expect_def SeqNumInfo_new_def tagged_def hasPartialMsgFromReplica_def collector_new_def)
  have s2: "addMsg_PrepareFull ?e False f ?st =
      Inr (True, [(PrepareC, CombinedSigVerificationJob s v d (share_of f))], ?st\<lparr>prepareSigCollector := ?c2\<rparr>)"
    using 2 f(2) my by (simp add: addMsg_PrepareFull_def sni_add_combined_def tagged_def seen_def SeqNumInfo_new_def)
  have s4: "sni_dispatch ?e PrepareC (VerifyCombinedSigResult s v True) (?st\<lparr>prepareSigCollector := ?c2\<rparr>) =
      Inr ([], ?st\<lparr>prepareSigCollector := ?c3\<rparr>)"
    using 4 by (simp add: sni_dispatch_deliver sni_deliver_def tagged_def del: deliver.simps)
  show ?thesis
    using s1 s2 3 s4
    by (simp add: sni_sys_new_def sni_posted_def sni_put_def isPrepared_def collector_isComplete_def getValidPrepareFullMsg_def
        getMsgWithValidCombinedSignature_def seen_def SeqNumInfo_new_def del: execute_job.simps)
qed

text \<open>
  C35. One replica suffices for a prepare certificate: a \<^verbatim>\<open>PrepareFullMsg\<close> whose signature repeats a single valid share as often as
  the quorum makes the sequence number prepared, because the verifier does not compare the signers.
\<close>

theorem single_replica_prepares:
  assumes n: "numberOfReplicas ri = 3 * fVal ri + 2 * cVal ri + 1" "numberOfReplicas ri < 65536"
    and m: "pp_expected m = Inr (s, v, d)" "s \<noteq> 0"
    and x: "length x = single_size" "1 \<le> sg_id (parse_single x)" "sg_id (parse_single x) \<le> numberOfReplicas ri"
      "check (sg_id (parse_single x)) d (signatureBytes (parse_single x))"
    and f: "share_of f = concat (replicate (quorum ri PrepareC) x)" "sender f \<noteq> myId ri"
  shows "\<exists>S. sni_run (ed_sni_env menv check sord iord ri)
      [(t1, EvPrePrepare False True m), (t2, EvPrepareFull False f), (t3, EvRunJob PrepareC), (t4, EvResult PrepareC)] sni_sys_new = Inr S \<and>
    isPrepared (info S) \<and> getValidPrepareFullMsg (info S) = Some f"
proof -
  have "ed_verify (ed_verifier check ri PrepareC) d (share_of f) = Inr True"
    using ed_verify_iff [of "replicate (quorum ri PrepareC) x" "ed_verifier check ri PrepareC" d] x
    by (auto simp: sig_counts_def ed_verifier_def filter_replicate f(1))
  from certificate_run [OF n m this f(2)] show ?thesis by blast
qed

text \<open>
  A slot remembers that it once held a pre-prepare message with a wrong time: resetting the slot does not restore the flag, and
  neither does adding the replica's own pre-prepare message. A primary then leaves this message, even when it is prepared, out of
  what it reports in a view change, which only takes slots whose flag is set.
\<close>

theorem time_flag_survives_reset:
  assumes "addMsg_PrePrepare e t1 directAdd1 False m1 st0 = Inr (True, js1, st1)"
    and "addSelfMsg_PrePrepare e t3 directAdd3 m3 (sni_resetAndFree t2 st1) = Inr (r, js3, st3)"
  shows "prePrepareMsg st3 = Some m3 \<and> sni_primary st3 \<and> \<not> isTimeCorrect st3"
proof -
  have flag: "isTimeCorrect (seen t st) = isTimeCorrect st" "prePrepareMsg (seen t st) = prePrepareMsg st" "sni_primary (seen t st) = sni_primary st"
    for t st by (simp_all add: seen_def)
  have ex: "isTimeCorrect st' = isTimeCorrect st \<and> prePrepareMsg st' = prePrepareMsg st \<and> sni_primary st' = sni_primary st"
    if "sni_expect e PrepareC b s v d st = Inr (js, st')" for b s v d st js st'
    using that by (auto simp: sni_expect_def split: if_splits)
  have "\<not> isTimeCorrect st1" using assms(1) ex by (fastforce simp: addMsg_PrePrepare_def flag split: if_splits)
  then have "\<not> isTimeCorrect (sni_resetAndFree t2 st1)" by (simp add: sni_resetAndFree_def)
  then show ?thesis using assms(2) ex by (fastforce simp: addSelfMsg_PrePrepare_def flag)
qed

section \<open>Examples\<close>

definition example_pp :: "ViewNum \<Rightarrow> SeqNum \<Rightarrow> MessageBase" where
  "example_pp v s = MessageBase_of 1 (header_bytes (msg_code McPrePrepare) 0 @ le_s64 v @ le_s64 s @ le_bytes 8 0 @ le_bytes 2 3 @
     le_bytes 8 0 @ le_s64 0 @ replicate 32 7 @ le_bytes 2 0 @ le_bytes 4 86) True"

definition example_digest :: "ViewNum \<Rightarrow> SeqNum \<Rightarrow> Digest" where
  "example_digest v s = calcCombination (digest_words (replicate 32 7)) v s"

lemma example_pp_fields:
  assumes "0 \<le> v" "v < 2 ^ 63" "0 \<le> s" "s < 2 ^ 63"
  shows "pp_expected (example_pp v s) = Inr (s, v, example_digest v s)" "pp_viewNumber (example_pp v s) = Inr v"
proof -
  define m where "m = example_pp v s"
  have b: "msgBody m = header_bytes (msg_code McPrePrepare) 0 @ le_s64 v @ le_s64 s @ le_bytes 8 0 @ le_bytes 2 3 @
     le_bytes 8 0 @ le_s64 0 @ replicate 32 7 @ le_bytes 2 0 @ le_bytes 4 86" by (simp add: m_def example_pp_def MessageBase_of_def)
  have l: "length (msgBody m) = 86" by (simp add: b)
  have v: "rd_s64 6 (msgBody m) = Inr v" using l s64_le_s64 [of v] assms(1,2)
    by (simp add: rd_s64_def rd_fld) (simp add: b header_bytes_def fld_append1 fld_append2 fld_whole)
  have s: "rd_s64 14 (msgBody m) = Inr s" using l s64_le_s64 [of s] assms(3,4)
    by (simp add: rd_s64_def rd_fld) (simp add: b header_bytes_def fld_append1 fld_append2 fld_whole)
  have d: "rd_bytes 48 32 (msgBody m) = Inr (replicate 32 7)" using l by (simp add: rd_bytes_def) (simp add: b header_bytes_def)
  show "pp_expected (example_pp v s) = Inr (s, v, example_digest v s)" "pp_viewNumber (example_pp v s) = Inr v"
    using v s d by (simp_all add: pp_expected_def pp_digestOfRequests_def pp_viewNumber_def pp_seqNumber_def example_digest_def flip: m_def)
qed

definition example_full :: "bytes \<Rightarrow> MessageBase" where
  "example_full sig = ss_create example_env McPrepareFull 0 7 1 sig []"

definition example_shares :: "bytes list" where
  "example_shares = [ed_example_share 1 1, ed_example_share 4 4, ed_example_share 2 2]"

lemma example_shares_props:
  "\<forall>x \<in> set example_shares. length x = single_size" "distinct (map (sg_id \<circ> parse_single) example_shares)"
  "share_of (example_full (concat example_shares)) = concat example_shares"
  "ed_verify (ed_verifier (verifyBuffer ed_example) (example_ri 0) PrepareC) d (concat example_shares) = Inr True"
proof -
  show l: "\<forall>x \<in> set example_shares. length x = single_size" by (simp add: example_shares_def)
  show "distinct (map (sg_id \<circ> parse_single) example_shares)" by (simp add: example_shares_def parse_ed_example_share)
  show "share_of (example_full (concat example_shares)) = concat example_shares"
    unfolding example_full_def by (rule share_of_created) (simp add: example_shares_def single_size_def)
  show "ed_verify (ed_verifier (verifyBuffer ed_example) (example_ri 0) PrepareC) d (concat example_shares) = Inr True"
    unfolding ed_verify_iff [OF l] by (simp add: example_shares_def parse_ed_example_share sig_counts_def ed_verifier_def example_ri_def ed_example_def)
qed

lemma example_run:
  "\<exists>S. sni_run (ed_sni_env example_env (verifyBuffer ed_example) id id (example_ri 0))
      [(1, EvPrePrepare False True (example_pp 0 7)), (2, EvPrepareFull False (example_full (concat example_shares))),
       (3, EvRunJob PrepareC), (4, EvResult PrepareC)] sni_sys_new = Inr S \<and>
    isPrepared (info S) \<and> prePrepareMsg (info S) = Some (example_pp 0 7) \<and>
    getValidPrepareFullMsg (info S) = Some (example_full (concat example_shares))"
  by (rule certificate_run [OF _ _ example_pp_fields(1)])
    (simp_all add: example_shares_props, simp_all add: example_ri_def example_full_def ss_create_def new_msg_def MessageBase_of_def)

theorem prepared_is_certified_witness:
  "\<exists>S f. sni_run (ed_sni_env example_env (verifyBuffer ed_example) id id (example_ri 0))
      [(1, EvPrePrepare False True (example_pp 0 7)), (2, EvPrepareFull False (example_full (concat example_shares))),
       (3, EvRunJob PrepareC), (4, EvResult PrepareC)] sni_sys_new = Inr S \<and> isPrepared (info S) \<and>
    (getValidPrepareFullMsg (info S) = Some f \<and>
      tv_verify (ed_IThresholdVerifier (rearranged id) (ed_verifier (verifyBuffer ed_example) (example_ri 0) PrepareC))
        (example_digest 0 7) (share_of f) = Inr True \<or>
     (certifies (ed_sni_env example_env (verifyBuffer ed_example) id id (example_ri 0)) OptimisticC (info S) f \<or>
      certifies (ed_sni_env example_env (verifyBuffer ed_example) id id (example_ri 0)) ThresholdC (info S) f))"
proof -
  let ?e = "ed_sni_env example_env (verifyBuffer ed_example) id id (example_ri 0)"
  from example_run obtain S where S: "sni_run ?e [(1, EvPrePrepare False True (example_pp 0 7)),
        (2, EvPrepareFull False (example_full (concat example_shares))), (3, EvRunJob PrepareC), (4, EvResult PrepareC)] sni_sys_new = Inr S"
      "isPrepared (info S)" "prePrepareMsg (info S) = Some (example_pp 0 7)" by blast
  have vf: "thresholdVerifierForSlowPathCommit ?e s = ed_IThresholdVerifier (rearranged id) (ed_verifier (verifyBuffer ed_example) (example_ri 0) PrepareC)"
    for s by (simp add: ed_sni_env_def)
  from prepared_is_certified [OF S(1) allI [OF ed_ef_ok] S(2)] S example_pp_fields(1) [of 0 7] show ?thesis
    unfolding vf by (intro exI [of _ S]) auto
qed

theorem collector_live_witness:
  "\<exists>S. crun (exf (ed_sni_env example_env (verifyBuffer ed_example) id id (example_ri 0)) PrepareC)
      ([EvExpected 7 0 makeZero, EvPartial (ss_create example_env McPreparePartial 0 7 1 (ed_example_share 2 2) []) 1,
        EvPartial (ss_create example_env McPreparePartial 0 7 2 (ed_example_share 3 3) []) 2,
        EvPartial (ss_create example_env McPreparePartial 0 7 3 (ed_example_share 4 4) []) 3] @ settle 5) csys_new = Inr S \<and>
    collector_isComplete (col S)"
proof -
  let ?ef = "exf (ed_sni_env example_env (verifyBuffer ed_example) id id (example_ri 0)) PrepareC"
  let ?v = "ed_verifier (verifyBuffer ed_example) (example_ri 0) PrepareC"
  let ?p = "\<lambda>r. ss_create example_env McPreparePartial 0 7 r (ed_example_share (Suc r) (Suc r)) []"
  let ?es = "[EvExpected 7 0 makeZero, EvPartial (?p 1) 1, EvPartial (?p 2) 2, EvPartial (?p 3) 3]"
  have v: "?v = ed_example" by (simp add: ed_verifier_def ed_example_def example_ri_def)
  have sh: "partSignature ?ef (?p r) = ed_example_share (Suc r) (Suc r)" for r
    using share_of_created [of "ed_example_share (Suc r) (Suc r)"] by (simp add: ExFuncForPrepareCollector_def single_size_def)
  have good: "ed_good ed_example makeZero r (ed_example_share (Suc r) (Suc r))" if "r < 4" for r
    using that by (simp add: ed_good_def parse_ed_example_share ed_example_def)
  have pr: "ed_proper (rearranged id) ed_example r (ed_example_share (Suc r) (Suc r))" if "r < 4" for r
    using ed_example_proper that by simp
  have n: "numberOfReplicas (example_ri 0) = 3 * fVal (example_ri 0) + 2 * cVal (example_ri 0) + 1"
    "numberOfReplicas (example_ri 0) * single_size < 65536" by (simp_all add: example_ri_def single_size_def)
  have proper: "\<forall>e \<in> set ?es. cevent_proper ?ef (ed_IThresholdVerifier (rearranged id) ?v) (ed_proper (rearranged id) ?v) e"
    using sh [of 1] sh [of 2] sh [of 3] pr [of 1] pr [of 2] pr [of 3] v by simp
  have valid: "\<forall>r p. r \<in> {1, 2, 3} \<longrightarrow> EvPartial p r \<in> set ?es \<longrightarrow> ed_good ?v makeZero r (partSignature ?ef p)"
    using sh [of 1] sh [of 2] sh [of 3] good [of 1] good [of 2] good [of 3] v by auto
  have enough: "quorum (example_ri 0) PrepareC \<le> card {1, 2, 3 :: nat}" by (simp add: example_ri_def)
  have sent: "\<forall>r \<in> {1, 2, 3}. \<exists>p. EvPartial p r \<in> set ?es" by auto
  have exp: "expected_events ?es = [(7, 0, makeZero)]" by simp
  have "finite {1, 2, 3 :: nat}" by simp
  from collector_live [OF n refl refl proper exp this enough sent valid]
  show ?thesis by (simp add: eval_nat_numeral)
qed

theorem prepare_agreement_witness:
  "\<exists>S R. sni_run (ed_sni_env example_env (verifyBuffer ed_example) id id (example_ri 0))
      [(1, EvPrePrepare False True (example_pp 0 7)), (2, EvPrepareFull False (example_full (concat example_shares))),
       (3, EvRunJob PrepareC), (4, EvResult PrepareC)] sni_sys_new = Inr S \<and>
    R \<subseteq> {1..4 :: nat} \<and> 2 \<le> card R"
proof -
  from example_run obtain S where S: "sni_run (ed_sni_env example_env (verifyBuffer ed_example) id id (example_ri 0))
      [(1, EvPrePrepare False True (example_pp 0 7)), (2, EvPrepareFull False (example_full (concat example_shares))),
       (3, EvRunJob PrepareC), (4, EvResult PrepareC)] sni_sys_new = Inr S" "prePrepareMsg (info S) = Some (example_pp 0 7)"
    "getValidPrepareFullMsg (info S) = Some (example_full (concat example_shares))" by blast
  have n: "numberOfReplicas (example_ri 0) = 3 * fVal (example_ri 0) + 2 * cVal (example_ri 0) + 1" by (simp add: example_ri_def)
  note c = S(2,3) example_shares_props(3,1,2)
  from prepare_agreement [OF S(1) S(1) n refl refl refl c c] obtain R where
    "R \<subseteq> {1..numberOfReplicas (example_ri 0)}" "fVal (example_ri 0) + 1 \<le> card R" by blast
  then have "R \<subseteq> {1..4} \<and> 2 \<le> card R" by (simp add: example_ri_def)
  then show ?thesis using S(1) by blast
qed

theorem single_replica_prepares_witness:
  "\<exists>S. sni_run (ed_sni_env example_env (verifyBuffer ed_example) id id (example_ri 0))
      [(1, EvPrePrepare False True (example_pp 0 7)), (2, EvPrepareFull False (example_full (concat (replicate 3 (ed_example_share 2 2))))),
       (3, EvRunJob PrepareC), (4, EvResult PrepareC)] sni_sys_new = Inr S \<and> isPrepared (info S)"
proof -
  have q: "quorum (example_ri 0) PrepareC = 3" by (simp add: example_ri_def)
  have sh: "share_of (example_full (concat (replicate 3 (ed_example_share 2 2)))) = concat (replicate (quorum (example_ri 0) PrepareC) (ed_example_share 2 2))"
    unfolding example_full_def q by (rule share_of_created) (simp add: numeral_3_eq_3 single_size_def)
  have snd: "sender (example_full sig) \<noteq> myId (example_ri 0)" for sig
    by (simp add: example_full_def ss_create_def new_msg_def MessageBase_of_def example_ri_def)
  have ri: "numberOfReplicas (example_ri 0) = 3 * fVal (example_ri 0) + 2 * cVal (example_ri 0) + 1" "numberOfReplicas (example_ri 0) < 65536"
    "numberOfReplicas (example_ri 0) = 4" by (simp_all add: example_ri_def)
  have "\<exists>S. sni_run (ed_sni_env example_env (verifyBuffer ed_example) id id (example_ri 0))
      [(1, EvPrePrepare False True (example_pp 0 7)), (2, EvPrepareFull False (example_full (concat (replicate 3 (ed_example_share 2 2))))),
       (3, EvRunJob PrepareC), (4, EvResult PrepareC)] sni_sys_new = Inr S \<and> isPrepared (info S) \<and>
      getValidPrepareFullMsg (info S) = Some (example_full (concat (replicate 3 (ed_example_share 2 2))))"
    by (rule single_replica_prepares [OF ri(1,2) example_pp_fields(1) _ _ _ _ _ sh snd])
      (simp_all add: ri(3) parse_ed_example_share ed_example_def)
  then show ?thesis by blast
qed

theorem time_flag_survives_reset_witness:
  "\<exists>js1 st1 r js3 st3. addMsg_PrePrepare (ed_sni_env example_env (verifyBuffer ed_example) id id (example_ri 0)) 1 False False (example_pp 1 7)
      SeqNumInfo_new = Inr (True, js1, st1) \<and>
    addSelfMsg_PrePrepare (ed_sni_env example_env (verifyBuffer ed_example) id id (example_ri 0)) 3 False (example_pp 4 307)
      (sni_resetAndFree 2 st1) = Inr (r, js3, st3) \<and> sni_primary st3 \<and> \<not> isTimeCorrect st3"
proof -
  let ?e = "ed_sni_env example_env (verifyBuffer ed_example) id id (example_ri 0)"
  have q: "numberOfRequiredSignatures (ExFuncForPrepareCollector ?e) = 3" by (simp add: ExFuncForPrepareCollector_def ed_sni_env_def example_ri_def)
  have my: "myId (sni_ri ?e) = 0" "primaryOfView (sni_ri ?e) 4 = 0" by (simp_all add: ed_sni_env_def example_ri_def primaryOfView_def)
  have ex: "setExpected (ExFuncForPrepareCollector ?e) s v d c =
      Inr (None, c\<lparr>expectedSeqNumber := s, expectedView := v, expectedDigest := d, numOfRequiredSigs := 3\<rparr>)"
    if "s \<noteq> 0" "already_empty c" "\<not> processingSignaturesInTheBackground c" "numberOfUnknownSignatures c = 0" "numOfRequiredSigs c \<in> {0, 3}" for s v d c
    using that q by (auto simp: setExpected_def trySendToBkThread_def already_empty_def)
  have pp: "pp_expected (example_pp 1 7) = Inr (7, 1, example_digest 1 7)" "pp_expected (example_pp 4 307) = Inr (307, 4, example_digest 4 307)"
    "pp_viewNumber (example_pp 4 307) = Inr 4"
    using example_pp_fields [of 1 7] example_pp_fields [of 4 307] by simp_all
  have "\<exists>js1 st1 r js3 st3. addMsg_PrePrepare ?e 1 False False (example_pp 1 7) SeqNumInfo_new = Inr (True, js1, st1) \<and>
      addSelfMsg_PrePrepare ?e 3 False (example_pp 4 307) (sni_resetAndFree 2 st1) = Inr (r, js3, st3)"
    by (simp add: addMsg_PrePrepare_def addSelfMsg_PrePrepare_def SeqNumInfo_new_def collector_new_def pp my sni_expect_def
        hasPartialMsgFromReplica_def ex already_empty_def tagged_def seen_def sni_resetAndFree_def collector_resetAndFree_def resetContent_def) (rule exI [of _ True], rule TrueI)
  then show ?thesis using time_flag_survives_reset by blast
qed

end
