(* ===== verification/View_Change_Msg.thy ===== *)
theory View_Change_Msg
  imports Consensus_Msgs
begin

text \<open>
  bftengine/src/bftengine/messages/ViewChangeMsg.{hpp,cpp}: the message with which a replica leaves a view. It lists, for the
  sequence numbers behind the last stable one, the pre-prepare messages the replica has seen and the prepare certificates it
  holds; a list of complaints follows the signature. A pointer to an element of the list is the element it points to.
\<close>

section \<open>Layout\<close>

record PreparedCertificate =
  certificateView :: ViewNum
  certificateSig :: bytes

record VcElement =
  vc_seqNum :: SeqNum
  vc_digest :: bytes
  vc_originView :: ViewNum
  vc_cert :: "PreparedCertificate option"

definition u32_of :: "int \<Rightarrow> nat" where
  "u32_of x = nat (x mod 2 ^ 32)"

text \<open>The sum of two \<^verbatim>\<open>int64_t\<close>, where only the upper bound can be exceeded.\<close>

definition s64_plus :: "int \<Rightarrow> int \<Rightarrow> int result" where
  "s64_plus a b = (if a + b < 2 ^ 63 then Inr (a + b) else Inl UndefinedBehaviour)"

definition ViewChangeMsg_new :: "MsgEnv \<Rightarrow> ReplicaId \<Rightarrow> ViewNum \<Rightarrow> SeqNum \<Rightarrow> bytes \<Rightarrow> MessageBase" where
  "ViewChangeMsg_new env src v lastStableSeq span =
     new_msg src McViewChange span
       (le_bytes 2 src @ le_s64 v @ le_s64 lastStableSeq @ le_bytes 8 (selfEpoch env) @ le_bytes 2 0 @ le_bytes 4 0 @ le_bytes 2 0 @ le_bytes 4 0)
       (replicate (maxMessageSize env - 44 - length span) 0)"

definition vc_idOfGeneratedReplica :: "MessageBase \<Rightarrow> nat result" where
  "vc_idOfGeneratedReplica m = rd 6 2 (msgBody m)"

definition vc_newView :: "MessageBase \<Rightarrow> int result" where
  "vc_newView m = rd_s64 8 (msgBody m)"

definition vc_lastStable :: "MessageBase \<Rightarrow> int result" where
  "vc_lastStable m = rd_s64 16 (msgBody m)"

definition vc_numberOfComplaints :: "MessageBase \<Rightarrow> nat result" where
  "vc_numberOfComplaints m = rd 32 2 (msgBody m)"

definition vc_sizeOfAllComplaints :: "MessageBase \<Rightarrow> nat result" where
  "vc_sizeOfAllComplaints m = rd 34 4 (msgBody m)"

definition vc_numberOfElements :: "MessageBase \<Rightarrow> nat result" where
  "vc_numberOfElements m = rd 38 2 (msgBody m)"

definition vc_locationAfterLast :: "MessageBase \<Rightarrow> nat result" where
  "vc_locationAfterLast m = rd 40 4 (msgBody m)"

definition vc_getBodySize :: "MessageBase \<Rightarrow> nat result" where
  "vc_getBodySize m =
     rbind (vc_locationAfterLast m) (\<lambda>loc. if loc = 0 then rbind (spanContextSize m) (\<lambda>sp. Inr (u32 (44 + sp))) else Inr loc)"

section \<open>Building the message\<close>

definition vc_setNewViewNumber :: "ViewNum \<Rightarrow> MessageBase \<Rightarrow> MessageBase result" where
  "vc_setNewViewNumber v m =
     rbind (vc_newView m) (\<lambda>old. c_assert (v \<ge> old) (rbind (wr 8 (le_s64 v) (msgBody m)) (\<lambda>b. Inr (m\<lparr>msgBody := b\<rparr>))))"

definition vc_getMsgDigest :: "MsgEnv \<Rightarrow> MessageBase \<Rightarrow> bytes result" where
  "vc_getMsgDigest env m =
     rbind (vc_getBodySize m) (\<lambda>n. rbind (vc_sizeOfAllComplaints m) (\<lambda>c.
       rbind (rd_bytes 0 (u32 (n + c)) (msgBody m)) (\<lambda>b. Inr (digestOf env b))))"

definition element_size :: "VcElement \<Rightarrow> nat" where
  "element_size e = 49 + (case vc_cert e of None \<Rightarrow> 0 | Some c \<Rightarrow> 10 + length (certificateSig c))"

definition element_bytes :: "VcElement \<Rightarrow> bytes" where
  "element_bytes e =
     le_s64 (vc_seqNum e) @ vc_digest e @ le_s64 (vc_originView e) @
     (case vc_cert e of
        None \<Rightarrow> [0]
      | Some c \<Rightarrow> [1] @ le_s64 (certificateView c) @ le_bytes 2 (length (certificateSig c)) @ certificateSig c)"

definition vc_addElement :: "MsgEnv \<Rightarrow> VcElement \<Rightarrow> MessageBase \<Rightarrow> MessageBase result" where
  "vc_addElement env e m =
     rbind (vc_numberOfElements m) (\<lambda>cnt. rbind (vc_locationAfterLast m) (\<lambda>loc0. rbind (vc_lastStable m) (\<lambda>ls.
     rbind (vc_numberOfComplaints m) (\<lambda>nc. rbind (vc_sizeOfAllComplaints m) (\<lambda>sc. rbind (spanContextSize m) (\<lambda>sp.
       c_assert (int cnt < kWorkWindow) (c_assert (cnt > 0 \<or> loc0 = 0) (c_assert (vc_seqNum e > ls)
       (rbind (s64_plus ls kWorkWindow) (\<lambda>mx. c_assert (vc_seqNum e \<le> mx) (c_assert (nc = 0) (c_assert (sc = 0)
       (c_assert (loc0 \<noteq> 0 \<or> cnt = 0)
         (let loc = (if loc0 = 0 then u32 (44 + sp) else loc0);
              requiredSpace = u32 (loc + element_size e)
          in c_assert (u32 (requiredSpace + mySigLength env) \<le> storageSize m)
              (rbind (wr loc (element_bytes e) (msgBody m)) (\<lambda>b1.
               rbind (wr 40 (le_bytes 4 requiredSpace) b1) (\<lambda>b2.
               rbind (wr 38 (le_bytes 2 (cnt + 1)) b2) (\<lambda>b3. Inr (m\<lparr>msgBody := b3\<rparr>)))))))))))))))))))"

definition vc_addComplaint :: "MsgEnv \<Rightarrow> MessageBase \<Rightarrow> MessageBase \<Rightarrow> MessageBase result" where
  "vc_addComplaint env complaint m =
     rbind (vc_numberOfComplaints m) (\<lambda>nc. rbind (vc_sizeOfAllComplaints m) (\<lambda>sc.
       c_assert (nc > 0 \<or> sc = 0)
        (rbind (vc_getBodySize m) (\<lambda>n.
          let loc = u32 (n + (mySigLength env + sc));
              sizeOfComplaint = msgSize complaint
          in c_assert (loc + 4 + sizeOfComplaint \<le> storageSize m)
              (rbind (rd_bytes 0 sizeOfComplaint (msgBody complaint)) (\<lambda>body.
               rbind (wr loc (le_bytes 4 sizeOfComplaint @ body) (msgBody m)) (\<lambda>b1.
               rbind (wr 34 (le_bytes 4 (sc + 4 + sizeOfComplaint)) b1) (\<lambda>b2.
               rbind (wr 32 (le_bytes 2 (nc + 1)) b2) (\<lambda>b3. Inr (m\<lparr>msgBody := b3\<rparr>))))))))))"

definition vc_clearAllComplaints :: "MsgEnv \<Rightarrow> (nat \<Rightarrow> bytes) \<Rightarrow> MessageBase \<Rightarrow> MessageBase result" where
  "vc_clearAllComplaints env fresh m =
     rbind (wr 34 (le_bytes 4 0) (msgBody m)) (\<lambda>b1. rbind (wr 32 (le_bytes 2 0) b1) (\<lambda>b2.
       rbind (reallocSize fresh (maxMessageSize env) (m\<lparr>msgBody := b2\<rparr>)) (\<lambda>m1.
         rbind (vc_getBodySize m1) (\<lambda>n.
           let loc = u32 (n + mySigLength env)
           in rbind (wr loc (replicate (storageSize m1 - loc) 0) (msgBody m1)) (\<lambda>b. Inr (m1\<lparr>msgBody := b\<rparr>))))))"

section \<open>Checking the message\<close>

text \<open>
  The loop of \<^verbatim>\<open>checkElements\<close> with \<open>k\<close> elements to come, the last sequence number, the remaining bytes and the current
  location. It returns \<open>None\<close> where the source returns false, and otherwise the elements still missing and the bytes left.
\<close>

fun vc_check_loop :: "bytes \<Rightarrow> SeqNum \<Rightarrow> ViewNum \<Rightarrow> nat \<Rightarrow> SeqNum \<Rightarrow> nat \<Rightarrow> nat \<Rightarrow> (nat \<times> nat) option result" where
  "vc_check_loop buf ls nv 0 lastSeqNumInMsg remainingBytes loc = Inr (Some (0, remainingBytes))"
| "vc_check_loop buf ls nv (Suc k) lastSeqNumInMsg remainingBytes loc =
     (if remainingBytes < 49 then Inr (Some (Suc k, remainingBytes))
      else rbind (rd_s64 loc buf) (\<lambda>s. if s \<le> lastSeqNumInMsg then Inr None
      else rbind (s64_plus ls kWorkWindow) (\<lambda>mx. if s > mx then Inr None
      else rbind (rd_s64 (loc + 40) buf) (\<lambda>ov. if ov \<ge> nv then Inr None
      else rbind (rd (loc + 48) 1 buf) (\<lambda>has.
           if has = 0 then vc_check_loop buf ls nv k s (remainingBytes - 49) (loc + 49)
           else if remainingBytes - 49 < 10 then Inr None
           else rbind (rd_s64 (loc + 49) buf) (\<lambda>cv. if cv > ov then Inr None
           else rbind (rd (loc + 57) 2 buf) (\<lambda>n. if n = 0 then Inr None
           else if remainingBytes - 49 < 10 + n then Inr None
           else vc_check_loop buf ls nv k s (remainingBytes - 49 - (10 + n)) (loc + 49 + (10 + n)))))))))"

definition vc_checkElements :: "nat \<Rightarrow> MessageBase \<Rightarrow> bool result" where
  "vc_checkElements sigSize m =
     rbind (vc_lastStable m) (\<lambda>ls. rbind (vc_newView m) (\<lambda>nv. rbind (vc_numberOfElements m) (\<lambda>cnt. rbind (spanContextSize m) (\<lambda>sp.
       rbind (vc_check_loop (msgBody m) ls nv cnt ls (u32_of (int (msgSize m) - int sigSize - 44 - int sp)) (44 + sp)) (\<lambda>res.
         case res of
           None \<Rightarrow> Inr False
         | Some (missing, remainingBytes) \<Rightarrow>
             if missing \<noteq> 0 then Inr False
             else rbind (vc_locationAfterLast m) (\<lambda>loc.
               if cnt > 0 then Inr (loc = u32_of (int (msgSize m) - int sigSize - int remainingBytes)) else Inr (loc = 0)))))))"

text \<open>The loop of \<^verbatim>\<open>checkComplaints\<close>; the remaining bytes are an unsigned 32-bit number that may wrap.\<close>

fun vc_complaints_loop :: "bytes \<Rightarrow> nat \<Rightarrow> nat \<Rightarrow> nat \<Rightarrow> (nat \<times> nat) option result" where
  "vc_complaints_loop buf 0 remainingBytes loc = Inr (Some (0, remainingBytes))"
| "vc_complaints_loop buf (Suc k) remainingBytes loc =
     (if remainingBytes \<le> 27 then Inr (Some (Suc k, remainingBytes))
      else rbind (rd loc 4 buf) (\<lambda>complaintSize.
        if complaintSize \<le> 27 then Inr None
        else vc_complaints_loop buf k (u32_of (int remainingBytes - 4 - int complaintSize)) (loc + 4 + complaintSize)))"

definition vc_checkComplaints :: "nat \<Rightarrow> MessageBase \<Rightarrow> bool result" where
  "vc_checkComplaints sigSize m =
     rbind (vc_getBodySize m) (\<lambda>bodySize. rbind (vc_numberOfComplaints m) (\<lambda>nc.
       rbind (vc_complaints_loop (msgBody m) nc (u32_of (int (msgSize m) - int sigSize - int bodySize)) (bodySize + sigSize)) (\<lambda>res.
         case res of None \<Rightarrow> Inr False | Some (missing, remainingBytes) \<Rightarrow> Inr (missing = 0 \<and> remainingBytes = 0))))"

definition vc_finalizeMessage :: "MsgEnv \<Rightarrow> MessageBase \<Rightarrow> MessageBase result" where
  "vc_finalizeMessage env m =
     rbind (vc_getBodySize m) (\<lambda>bodySize. rbind (vc_sizeOfAllComplaints m) (\<lambda>sc.
       rbind (setMsgSize (u32 (bodySize + mySigLength env + sc)) m) (\<lambda>m1. rbind (shrinkToFit m1) (\<lambda>m2.
         rbind (rd_bytes 0 bodySize (msgBody m2)) (\<lambda>dat. rbind (wr bodySize (signData env dat) (msgBody m2)) (\<lambda>b.
           let m3 = m2\<lparr>msgBody := b\<rparr>
           in rbind (vc_checkElements (u16 (mySigLength env)) m3) (\<lambda>okE.
                rbind (if okE then vc_checkComplaints (u16 (mySigLength env)) m3 else Inr False) (\<lambda>ok.
                  c_assert ok (Inr m3)))))))))"

definition ViewChangeMsg_validate :: "MsgEnv \<Rightarrow> ReplicasInfo \<Rightarrow> MessageBase \<Rightarrow> unit result" where
  "ViewChangeMsg_validate env repInfo m =
     throw_if (rany
        [shorter m 44,
         rpred (vc_idOfGeneratedReplica m) (\<lambda>i. \<not> isIdOfReplica repInfo i),
         rpred (vc_idOfGeneratedReplica m) (\<lambda>i. i = myId repInfo),
         rpred (rd 24 8 (msgBody m)) (\<lambda>e. e \<noteq> selfEpoch env)])
      (rbind (vc_getBodySize m) (\<lambda>dataLength. rbind (vc_idOfGeneratedReplica m) (\<lambda>gen.
        let sigLen = u16 (sigLength env gen)
        in throw_if (Inr (msgSize m < u32 (dataLength + sigLen)))
            (throw_if (rbind (rd_bytes 0 dataLength (msgBody m)) (\<lambda>dat. rbind (rd_bytes dataLength sigLen (msgBody m))
                (\<lambda>sig. Inr (\<not> verifySig env gen dat sig))))
              (throw_if (rpred (vc_checkElements sigLen m) Not)
                (throw_if (rpred (vc_checkComplaints sigLen m) Not) (Inr ())))))))"

section \<open>Iterating over the elements\<close>

record ElementsIterator =
  ei_msg :: "MessageBase option"
  endLoc :: nat
  currLoc :: nat
  nextNum :: nat

definition ElementsIterator_new :: "MessageBase option \<Rightarrow> ElementsIterator result" where
  "ElementsIterator_new p =
     (case p of
        None \<Rightarrow> Inr \<lparr>ei_msg = p, endLoc = 0, currLoc = 0, nextNum = 1\<rparr>
      | Some m \<Rightarrow> rbind (vc_numberOfElements m) (\<lambda>n.
          if n = 0 then Inr \<lparr>ei_msg = p, endLoc = 0, currLoc = 0, nextNum = 1\<rparr>
          else rbind (vc_locationAfterLast m) (\<lambda>loc. rbind (spanContextSize m) (\<lambda>sp.
            let curr = u32 (44 + sp)
            in c_assert (loc > curr) (Inr \<lparr>ei_msg = p, endLoc = loc, currLoc = curr, nextNum = 1\<rparr>)))))"

definition ei_end :: "ElementsIterator \<Rightarrow> bool result" where
  "ei_end it =
     (if currLoc it \<ge> endLoc it
      then (case ei_msg it of
              None \<Rightarrow> Inr True
            | Some m \<Rightarrow> rbind (vc_numberOfElements m) (\<lambda>n. c_assert (int (nextNum it) - 1 = int n) (Inr True)))
      else Inr False)"

definition read_element :: "bytes \<Rightarrow> nat \<Rightarrow> VcElement result" where
  "read_element buf loc =
     rbind (rd_s64 loc buf) (\<lambda>s. rbind (rd_bytes (loc + 8) 32 buf) (\<lambda>d. rbind (rd_s64 (loc + 40) buf) (\<lambda>ov. rbind (rd (loc + 48) 1 buf) (\<lambda>has.
       rbind (if has = 0 then Inr None
              else rbind (rd_s64 (loc + 49) buf) (\<lambda>cv. rbind (rd (loc + 57) 2 buf) (\<lambda>n. rbind (rd_bytes (loc + 59) n buf) (\<lambda>sig.
                     Inr (Some \<lparr>certificateView = cv, certificateSig = sig\<rparr>)))))
         (\<lambda>c. Inr \<lparr>vc_seqNum = s, vc_digest = d, vc_originView = ov, vc_cert = c\<rparr>)))))"

definition ei_getCurrent :: "ElementsIterator \<Rightarrow> VcElement option result" where
  "ei_getCurrent it =
     rbind (ei_end it) (\<lambda>e. if e then Inr None
       else case ei_msg it of
         None \<Rightarrow> Inl UndefinedBehaviour
       | Some m \<Rightarrow>
           let remainingbytes = endLoc it - currLoc it
           in c_assert (remainingbytes \<ge> 49)
               (rbind (rd (currLoc it + 48) 1 (msgBody m)) (\<lambda>has.
                 rbind (if has = 0 then Inr ()
                        else c_assert (remainingbytes \<ge> 59)
                          (rbind (rd (currLoc it + 57) 2 (msgBody m)) (\<lambda>n. c_assert (remainingbytes \<ge> 59 + n) (Inr ()))))
                   (\<lambda>_. rbind (read_element (msgBody m) (currLoc it)) (\<lambda>x. Inr (Some x))))))"

definition ei_getAndGoToNext :: "ElementsIterator \<Rightarrow> (VcElement option \<times> ElementsIterator) result" where
  "ei_getAndGoToNext it =
     rbind (ei_getCurrent it) (\<lambda>p. case p of
        None \<Rightarrow> Inr (None, it)
      | Some e \<Rightarrow> Inr (Some e, it\<lparr>currLoc := currLoc it + element_size e, nextNum := u16 (nextNum it + 1)\<rparr>))"

definition ei_gotoNext :: "ElementsIterator \<Rightarrow> ElementsIterator result" where
  "ei_gotoNext it = rbind (ei_getAndGoToNext it) (\<lambda>(_, it'). Inr it')"

lemma ei_getCurrent_Some: "ei_getCurrent it = Inr (Some e) \<Longrightarrow> currLoc it < endLoc it"
  by (auto simp: ei_getCurrent_def ei_end_def split: if_splits option.splits)

lemma ei_gotoNext_progress:
  "ei_getCurrent it = Inr (Some e) \<Longrightarrow> ei_gotoNext it = Inr it' \<Longrightarrow> endLoc it' - currLoc it' < endLoc it - currLoc it"
  using ei_getCurrent_Some [of it e] by (auto simp: ei_gotoNext_def ei_getAndGoToNext_def element_size_def)

function ei_goToAtLeast :: "SeqNum \<Rightarrow> ElementsIterator \<Rightarrow> (bool \<times> ElementsIterator) result" where
  "ei_goToAtLeast lowerBound it =
     rbind (ei_getCurrent it) (\<lambda>p. case p of
        None \<Rightarrow> Inr (False, it)
      | Some e \<Rightarrow>
          if vc_seqNum e < lowerBound then rbind (ei_gotoNext it) (\<lambda>it'. ei_goToAtLeast lowerBound it')
          else Inr (True, it))"
  by pat_completeness auto
termination
  by (relation "measure (\<lambda>(_, it). endLoc it - currLoc it)") (auto dest: ei_gotoNext_progress)

declare ei_goToAtLeast.simps [simp del]

section \<open>Iterating over the complaints\<close>

record ComplaintsIterator =
  ci_msg :: "MessageBase option"
  ci_endLoc :: nat
  ci_currLoc :: nat
  ci_nextNum :: nat

definition ComplaintsIterator_new :: "MsgEnv \<Rightarrow> MessageBase option \<Rightarrow> ComplaintsIterator result" where
  "ComplaintsIterator_new env p =
     (case p of
        None \<Rightarrow> Inr \<lparr>ci_msg = p, ci_endLoc = 0, ci_currLoc = 0, ci_nextNum = 1\<rparr>
      | Some m \<Rightarrow> rbind (vc_numberOfComplaints m) (\<lambda>n.
          if n = 0 then Inr \<lparr>ci_msg = p, ci_endLoc = 0, ci_currLoc = 0, ci_nextNum = 1\<rparr>
          else rbind (vc_getBodySize m) (\<lambda>bodySize.
            let curr = u32 (bodySize + mySigLength env)
            in c_assert (msgSize m > curr) (Inr \<lparr>ci_msg = p, ci_endLoc = msgSize m, ci_currLoc = curr, ci_nextNum = 1\<rparr>))))"

definition ci_end :: "ComplaintsIterator \<Rightarrow> bool result" where
  "ci_end it =
     (if ci_currLoc it \<ge> ci_endLoc it
      then (case ci_msg it of
              None \<Rightarrow> Inr True
            | Some m \<Rightarrow> rbind (vc_numberOfComplaints m) (\<lambda>n. c_assert (int (ci_nextNum it) - 1 = int n) (Inr True)))
      else Inr False)"

text \<open>The size at the current location, after the check of \<^verbatim>\<open>getCurrent\<close> and \<^verbatim>\<open>gotoNext\<close> that it fits into the message.\<close>

definition ci_size :: "ComplaintsIterator \<Rightarrow> (bytes \<times> nat) result" where
  "ci_size it =
     (case ci_msg it of
        None \<Rightarrow> Inl UndefinedBehaviour
      | Some m \<Rightarrow> rbind (rd (ci_currLoc it) 4 (msgBody m)) (\<lambda>n.
          c_assert (u32_of (int (ci_endLoc it) - int (ci_currLoc it) - 4) \<ge> n) (Inr (msgBody m, n))))"

definition ci_getCurrent :: "ComplaintsIterator \<Rightarrow> bytes option result" where
  "ci_getCurrent it =
     rbind (ci_end it) (\<lambda>e. if e then Inr None
       else rbind (ci_size it) (\<lambda>(buf, n). rbind (rd_bytes (ci_currLoc it + 4) n buf) (\<lambda>bs. Inr (Some bs))))"

definition ci_gotoNext :: "ComplaintsIterator \<Rightarrow> ComplaintsIterator result" where
  "ci_gotoNext it =
     rbind (ci_end it) (\<lambda>e. if e then Inr it
       else rbind (ci_size it) (\<lambda>(buf, n).
         Inr (it\<lparr>ci_currLoc := u32 (ci_currLoc it + (4 + n)), ci_nextNum := u16 (ci_nextNum it + 1)\<rparr>)))"

definition ci_getAndGoToNext :: "ComplaintsIterator \<Rightarrow> (bytes option \<times> ComplaintsIterator) result" where
  "ci_getAndGoToNext it = rbind (ci_getCurrent it) (\<lambda>r. rbind (ci_gotoNext it) (\<lambda>it'. Inr (r, it')))"

section \<open>The elements of a message\<close>

text \<open>The elements that fill the bytes of a buffer from one location to another, and what \<^verbatim>\<open>checkElements\<close> asks of them.\<close>

fun elements_at :: "bytes \<Rightarrow> nat \<Rightarrow> nat \<Rightarrow> VcElement list \<Rightarrow> bool" where
  "elements_at buf loc fin [] \<longleftrightarrow> loc = fin"
| "elements_at buf loc fin (e # es) \<longleftrightarrow> read_element buf loc = Inr e \<and> elements_at buf (loc + element_size e) fin es"

fun elements_ok :: "SeqNum \<Rightarrow> ViewNum \<Rightarrow> SeqNum \<Rightarrow> VcElement list \<Rightarrow> bool" where
  "elements_ok ls nv prev [] \<longleftrightarrow> True"
| "elements_ok ls nv prev (e # es) \<longleftrightarrow>
     prev < vc_seqNum e \<and> vc_seqNum e \<le> ls + kWorkWindow \<and> vc_originView e < nv \<and>
     (case vc_cert e of None \<Rightarrow> True | Some c \<Rightarrow> certificateView c \<le> vc_originView e \<and> certificateSig c \<noteq> []) \<and>
     elements_ok ls nv (vc_seqNum e) es"

lemma elements_at_loc: "elements_at buf loc fin es \<Longrightarrow> loc + length es * 49 \<le> fin"
  by (induction es arbitrary: loc) (fastforce simp: element_size_def)+

lemma elements_ok_seqNums:
  "elements_ok ls nv prev es \<Longrightarrow> sorted_wrt (<) (map vc_seqNum es) \<and> (\<forall>e \<in> set es. prev < vc_seqNum e \<and> vc_seqNum e \<le> ls + kWorkWindow)"
  by (induction es arbitrary: prev) fastforce+

lemma elements_ok_length: "elements_ok ls nv prev es \<Longrightarrow> prev \<le> ls + kWorkWindow \<Longrightarrow> int (length es) \<le> ls + kWorkWindow - prev"
  by (induction es arbitrary: prev) fastforce+

lemma read_element_fld:
  assumes "loc + 49 \<le> length buf" "fld (loc + 48) 1 buf \<noteq> 0 \<Longrightarrow> loc + 59 + fld (loc + 57) 2 buf \<le> length buf"
  shows "read_element buf loc =
    Inr \<lparr>vc_seqNum = s64 (fld loc 8 buf), vc_digest = take 32 (drop (loc + 8) buf), vc_originView = s64 (fld (loc + 40) 8 buf),
         vc_cert = (if fld (loc + 48) 1 buf = 0 then None
                    else Some \<lparr>certificateView = s64 (fld (loc + 49) 8 buf),
                               certificateSig = take (fld (loc + 57) 2 buf) (drop (loc + 59) buf)\<rparr>)\<rparr>"
  using assms by (cases "fld (loc + 48) 1 buf = 0") (simp_all add: read_element_def rd_s64_def rd_fld rd_bytes_def)

lemma vc_check_loop_elements:
  assumes "vc_check_loop buf ls nv k prev rem loc = Inr (Some (0, rem'))" "loc + rem \<le> length buf"
  shows "\<exists>es. length es = k \<and> elements_ok ls nv prev es \<and> elements_at buf loc (loc + (rem - rem')) es \<and> rem' \<le> rem"
  using assms
proof (induction buf ls nv k prev rem loc rule: vc_check_loop.induct)
  case (2 buf ls nv k prev rem loc)
  let ?e = "\<lparr>vc_seqNum = s64 (fld loc 8 buf), vc_digest = take 32 (drop (loc + 8) buf), vc_originView = s64 (fld (loc + 40) 8 buf),
         vc_cert = (if fld (loc + 48) 1 buf = 0 then None
                    else Some \<lparr>certificateView = s64 (fld (loc + 49) 8 buf),
                               certificateSig = take (fld (loc + 57) 2 buf) (drop (loc + 59) buf)\<rparr>)\<rparr>"
  have r: "49 \<le> rem" using 2(3) by (auto split: if_splits)
  have g: "rd_s64 loc buf = Inr (s64 (fld loc 8 buf))" "rd_s64 (loc + 40) buf = Inr (s64 (fld (loc + 40) 8 buf))"
    "rd (loc + 48) 1 buf = Inr (fld (loc + 48) 1 buf)"
    using r 2(4) by (simp_all add: rd_s64_def rd_fld)
  have c: "prev < s64 (fld loc 8 buf)" "s64 (fld loc 8 buf) \<le> ls + kWorkWindow" "s64 (fld (loc + 40) 8 buf) < nv"
    "s64_plus ls kWorkWindow = Inr (ls + kWorkWindow)"
    using 2(3) r by (auto simp: g s64_plus_def split: if_splits)
  show ?case
  proof (cases "fld (loc + 48) 1 buf = 0")
    case True
    then have "vc_check_loop buf ls nv k (s64 (fld loc 8 buf)) (rem - 49) (loc + 49) = Inr (Some (0, rem'))"
      using 2(3) r c g by simp
    from 2(1) [OF _ g(1) _ c(4) _ g(2) _ g(3) True this] obtain es where
      es: "length es = k" "elements_ok ls nv (s64 (fld loc 8 buf)) es"
        "elements_at buf (loc + 49) (loc + 49 + (rem - 49 - rem')) es" "rem' \<le> rem - 49"
      using r c 2(4) by fastforce
    have "read_element buf loc = Inr ?e" using True r 2(4) by (intro read_element_fld) simp_all
    then have "elements_at buf loc (loc + (rem - rem')) (?e # es)"
      using es(3,4) True r by (simp add: element_size_def)
    moreover have "elements_ok ls nv prev (?e # es)" using c es(2) True by simp
    ultimately show ?thesis using es(1,4) by (intro exI [of _ "?e # es"]) simp
  next
    case False
    then have r': "59 \<le> rem" using 2(3) r c g by (auto split: if_splits)
    have g': "rd_s64 (loc + 49) buf = Inr (s64 (fld (loc + 49) 8 buf))" "rd (loc + 57) 2 buf = Inr (fld (loc + 57) 2 buf)"
      using r' 2(4) by (simp_all add: rd_s64_def rd_fld)
    let ?n = "fld (loc + 57) 2 buf"
    have d: "s64 (fld (loc + 49) 8 buf) \<le> s64 (fld (loc + 40) 8 buf)" "?n \<noteq> 0" "59 + ?n \<le> rem"
      and l: "vc_check_loop buf ls nv k (s64 (fld loc 8 buf)) (rem - 49 - (10 + ?n)) (loc + 49 + (10 + ?n)) = Inr (Some (0, rem'))"
      using 2(3) r r' c g g' False by (auto split: if_splits)
    from 2(2) [OF _ g(1) _ c(4) _ g(2) _ g(3) False _ g'(1) _ g'(2) _ _ l] obtain es where
      es: "length es = k" "elements_ok ls nv (s64 (fld loc 8 buf)) es"
        "elements_at buf (loc + 49 + (10 + ?n)) (loc + 49 + (10 + ?n) + (rem - 49 - (10 + ?n) - rem')) es"
        "rem' \<le> rem - 49 - (10 + ?n)"
      using r r' c d 2(4) by fastforce
    have "read_element buf loc = Inr ?e" using r d 2(4) by (intro read_element_fld) simp_all
    moreover have sz: "length (certificateSig (the (vc_cert ?e))) = ?n" using False d 2(4) by simp
    moreover have "loc + 49 + (10 + ?n) + (rem - 49 - (10 + ?n) - rem') = loc + (rem - rem')" using d es(4) by simp
    ultimately have "elements_at buf loc (loc + (rem - rem')) (?e # es)"
      using es(3) False by (simp add: element_size_def add.assoc)
    moreover have "certificateSig (the (vc_cert ?e)) \<noteq> []" using sz d(2) by auto
    then have "elements_ok ls nv prev (?e # es)" using c d es(2) False by simp
    ultimately show ?thesis using es(1,4) by (intro exI [of _ "?e # es"]) simp
  qed
qed auto

text \<open>The elements of a message, and a message whose list of elements is well-formed.\<close>

fun read_elements :: "bytes \<Rightarrow> nat \<Rightarrow> nat \<Rightarrow> VcElement list result" where
  "read_elements buf 0 loc = Inr []"
| "read_elements buf (Suc k) loc =
     rbind (read_element buf loc) (\<lambda>e. rbind (read_elements buf k (loc + element_size e)) (\<lambda>es. Inr (e # es)))"

definition vc_elements :: "MessageBase \<Rightarrow> VcElement list result" where
  "vc_elements m = rbind (vc_numberOfElements m) (\<lambda>n. rbind (spanContextSize m) (\<lambda>sp. read_elements (msgBody m) n (44 + sp)))"

definition vc_contents :: "MessageBase \<Rightarrow> SeqNum \<Rightarrow> ViewNum \<Rightarrow> VcElement list \<Rightarrow> bool" where
  "vc_contents m ls nv es \<longleftrightarrow>
     vc_lastStable m = Inr ls \<and> vc_newView m = Inr nv \<and> vc_numberOfElements m = Inr (length es) \<and> elements_ok ls nv ls es \<and>
     (\<exists>sp fin. spanContextSize m = Inr sp \<and> vc_locationAfterLast m = Inr fin \<and>
        (if es = [] then fin = 0 else 44 + sp < 2 ^ 32 \<and> elements_at (msgBody m) (44 + sp) fin es))"

lemma read_elements_at: "elements_at buf loc fin es \<Longrightarrow> read_elements buf (length es) loc = Inr es"
  by (induction es arbitrary: loc) auto

lemma vc_contents_elements: "vc_contents m ls nv es \<Longrightarrow> vc_elements m = Inr es"
  by (auto simp: vc_contents_def vc_elements_def read_elements_at split: if_splits)

text \<open>The header fields of a message that is long enough for them.\<close>

lemma vc_fields:
  assumes m: "net_msg m" and s: "44 \<le> msgSize m"
  shows "vc_lastStable m = Inr (s64 (fld 16 8 (msgBody m)))" "vc_newView m = Inr (s64 (fld 8 8 (msgBody m)))"
    "vc_numberOfElements m = Inr (fld 38 2 (msgBody m))" "vc_locationAfterLast m = Inr (fld 40 4 (msgBody m))"
    "vc_numberOfComplaints m = Inr (fld 32 2 (msgBody m))" "vc_sizeOfAllComplaints m = Inr (fld 34 4 (msgBody m))"
    "vc_idOfGeneratedReplica m = Inr (fld 6 2 (msgBody m))" "rd 24 8 (msgBody m) = Inr (fld 24 8 (msgBody m))"
  using s by (simp_all add: vc_lastStable_def vc_newView_def vc_numberOfElements_def vc_locationAfterLast_def
      vc_numberOfComplaints_def vc_sizeOfAllComplaints_def vc_idOfGeneratedReplica_def rd_s64_def net_rd [OF m])

lemma vc_checkElements_loop:
  assumes m: "net_msg m" "44 \<le> msgSize m" and c: "vc_checkElements sl m = Inr True"
  obtains rem where
    "vc_check_loop (msgBody m) (s64 (fld 16 8 (msgBody m))) (s64 (fld 8 8 (msgBody m))) (fld 38 2 (msgBody m)) (s64 (fld 16 8 (msgBody m)))
       (u32_of (int (msgSize m) - int sl - 44 - int (span_of m))) (44 + span_of m) = Inr (Some (0, rem))"
    "fld 40 4 (msgBody m) = (if fld 38 2 (msgBody m) > 0 then u32_of (int (msgSize m) - int sl - int rem) else 0)"
proof -
  from c obtain res where
    l: "vc_check_loop (msgBody m) (s64 (fld 16 8 (msgBody m))) (s64 (fld 8 8 (msgBody m))) (fld 38 2 (msgBody m)) (s64 (fld 16 8 (msgBody m)))
       (u32_of (int (msgSize m) - int sl - 44 - int (span_of m))) (44 + span_of m) = Inr res"
    by (auto simp: vc_checkElements_def vc_fields [OF m] net_span [OF m(1)])
  then have "case res of None \<Rightarrow> False | Some (missing, rem) \<Rightarrow>
      missing = 0 \<and> fld 40 4 (msgBody m) = (if fld 38 2 (msgBody m) > 0 then u32_of (int (msgSize m) - int sl - int rem) else 0)"
    using c by (auto simp: vc_checkElements_def vc_fields [OF m] net_span [OF m(1)] split: option.splits if_splits)
  then show ?thesis using l that by (auto split: option.splits)
qed

lemma vc_checkElements_contents:
  assumes m: "net_msg m" and c: "vc_checkElements sl m = Inr True" and s: "44 + span_of m + sl \<le> msgSize m" and z: "msgSize m < 2 ^ 32"
  shows "\<exists>ls nv es. vc_contents m ls nv es"
proof -
  have s': "44 \<le> msgSize m" using s by simp
  note f = vc_fields [OF m s'] net_span [OF m]
  obtain rem where l: "vc_check_loop (msgBody m) (s64 (fld 16 8 (msgBody m))) (s64 (fld 8 8 (msgBody m))) (fld 38 2 (msgBody m))
      (s64 (fld 16 8 (msgBody m))) (u32_of (int (msgSize m) - int sl - 44 - int (span_of m))) (44 + span_of m) = Inr (Some (0, rem))"
    and loc: "fld 40 4 (msgBody m) = (if fld 38 2 (msgBody m) > 0 then u32_of (int (msgSize m) - int sl - int rem) else 0)"
    using vc_checkElements_loop [OF m s' c] .
  have u: "u32_of (int (msgSize m) - int sl - 44 - int (span_of m)) = msgSize m - sl - 44 - span_of m"
    using s z by (simp add: u32_of_def nat_eq_iff of_nat_diff)
  obtain es where es: "length es = fld 38 2 (msgBody m)" "elements_ok (s64 (fld 16 8 (msgBody m))) (s64 (fld 8 8 (msgBody m))) (s64 (fld 16 8 (msgBody m))) es"
      "elements_at (msgBody m) (44 + span_of m) (44 + span_of m + (msgSize m - sl - 44 - span_of m - rem)) es"
      "rem \<le> msgSize m - sl - 44 - span_of m"
    using vc_check_loop_elements [OF l [unfolded u]] m s by (auto simp: net_msg_def)
  have "u32_of (int (msgSize m) - int sl - int rem) = 44 + span_of m + (msgSize m - sl - 44 - span_of m - rem)"
    using s z es(4) by (simp add: u32_of_def nat_eq_iff of_nat_diff)
  then have "vc_contents m (s64 (fld 16 8 (msgBody m))) (s64 (fld 8 8 (msgBody m))) es"
    using loc es f s z by (auto simp: vc_contents_def)
  then show ?thesis by blast
qed

lemma vc_check_loop_stops:
  assumes "vc_check_loop buf ls nv k prev rem loc = Inr (Some (0, rem'))" "loc \<le> length buf + 65535"
  shows "rem' \<le> rem \<and> loc + (rem - rem') \<le> length buf + 65535"
  using assms
proof (induction buf ls nv k prev rem loc rule: vc_check_loop.induct)
  case (2 buf ls nv k prev rem loc)
  have n: "fld (loc + 57) 2 buf \<le> 65535" using fld_less [of "loc + 57" 2 buf] by simp
  show ?case using 2 n by (fastforce simp: rd_Inr rd_s64_def s64_plus_def split: if_splits)
qed auto

lemma vc_validate_contents:
  assumes m: "net_msg m" and v: "ViewChangeMsg_validate env ri m = Inr ()" and z: "msgSize m < 2 ^ 31"
  shows "\<exists>ls nv es. vc_contents m ls nv es"
proof -
  have s: "44 + span_of m \<le> msgSize m"
    using v by (cases "msgSize m < 44 + span_of m") (auto simp: ViewChangeMsg_validate_def net_shorter [OF m])
  then have s': "44 \<le> msgSize m" by simp
  note h = vc_fields [OF m s'] net_simps [OF m]
  define sl L where "sl = u16 (sigLength env (fld 6 2 (msgBody m)))" and "L = fld 40 4 (msgBody m)"
  have b: "vc_getBodySize m = Inr (if L = 0 then 44 + span_of m else L)"
    using s z by (simp add: vc_getBodySize_def h L_def)
  have c: "vc_checkElements sl m = Inr True" and d: "(if L = 0 then 44 + span_of m else L) + sl \<le> msgSize m"
    using v s m by (auto simp: ViewChangeMsg_validate_def Let_def h b sl_def rpred_def rd_bytes_Inr net_msg_def split: if_splits)
  have "44 + span_of m + sl \<le> msgSize m"
  proof (rule ccontr)
    assume n: "\<not> 44 + span_of m + sl \<le> msgSize m"
    then have L: "L \<noteq> 0" "L + sl \<le> msgSize m" using d by (auto split: if_splits)
    define R where "R = u32_of (int (msgSize m) - int sl - 44 - int (span_of m))"
    have sl: "sl < 65536" by (simp add: sl_def)
    obtain rem where l: "vc_check_loop (msgBody m) (s64 (fld 16 8 (msgBody m))) (s64 (fld 8 8 (msgBody m))) (fld 38 2 (msgBody m))
        (s64 (fld 16 8 (msgBody m))) R (44 + span_of m) = Inr (Some (0, rem))"
      and loc: "L = (if fld 38 2 (msgBody m) > 0 then u32_of (int (msgSize m) - int sl - int rem) else 0)"
      using vc_checkElements_loop [OF m s' c] unfolding L_def R_def .
    have rem: "rem \<le> R" "44 + span_of m + (R - rem) \<le> msgSize m + 65535"
      using vc_check_loop_stops [OF l] s m by (auto simp: net_msg_def)
    have rem': "L = u32_of (int (msgSize m) - int sl - int rem)" using loc L(1) by (simp split: if_splits)
    let ?X = "int (msgSize m) - int sl - 44 - int (span_of m)" and ?a = "44 + int (span_of m) - int rem"
    have "int R = ?X mod 2 ^ 32" by (simp add: R_def u32_of_def)
    then have "(44 + int (span_of m) + (int R - int rem)) mod 2 ^ 32 = (?a + ?X mod 2 ^ 32) mod 2 ^ 32"
      by (intro arg_cong [where f = "\<lambda>x. x mod 2 ^ 32"]) simp
    also have "\<dots> = (?a + ?X) mod 2 ^ 32" by (rule mod_add_right_eq)
    also have "?a + ?X = int (msgSize m) - int sl - int rem" by simp
    finally have "(int (msgSize m) - int sl - int rem) mod 2 ^ 32 = (44 + int (span_of m) + (int R - int rem)) mod 2 ^ 32" by simp
    also have "\<dots> = 44 + int (span_of m) + (int R - int rem)" using rem z by (intro mod_pos_pos_trivial) simp_all
    finally have "int L = 44 + int (span_of m) + (int R - int rem)" using rem(1) rem' by (simp add: u32_of_def)
    then show False using L(2) n rem(1) by linarith
  qed
  then show ?thesis using vc_checkElements_contents [OF m c] z by simp
qed

section \<open>What the iterator returns\<close>

text \<open>The elements an iterator has still to return.\<close>

definition iterates :: "ElementsIterator \<Rightarrow> VcElement list \<Rightarrow> bool" where
  "iterates it es \<longleftrightarrow>
     (\<exists>m n. ei_msg it = Some m \<and> vc_numberOfElements m = Inr n \<and> n \<le> 300 \<and> length es \<le> n \<and>
        nextNum it = n - length es + 1 \<and> elements_at (msgBody m) (currLoc it) (endLoc it) es)"

lemma iterates_end: "iterates it es \<Longrightarrow> ei_end it = Inr (es = [])"
  by (cases es) (auto simp: iterates_def ei_end_def element_size_def dest!: elements_at_loc)

lemma read_element_size:
  assumes "read_element buf loc = Inr e"
  obtains has where "rd (loc + 48) 1 buf = Inr has"
    "has = 0 \<and> element_size e = 49 \<or> has \<noteq> 0 \<and> (\<exists>n. rd (loc + 57) 2 buf = Inr n \<and> element_size e = 59 + n)"
  using assms by (fastforce simp: read_element_def element_size_def rd_bytes_Inr split: if_splits)

lemma iterates_getCurrent:
  assumes it: "iterates it es"
  shows "ei_getCurrent it = Inr (case es of [] \<Rightarrow> None | e # _ \<Rightarrow> Some e)"
proof (cases es)
  case Nil
  then show ?thesis using iterates_end [OF it] by (simp add: ei_getCurrent_def)
next
  case (Cons e es')
  obtain m where m: "ei_msg it = Some m" "read_element (msgBody m) (currLoc it) = Inr e"
    "elements_at (msgBody m) (currLoc it + element_size e) (endLoc it) es'"
    using it Cons by (auto simp: iterates_def)
  then have sz: "element_size e \<le> endLoc it - currLoc it" using elements_at_loc [of "msgBody m" _ _ es'] by fastforce
  obtain has where "rd (currLoc it + 48) 1 (msgBody m) = Inr has"
    "has = 0 \<and> element_size e = 49 \<or> has \<noteq> 0 \<and> (\<exists>n. rd (currLoc it + 57) 2 (msgBody m) = Inr n \<and> element_size e = 59 + n)"
    using read_element_size [OF m(2)] .
  then show ?thesis using m sz iterates_end [OF it] Cons by (auto simp: ei_getCurrent_def)
qed

lemma iterates_gotoNext:
  assumes it: "iterates it (e # es)"
  obtains it' where "ei_gotoNext it = Inr it'" "iterates it' es"
proof
  let ?it = "it\<lparr>currLoc := currLoc it + element_size e, nextNum := u16 (nextNum it + 1)\<rparr>"
  show "ei_gotoNext it = Inr ?it"
    using iterates_getCurrent [OF it] by (simp add: ei_gotoNext_def ei_getAndGoToNext_def)
  show "iterates ?it es" using it by (auto simp: iterates_def)
qed

lemma iterates_goToAtLeast:
  assumes "iterates it es"
  shows "\<exists>it'. ei_goToAtLeast lb it = Inr (dropWhile (\<lambda>e. vc_seqNum e < lb) es \<noteq> [], it') \<and>
    iterates it' (dropWhile (\<lambda>e. vc_seqNum e < lb) es)"
  using assms
proof (induction es arbitrary: it)
  case Nil
  then show ?case using iterates_getCurrent [OF Nil] by (simp add: ei_goToAtLeast.simps [of lb it])
next
  case (Cons e es)
  obtain it' where n: "ei_gotoNext it = Inr it'" "iterates it' es" using iterates_gotoNext [OF Cons.prems] .
  show ?case
    using Cons.IH [OF n(2)] iterates_getCurrent [OF Cons.prems] n(1) Cons.prems
    by (cases "vc_seqNum e < lb") (simp_all add: ei_goToAtLeast.simps [of lb it])
qed

lemma vc_contents_iterates:
  assumes "vc_contents m ls nv es"
  obtains it where "ElementsIterator_new (Some m) = Inr it" "iterates it es"
proof -
  have "elements_ok ls nv ls es" using assms by (simp add: vc_contents_def)
  then have "int (length es) \<le> kWorkWindow" using elements_ok_length [of ls nv ls es] by (simp add: kWorkWindow_def)
  then have l: "length es \<le> 300" by (simp add: kWorkWindow_def)
  show ?thesis
  proof (cases "es = []")
    case True
    then show ?thesis
      using assms by (intro that) (auto simp: vc_contents_def ElementsIterator_new_def iterates_def)
  next
    case False
    then obtain sp fin where f: "spanContextSize m = Inr sp" "vc_locationAfterLast m = Inr fin" "44 + sp < 4294967296"
      "elements_at (msgBody m) (44 + sp) fin es" "vc_numberOfElements m = Inr (length es)"
      using assms by (auto simp: vc_contents_def)
    have "44 + sp < fin" using elements_at_loc [OF f(4)] False by (cases es) auto
    then show ?thesis using f l False by (intro that) (auto simp: ElementsIterator_new_def iterates_def Let_def)
  qed
qed

end
