(* ===== verification/View_Change_Layout.thy ===== *)
theory View_Change_Layout
  imports View_Change_Msg
begin

text \<open>
  View change messages that a replica builds: their bytes, that other replicas accept them and read the same elements, and a
  message that the validation reads past its end.
\<close>

section \<open>A message that is built is accepted\<close>

text \<open>The bytes of a message with the given elements, followed by \<open>rest\<close>.\<close>

definition vc_head :: "ReplicaId \<Rightarrow> ViewNum \<Rightarrow> SeqNum \<Rightarrow> nat \<Rightarrow> nat \<Rightarrow> nat \<Rightarrow> nat \<Rightarrow> bytes" where
  "vc_head src nv ls epoch sp nc sc =
     header_bytes (msg_code McViewChange) sp @ le_bytes 2 src @ le_s64 nv @ le_s64 ls @ le_bytes 8 epoch @ le_bytes 2 nc @ le_bytes 4 sc"

definition elements_size :: "VcElement list \<Rightarrow> nat" where
  "elements_size es = sum_list (map element_size es)"

definition vc_layout :: "ReplicaId \<Rightarrow> ViewNum \<Rightarrow> SeqNum \<Rightarrow> nat \<Rightarrow> bytes \<Rightarrow> nat \<Rightarrow> nat \<Rightarrow> VcElement list \<Rightarrow> bytes \<Rightarrow> bytes" where
  "vc_layout src nv ls epoch span nc sc es rest =
     vc_head src nv ls epoch (length span) nc sc @ le_bytes 2 (length es) @
     le_bytes 4 (if es = [] then 0 else 44 + length span + elements_size es) @ span @ concat (map element_bytes es) @ rest"

definition is_s64 :: "int \<Rightarrow> bool" where
  "is_s64 x \<longleftrightarrow> - (2 ^ 63) \<le> x \<and> x < 2 ^ 63"

definition element_fits :: "VcElement \<Rightarrow> bool" where
  "element_fits e \<longleftrightarrow>
     is_s64 (vc_seqNum e) \<and> is_s64 (vc_originView e) \<and> length (vc_digest e) = 32 \<and>
     (case vc_cert e of None \<Rightarrow> True | Some c \<Rightarrow> is_s64 (certificateView c) \<and> length (certificateSig c) < 65536)"

lemma length_vc_head [simp]: "length (vc_head src nv ls epoch sp nc sc) = 38"
  by (simp add: vc_head_def)

lemma length_element_bytes: "element_fits e \<Longrightarrow> length (element_bytes e) = element_size e"
  by (auto simp: element_fits_def element_bytes_def element_size_def split: option.splits)

lemma length_elements_bytes: "list_all element_fits es \<Longrightarrow> length (concat (map element_bytes es)) = elements_size es"
  by (induction es) (simp_all add: length_element_bytes elements_size_def)

lemma s64_read: "is_s64 x \<Longrightarrow> s64 (le_nat (le_s64 x)) = x"
  by (simp add: is_s64_def s64_le_s64)

lemma fld_byte: "fld 0 (Suc 0) (x # xs) = unat x"
  by (simp add: fld_def le_nat_def)

lemma read_element_bytes:
  assumes e: "element_fits e"
  shows "read_element (p @ element_bytes e @ q) (length p) = Inr e"
proof -
  let ?b = "p @ element_bytes e @ q" and ?n = "length p"
  have d: "length (vc_digest e) = 32" "is_s64 (vc_seqNum e)" "is_s64 (vc_originView e)" using e by (simp_all add: element_fits_def)
  show ?thesis
  proof (cases "vc_cert e")
    case None
    have f: "fld ?n 8 ?b = le_nat (le_s64 (vc_seqNum e))" "fld (?n + 40) 8 ?b = le_nat (le_s64 (vc_originView e))"
      "fld (?n + 48) 1 ?b = 0" "take 32 (drop (?n + 8) ?b) = vc_digest e" "?n + 49 \<le> length ?b"
      using None d by (simp_all add: element_bytes_def fld_simps fld_byte)
    show ?thesis using read_element_fld [of ?n ?b] f d None by (simp add: s64_read)
  next
    case (Some c)
    then have c: "is_s64 (certificateView c)" "length (certificateSig c) < 65536" using e by (simp_all add: element_fits_def)
    have f: "fld ?n 8 ?b = le_nat (le_s64 (vc_seqNum e))" "fld (?n + 40) 8 ?b = le_nat (le_s64 (vc_originView e))"
      "fld (?n + 48) 1 ?b = 1" "take 32 (drop (?n + 8) ?b) = vc_digest e"
      "fld (?n + 49) 8 ?b = le_nat (le_s64 (certificateView c))" "fld (?n + 57) 2 ?b = length (certificateSig c)"
      "take (length (certificateSig c)) (drop (?n + 59) ?b) = certificateSig c" "?n + 59 + length (certificateSig c) \<le> length ?b"
      using Some d c by (simp_all add: element_bytes_def fld_simps fld_byte fld_Cons)
    show ?thesis using read_element_fld [of ?n ?b] f d Some c by (simp add: s64_read)
  qed
qed

lemma elements_at_bytes:
  "list_all element_fits es \<Longrightarrow> elements_at (p @ concat (map element_bytes es) @ q) (length p) (length p + elements_size es) es"
proof (induction es arbitrary: p)
  case (Cons e es)
  then have e: "element_fits e" by simp
  have "elements_at ((p @ element_bytes e) @ concat (map element_bytes es) @ q) (length (p @ element_bytes e))
      (length (p @ element_bytes e) + elements_size es) es"
    by (rule Cons.IH) (use Cons.prems in simp)
  then show ?case using read_element_bytes [OF e, of p "concat (map element_bytes es) @ q"] length_element_bytes [OF e]
    by (simp add: elements_size_def add.assoc)
qed (simp add: elements_size_def)

definition layout_fits :: "ReplicaId \<Rightarrow> ViewNum \<Rightarrow> SeqNum \<Rightarrow> nat \<Rightarrow> bytes \<Rightarrow> nat \<Rightarrow> nat \<Rightarrow> VcElement list \<Rightarrow> bool" where
  "layout_fits src nv ls epoch span nc sc es \<longleftrightarrow>
     src < 65536 \<and> is_s64 nv \<and> is_s64 ls \<and> epoch < 2 ^ 64 \<and> nc < 65536 \<and> sc < 2 ^ 32 \<and> length es < 65536 \<and>
     44 + length span + elements_size es < 2 ^ 32 \<and> list_all element_fits es"

lemma layout_fields:
  assumes l: "layout_fits src nv ls epoch span nc sc es" and b: "msgBody m = vc_layout src nv ls epoch span nc sc es rest"
  shows "vc_idOfGeneratedReplica m = Inr src" "vc_newView m = Inr nv" "vc_lastStable m = Inr ls" "rd 24 8 (msgBody m) = Inr epoch"
    "vc_numberOfComplaints m = Inr nc" "vc_sizeOfAllComplaints m = Inr sc" "vc_numberOfElements m = Inr (length es)"
    "vc_locationAfterLast m = Inr (if es = [] then 0 else 44 + length span + elements_size es)" "spanContextSize m = Inr (length span)"
    "vc_getBodySize m = Inr (44 + length span + elements_size es)"
proof -
  have f: "fld 6 2 (msgBody m) = src" "s64 (fld 8 8 (msgBody m)) = nv" "s64 (fld 16 8 (msgBody m)) = ls" "fld 24 8 (msgBody m) = epoch"
    "fld 32 2 (msgBody m) = nc" "fld 34 4 (msgBody m) = sc" "fld 38 2 (msgBody m) = length es"
    "fld 40 4 (msgBody m) = (if es = [] then 0 else 44 + length span + elements_size es)" "fld 2 4 (msgBody m) = length span"
    using l by (simp_all add: b layout_fits_def vc_layout_def vc_head_def header_bytes_def fld_simps s64_read)
  have len: "44 \<le> length (msgBody m)" by (simp add: b vc_layout_def)
  show "vc_idOfGeneratedReplica m = Inr src" "vc_newView m = Inr nv" "vc_lastStable m = Inr ls" "rd 24 8 (msgBody m) = Inr epoch"
    "vc_numberOfComplaints m = Inr nc" "vc_sizeOfAllComplaints m = Inr sc" "vc_numberOfElements m = Inr (length es)"
    and loc: "vc_locationAfterLast m = Inr (if es = [] then 0 else 44 + length span + elements_size es)" and sp: "spanContextSize m = Inr (length span)"
    using f len by (simp_all add: vc_idOfGeneratedReplica_def vc_newView_def vc_lastStable_def vc_numberOfComplaints_def
        vc_sizeOfAllComplaints_def vc_numberOfElements_def vc_locationAfterLast_def spanContextSize_def rd_s64_def rd_fld)
  show "vc_getBodySize m = Inr (44 + length span + elements_size es)"
    using loc sp l by (simp add: vc_getBodySize_def layout_fits_def elements_size_def)
qed

lemma layout_elements_at:
  assumes "layout_fits src nv ls epoch span nc sc es"
  shows "elements_at (vc_layout src nv ls epoch span nc sc es rest) (44 + length span) (44 + length span + elements_size es) es"
  using elements_at_bytes [of es "vc_head src nv ls epoch (length span) nc sc @ le_bytes 2 (length es) @
     le_bytes 4 (if es = [] then 0 else 44 + length span + elements_size es) @ span" rest] assms
  by (simp add: layout_fits_def vc_layout_def add.assoc)

lemma layout_contents:
  assumes l: "layout_fits src nv ls epoch span nc sc es" and b: "msgBody m = vc_layout src nv ls epoch span nc sc es rest"
    and ok: "elements_ok ls nv ls es"
  shows "vc_contents m ls nv es"
  using layout_fields [OF l b] layout_elements_at [OF l, of rest] ok l b by (auto simp: vc_contents_def layout_fits_def)

lemma length_vc_layout:
  "layout_fits src nv ls epoch span nc sc es \<Longrightarrow> length (vc_layout src nv ls epoch span nc' sc' es rest) = 44 + length span + elements_size es + length rest"
  by (simp add: vc_layout_def layout_fits_def length_elements_bytes)

text \<open>Adding elements and complaints.\<close>

lemma wr_replace: "length old = length bs \<Longrightarrow> off = length p \<Longrightarrow> wr off bs (p @ old @ q) = Inr (p @ bs @ q)"
  by (simp add: wr_def)

lemma vc_addElement_layout:
  assumes l: "layout_fits src nv ls epoch span 0 0 (es @ [e])" and b: "msgBody m = vc_layout src nv ls epoch span 0 0 es (replicate n 0)"
    and e: "ls < vc_seqNum e" "vc_seqNum e \<le> ls + kWorkWindow" "ls + kWorkWindow < 2 ^ 63" "int (length es) < kWorkWindow"
    and s: "44 + length span + elements_size (es @ [e]) + mySigLength env \<le> storageSize m" "storageSize m < 2 ^ 32" "element_size e \<le> n"
  shows "vc_addElement env e m =
    Inr (m\<lparr>msgBody := vc_layout src nv ls epoch span 0 0 (es @ [e]) (replicate (n - element_size e) 0)\<rparr>)"
proof -
  have l': "layout_fits src nv ls epoch span 0 0 es" and ef: "element_fits e" using l by (simp_all add: layout_fits_def elements_size_def)
  note f = layout_fields [OF l' b]
  let ?loc = "44 + length span + elements_size es"
  have z: "elements_size (es @ [e]) = elements_size es + element_size e" by (simp add: elements_size_def)
  have loc: "(if (if es = [] then 0 else ?loc) = 0 then u32 (44 + length span) else (if es = [] then 0 else ?loc)) = ?loc"
    using l' by (auto simp: layout_fits_def elements_size_def)
  have u: "u32 (?loc + element_size e) = ?loc + element_size e" "u32 (?loc + element_size e + mySigLength env) \<le> storageSize m"
    using s z by simp_all
  define H where "H = vc_head src nv ls epoch (length span) 0 0"
  define R where "R = span @ concat (map element_bytes es)"
  have bd: "msgBody m = (H @ le_bytes 2 (length es) @ le_bytes 4 (if es = [] then 0 else ?loc) @ R) @ replicate (element_size e) 0 @ replicate (n - element_size e) 0"
    using s(3) by (simp add: b vc_layout_def H_def R_def flip: replicate_add)
  have lH: "length H = 38" "length R = length span + elements_size es"
    using l' by (simp_all add: H_def R_def layout_fits_def length_elements_bytes)
  have w1: "wr ?loc (element_bytes e) (msgBody m) =
      Inr ((H @ le_bytes 2 (length es)) @ le_bytes 4 (if es = [] then 0 else ?loc) @ (R @ element_bytes e @ replicate (n - element_size e) 0))"
    unfolding bd by (subst wr_replace) (simp_all add: lH length_element_bytes [OF ef])
  have w2: "wr 40 (le_bytes 4 k) (H @ le_bytes 2 y @ le_bytes 4 x @ Q) = Inr (H @ le_bytes 2 y @ le_bytes 4 k @ Q)" for x y k Q
    using wr_replace [of "le_bytes 4 x" "le_bytes 4 k" 40 "H @ le_bytes 2 y" Q] by (simp add: lH)
  have w3: "wr 38 (le_bytes 2 k) (H @ le_bytes 2 y @ Q) = Inr (H @ le_bytes 2 k @ Q)" for y k Q
    using wr_replace [of "le_bytes 2 y" "le_bytes 2 k" 38 H Q] by (simp add: lH)
  have "vc_addElement env e m = Inr (m\<lparr>msgBody := H @ le_bytes 2 (length es + 1) @ le_bytes 4 (?loc + element_size e) @
      R @ element_bytes e @ replicate (n - element_size e) 0\<rparr>)"
    using e u by (simp add: vc_addElement_def f loc s64_plus_def w1 w2 w3 Let_def del: le_bytes_Suc)
  then show ?thesis by (simp add: vc_layout_def H_def R_def z add.assoc)
qed

definition complaint_bytes :: "MessageBase \<Rightarrow> bytes" where
  "complaint_bytes c = le_bytes 4 (msgSize c) @ take (msgSize c) (msgBody c)"

definition complaints_size :: "MessageBase list \<Rightarrow> nat" where
  "complaints_size cs = sum_list (map (\<lambda>c. 4 + msgSize c) cs)"

definition complaint_fits :: "MessageBase \<Rightarrow> bool" where
  "complaint_fits c \<longleftrightarrow> 27 < msgSize c \<and> msgSize c \<le> length (msgBody c) \<and> msgSize c < 2 ^ 32"

lemma length_complaint_bytes: "complaint_fits c \<Longrightarrow> length (complaint_bytes c) = 4 + msgSize c"
  by (simp add: complaint_fits_def complaint_bytes_def)

lemma length_complaints_bytes: "list_all complaint_fits cs \<Longrightarrow> length (concat (map complaint_bytes cs)) = complaints_size cs"
  by (induction cs) (simp_all add: length_complaint_bytes complaints_size_def)

lemma vc_addComplaint_layout:
  assumes l: "layout_fits src nv ls epoch span (length cs) (complaints_size cs) es" and c: "list_all complaint_fits (cs @ [c])"
    and b: "msgBody m = vc_layout src nv ls epoch span (length cs) (complaints_size cs) es
              (replicate (mySigLength env) 0 @ concat (map complaint_bytes cs) @ replicate n 0)"
    and s: "length (msgBody m) = storageSize m" "storageSize m < 2 ^ 32" "4 + msgSize c \<le> n"
  shows "vc_addComplaint env c m =
    Inr (m\<lparr>msgBody := vc_layout src nv ls epoch span (length (cs @ [c])) (complaints_size (cs @ [c])) es
              (replicate (mySigLength env) 0 @ concat (map complaint_bytes (cs @ [c])) @ replicate (n - (4 + msgSize c)) 0)\<rparr>)"
proof -
  note f = layout_fields [OF l b]
  define P where "P = header_bytes (msg_code McViewChange) (length span) @ le_bytes 2 src @ le_s64 nv @ le_s64 ls @ le_bytes 8 epoch"
  define R where "R = le_bytes 2 (length es) @ le_bytes 4 (if es = [] then 0 else 44 + length span + elements_size es) @ span @
    concat (map element_bytes es) @ replicate (mySigLength env) 0 @ concat (map complaint_bytes cs)"
  have lP: "length P = 32" by (simp add: P_def)
  have lR: "length R = 6 + length span + elements_size es + mySigLength env + complaints_size cs"
    using l c by (simp add: R_def layout_fits_def length_elements_bytes length_complaints_bytes)
  have bd: "msgBody m = (P @ le_bytes 2 (length cs) @ le_bytes 4 (complaints_size cs) @ R) @ replicate (4 + msgSize c) 0 @ replicate (n - (4 + msgSize c)) 0"
    using s(3) by (simp only: replicate_add [symmetric]) (simp add: b vc_layout_def vc_head_def P_def R_def)
  let ?loc = "44 + length span + elements_size es + (mySigLength env + complaints_size cs)"
  have st: "storageSize m = ?loc + n" using s(1,3) lP lR by (simp add: bd)
  have cb: "length (complaint_bytes c) = 4 + msgSize c" using c by (simp add: length_complaint_bytes)
  have w1: "wr ?loc (complaint_bytes c) (msgBody m) =
      Inr (P @ le_bytes 2 (length cs) @ le_bytes 4 (complaints_size cs) @ R @ complaint_bytes c @ replicate (n - (4 + msgSize c)) 0)"
    unfolding bd by (subst wr_replace) (simp_all add: lP lR cb)
  have w2: "wr 34 (le_bytes 4 k) (P @ le_bytes 2 y @ le_bytes 4 x @ Q) = Inr (P @ le_bytes 2 y @ le_bytes 4 k @ Q)" for x y k Q
    using wr_replace [of "le_bytes 4 x" "le_bytes 4 k" 34 "P @ le_bytes 2 y" Q] by (simp add: lP)
  have w3: "wr 32 (le_bytes 2 k) (P @ le_bytes 2 y @ Q) = Inr (P @ le_bytes 2 k @ Q)" for y k Q
    using wr_replace [of "le_bytes 2 y" "le_bytes 2 k" 32 P Q] by (simp add: lP)
  have r: "rd_bytes 0 (msgSize c) (msgBody c) = Inr (take (msgSize c) (msgBody c))" using c by (simp add: rd_bytes_def complaint_fits_def)
  have a: "length cs > 0 \<or> complaints_size cs = 0" by (auto simp: complaints_size_def)
  have z: "complaints_size (cs @ [c]) = complaints_size cs + 4 + msgSize c" by (simp add: complaints_size_def)
  have "vc_addComplaint env c m = Inr (m\<lparr>msgBody := P @ le_bytes 2 (length cs + 1) @ le_bytes 4 (complaints_size cs + 4 + msgSize c) @
      R @ complaint_bytes c @ replicate (n - (4 + msgSize c)) 0\<rparr>)"
    using a s(2,3) st w1
    by (simp only: vc_addComplaint_def f rbind_simps Let_def u32_small r complaint_bytes_def [symmetric] c_assert_def)
      (simp add: w2 w3)
  then show ?thesis by (simp add: vc_layout_def vc_head_def P_def R_def z)
qed

text \<open>The checks accept such a message.\<close>

lemma read_element_reads:
  assumes "read_element buf loc = Inr e"
  shows "rd_s64 loc buf = Inr (vc_seqNum e)" "rd_s64 (loc + 40) buf = Inr (vc_originView e)"
    "vc_cert e = None \<Longrightarrow> rd (loc + 48) 1 buf = Inr 0"
    "vc_cert e = Some c \<Longrightarrow> (\<exists>h. rd (loc + 48) 1 buf = Inr h \<and> h \<noteq> 0) \<and> rd_s64 (loc + 49) buf = Inr (certificateView c) \<and>
       rd (loc + 57) 2 buf = Inr (length (certificateSig c))"
  using assms by (auto simp: read_element_def rd_bytes_Inr split: if_splits)

lemma vc_check_loop_complete:
  assumes "elements_at buf loc fin es" "elements_ok ls nv prev es" "ls + kWorkWindow < 2 ^ 63" "fin - loc \<le> rem"
  shows "vc_check_loop buf ls nv (length es) prev rem loc = Inr (Some (0, rem - (fin - loc)))"
  using assms
proof (induction es arbitrary: prev rem loc)
  case (Cons e es)
  have r: "read_element buf loc = Inr e" and at: "elements_at buf (loc + element_size e) fin es" using Cons.prems(1) by simp_all
  have le: "loc + element_size e \<le> fin" using elements_at_loc [OF at] by simp
  note g = read_element_reads [OF r]
  have IH: "vc_check_loop buf ls nv (length es) (vc_seqNum e) (rem - element_size e) (loc + element_size e) = Inr (Some (0, rem - (fin - loc)))"
    using Cons.IH [OF at, of "vc_seqNum e" "rem - element_size e"] Cons.prems le by simp
  have w: "s64_plus ls kWorkWindow = Inr (ls + kWorkWindow)" using Cons.prems(3) by (simp add: s64_plus_def)
  show ?case
  proof (cases "vc_cert e")
    case None
    then have sz: "element_size e = 49" by (simp add: element_size_def)
    then show ?thesis using IH Cons.prems(2,4) le g(1,2) g(3) [OF None] w by (simp add: sz)
  next
    case (Some c)
    then have sz: "element_size e = 59 + length (certificateSig c)" by (simp add: element_size_def)
    obtain h where h: "rd (loc + 48) 1 buf = Inr h" "h \<noteq> 0" "rd_s64 (loc + 49) buf = Inr (certificateView c)"
      "rd (loc + 57) 2 buf = Inr (length (certificateSig c))"
      using g(4) [OF Some] by blast
    have rs: "\<not> rem < 49" "\<not> rem - 49 < 10" "\<not> rem - 49 < 10 + length (certificateSig c)" using Cons.prems(4) le sz by simp_all
    have "rem - 49 - (10 + length (certificateSig c)) = rem - element_size e" "loc + 49 + (10 + length (certificateSig c)) = loc + element_size e"
      by (simp_all add: sz)
    then show ?thesis using IH Cons.prems(2) g(1,2) h w Some sz rs by (simp add: add.assoc)
  qed
qed simp

lemma vc_complaints_loop_complete:
  "list_all complaint_fits cs \<Longrightarrow> complaints_size cs < 2 ^ 32 \<Longrightarrow>
   vc_complaints_loop (p @ concat (map complaint_bytes cs)) (length cs) (complaints_size cs) (length p) = Inr (Some (0, 0))"
proof (induction cs arbitrary: p)
  case (Cons c cs)
  have c: "complaint_fits c" "27 < msgSize c" "msgSize c < 2 ^ 32" using Cons.prems(1) by (simp_all add: complaint_fits_def)
  have sz: "complaints_size (c # cs) = 4 + msgSize c + complaints_size cs" by (simp add: complaints_size_def)
  have r: "rd (length p) 4 (p @ complaint_bytes c @ q) = Inr (msgSize c)" for q
    using c by (simp add: rd_fld complaint_bytes_def fld_simps)
  have "u32_of (int (complaints_size (c # cs)) - 4 - int (msgSize c)) = complaints_size cs"
    using sz Cons.prems(2) by (simp add: u32_of_def nat_eq_iff)
  moreover have "vc_complaints_loop ((p @ complaint_bytes c) @ concat (map complaint_bytes cs)) (length cs) (complaints_size cs)
      (length (p @ complaint_bytes c)) = Inr (Some (0, 0))"
    by (rule Cons.IH) (use Cons.prems sz in simp_all)
  ultimately show ?case using r c sz length_complaint_bytes [OF c(1)] by (simp add: add.assoc)
qed (simp add: complaints_size_def)

lemma layout_checks:
  assumes l: "layout_fits src nv ls epoch span (length cs) (complaints_size cs) es" and c: "list_all complaint_fits cs"
    and ok: "elements_ok ls nv ls es" "ls + kWorkWindow < 2 ^ 63"
    and b: "msgBody m = vc_layout src nv ls epoch span (length cs) (complaints_size cs) es (sig @ concat (map complaint_bytes cs))"
    and s: "msgSize m = length (msgBody m)" "msgSize m < 2 ^ 32"
  shows "vc_checkElements (length sig) m = Inr True" "vc_checkComplaints (length sig) m = Inr True"
proof -
  note f = layout_fields [OF l b]
  have sz: "msgSize m = 44 + length span + elements_size es + length sig + complaints_size cs"
    using l c by (simp add: s(1) b vc_layout_def layout_fits_def length_elements_bytes length_complaints_bytes)
  have u: "u32_of (int (msgSize m) - int (length sig) - 44 - int (length span)) = elements_size es + complaints_size cs"
    "u32_of (int (msgSize m) - int (length sig) - int (complaints_size cs)) = 44 + length span + elements_size es"
    "u32_of (int (msgSize m) - int (length sig) - (44 + int (length span) + int (elements_size es))) = complaints_size cs"
    using sz s(2) by (simp_all add: u32_of_def nat_eq_iff)
  have "vc_check_loop (msgBody m) ls nv (length es) ls (elements_size es + complaints_size cs) (44 + length span) = Inr (Some (0, complaints_size cs))"
    using vc_check_loop_complete [OF layout_elements_at [OF l] ok(1) ok(2)] by (simp add: b)
  then show "vc_checkElements (length sig) m = Inr True" by (simp add: vc_checkElements_def f u)
  have "vc_complaints_loop (msgBody m) (length cs) (complaints_size cs) (44 + length span + elements_size es + length sig) = Inr (Some (0, 0))"
    using vc_complaints_loop_complete [OF c, of "vc_head src nv ls epoch (length span) (length cs) (complaints_size cs) @ le_bytes 2 (length es) @
      le_bytes 4 (if es = [] then 0 else 44 + length span + elements_size es) @ span @ concat (map element_bytes es) @ sig"] l
    by (simp add: b vc_layout_def layout_fits_def length_elements_bytes add.assoc)
  then show "vc_checkComplaints (length sig) m = Inr True" by (simp add: vc_checkComplaints_def f u(3))
qed

fun vc_addElements :: "MsgEnv \<Rightarrow> VcElement list \<Rightarrow> MessageBase \<Rightarrow> MessageBase result" where
  "vc_addElements env [] m = Inr m"
| "vc_addElements env (e # es) m = rbind (vc_addElement env e m) (vc_addElements env es)"

fun vc_addComplaints :: "MsgEnv \<Rightarrow> MessageBase list \<Rightarrow> MessageBase \<Rightarrow> MessageBase result" where
  "vc_addComplaints env [] m = Inr m"
| "vc_addComplaints env (c # cs) m = rbind (vc_addComplaint env c m) (vc_addComplaints env cs)"

lemma vc_addElements_layout:
  assumes "layout_fits src nv ls epoch span 0 0 (es0 @ es)" "msgBody m = vc_layout src nv ls epoch span 0 0 es0 (replicate n 0)"
    "\<forall>e \<in> set es. ls < vc_seqNum e \<and> vc_seqNum e \<le> ls + kWorkWindow" "ls + kWorkWindow < 2 ^ 63" "int (length (es0 @ es)) \<le> kWorkWindow"
    "44 + length span + elements_size (es0 @ es) + mySigLength env \<le> storageSize m" "storageSize m < 2 ^ 32" "elements_size es \<le> n"
  shows "vc_addElements env es m = Inr (m\<lparr>msgBody := vc_layout src nv ls epoch span 0 0 (es0 @ es) (replicate (n - elements_size es) 0)\<rparr>)"
  using assms
proof (induction es arbitrary: es0 m n)
  case Nil
  then show ?case by (simp add: elements_size_def)
next
  case (Cons e es)
  have z: "elements_size (e # es) = element_size e + elements_size es" "elements_size (es0 @ e # es) = elements_size (es0 @ [e]) + elements_size es"
    by (simp_all add: elements_size_def)
  have l: "layout_fits src nv ls epoch span 0 0 (es0 @ [e])" using Cons.prems(1) z by (simp add: layout_fits_def)
  let ?m = "m\<lparr>msgBody := vc_layout src nv ls epoch span 0 0 (es0 @ [e]) (replicate (n - element_size e) 0)\<rparr>"
  have "vc_addElement env e m = Inr ?m"
    using Cons.prems z by (intro vc_addElement_layout [OF l Cons.prems(2)]) auto
  moreover have "vc_addElements env es ?m =
      Inr (?m\<lparr>msgBody := vc_layout src nv ls epoch span 0 0 ((es0 @ [e]) @ es) (replicate (n - element_size e - elements_size es) 0)\<rparr>)"
    using Cons.prems z by (intro Cons.IH) auto
  ultimately show ?case by (simp add: z(1))
qed

lemma vc_addComplaints_layout:
  assumes "layout_fits src nv ls epoch span (length (cs0 @ cs)) (complaints_size (cs0 @ cs)) es" "list_all complaint_fits (cs0 @ cs)"
    "msgBody m = vc_layout src nv ls epoch span (length cs0) (complaints_size cs0) es
              (replicate (mySigLength env) 0 @ concat (map complaint_bytes cs0) @ replicate n 0)"
    "length (msgBody m) = storageSize m" "storageSize m < 2 ^ 32" "complaints_size cs \<le> n"
  shows "vc_addComplaints env cs m = Inr (m\<lparr>msgBody := vc_layout src nv ls epoch span (length (cs0 @ cs)) (complaints_size (cs0 @ cs)) es
              (replicate (mySigLength env) 0 @ concat (map complaint_bytes (cs0 @ cs)) @ replicate (n - complaints_size cs) 0)\<rparr>)"
  using assms
proof (induction cs arbitrary: cs0 m n)
  case Nil
  then show ?case by (simp add: complaints_size_def)
next
  case (Cons c cs)
  have z: "complaints_size (c # cs) = 4 + msgSize c + complaints_size cs"
    "complaints_size (cs0 @ c # cs) = complaints_size cs0 + (4 + msgSize c) + complaints_size cs"
    by (simp_all add: complaints_size_def)
  have l: "layout_fits src nv ls epoch span (length cs0) (complaints_size cs0) es" using Cons.prems(1) z by (simp add: layout_fits_def)
  let ?m = "m\<lparr>msgBody := vc_layout src nv ls epoch span (length (cs0 @ [c])) (complaints_size (cs0 @ [c])) es
              (replicate (mySigLength env) 0 @ concat (map complaint_bytes (cs0 @ [c])) @ replicate (n - (4 + msgSize c)) 0)\<rparr>"
  have st: "vc_addComplaint env c m = Inr ?m"
    using Cons.prems z by (intro vc_addComplaint_layout [OF l _ Cons.prems(3)]) auto
  have len: "length (msgBody ?m) = length (msgBody m)"
    using Cons.prems(2,3,6) z l by (simp add: length_vc_layout length_complaint_bytes)
  have "vc_addComplaints env cs ?m =
      Inr (?m\<lparr>msgBody := vc_layout src nv ls epoch span (length ((cs0 @ [c]) @ cs)) (complaints_size ((cs0 @ [c]) @ cs)) es
              (replicate (mySigLength env) 0 @ concat (map complaint_bytes ((cs0 @ [c]) @ cs)) @ replicate (n - (4 + msgSize c) - complaints_size cs) 0)\<rparr>)"
    using Cons.prems z len by (intro Cons.IH) auto
  then show ?case using st by (simp add: z(1))
qed

lemma vc_finalize_layout:
  assumes l: "layout_fits src nv ls epoch span (length cs) (complaints_size cs) es" and c: "list_all complaint_fits cs"
    and ok: "elements_ok ls nv ls es" "ls + kWorkWindow < 2 ^ 63" and o: "owner m"
    and b: "msgBody m = vc_layout src nv ls epoch span (length cs) (complaints_size cs) es
              (replicate (mySigLength env) 0 @ concat (map complaint_bytes cs) @ replicate n 0)"
    and s: "length (msgBody m) = storageSize m" "storageSize m < 2 ^ 32"
    and sg: "\<And>x. length (signData env x) = mySigLength env" "mySigLength env < 65536"
  defines "body \<equiv> vc_layout src nv ls epoch span (length cs) (complaints_size cs) es
      (signData env (vc_layout src nv ls epoch span (length cs) (complaints_size cs) es []) @ concat (map complaint_bytes cs))"
  shows "vc_finalizeMessage env m = Inr (m\<lparr>msgSize := length body, storageSize := length body, msgBody := body\<rparr>)"
proof -
  note f = layout_fields [OF l b]
  define A where "A = vc_layout src nv ls epoch span (length cs) (complaints_size cs) es []"
  have app: "vc_layout src nv ls epoch span (length cs) (complaints_size cs) es R = A @ R" for R by (simp add: A_def vc_layout_def)
  have lA: "length A = 44 + length span + elements_size es" using l by (simp add: A_def vc_layout_def layout_fits_def length_elements_bytes)
  let ?sz = "length A + mySigLength env + complaints_size cs"
  have B: "length body = ?sz" "body = A @ signData env A @ concat (map complaint_bytes cs)"
    using c sg by (simp_all add: body_def app length_complaints_bytes A_def [symmetric])
  have st: "storageSize m = ?sz + n" using s(1) b c by (simp add: app length_complaints_bytes)
  have tk: "take ?sz (msgBody m) = A @ replicate (mySigLength env) 0 @ concat (map complaint_bytes cs)"
    using c by (simp add: b app length_complaints_bytes)
  let ?m = "m\<lparr>msgSize := ?sz, storageSize := ?sz, msgBody := body\<rparr>"
  have k: "vc_checkElements (mySigLength env) ?m = Inr True" "vc_checkComplaints (mySigLength env) ?m = Inr True"
    using layout_checks [OF l c ok, of ?m "signData env A"] B st s(2) sg by (simp_all add: app)
  have w: "wr (length A) (signData env A) (A @ replicate (mySigLength env) 0 @ concat (map complaint_bytes cs)) = Inr body"
    unfolding B(2) by (rule wr_replace) (simp_all add: sg)
  have ne: "msgBody m \<noteq> []" using lA by (auto simp: b app)
  have le: "length A \<le> length (msgBody m)" by (simp add: b app)
  show ?thesis
    using o st s(2) sg(2) k w ne le
    by (simp add: vc_finalizeMessage_def f lA [symmetric] setMsgSize_def shrinkToFit_def tk rd_bytes_def Let_def B(1))
qed

lemma vc_validate_layout:
  assumes l: "layout_fits src nv ls epoch span (length cs) (complaints_size cs) es" and c: "list_all complaint_fits cs"
    and ok: "elements_ok ls nv ls es" "ls + kWorkWindow < 2 ^ 63" and m: "net_msg m" "msgSize m < 2 ^ 32"
    and b: "msgBody m = vc_layout src nv ls epoch span (length cs) (complaints_size cs) es (sig @ concat (map complaint_bytes cs))"
    and env: "u16 (sigLength env src) = length sig" "epoch = selfEpoch env"
      "verifySig env src (vc_layout src nv ls epoch span (length cs) (complaints_size cs) es []) sig"
    and ri: "isIdOfReplica ri src" "src \<noteq> myId ri"
  shows "ViewChangeMsg_validate env ri m = Inr ()"
proof -
  note f = layout_fields [OF l b]
  define A where "A = vc_layout src nv ls epoch span (length cs) (complaints_size cs) es []"
  have app: "msgBody m = A @ sig @ concat (map complaint_bytes cs)" by (simp add: b A_def vc_layout_def)
  have lA: "44 + length span + elements_size es = length A" using length_vc_layout [OF l, of _ _ "[]"] by (simp add: A_def)
  have sz: "msgSize m = length A + length sig + complaints_size cs" using m c by (simp add: net_msg_def app length_complaints_bytes)
  have sh: "shorter m 44 = Inr False" using sz lA by (simp add: shorter_def f)
  have k: "vc_checkElements (length sig) m = Inr True" "vc_checkComplaints (length sig) m = Inr True"
    using layout_checks [OF l c ok b] m by (simp_all add: net_msg_def)
  have r: "rd_bytes 0 (length A) (msgBody m) = Inr A" "rd_bytes (length A) (length sig) (msgBody m) = Inr sig" "verifySig env src A sig"
    using env(3) by (simp_all add: rd_bytes_def app) (simp add: A_def)
  show ?thesis
    using ri env(1,2) m(2) sz r by (simp add: ViewChangeMsg_validate_def sh f lA k Let_def)
qed

text \<open>
  C13. A view change message that a replica builds from its elements and complaints within the size limit is completed without a
  failed assertion; when its bytes arrive at another replica that knows the sender and accepts its signature, they pass the
  validation, and the elements read from them are the ones that were added.
\<close>

theorem view_change_round_trip:
  assumes es: "elements_ok ls nv ls es" "list_all element_fits es" and cs: "list_all complaint_fits cs" "length cs < 65536"
    and fits: "44 + length span + elements_size es + mySigLength env + complaints_size cs \<le> maxMessageSize env" "maxMessageSize env < 2 ^ 32"
    and rng: "src < 65536" "is_s64 nv" "is_s64 ls" "ls + kWorkWindow < 2 ^ 63" "selfEpoch env < 2 ^ 64"
    and sg: "\<And>x. length (signData env x) = mySigLength env" "mySigLength env < 65536"
    and peer: "selfEpoch env' = selfEpoch env" "sigLength env' src = mySigLength env" "\<And>x. verifySig env' src x (signData env x)"
      "isIdOfReplica ri src" "src \<noteq> myId ri"
  shows "\<exists>m1 m2 m m'. vc_addElements env es (ViewChangeMsg_new env src nv ls span) = Inr m1 \<and> vc_addComplaints env cs m1 = Inr m2 \<and>
    vc_finalizeMessage env m2 = Inr m \<and> onNewMessage (maxMessageSize env) j (msgBody m) = Some m' \<and>
    ViewChangeMsg_validate env' ri m' = Inr () \<and> vc_elements m' = Inr es"
proof -
  let ?mx = "maxMessageSize env" and ?ep = "selfEpoch env" and ?n0 = "maxMessageSize env - 44 - length span"
  let ?m0 = "ViewChangeMsg_new env src nv ls span"
  have "int (length es) \<le> kWorkWindow" using elements_ok_length [OF es(1)] by (simp add: kWorkWindow_def)
  then have k: "int (length es) \<le> kWorkWindow" "length es < 65536" by (simp_all add: kWorkWindow_def)
  have l: "layout_fits src nv ls ?ep span nc sc es" if "nc \<le> length cs" "sc \<le> complaints_size cs" for nc sc
    using that rng es(2) k fits cs(2) by (simp add: layout_fits_def)
  have b0: "msgBody ?m0 = vc_layout src nv ls ?ep span 0 0 [] (replicate ?n0 0)"
    by (simp add: ViewChangeMsg_new_def new_msg_def MessageBase_of_def vc_layout_def vc_head_def)
  have s0: "storageSize ?m0 = ?mx" "owner ?m0"
    using fits by (simp_all add: ViewChangeMsg_new_def new_msg_def MessageBase_of_def)
  let ?n1 = "?n0 - elements_size es"
  let ?m1 = "?m0\<lparr>msgBody := vc_layout src nv ls ?ep span 0 0 es (replicate ?n1 0)\<rparr>"
  have m1: "vc_addElements env es ?m0 = Inr ?m1"
    using vc_addElements_layout [of src nv ls ?ep span "[]" es ?m0 ?n0 env] l [of 0 0] b0 s0 elements_ok_seqNums [OF es(1)] rng k fits by simp
  let ?n2 = "?n1 - mySigLength env - complaints_size cs"
  let ?m2 = "?m1\<lparr>msgBody := vc_layout src nv ls ?ep span (length cs) (complaints_size cs) es
      (replicate (mySigLength env) 0 @ concat (map complaint_bytes cs) @ replicate ?n2 0)\<rparr>"
  have z: "replicate ?n1 0 = replicate (mySigLength env) 0 @ replicate (?n1 - mySigLength env) (0 :: 8 word)"
    using fits by (simp flip: replicate_add)
  have m2: "vc_addComplaints env cs ?m1 = Inr ?m2"
    using vc_addComplaints_layout [of src nv ls ?ep span "[]" cs es ?m1 env "?n1 - mySigLength env"] l [of "length cs" "complaints_size cs"]
      length_vc_layout [OF l [of 0 0]] z s0 fits cs by (simp add: complaints_size_def)
  let ?sig = "signData env (vc_layout src nv ls ?ep span (length cs) (complaints_size cs) es [])"
  let ?body = "vc_layout src nv ls ?ep span (length cs) (complaints_size cs) es (?sig @ concat (map complaint_bytes cs))"
  have m: "vc_finalizeMessage env ?m2 = Inr (?m2\<lparr>msgSize := length ?body, storageSize := length ?body, msgBody := ?body\<rparr>)"
    using l [of "length cs" "complaints_size cs"] cs es rng s0 sg fits
    by (intro vc_finalize_layout [of _ _ _ _ _ _ _ _ _ ?n2]) (simp_all add: length_vc_layout length_complaints_bytes)
  have len: "length ?body = 44 + length span + elements_size es + mySigLength env + complaints_size cs"
    using l [of "length cs" "complaints_size cs"] sg cs by (simp add: length_vc_layout length_complaints_bytes)
  then obtain m' where n: "onNewMessage ?mx j ?body = Some m'" using fits by (simp add: onNewMessage_def header_size_def)
  then have n': "net_msg m'" "msgBody m' = ?body" using onNewMessage_net by simp_all
  have "u16 (sigLength env' src) = length ?sig" using peer(2) sg by simp
  then have v: "ViewChangeMsg_validate env' ri m' = Inr ()"
    using l [of "length cs" "complaints_size cs"] cs es rng n' peer len fits
    by (intro vc_validate_layout [OF _ _ _ _ _ _ n'(2)]) (simp_all add: net_msg_def)
  have el: "vc_elements m' = Inr es" using vc_contents_elements [OF layout_contents [OF l n'(2) es(1)]] by simp
  show ?thesis by (intro exI conjI, rule m1, rule m2, rule m) (simp add: n, rule v, rule el)
qed

definition example_element :: "nat \<Rightarrow> bytes \<Rightarrow> VcElement" where
  "example_element x sig =
     \<lparr>vc_seqNum = 301, vc_digest = replicate 32 (of_nat x), vc_originView = 4,
      vc_cert = (if sig = [] then None else Some \<lparr>certificateView = 3, certificateSig = sig\<rparr>)\<rparr>"

lemma example_element_fits: "length sig < 65536 \<Longrightarrow> element_fits (example_element x sig)"
  by (simp add: example_element_def element_fits_def is_s64_def)

theorem view_change_round_trip_witness:
  "\<exists>m1 m2 m m'. vc_addElements example_env [example_element 7 [5, 6]] (ViewChangeMsg_new example_env 2 5 300 []) = Inr m1 \<and>
     vc_addComplaints example_env [MessageBase_of 1 (replicate 30 3) True] m1 = Inr m2 \<and> vc_finalizeMessage example_env m2 = Inr m \<and>
     onNewMessage 1000 2 (msgBody m) = Some m' \<and> ViewChangeMsg_validate example_env (example_ri 0) m' = Inr () \<and>
     vc_elements m' = Inr [example_element 7 [5, 6]]"
proof -
  have es: "elements_ok 300 5 300 [example_element 7 [5, 6]]" by (simp add: example_element_def kWorkWindow_def)
  have fs: "list_all element_fits [example_element 7 [5, 6]]" by (simp add: example_element_fits)
  have cs: "list_all complaint_fits [MessageBase_of 1 (replicate 30 3) True]" by (simp add: complaint_fits_def MessageBase_of_def)
  have sz: "elements_size [example_element 7 [5, 6]] = 61" "complaints_size [MessageBase_of 1 (replicate 30 3) True] = 34"
    by (simp_all add: elements_size_def element_size_def example_element_def complaints_size_def MessageBase_of_def)
  show ?thesis
    using view_change_round_trip [OF es fs cs, of "[]" example_env 2 example_env "example_ri 0" 2] sz
    by (simp add: example_env_def example_ri_def is_s64_def kWorkWindow_def isIdOfReplica_def)
qed

section \<open>Bounds\<close>

text \<open>
  C37. The length check of the validation adds the location after the last element and the length of the signature in 32 bits.
  A message whose location field makes the sum wrap passes it, and the check of the signature then reads far behind the message;
  the sender needs no valid signature for this.
\<close>

theorem view_change_length_wraps:
  assumes m: "onNewMessage mx j bs = Some m" and s: "44 + span_of m \<le> length bs" "length bs < 2 ^ 31"
    and gen: "isIdOfReplica ri (fld 6 2 bs)" "fld 6 2 bs \<noteq> myId ri" "fld 24 8 bs = selfEpoch env"
    and wraps: "2 ^ 32 \<le> fld 40 4 bs + u16 (sigLength env (fld 6 2 bs))" "sigLength env (fld 6 2 bs) \<le> length bs"
  shows "ViewChangeMsg_validate env ri m = Inl UndefinedBehaviour"
proof -
  have b: "msgBody m = bs" "net_msg m" "msgSize m = length bs" using onNewMessage_net [OF m] by (auto simp: net_msg_def)
  have s': "44 \<le> msgSize m" using s b by simp
  note h = vc_fields [OF b(2) s'] net_simps [OF b(2)]
  let ?L = "fld 40 4 bs" and ?sl = "u16 (sigLength env (fld 6 2 bs))"
  obtain k where k: "?sl = k" "k < 65536" by simp
  have L: "?L < 2 ^ 32" "2 ^ 32 - 65536 < ?L" "?L \<noteq> 0" using fld_less [of 40 4 bs] wraps(1) k by simp_all
  have "?sl \<le> sigLength env (fld 6 2 bs)" by (simp add: u16_def)
  moreover have "u32 (?L + ?sl) \<le> ?L + ?sl - 2 ^ 32" unfolding u32_def le_mod_geq [OF wraps(1)] by (rule mod_less_eq_dividend)
  ultimately have "u32 (?L + ?sl) \<le> length bs" using L(1) wraps(2) by simp
  moreover have "rd_bytes 0 ?L bs = Inl UndefinedBehaviour" using L(2) s(2) by (simp add: rd_bytes_def)
  moreover have "rd 24 8 bs = Inr (fld 24 8 bs)" using h(8) b by simp
  ultimately show ?thesis using gen s L(3) by (simp add: ViewChangeMsg_validate_def h b vc_getBodySize_def Let_def)
qed

definition wrapping_message :: bytes where
  "wrapping_message = vc_head 2 5 300 0 0 0 0 @ le_bytes 2 0 @ le_bytes 4 (2 ^ 32 - 1) @ [0, 0]"

theorem view_change_length_wraps_witness:
  "\<exists>m. onNewMessage 1000 2 wrapping_message = Some m \<and> ViewChangeMsg_validate example_env (example_ri 0) m = Inl UndefinedBehaviour"
proof -
  have len: "length wrapping_message = 46" by (simp add: wrapping_message_def)
  obtain m where m: "onNewMessage 1000 2 wrapping_message = Some m" by (simp add: onNewMessage_def header_size_def len)
  have f: "fld 2 4 wrapping_message = 0" "fld 6 2 wrapping_message = 2" "fld 24 8 wrapping_message = 0" "fld 40 4 wrapping_message = 2 ^ 32 - 1"
    by (simp_all add: wrapping_message_def vc_head_def header_bytes_def fld_simps)
  have "ViewChangeMsg_validate example_env (example_ri 0) m = Inl UndefinedBehaviour"
    using view_change_length_wraps [OF m, of "example_ri 0" example_env] onNewMessage_net [OF m] f len
    by (simp add: example_env_def example_ri_def isIdOfReplica_def)
  then show ?thesis using m by blast
qed

end
