(* ===== verification/View_Change_Safety.thy ===== *)
theory View_Change_Safety
  imports View_Change_Layout
begin

text \<open>
  bftengine/src/bftengine/ViewChangeSafetyLogic.{hpp,cpp}: how the view change messages of a quorum determine which pre-prepare
  digests the new view has to keep. An array of pointers to messages is a list of options; the verifier of prepare certificates
  for a sequence number is a parameter.
\<close>

section \<open>The lower bound of the stable sequence number\<close>

text \<open>The loop that collects the stable numbers; \<open>v\<close> is the view of the first message.\<close>

fun lb_loop :: "nat \<Rightarrow> MessageBase option list \<Rightarrow> ViewNum \<Rightarrow> SeqNum list \<Rightarrow> SeqNum list result" where
  "lb_loop inc [] v stableNumbers = Inr stableNumbers"
| "lb_loop inc (None # vcs) v stableNumbers = lb_loop inc vcs v stableNumbers"
| "lb_loop inc (Some vc # vcs) v stableNumbers =
     rbind (vc_newView vc) (\<lambda>nv. c_assert (stableNumbers = [] \<or> v = nv)
       (rbind (vc_lastStable vc) (\<lambda>ls.
         if length stableNumbers \<ge> inc then Inl UndefinedBehaviour
         else lb_loop inc vcs (if stableNumbers = [] then nv else v) (stableNumbers @ [ls]))))"

definition calcLBStableForView :: "nat \<Rightarrow> nat \<Rightarrow> MessageBase option list \<Rightarrow> SeqNum result" where
  "calcLBStableForView F C vcs =
     (let INC_IN_VC = u16 (2 * F + 2 * C + 1)
      in rbind (lb_loop INC_IN_VC vcs 0 []) (\<lambda>nums.
           c_assert (length nums = INC_IN_VC)
            (let stableNumbers = rev (sort nums)
             in c_assert (stableNumbers ! 0 \<ge> stableNumbers ! (length nums - 1)) (Inr (stableNumbers ! F)))))"

section \<open>Certificates of the slow path\<close>

text \<open>\<^verbatim>\<open>memcmp\<close> of two digests.\<close>

fun memcmp_less :: "bytes \<Rightarrow> bytes \<Rightarrow> bool" where
  "memcmp_less (x # xs) (y # ys) = (x < y \<or> x = y \<and> memcmp_less xs ys)"
| "memcmp_less _ _ = False"

definition slow_c :: "VcElement \<Rightarrow> PreparedCertificate result" where
  "slow_c e = (case vc_cert e of None \<Rightarrow> Inl AssertFailed | Some c \<Rightarrow> Inr c)"

definition slow_certificateSig :: "VcElement \<Rightarrow> bytes result" where
  "slow_certificateSig e = rbind (slow_c e) (\<lambda>c. c_assert (certificateSig c \<noteq> []) (Inr (certificateSig c)))"

definition SlowElemCompare :: "VcElement \<Rightarrow> VcElement \<Rightarrow> bool result" where
  "SlowElemCompare lhs rhs =
     rbind (slow_c lhs) (\<lambda>l. rbind (slow_c rhs) (\<lambda>r.
       if certificateView l \<noteq> certificateView r then Inr (certificateView l > certificateView r)
       else Inr (memcmp_less (vc_digest lhs) (vc_digest rhs))))"

text \<open>The insertion into a \<^verbatim>\<open>std::set\<close> with this order, as the ascending list of its elements.\<close>

fun slow_insert :: "VcElement \<Rightarrow> VcElement list \<Rightarrow> VcElement list result" where
  "slow_insert x [] = Inr [x]"
| "slow_insert x (y # ys) =
     rbind (SlowElemCompare x y) (\<lambda>lt. if lt then Inr (x # y # ys)
       else rbind (SlowElemCompare y x) (\<lambda>gt. if gt then rbind (slow_insert x ys) (\<lambda>zs. Inr (y # zs)) else Inr (y # ys)))"

fun checkSlowPathCertificates :: "VcElement option \<Rightarrow> VcElement list \<Rightarrow> bool result" where
  "checkSlowPathCertificates lastElement [] = Inr True"
| "checkSlowPathCertificates None (e # es) = checkSlowPathCertificates (Some e) es"
| "checkSlowPathCertificates (Some l) (e # es) =
     rbind (slow_c e) (\<lambda>c. rbind (slow_c l) (\<lambda>c'.
       if certificateView c > certificateView c' then Inr False
       else c_assert (certificateView c \<noteq> certificateView c' \<or> vc_seqNum e = vc_seqNum l)
         (checkSlowPathCertificates (Some e) es)))"

text \<open>The element of a live iterator at the sequence number \<open>s\<close>.\<close>

definition live_element :: "SeqNum \<Rightarrow> ElementsIterator \<Rightarrow> VcElement result" where
  "live_element s it =
     rbind (ei_getCurrent it) (\<lambda>p. case p of None \<Rightarrow> Inl AssertFailed | Some e \<Rightarrow> c_assert (vc_seqNum e \<ge> s) (Inr e))"

fun collect_slow :: "SeqNum \<Rightarrow> ElementsIterator list \<Rightarrow> VcElement list \<Rightarrow> VcElement list result" where
  "collect_slow s [] certs = Inr certs"
| "collect_slow s (it # its) certs =
     rbind (live_element s it) (\<lambda>e.
       if vc_seqNum e = s \<and> vc_cert e \<noteq> None then rbind (slow_insert e certs) (\<lambda>certs'. collect_slow s its certs')
       else collect_slow s its certs)"

fun select_slow :: "IThresholdVerifier \<Rightarrow> SeqNum \<Rightarrow> VcElement list \<Rightarrow> VcElement option result" where
  "select_slow vf s [] = Inr None"
| "select_slow vf s (slow # certs) =
     c_assert (s = vc_seqNum slow)
      (rbind (slow_c slow) (\<lambda>c. rbind (slow_certificateSig slow) (\<lambda>sig.
        rbind (tv_verify vf (calcCombination (digest_words (vc_digest slow)) (certificateView c) (vc_seqNum slow)) sig) (\<lambda>valid.
          if valid then Inr (Some slow) else select_slow vf s certs))))"

section \<open>Votes of the fast path\<close>

text \<open>The counters are an association list; the loop ends when a counter reaches the number of votes it needs.\<close>

fun count_fast :: "nat \<Rightarrow> SeqNum \<Rightarrow> ViewNum \<Rightarrow> ElementsIterator list \<Rightarrow> (bytes \<times> nat) list \<Rightarrow> VcElement option result" where
  "count_fast need s minRelevantFastView [] counters = Inr None"
| "count_fast need s minRelevantFastView (it # its) counters =
     rbind (live_element s it) (\<lambda>e.
       if vc_seqNum e = s \<and> vc_originView e \<ge> minRelevantFastView
       then (case map_of counters (vc_digest e) of
               None \<Rightarrow> count_fast need s minRelevantFastView its (AList.update (vc_digest e) 1 counters)
             | Some n \<Rightarrow> if n + 1 = need then Inr (Some e)
                         else count_fast need s minRelevantFastView its (AList.update (vc_digest e) (n + 1) counters))
       else count_fast need s minRelevantFastView its counters)"

section \<open>The restriction of a sequence number\<close>

text \<open>Advancing the iterators; one that has no element up to the upper bound is replaced by the last one.\<close>

function advance_iterators :: "SeqNum \<Rightarrow> SeqNum \<Rightarrow> nat \<Rightarrow> ElementsIterator list \<Rightarrow> ElementsIterator list result" where
  "advance_iterators s upperBound currentIdx its =
     (if currentIdx < length its
      then rbind (ei_getCurrent (its ! currentIdx)) (\<lambda>p. case p of
         None \<Rightarrow> Inl AssertFailed
       | Some e \<Rightarrow>
           if vc_seqNum e > s then advance_iterators s upperBound (currentIdx + 1) its
           else c_assert (vc_seqNum e = s)
            (rbind (ei_gotoNext (its ! currentIdx)) (\<lambda>it'. rbind (ei_getCurrent it') (\<lambda>p'.
               if (case p' of None \<Rightarrow> True | Some e' \<Rightarrow> vc_seqNum e' > upperBound)
               then advance_iterators s upperBound currentIdx (butlast (its[currentIdx := last its]))
               else advance_iterators s upperBound (currentIdx + 1) (its[currentIdx := it'])))))
      else Inr its)"
  by pat_completeness auto
termination by (relation "measure (\<lambda>(_, _, i, its). length its - i)") auto

declare advance_iterators.simps [simp del]

definition computeRestrictionsForSeqNum :: "IThresholdVerifier \<Rightarrow> nat \<Rightarrow> nat \<Rightarrow> SeqNum \<Rightarrow> SeqNum \<Rightarrow> ElementsIterator list \<Rightarrow>
    (bool \<times> bytes \<times> ElementsIterator list) result" where
  "computeRestrictionsForSeqNum vf F C s upperBound its =
     c_assert (its \<noteq> []) (c_assert (s \<le> upperBound)
      (rbind (collect_slow s its []) (\<lambda>certs.
        rbind (checkSlowPathCertificates None certs) (\<lambda>ok. c_assert ok
         (rbind (select_slow vf s certs) (\<lambda>selectedSlow.
           rbind (case selectedSlow of None \<Rightarrow> Inr 0 | Some e \<Rightarrow> rbind (slow_c e) (\<lambda>c. Inr (certificateView c + 1))) (\<lambda>minRelevantFastView.
             rbind (count_fast (u16 (F + C + 1)) s minRelevantFastView its []) (\<lambda>selectedFast.
               rbind (advance_iterators s upperBound 0 its) (\<lambda>its'.
                 Inr (case (selectedFast, selectedSlow) of
                        (Some e, _) \<Rightarrow> (True, vc_digest e, its')
                      | (None, Some e) \<Rightarrow> (True, vc_digest e, its')
                      | (None, None) \<Rightarrow> (False, replicate 32 0, its')))))))))))"

section \<open>The restrictions of a view\<close>

record Restriction =
  isNull :: bool
  r_digest :: bytes

fun make_iterators :: "SeqNum \<Rightarrow> MessageBase option list \<Rightarrow> ElementsIterator list result" where
  "make_iterators lowerBound [] = Inr []"
| "make_iterators lowerBound (None # vcs) = make_iterators lowerBound vcs"
| "make_iterators lowerBound (Some vc # vcs) =
     rbind (vc_numberOfElements vc) (\<lambda>n.
       if n = 0 then make_iterators lowerBound vcs
       else rbind (ElementsIterator_new (Some vc)) (\<lambda>it. rbind (ei_goToAtLeast lowerBound it) (\<lambda>(_, it').
         rbind (ei_end it') (\<lambda>e. if e then make_iterators lowerBound vcs
           else rbind (make_iterators lowerBound vcs) (\<lambda>its. Inr (it' # its))))))"

text \<open>
  The two loops over the sequence numbers from \<open>currSeqNum\<close> on, of which \<open>k\<close> are left: they fill the array from index
  \<open>i\<close> on and return the last restricted number.
\<close>

fun restrict_loop :: "(SeqNum \<Rightarrow> IThresholdVerifier) \<Rightarrow> nat \<Rightarrow> nat \<Rightarrow> bytes \<Rightarrow> SeqNum \<Rightarrow> nat \<Rightarrow> SeqNum \<Rightarrow> nat \<Rightarrow> ElementsIterator list \<Rightarrow>
    SeqNum \<Rightarrow> Restriction list \<Rightarrow> (SeqNum \<times> Restriction list) result" where
  "restrict_loop vf F C nullDigest upperBound 0 currSeqNum i its lastNum arr = Inr (lastNum, arr)"
| "restrict_loop vf F C nullDigest upperBound (Suc k) currSeqNum i its lastNum arr =
     (if i \<ge> length arr then Inl UndefinedBehaviour
      else if its = []
      then restrict_loop vf F C nullDigest upperBound k (currSeqNum + 1) (i + 1) its lastNum (arr[i := (arr ! i)\<lparr>isNull := True\<rparr>])
      else rbind (computeRestrictionsForSeqNum (vf currSeqNum) F C currSeqNum upperBound its) (\<lambda>(hasRest, d, its').
        if hasRest \<and> d \<noteq> nullDigest
        then restrict_loop vf F C nullDigest upperBound k (currSeqNum + 1) (i + 1) its' currSeqNum (arr[i := \<lparr>isNull = False, r_digest = d\<rparr>])
        else restrict_loop vf F C nullDigest upperBound k (currSeqNum + 1) (i + 1) its' lastNum (arr[i := \<lparr>isNull = True, r_digest = d\<rparr>])))"

definition computeRestrictions :: "(SeqNum \<Rightarrow> IThresholdVerifier) \<Rightarrow> nat \<Rightarrow> nat \<Rightarrow> bytes \<Rightarrow> MessageBase option list \<Rightarrow> SeqNum \<Rightarrow>
    Restriction list \<Rightarrow> (SeqNum \<times> SeqNum \<times> Restriction list) result" where
  "computeRestrictions vf F C nullDigest vcs inLBStableForView arr =
     rbind (s64_plus inLBStableForView kWorkWindow) (\<lambda>upperBound.
       let lowerBound = inLBStableForView + 1
       in rbind (make_iterators lowerBound vcs) (\<lambda>its.
            rbind (restrict_loop vf F C nullDigest upperBound (nat kWorkWindow) lowerBound 0 its 0 arr) (\<lambda>(lastNum, arr').
              if its = [] then Inr (0, 0, arr')
              else Inr (lowerBound,
                        if lastNum > 0 \<and> lastNum \<le> upperBound - checkpointWindow then upperBound - checkpointWindow else upperBound,
                        arr'))))"

section \<open>The restriction as a function of the votes\<close>

text \<open>
  The elements for a sequence number, one for each message that has one, are the votes. On votes with certificates the loops
  above compute the following functions, which neither fail nor iterate.
\<close>

definition cert_view :: "VcElement \<Rightarrow> ViewNum" where
  "cert_view e = certificateView (the (vc_cert e))"

definition kless :: "VcElement \<Rightarrow> VcElement \<Rightarrow> bool" where
  "kless x y \<longleftrightarrow> cert_view x > cert_view y \<or> cert_view x = cert_view y \<and> memcmp_less (vc_digest x) (vc_digest y)"

definition same_key :: "VcElement \<Rightarrow> VcElement \<Rightarrow> bool" where
  "same_key x y \<longleftrightarrow> cert_view x = cert_view y \<and> vc_digest x = vc_digest y"

fun kinsert :: "VcElement \<Rightarrow> VcElement list \<Rightarrow> VcElement list" where
  "kinsert x [] = [x]"
| "kinsert x (y # ys) = (if kless x y then x # y # ys else if kless y x then y # kinsert x ys else y # ys)"

definition has_cert :: "VcElement \<Rightarrow> bool" where
  "has_cert e \<longleftrightarrow> vc_cert e \<noteq> None"

definition cert_set :: "VcElement list \<Rightarrow> VcElement list" where
  "cert_set vs = fold kinsert (filter has_cert vs) []"

definition best_slow :: "(VcElement \<Rightarrow> bool) \<Rightarrow> VcElement list \<Rightarrow> VcElement option" where
  "best_slow ok vs = find ok (cert_set vs)"

fun tally :: "nat \<Rightarrow> VcElement list \<Rightarrow> (bytes \<times> nat) list \<Rightarrow> VcElement option" where
  "tally need [] counters = None"
| "tally need (e # es) counters =
     (case map_of counters (vc_digest e) of
        None \<Rightarrow> tally need es (AList.update (vc_digest e) 1 counters)
      | Some n \<Rightarrow> if n + 1 = need then Some e else tally need es (AList.update (vc_digest e) (n + 1) counters))"

definition min_fast :: "VcElement option \<Rightarrow> ViewNum" where
  "min_fast slow = (case slow of None \<Rightarrow> 0 | Some e \<Rightarrow> cert_view e + 1)"

definition outcome :: "(VcElement \<Rightarrow> bool) \<Rightarrow> nat \<Rightarrow> VcElement list \<Rightarrow> bytes option" where
  "outcome ok need vs =
     (let slow = best_slow ok vs
      in case tally need (filter (\<lambda>e. vc_originView e \<ge> min_fast slow) vs) [] of
           Some e \<Rightarrow> Some (vc_digest e)
         | None \<Rightarrow> map_option vc_digest slow)"

subsection \<open>Certificates\<close>

lemma memcmp_irrefl: "\<not> memcmp_less xs xs"
  by (induction xs) auto

lemma memcmp_trans: "memcmp_less xs ys \<Longrightarrow> memcmp_less ys zs \<Longrightarrow> memcmp_less xs zs"
proof (induction xs ys arbitrary: zs rule: memcmp_less.induct)
  case (1 x xs y ys)
  then show ?case by (cases zs) auto
qed auto

lemma memcmp_total: "length xs = length ys \<Longrightarrow> \<not> memcmp_less xs ys \<Longrightarrow> \<not> memcmp_less ys xs \<Longrightarrow> xs = ys"
  by (induction xs ys rule: list_induct2) auto

lemma kless_trans: "kless x y \<Longrightarrow> kless y z \<Longrightarrow> kless x z"
  by (auto simp: kless_def intro: memcmp_trans)

lemma kless_total: "length (vc_digest x) = length (vc_digest y) \<Longrightarrow> \<not> kless x y \<Longrightarrow> \<not> kless y x \<Longrightarrow> same_key x y"
  by (auto simp: kless_def same_key_def dest: memcmp_total)

lemma kless_same_key: "same_key x y \<Longrightarrow> kless x z = kless y z \<and> kless z x = kless z y"
  by (simp add: kless_def same_key_def)

lemma kless_irrefl: "\<not> kless x x"
  by (simp add: kless_def memcmp_irrefl)

lemma set_kinsert: "set (kinsert x ys) \<subseteq> insert x (set ys)" "set ys \<subseteq> set (kinsert x ys)"
  by (induction ys) auto

lemma sorted_kinsert: "sorted_wrt kless ys \<Longrightarrow> sorted_wrt kless (kinsert x ys)"
proof (induction ys)
  case (Cons y ys)
  then show ?case using set_kinsert(1) [of x ys] by (auto intro: kless_trans)
qed simp

lemma kinsert_key:
  "\<forall>y \<in> set ys. length (vc_digest y) = length (vc_digest x) \<Longrightarrow> \<exists>z \<in> set (kinsert x ys). same_key z x"
proof (induction ys)
  case (Cons y ys)
  then show ?case using kless_total [of y x] by (auto simp: same_key_def)
qed (simp add: same_key_def)

lemma kinsert_new:
  assumes "sorted_wrt kless ys" "z \<in> set (kinsert x ys)" "z \<notin> set ys"
  shows "z = x \<and> (\<forall>y \<in> set ys. \<not> same_key y x)"
  using assms
proof (induction ys)
  case (Cons y ys)
  consider "kless x y" | "\<not> kless x y" "kless y x" using Cons.prems by (auto split: if_splits)
  then show ?case
  proof cases
    case 1
    then have "z = x" using Cons.prems by auto
    moreover have "kless x u" if "u \<in> set (y # ys)" for u using that 1 Cons.prems(1) by (auto intro: kless_trans)
    ultimately show ?thesis using kless_irrefl kless_same_key by blast
  next
    case 2
    then have "z = x \<and> (\<forall>u \<in> set ys. \<not> same_key u x)" using Cons by auto
    moreover have "\<not> same_key y x" using 2 kless_irrefl kless_same_key by blast
    ultimately show ?thesis by simp
  qed
qed auto

text \<open>What the set contains: the first of the certificates for each view and digest.\<close>

definition first_of_key :: "VcElement list \<Rightarrow> VcElement \<Rightarrow> bool" where
  "first_of_key vs z \<longleftrightarrow> (\<exists>p q. vs = p @ z # q \<and> (\<forall>y \<in> set p. \<not> same_key y z))"

definition digests32 :: "VcElement list \<Rightarrow> bool" where
  "digests32 vs \<longleftrightarrow> (\<forall>e \<in> set vs. length (vc_digest e) = 32)"

lemma first_of_key_snoc: "first_of_key vs z \<Longrightarrow> first_of_key (vs @ [x]) z"
  by (fastforce simp: first_of_key_def)

lemma first_of_key_member: "first_of_key vs z \<Longrightarrow> z \<in> set vs"
  by (auto simp: first_of_key_def)

lemma cert_fold:
  assumes "digests32 vs"
  shows "sorted_wrt kless (fold kinsert vs []) \<and> (\<forall>z \<in> set (fold kinsert vs []). first_of_key vs z) \<and>
    (\<forall>x \<in> set vs. \<exists>z \<in> set (fold kinsert vs []). same_key z x)"
  using assms
proof (induction vs rule: rev_induct)
  case (snoc v vs)
  let ?S = "fold kinsert vs []"
  have d: "digests32 vs" "length (vc_digest v) = 32" using snoc.prems by (auto simp: digests32_def)
  note IH = snoc.IH [OF d(1)]
  have l: "\<forall>y \<in> set ?S. length (vc_digest y) = length (vc_digest v)"
    using IH d by (fastforce simp: digests32_def first_of_key_def)
  have "first_of_key (vs @ [v]) z" if "z \<in> set (kinsert v ?S)" for z
  proof (cases "z \<in> set ?S")
    case True
    then show ?thesis using IH by (auto intro: first_of_key_snoc)
  next
    case False
    then have n: "z = v" "\<forall>y \<in> set ?S. \<not> same_key y v" using kinsert_new [OF _ that] IH by auto
    then have "\<forall>y \<in> set vs. \<not> same_key y v" using IH by (fastforce simp: same_key_def)
    then show ?thesis using n(1) by (auto simp: first_of_key_def)
  qed
  moreover have "\<exists>z \<in> set (kinsert v ?S). same_key z x" if "x \<in> set vs" for x
    using IH that set_kinsert(2) [of ?S v] by blast
  ultimately show ?case using IH kinsert_key [OF l] by (simp add: sorted_kinsert)
qed simp

lemma cert_set_props:
  assumes "digests32 vs"
  shows "sorted_wrt kless (cert_set vs)"
    "z \<in> set (cert_set vs) \<Longrightarrow> first_of_key (filter has_cert vs) z"
    "x \<in> set vs \<Longrightarrow> has_cert x \<Longrightarrow> \<exists>z \<in> set (cert_set vs). same_key z x"
  using cert_fold [of "filter has_cert vs"] assms by (auto simp: cert_set_def digests32_def)

lemma cert_set_member: "digests32 vs \<Longrightarrow> z \<in> set (cert_set vs) \<Longrightarrow> z \<in> set vs \<and> has_cert z"
  using first_of_key_member [OF cert_set_props(2) [of vs z]] by simp

text \<open>The selected certificate is valid and has the highest view of the valid ones in the set.\<close>

lemma find_sorted:
  "sorted_wrt kless xs \<Longrightarrow> find P xs = Some e \<Longrightarrow> e \<in> set xs \<and> P e \<and> (\<forall>z \<in> set xs. P z \<longrightarrow> cert_view z \<le> cert_view e)"
  by (induction xs) (auto simp: kless_def split: if_splits)

lemma best_slow_Some:
  assumes "digests32 vs" "best_slow ok vs = Some e"
  shows "e \<in> set vs" "has_cert e" "ok e" "\<And>z. z \<in> set (cert_set vs) \<Longrightarrow> ok z \<Longrightarrow> cert_view z \<le> cert_view e"
  using find_sorted [OF cert_set_props(1) [OF assms(1)] assms(2) [unfolded best_slow_def]] cert_set_member [OF assms(1)] by auto

lemma best_slow_None: "best_slow ok vs = None \<longleftrightarrow> (\<forall>z \<in> set (cert_set vs). \<not> ok z)"
  by (auto simp: best_slow_def find_None_iff)

subsection \<open>Votes\<close>

definition votes_for :: "bytes \<Rightarrow> VcElement list \<Rightarrow> nat" where
  "votes_for d vs = length (filter (\<lambda>e. vc_digest e = d) vs)"

lemma votes_for_simps [simp]:
  "votes_for d [] = 0"
  "votes_for d (e # es) = (if vc_digest e = d then 1 else 0) + votes_for d es"
  by (simp_all add: votes_for_def)

lemma tally_counts:
  assumes "\<forall>d. map_of cs d = (if c d = 0 then None else Some (c d))" "\<forall>d. c d < need" "2 \<le> need"
  shows "case tally need es cs of None \<Rightarrow> \<forall>d. c d + votes_for d es < need
         | Some e \<Rightarrow> e \<in> set es \<and> need \<le> c (vc_digest e) + votes_for (vc_digest e) es"
  using assms
proof (induction es arbitrary: cs c)
  case (Cons e es)
  let ?c = "c(vc_digest e := c (vc_digest e) + 1)"
  have up: "\<forall>d. map_of (AList.update (vc_digest e) (c (vc_digest e) + 1) cs) d = (if ?c d = 0 then None else Some (?c d))"
    using Cons.prems(1) by (simp add: update_conv')
  show ?case
  proof (cases "c (vc_digest e) + 1 = need")
    case True
    then have "map_of cs (vc_digest e) = Some (c (vc_digest e))" using Cons.prems by auto
    then show ?thesis using True by simp
  next
    case False
    then have s: "tally need (e # es) cs = tally need es (AList.update (vc_digest e) (c (vc_digest e) + 1) cs)"
      using Cons.prems(1) by (cases "c (vc_digest e) = 0") auto
    have lt: "\<forall>d. ?c d < need"
    proof
      fix d
      show "?c d < need" using Cons.prems(2) [rule_format, of d] False by (cases "d = vc_digest e") simp_all
    qed
    have eq: "c d + votes_for d (e # es) = ?c d + votes_for d es" for d by simp
    show ?thesis
      using Cons.IH [OF up lt Cons.prems(3)] unfolding s eq
      by (cases "tally need es (AList.update (vc_digest e) (c (vc_digest e) + 1) cs)") simp_all
  qed
qed simp

lemma tally_Some: "2 \<le> need \<Longrightarrow> tally need es [] = Some e \<Longrightarrow> e \<in> set es \<and> need \<le> votes_for (vc_digest e) es"
  using tally_counts [of "[]" "\<lambda>_. 0" need es] by simp

lemma tally_None: "2 \<le> need \<Longrightarrow> tally need es [] = None \<Longrightarrow> votes_for d es < need"
  using tally_counts [of "[]" "\<lambda>_. 0" need es] by simp

lemma length_filter_mono: "(\<And>x. P x \<Longrightarrow> Q x) \<Longrightarrow> length (filter P xs) \<le> length (filter Q xs)"
  by (induction xs) auto

lemma votes_for_disjoint: "d \<noteq> d' \<Longrightarrow> votes_for d es + votes_for d' es \<le> length es"
  by (induction es) auto

lemma votes_for_filter: "votes_for d (filter P es) = length (filter (\<lambda>e. P e \<and> vc_digest e = d) es)"
  by (simp add: votes_for_def conj_commute)

subsection \<open>The outcome\<close>

lemma outcome_sound:
  assumes "digests32 vs" "2 \<le> need" "outcome ok need vs = Some d"
  shows "(\<exists>e \<in> set vs. has_cert e \<and> ok e \<and> vc_digest e = d) \<or> need \<le> votes_for d vs"
proof (cases "tally need (filter (\<lambda>e. vc_originView e \<ge> min_fast (best_slow ok vs)) vs) []")
  case None
  then obtain e where "best_slow ok vs = Some e" "vc_digest e = d" using assms(3) by (auto simp: outcome_def Let_def)
  then show ?thesis using best_slow_Some(1-3) [OF assms(1)] by blast
next
  case (Some e)
  have "votes_for d (filter P vs) \<le> votes_for d vs" for P unfolding votes_for_def by (induction vs) auto
  then show ?thesis using tally_Some [OF assms(2) Some] Some assms(3) by (fastforce simp: outcome_def intro: order_trans)
qed

lemma outcome_hidden:
  assumes "digests32 vs" "2 \<le> need" and c: "filter has_cert vs = e0 # es" "\<not> ok e0" "\<forall>z \<in> set es. same_key z e0"
    and v: "\<And>d. votes_for d vs < need"
  shows "outcome ok need vs = None"
proof -
  have "z = e0" if m: "z \<in> set (cert_set vs)" for z
  proof -
    obtain p q where "e0 # es = p @ z # q" "\<forall>y \<in> set p. \<not> same_key y z"
      using cert_set_props(2) [OF assms(1) m] c(1) by (auto simp: first_of_key_def)
    then show ?thesis using c(3) by (cases p) (auto simp: same_key_def)
  qed
  then have s: "best_slow ok vs = None" using c(2) by (auto simp: best_slow_None)
  have "votes_for d (filter P vs) \<le> votes_for d vs" for P d unfolding votes_for_def by (induction vs) auto
  then have "tally need (filter (\<lambda>e. vc_originView e \<ge> min_fast None) vs) [] = None"
    using tally_Some [OF assms(2)] v by (metis not_None_eq leD order_trans)
  then show ?thesis using s by (simp add: outcome_def)
qed

lemma outcome_safe:
  assumes d32: "digests32 vs" and n: "1 \<le> F + C" "length vs \<le> 2 * F + 2 * C + 1" and v: "0 \<le> v"
    and later: "length (filter (\<lambda>e. v < vc_originView e \<and> vc_digest e \<noteq> d) vs) \<le> F"
    and certs: "\<And>e. e \<in> set vs \<Longrightarrow> has_cert e \<Longrightarrow> ok e \<Longrightarrow> v \<le> cert_view e \<Longrightarrow> vc_digest e = d"
    and committed: "(\<exists>e \<in> set vs. has_cert e \<and> v \<le> cert_view e \<and> (\<forall>z \<in> set vs. has_cert z \<and> same_key z e \<longrightarrow> ok z)) \<or>
      F + C + 1 \<le> length (filter (\<lambda>e. v \<le> vc_originView e \<and> vc_digest e = d) vs)"
  shows "outcome ok (F + C + 1) vs = Some d"
proof -
  let ?slow = "best_slow ok vs"
  let ?T = "tally (F + C + 1) (filter (\<lambda>e. vc_originView e \<ge> min_fast ?slow) vs) []"
  have need: "2 \<le> F + C + 1" using n by simp
  show ?thesis
  proof (cases "\<exists>e. ?slow = Some e \<and> v \<le> cert_view e")
    case True
    then obtain e where e: "?slow = Some e" "v \<le> cert_view e" by blast
    then have d: "vc_digest e = d" using best_slow_Some [OF d32 e(1)] certs by blast
    have "vc_digest e' = d" if "?T = Some e'" for e'
    proof (rule ccontr)
      assume nd: "vc_digest e' \<noteq> d"
      have "F + C + 1 \<le> length (filter (\<lambda>x. vc_originView x \<ge> cert_view e + 1 \<and> vc_digest x = vc_digest e') vs)"
        using tally_Some [OF need that] by (simp add: votes_for_filter e min_fast_def)
      also have "\<dots> \<le> length (filter (\<lambda>x. v < vc_originView x \<and> vc_digest x \<noteq> d) vs)"
        using e(2) nd by (intro length_filter_mono) auto
      finally show False using later by simp
    qed
    then show ?thesis using e d by (cases ?T) (simp_all add: outcome_def Let_def)
  next
    case False
    have low: "min_fast ?slow \<le> v" using False v by (auto simp: min_fast_def split: option.splits)
    have "\<not> (\<exists>e \<in> set vs. has_cert e \<and> v \<le> cert_view e \<and> (\<forall>z \<in> set vs. has_cert z \<and> same_key z e \<longrightarrow> ok z))"
    proof
      assume "\<exists>e \<in> set vs. has_cert e \<and> v \<le> cert_view e \<and> (\<forall>z \<in> set vs. has_cert z \<and> same_key z e \<longrightarrow> ok z)"
      then obtain e where e: "e \<in> set vs" "has_cert e" "v \<le> cert_view e" "\<forall>z \<in> set vs. has_cert z \<and> same_key z e \<longrightarrow> ok z" by blast
      obtain z where z: "z \<in> set (cert_set vs)" "same_key z e" using cert_set_props(3) [OF d32 e(1,2)] by blast
      then have "ok z" using e(4) cert_set_member [OF d32] by blast
      then obtain b where "?slow = Some b" using z(1) best_slow_None [of ok vs] by auto
      then have "cert_view z \<le> cert_view b" using best_slow_Some(4) [OF d32] z(1) \<open>ok z\<close> by blast
      then show False using False \<open>?slow = Some b\<close> e(3) z(2) by (auto simp: same_key_def)
    qed
    then have "F + C + 1 \<le> length (filter (\<lambda>e. v \<le> vc_originView e \<and> vc_digest e = d) vs)" using committed by blast
    also have "\<dots> \<le> length (filter (\<lambda>e. vc_originView e \<ge> min_fast ?slow \<and> vc_digest e = d) vs)"
      using low by (intro length_filter_mono) auto
    finally have dv: "F + C + 1 \<le> votes_for d (filter (\<lambda>e. vc_originView e \<ge> min_fast ?slow) vs)" by (simp add: votes_for_filter)
    then have "?T \<noteq> None" using tally_None [OF need] by (meson leD)
    then obtain e' where e': "?T = Some e'" by blast
    have "vc_digest e' = d"
    proof (rule ccontr)
      assume "vc_digest e' \<noteq> d"
      from votes_for_disjoint [OF this] have "votes_for (vc_digest e') (filter (\<lambda>e. vc_originView e \<ge> min_fast ?slow) vs) + (F + C + 1) \<le> length vs"
        using dv length_filter_le [of "\<lambda>e. vc_originView e \<ge> min_fast ?slow" vs] by (meson add_mono le_refl order_trans)
      then show False using tally_Some [OF need e'] n by simp
    qed
    then show ?thesis using e' by (simp add: outcome_def)
  qed
qed

end
