(* ===== verification/View_Restrictions.thy ===== *)
theory View_Restrictions
  imports View_Change_Safety
begin

text \<open>
  The restrictions that ViewChangeSafetyLogic computes from well-formed view change messages are the outcomes of the votes in
  them. From this follows what a new view has to keep, and what it may lose.
\<close>

section \<open>From iterators to votes\<close>

definition cert_check :: "IThresholdVerifier \<Rightarrow> SeqNum \<Rightarrow> VcElement \<Rightarrow> bool result" where
  "cert_check vf s e = tv_verify vf (calcCombination (digest_words (vc_digest e)) (cert_view e) s) (certificateSig (the (vc_cert e)))"

definition cert_ok :: "IThresholdVerifier \<Rightarrow> SeqNum \<Rightarrow> VcElement \<Rightarrow> bool" where
  "cert_ok vf s e \<longleftrightarrow> cert_check vf s e = Inr True"

definition checkable :: "IThresholdVerifier \<Rightarrow> SeqNum \<Rightarrow> VcElement \<Rightarrow> bool" where
  "checkable vf s e \<longleftrightarrow> has_cert e \<longrightarrow> certificateSig (the (vc_cert e)) \<noteq> [] \<and> (\<exists>b. cert_check vf s e = Inr b)"

text \<open>The elements that live iterators have still to return, and the votes for the current sequence number.\<close>

definition live :: "SeqNum \<Rightarrow> VcElement list \<Rightarrow> bool" where
  "live s es \<longleftrightarrow> es \<noteq> [] \<and> sorted_wrt (<) (map vc_seqNum es) \<and> s \<le> vc_seqNum (hd es)"

definition head_votes :: "SeqNum \<Rightarrow> VcElement list list \<Rightarrow> VcElement list" where
  "head_votes s ess = filter (\<lambda>e. vc_seqNum e = s) (map hd ess)"

lemma head_votes_simps [simp]:
  "head_votes s [] = []"
  "head_votes s (es # ess) = (if vc_seqNum (hd es) = s then [hd es] else []) @ head_votes s ess"
  by (simp_all add: head_votes_def)

lemma head_votes_seq: "e \<in> set (head_votes s ess) \<Longrightarrow> vc_seqNum e = s"
  by (auto simp: head_votes_def)

lemma live_element_iterates: "iterates it es \<Longrightarrow> live s es \<Longrightarrow> live_element s it = Inr (hd es)"
  by (cases es) (simp_all add: live_element_def iterates_getCurrent live_def)

lemma slow_c_has_cert: "has_cert e \<Longrightarrow> slow_c e = Inr (the (vc_cert e))"
  by (auto simp: slow_c_def has_cert_def)

lemma SlowElemCompare_kless: "has_cert x \<Longrightarrow> has_cert y \<Longrightarrow> SlowElemCompare x y = Inr (kless x y)"
  by (auto simp: SlowElemCompare_def slow_c_has_cert kless_def cert_view_def)

lemma slow_insert_kinsert: "has_cert x \<Longrightarrow> \<forall>y \<in> set ys. has_cert y \<Longrightarrow> slow_insert x ys = Inr (kinsert x ys)"
  by (induction ys) (simp_all add: SlowElemCompare_kless)

lemma collect_slow_votes:
  assumes "list_all2 iterates its ess" "\<forall>es \<in> set ess. live s es" "\<forall>y \<in> set certs. has_cert y"
  shows "collect_slow s its certs = Inr (fold kinsert (filter has_cert (head_votes s ess)) certs)"
  using assms
proof (induction arbitrary: certs rule: list_all2_induct)
  case (Cons it its es ess)
  have "live_element s it = Inr (hd es)" using live_element_iterates Cons by simp
  moreover have "\<forall>y \<in> set (kinsert (hd es) certs). has_cert y" if "has_cert (hd es)"
    using that Cons.prems set_kinsert(1) [of "hd es" certs] by auto
  ultimately show ?case using Cons slow_insert_kinsert [of "hd es" certs] by (auto simp: has_cert_def)
qed simp

lemma kless_view: "kless x y \<Longrightarrow> cert_view y \<le> cert_view x"
  by (auto simp: kless_def)

lemma checkSlow_sorted:
  "sorted_wrt kless certs \<Longrightarrow> \<forall>e \<in> set certs. has_cert e \<and> vc_seqNum e = s \<Longrightarrow>
   case l of None \<Rightarrow> True | Some e \<Rightarrow> has_cert e \<and> vc_seqNum e = s \<and> (\<forall>z \<in> set certs. cert_view z \<le> cert_view e) \<Longrightarrow>
   checkSlowPathCertificates l certs = Inr True"
proof (induction l certs rule: checkSlowPathCertificates.induct)
  case (2 e es)
  moreover have "\<forall>z \<in> set es. cert_view z \<le> cert_view e" using 2(2) by (auto dest: kless_view)
  ultimately show ?case by simp
next
  case (3 l e es)
  have "\<forall>z \<in> set es. cert_view z \<le> cert_view e" using 3(2) by (auto dest: kless_view)
  then have "checkSlowPathCertificates (Some e) es = Inr True" using 3 by (simp add: slow_c_has_cert cert_view_def [symmetric] del: not_less)
  then show ?case using 3(3,4) by (simp add: slow_c_has_cert flip: cert_view_def)
qed simp

lemma select_slow_find:
  "\<forall>e \<in> set certs. has_cert e \<and> vc_seqNum e = s \<and> checkable vf s e \<Longrightarrow> select_slow vf s certs = Inr (find (cert_ok vf s) certs)"
proof (induction certs)
  case (Cons e certs)
  then obtain b where "cert_check vf s e = Inr b" "certificateSig (the (vc_cert e)) \<noteq> []" "has_cert e" "vc_seqNum e = s"
    by (auto simp: checkable_def)
  then show ?case using Cons by (simp add: slow_c_has_cert slow_certificateSig_def cert_ok_def cert_check_def cert_view_def)
qed simp

lemma count_fast_tally:
  assumes "list_all2 iterates its ess" "\<forall>es \<in> set ess. live s es"
  shows "count_fast need s mn its counters = Inr (tally need (filter (\<lambda>e. vc_originView e \<ge> mn) (head_votes s ess)) counters)"
  using assms
proof (induction arbitrary: counters rule: list_all2_induct)
  case (Cons it its es ess)
  have "live_element s it = Inr (hd es)" using live_element_iterates Cons by simp
  then show ?case using Cons by (auto split: option.splits)
qed simp

section \<open>Advancing\<close>

definition advanced :: "SeqNum \<Rightarrow> SeqNum \<Rightarrow> VcElement list \<Rightarrow> VcElement list list" where
  "advanced s ub es =
     (if vc_seqNum (hd es) = s then (if tl es = [] \<or> ub < vc_seqNum (hd (tl es)) then [] else [tl es]) else [es])"

lemma replace_by_last:
  assumes "i < length xs"
  shows "take i (butlast (xs[i := last xs])) = take i xs" "mset (drop i (butlast (xs[i := last xs]))) = mset (drop (Suc i) xs)"
proof -
  obtain p x q where xs: "xs = p @ x # q" "length p = i" using id_take_nth_drop [OF assms] assms by (metis length_take min.absorb4)
  show "take i (butlast (xs[i := last xs])) = take i xs" "mset (drop i (butlast (xs[i := last xs]))) = mset (drop (Suc i) xs)"
    using xs by (cases q rule: rev_cases; simp add: list_update_append butlast_append)+
qed

lemma mset_concat_map: "mset xs = mset ys \<Longrightarrow> mset (concat (map f xs)) = mset (concat (map f ys))"
  unfolding mset_concat sum_mset_sum_list [symmetric] by simp

lemma advance_iterators_votes:
  assumes "list_all2 iterates its ess" "\<forall>es \<in> set (drop i ess). live s es"
  shows "\<exists>its' ess'. advance_iterators s ub i its = Inr its' \<and> list_all2 iterates its' ess' \<and>
    mset ess' = mset (take i ess) + mset (concat (map (advanced s ub) (drop i ess)))"
  using assms
proof (induction s ub i its arbitrary: ess rule: advance_iterators.induct)
  case (1 s ub i its)
  have len: "length its = length ess" using 1(4) by (rule list_all2_lengthD)
  show ?case
  proof (cases "i < length its")
    case False
    then show ?thesis using 1(4) len by (intro exI [of _ its] exI [of _ ess]) (simp add: advance_iterators.simps)
  next
    case True
    have dr: "drop i ess = ess ! i # drop (Suc i) ess" using True len by (simp add: Cons_nth_drop_Suc)
    then have lv: "live s (ess ! i)" "\<forall>es \<in> set (drop (Suc i) ess). live s es" using 1(5) by simp_all
    obtain e es where e: "ess ! i = e # es" using lv(1) by (cases "ess ! i") (auto simp: live_def)
    have it: "iterates (its ! i) (e # es)" using 1(4) True e by (metis list_all2_nthD)
    have cur: "ei_getCurrent (its ! i) = Inr (Some e)" using iterates_getCurrent [OF it] by simp
    have tk: "take (Suc i) ess = take i ess @ [ess ! i]" using True len by (simp add: take_Suc_conv_app_nth)
    show ?thesis
    proof (cases "s < vc_seqNum e")
      case skip: True
      obtain its' ess' where "advance_iterators s ub (i + 1) its = Inr its'" "list_all2 iterates its' ess'"
        "mset ess' = mset (take (i + 1) ess) + mset (concat (map (advanced s ub) (drop (i + 1) ess)))"
        using 1(1) [OF True cur _ skip 1(4)] lv(2) by auto
      moreover have "advanced s ub (ess ! i) = [ess ! i]" using skip e by (simp add: advanced_def)
      ultimately show ?thesis
        using True cur skip dr tk by (intro exI [of _ its'] exI [of _ ess']) (simp add: advance_iterators.simps [of s ub i its])
    next
      case False
      then have s: "vc_seqNum e = s" using lv(1) e by (simp add: live_def)
      obtain it' where n: "ei_gotoNext (its ! i) = Inr it'" "iterates it' es" using iterates_gotoNext [OF it] .
      note cur' = iterates_getCurrent [OF n(2)]
      show ?thesis
      proof (cases "es = [] \<or> ub < vc_seqNum (hd es)")
        case drop: True
        let ?its = "butlast (its[i := last its])" and ?ess = "butlast (ess[i := last ess])"
        have ne: "its \<noteq> []" "ess \<noteq> []" using True len by auto
        have "iterates (last its) (last ess)" using 1(4) ne by (simp add: list_all2_nthD last_conv_nth len)
        then have r: "list_all2 iterates ?its ?ess"
          using 1(4) by (simp add: butlast_conv_take len list_all2_update_cong)
        have i: "i < length ess" using True len by simp
        have "set (drop i ?ess) = set (drop (Suc i) ess)" using replace_by_last(2) [OF i] by (metis set_mset_mset)
        then have lv': "\<forall>es \<in> set (drop i ?ess). live s es" using lv(2) by simp
        have c: "case (case es of [] \<Rightarrow> None | e # _ \<Rightarrow> Some e) of None \<Rightarrow> True | Some e' \<Rightarrow> ub < vc_seqNum e'"
          using drop by (cases es) simp_all
        obtain its' ess' where "advance_iterators s ub i ?its = Inr its'" "list_all2 iterates its' ess'"
          "mset ess' = mset (take i ?ess) + mset (concat (map (advanced s ub) (drop i ?ess)))"
          using 1(2) [OF True cur _ False s n(1) cur' c r lv'] by auto
        moreover have "mset (concat (map (advanced s ub) (drop i ?ess))) = mset (concat (map (advanced s ub) (drop (Suc i) ess)))"
          by (rule mset_concat_map) (rule replace_by_last(2) [OF i])
        moreover have "advanced s ub (ess ! i) = []" using drop s e by (simp add: advanced_def)
        ultimately show ?thesis
          using True cur False s n(1) cur' c dr replace_by_last(1) [OF i]
          by (intro exI [of _ its'] exI [of _ ess']) (simp add: advance_iterators.simps [of s ub i its])
      next
        case keep: False
        let ?its = "its[i := it']" and ?ess = "ess[i := es]"
        have r: "list_all2 iterates ?its ?ess" using 1(4) n(2) by (rule list_all2_update_cong)
        have lv': "\<forall>es \<in> set (drop (i + 1) ?ess). live s es" using lv(2) by simp
        have c: "\<not> (case (case es of [] \<Rightarrow> None | e # _ \<Rightarrow> Some e) of None \<Rightarrow> True | Some e' \<Rightarrow> ub < vc_seqNum e')"
          using keep by (cases es) simp_all
        obtain its' ess' where "advance_iterators s ub (i + 1) ?its = Inr its'" "list_all2 iterates its' ess'"
          "mset ess' = mset (take (i + 1) ?ess) + mset (concat (map (advanced s ub) (drop (i + 1) ?ess)))"
          using 1(3) [OF True cur _ False s n(1) cur' c r lv'] by auto
        moreover have "take (i + 1) ?ess = take i ess @ [es]" using True len by (simp add: take_Suc_conv_app_nth)
        moreover have "advanced s ub (ess ! i) = [es]" using keep s e by (simp add: advanced_def)
        ultimately show ?thesis
          using True cur False s n(1) cur' c dr
          by (intro exI [of _ its'] exI [of _ ess']) (simp add: advance_iterators.simps [of s ub i its])
      qed
    qed
  qed
qed

section \<open>One sequence number\<close>

lemma computeRestrictionsForSeqNum_outcome:
  assumes its: "list_all2 iterates its ess" and lv: "\<forall>es \<in> set ess. live s es" and ne: "its \<noteq> []" and ub: "s \<le> ub"
    and ok: "\<forall>e \<in> set (head_votes s ess). checkable vf s e" "digests32 (head_votes s ess)"
  shows "\<exists>its' ess'. computeRestrictionsForSeqNum vf F C s ub its =
      Inr (case outcome (cert_ok vf s) (u16 (F + C + 1)) (head_votes s ess) of
             None \<Rightarrow> (False, replicate 32 0, its') | Some d \<Rightarrow> (True, d, its')) \<and>
    list_all2 iterates its' ess' \<and> mset ess' = mset (concat (map (advanced s ub) ess))"
proof -
  let ?vs = "head_votes s ess"
  let ?slow = "best_slow (cert_ok vf s) ?vs"
  have c: "collect_slow s its [] = Inr (cert_set ?vs)" using collect_slow_votes [OF its lv] by (simp add: cert_set_def)
  have m: "\<forall>e \<in> set (cert_set ?vs). has_cert e \<and> vc_seqNum e = s \<and> checkable vf s e"
  proof
    fix e
    assume "e \<in> set (cert_set ?vs)"
    then have "e \<in> set ?vs" "has_cert e" using cert_set_member [OF ok(2)] by simp_all
    then show "has_cert e \<and> vc_seqNum e = s \<and> checkable vf s e" using ok(1) head_votes_seq by simp
  qed
  have k: "checkSlowPathCertificates None (cert_set ?vs) = Inr True"
    using checkSlow_sorted [OF cert_set_props(1) [OF ok(2)], of s None] m by simp
  have sel: "select_slow vf s (cert_set ?vs) = Inr ?slow" unfolding best_slow_def using select_slow_find [OF m] .
  have mn: "(case ?slow of None \<Rightarrow> Inr 0 | Some e \<Rightarrow> rbind (slow_c e) (\<lambda>c. Inr (certificateView c + 1))) = Inr (min_fast ?slow)"
    using best_slow_Some(2) [OF ok(2)] by (auto simp: min_fast_def slow_c_has_cert cert_view_def split: option.splits)
  obtain its' ess' where a: "advance_iterators s ub 0 its = Inr its'" "list_all2 iterates its' ess'"
    "mset ess' = mset (concat (map (advanced s ub) ess))"
    using advance_iterators_votes [OF its, of 0 s ub] lv by auto
  have "computeRestrictionsForSeqNum vf F C s ub its =
      Inr (case (tally (u16 (F + C + 1)) (filter (\<lambda>e. vc_originView e \<ge> min_fast ?slow) ?vs) [], ?slow) of
                        (Some e, _) \<Rightarrow> (True, vc_digest e, its')
                      | (None, Some e) \<Rightarrow> (True, vc_digest e, its')
                      | (None, None) \<Rightarrow> (False, replicate 32 0, its'))"
    unfolding computeRestrictionsForSeqNum_def
    by (simp only: ne ub c k sel mn count_fast_tally [OF its lv] a(1) rbind_simps c_assert_simps not_False_eq_True simp_thms)
  then show ?thesis using a(2,3) by (intro exI [of _ its'] exI [of _ ess']) (auto simp: outcome_def Let_def split: option.splits)
qed

section \<open>All sequence numbers\<close>

definition votes_at :: "VcElement list list \<Rightarrow> SeqNum \<Rightarrow> VcElement list" where
  "votes_at M t = filter (\<lambda>e. vc_seqNum e = t) (concat M)"

lemma head_votes_live: "\<forall>es \<in> set ess. live s es \<Longrightarrow> head_votes s ess = votes_at ess s"
proof (induction ess)
  case (Cons es ess)
  obtain e es' where "es = e # es'" using Cons.prems by (cases es) (auto simp: live_def)
  moreover from this have "filter (\<lambda>e. vc_seqNum e = s) es' = []" using Cons.prems by (auto simp: live_def filter_empty_conv)
  ultimately show ?case using Cons by (simp add: votes_at_def)
qed (simp add: votes_at_def)

lemma votes_at_mset: "mset ess = mset ess' \<Longrightarrow> mset (votes_at ess t) = mset (votes_at ess' t)"
  unfolding votes_at_def filter_concat by (rule mset_concat_map)

text \<open>The live iterators have all the votes for the sequence numbers to come.\<close>

definition pending :: "SeqNum \<Rightarrow> SeqNum \<Rightarrow> VcElement list list \<Rightarrow> VcElement list list \<Rightarrow> bool" where
  "pending s ub M ess \<longleftrightarrow> (\<forall>es \<in> set ess. live s es) \<and> (\<forall>t. s \<le> t \<and> t \<le> ub \<longrightarrow> mset (votes_at ess t) = mset (votes_at M t))"

lemma advanced_live: "live s es \<Longrightarrow> es' \<in> set (advanced s ub es) \<Longrightarrow> live (s + 1) es'"
  by (cases es; cases "tl es") (auto simp: advanced_def live_def split: if_splits)

lemma advanced_votes:
  assumes "live s es" "s < t" "t \<le> ub"
  shows "votes_at (advanced s ub es) t = votes_at [es] t"
proof -
  obtain e es' where es: "es = e # es'" using assms(1) by (cases es) (auto simp: live_def)
  have "filter (\<lambda>e. vc_seqNum e = t) es' = []" if "ub < vc_seqNum (hd es')"
    using that assms es by (cases es') (fastforce simp: live_def filter_empty_conv)+
  then show ?thesis using es assms by (auto simp: votes_at_def advanced_def)
qed

lemma pending_step:
  assumes p: "pending s ub M ess" and m: "mset ess' = mset (concat (map (advanced s ub) ess))"
  shows "pending (s + 1) ub M ess'"
proof -
  have lv: "\<forall>es \<in> set ess. live s es" using p by (simp add: pending_def)
  have "set ess' = set (concat (map (advanced s ub) ess))" using m by (metis set_mset_mset)
  then have "\<forall>es \<in> set ess'. live (s + 1) es" using lv advanced_live by fastforce
  moreover have "mset (votes_at ess' t) = mset (votes_at M t)" if t: "s + 1 \<le> t" "t \<le> ub" for t
  proof -
    have "votes_at (concat (map (advanced s ub) ess)) t = votes_at ess t"
      using lv by (induction ess) (use advanced_votes [of s _ t ub] t in \<open>auto simp: votes_at_def\<close>)
    then show ?thesis using votes_at_mset [OF m, of t] p t by (simp add: pending_def)
  qed
  ultimately show ?thesis by (simp add: pending_def)
qed

text \<open>An entry of the array that agrees with an outcome.\<close>

definition fits :: "bytes \<Rightarrow> bytes option \<Rightarrow> Restriction \<Rightarrow> bool" where
  "fits nullDigest out r = (case out of None \<Rightarrow> isNull r | Some d \<Rightarrow> r_digest r = d \<and> isNull r = (d = nullDigest))"

definition votes_ok :: "(SeqNum \<Rightarrow> IThresholdVerifier) \<Rightarrow> VcElement list list \<Rightarrow> SeqNum \<Rightarrow> bool" where
  "votes_ok vf M t \<longleftrightarrow> (\<forall>e \<in> set (votes_at M t). checkable (vf t) t e \<and> length (vc_digest e) = 32)"

definition entry_ok :: "(SeqNum \<Rightarrow> IThresholdVerifier) \<Rightarrow> nat \<Rightarrow> bytes \<Rightarrow> VcElement list list \<Rightarrow> SeqNum \<Rightarrow> Restriction \<Rightarrow> bool" where
  "entry_ok vf need nullDigest M t r \<longleftrightarrow>
     (\<exists>vs. mset vs = mset (votes_at M t) \<and> fits nullDigest (outcome (cert_ok (vf t) t) need vs) r)"

lemma restrict_loop_outcome:
  assumes "list_all2 iterates its ess" "pending s ub M ess" "ub = s + int k - 1" "i + k \<le> length arr"
    "\<forall>t. s \<le> t \<and> t \<le> ub \<longrightarrow> votes_ok vf M t" "lastNum < s"
  shows "\<exists>lastNum' arr'. restrict_loop vf F C nullDigest ub k s i its lastNum arr = Inr (lastNum', arr') \<and>
    length arr' = length arr \<and> (\<forall>j < i. arr' ! j = arr ! j) \<and> lastNum \<le> lastNum' \<and>
    (\<forall>j < k. entry_ok vf (u16 (F + C + 1)) nullDigest M (s + int j) (arr' ! (i + j)) \<and>
       (\<not> isNull (arr' ! (i + j)) \<longrightarrow> s + int j \<le> lastNum'))"
  using assms
proof (induction k arbitrary: s i its ess lastNum arr)
  case 0
  then show ?case by simp
next
  case (Suc k)
  let ?vs = "head_votes s ess"
  have lv: "\<forall>es \<in> set ess. live s es" using Suc.prems(2) by (simp add: pending_def)
  have ub: "s \<le> ub" using Suc.prems(3) by simp
  have vs: "mset ?vs = mset (votes_at M s)" using Suc.prems(2) ub by (simp add: pending_def head_votes_live [OF lv])
  then have "set ?vs = set (votes_at M s)" by (metis set_mset_mset)
  then have ok: "\<forall>e \<in> set ?vs. checkable (vf s) s e" "digests32 ?vs"
    using Suc.prems(5) ub by (auto simp: votes_ok_def digests32_def)
  have len: "\<not> length arr \<le> i" using Suc.prems(4) by simp
  have step: ?case
    if l: "restrict_loop vf F C nullDigest ub (Suc k) s i its lastNum arr = restrict_loop vf F C nullDigest ub k (s + 1) (i + 1) its' n (arr[i := r])"
      and i: "list_all2 iterates its' ess'" "pending (s + 1) ub M ess'" and n: "lastNum \<le> n" "n \<le> s" "\<not> isNull r \<Longrightarrow> n = s"
      and r: "fits nullDigest (outcome (cert_ok (vf s) s) (u16 (F + C + 1)) ?vs) r" for its' ess' n r
  proof -
    obtain lastNum' arr' where IH: "restrict_loop vf F C nullDigest ub k (s + 1) (i + 1) its' n (arr[i := r]) = Inr (lastNum', arr')"
      "length arr' = length (arr[i := r])" "\<forall>j < i + 1. arr' ! j = arr[i := r] ! j" "n \<le> lastNum'"
      "\<forall>j < k. entry_ok vf (u16 (F + C + 1)) nullDigest M (s + 1 + int j) (arr' ! (i + 1 + j)) \<and>
         (\<not> isNull (arr' ! (i + 1 + j)) \<longrightarrow> s + 1 + int j \<le> lastNum')"
      using Suc.IH [OF i, of "i + 1" "arr[i := r]" n] Suc.prems(3-5) n by auto
    have e: "arr' ! i = r" using IH(3) len by simp
    have "entry_ok vf (u16 (F + C + 1)) nullDigest M (s + int j) (arr' ! (i + j)) \<and> (\<not> isNull (arr' ! (i + j)) \<longrightarrow> s + int j \<le> lastNum')"
      if "j < Suc k" for j
    proof (cases j)
      case 0
      then show ?thesis using e r vs n(3) IH(4) by (auto simp: entry_ok_def)
    next
      case (Suc j')
      then show ?thesis using IH(5) [rule_format, of j'] that by (simp add: algebra_simps)
    qed
    then show ?thesis using IH(1-4) l n by (intro exI [of _ lastNum'] exI [of _ arr']) simp
  qed
  show ?case
  proof (cases "its = []")
    case True
    then have e: "ess = []" using Suc.prems(1) by simp
    have p: "pending (s + 1) ub M []" using Suc.prems(2) e by (simp add: pending_def)
    have "outcome (cert_ok (vf s) s) (u16 (F + C + 1)) ?vs = None" by (simp add: e outcome_def best_slow_def cert_set_def)
    then show ?thesis using True len Suc.prems(6) by (intro step [OF _ _ p, of "[]" lastNum "(arr ! i)\<lparr>isNull := True\<rparr>"]) (simp_all add: fits_def)
  next
    case False
    obtain its' ess' where c: "computeRestrictionsForSeqNum (vf s) F C s ub its =
        Inr (case outcome (cert_ok (vf s) s) (u16 (F + C + 1)) ?vs of None \<Rightarrow> (False, replicate 32 0, its') | Some d \<Rightarrow> (True, d, its'))"
      "list_all2 iterates its' ess'" "mset ess' = mset (concat (map (advanced s ub) ess))"
      using computeRestrictionsForSeqNum_outcome [OF Suc.prems(1) lv False ub ok] by blast
    note p = pending_step [OF Suc.prems(2) c(3)]
    show ?thesis
    proof (cases "outcome (cert_ok (vf s) s) (u16 (F + C + 1)) ?vs")
      case None
      then show ?thesis
        using False len c(1) Suc.prems(6) by (intro step [OF _ c(2) p, of lastNum "\<lparr>isNull = True, r_digest = replicate 32 0\<rparr>"]) (simp_all add: fits_def)
    next
      case (Some d)
      then show ?thesis
        using False len c(1) Suc.prems(6)
        by (intro step [OF _ c(2) p, of "if d = nullDigest then lastNum else s" "\<lparr>isNull = (d = nullDigest), r_digest = d\<rparr>"]) (simp_all add: fits_def)
    qed
  qed
qed

section \<open>The messages of a quorum\<close>

definition received :: "MessageBase option list \<Rightarrow> MessageBase list" where
  "received vcs = concat (map (\<lambda>p. case p of None \<Rightarrow> [] | Some m \<Rightarrow> [m]) vcs)"

lemma received_simps [simp]: "received [] = []" "received (None # vcs) = received vcs" "received (Some m # vcs) = m # received vcs"
  by (simp_all add: received_def)

lemma make_iterators_iterate:
  assumes "list_all2 (\<lambda>m es. \<exists>ls nv. vc_contents m ls nv es) (received vcs) M"
  shows "\<exists>its. make_iterators lb vcs = Inr its \<and>
    list_all2 iterates its (filter (\<lambda>es. es \<noteq> []) (map (dropWhile (\<lambda>e. vc_seqNum e < lb)) M))"
  using assms
proof (induction lb vcs arbitrary: M rule: make_iterators.induct)
  case (3 lb vc vcs)
  obtain es M' ls nv where M: "M = es # M'" "vc_contents vc ls nv es"
    "list_all2 (\<lambda>m es. \<exists>ls nv. vc_contents m ls nv es) (received vcs) M'"
    using 3(4) by (auto simp: list_all2_Cons1)
  have n: "vc_numberOfElements vc = Inr (length es)" using M(2) by (simp add: vc_contents_def)
  let ?dw = "dropWhile (\<lambda>e. vc_seqNum e < lb) es"
  show ?case
  proof (cases "es = []")
    case True
    then show ?thesis using 3(1) [OF n _ M(3)] M(1) n by simp
  next
    case False
    obtain it where it: "ElementsIterator_new (Some vc) = Inr it" "iterates it es" using vc_contents_iterates [OF M(2)] .
    obtain it' where it': "ei_goToAtLeast lb it = Inr (?dw \<noteq> [], it')" "iterates it' ?dw" using iterates_goToAtLeast [OF it(2)] by blast
    have e: "ei_end it' = Inr (?dw = [])" using iterates_end [OF it'(2)] .
    show ?thesis
    proof (cases "?dw = []")
      case True
      then show ?thesis using 3(2) [OF n _ it(1) it'(1) refl e _ M(3)] False M(1) n it(1) it'(1) e by simp
    next
      case nonempty: False
      obtain its where its: "make_iterators lb vcs = Inr its" "list_all2 iterates its (filter (\<lambda>es. es \<noteq> []) (map (dropWhile (\<lambda>e. vc_seqNum e < lb)) M'))"
        using 3(3) [OF n _ it(1) it'(1) refl e _ M(3)] False nonempty by auto
      then show ?thesis
        using False nonempty n it(1) it' e M(1) by (intro exI [of _ "it' # its"]) simp
    qed
  qed
qed auto

lemma vc_contents_sorted: "vc_contents m ls nv es \<Longrightarrow> sorted_wrt (<) (map vc_seqNum es)"
  using elements_ok_seqNums by (auto simp: vc_contents_def)

lemma pending_start:
  assumes "\<forall>es \<in> set M. sorted_wrt (<) (map vc_seqNum es)"
  shows "pending lb ub M (filter (\<lambda>es. es \<noteq> []) (map (dropWhile (\<lambda>e. vc_seqNum e < lb)) M))"
proof -
  have "live lb (dropWhile (\<lambda>e. vc_seqNum e < lb) es)" if "es \<in> set M" "dropWhile (\<lambda>e. vc_seqNum e < lb) es \<noteq> []" for es
    using assms that hd_dropWhile [OF that(2)] sorted_wrt_dropWhile [of "(<)" "map vc_seqNum es" "\<lambda>s. s < lb"]
    by (auto simp: live_def dropWhile_map o_def)
  moreover have "votes_at (filter (\<lambda>es. es \<noteq> []) (map (dropWhile (\<lambda>e. vc_seqNum e < lb)) M)) t = votes_at M t" if "lb \<le> t" for t
  proof (induction M)
    case (Cons es M)
    have "filter (\<lambda>e. vc_seqNum e = t) (dropWhile (\<lambda>e. vc_seqNum e < lb) es) = filter (\<lambda>e. vc_seqNum e = t) es"
      using that by (induction es) auto
    then show ?case using Cons that by (auto simp: votes_at_def filter_empty_conv)
  qed (simp add: votes_at_def)
  ultimately show ?thesis by (auto simp: pending_def)
qed

text \<open>Messages whose elements have been checked, by the validation or by the replica that has built them.\<close>

definition vc_checked :: "MessageBase \<Rightarrow> bool" where
  "vc_checked m \<longleftrightarrow> net_msg m \<and> msgSize m < 2 ^ 31 \<and> (\<exists>sigLen. vc_checkElements sigLen m = Inr True \<and> 44 + span_of m + sigLen \<le> msgSize m)"

definition quorum_elements :: "MessageBase option list \<Rightarrow> VcElement list list \<Rightarrow> bool" where
  "quorum_elements vcs M \<longleftrightarrow> list_all2 (\<lambda>m es. vc_checked m \<and> vc_elements m = Inr es) (received vcs) M"

lemma quorum_contents:
  assumes "quorum_elements vcs M"
  shows "list_all2 (\<lambda>m es. \<exists>ls nv. vc_contents m ls nv es) (received vcs) M"
proof -
  have "\<exists>ls nv. vc_contents m ls nv es" if "vc_checked m" "vc_elements m = Inr es" for m es
    using that vc_checkElements_contents [of m] vc_contents_elements [of m] by (fastforce simp: vc_checked_def)
  then show ?thesis using assms unfolding quorum_elements_def by (auto elim: list_all2_mono)
qed

lemma elements_at_digest: "elements_at buf loc fin es \<Longrightarrow> e \<in> set es \<Longrightarrow> length (vc_digest e) = 32"
  by (induction es arbitrary: loc) (auto simp: read_element_def rd_bytes_Inr)

lemma elements_ok_sig: "elements_ok ls nv prev es \<Longrightarrow> e \<in> set es \<Longrightarrow> vc_cert e = Some c \<Longrightarrow> certificateSig c \<noteq> []"
  by (induction es arbitrary: prev) auto

lemma vc_contents_element:
  assumes "vc_contents m ls nv es" "e \<in> set es"
  shows "length (vc_digest e) = 32" "vc_cert e = Some c \<Longrightarrow> certificateSig c \<noteq> []"
  using assms elements_at_digest elements_ok_sig by (fastforce simp: vc_contents_def split: if_splits)+

lemma quorum_member:
  assumes "quorum_elements vcs M" "es \<in> set M"
  obtains m ls nv where "vc_contents m ls nv es"
  using quorum_contents [OF assms(1)] assms(2) by (auto simp: list_all2_conv_all_nth in_set_conv_nth)

definition certs_return :: "(SeqNum \<Rightarrow> IThresholdVerifier) \<Rightarrow> VcElement list list \<Rightarrow> bool" where
  "certs_return vf M \<longleftrightarrow> (\<forall>es \<in> set M. \<forall>e \<in> set es. has_cert e \<longrightarrow> (\<exists>b. cert_check (vf (vc_seqNum e)) (vc_seqNum e) e = Inr b))"

lemma quorum_votes_ok:
  assumes "quorum_elements vcs M" "certs_return vf M"
  shows "votes_ok vf M t"
proof -
  have "checkable (vf t) t e \<and> length (vc_digest e) = 32" if e: "es \<in> set M" "e \<in> set es" "vc_seqNum e = t" for es e
  proof -
    obtain m ls nv where "vc_contents m ls nv es" using quorum_member [OF assms(1) e(1)] .
    then show ?thesis using vc_contents_element [of m ls nv es e] e assms(2) by (auto simp: checkable_def certs_return_def has_cert_def)
  qed
  then show ?thesis by (auto simp: votes_ok_def votes_at_def)
qed

lemma votes_at_length: "\<forall>es \<in> set M. sorted_wrt (<) (map vc_seqNum es) \<Longrightarrow> length (votes_at M t) \<le> length M"
proof (induction M)
  case (Cons es M)
  have "length (filter (\<lambda>e. vc_seqNum e = t) es) \<le> 1" if "sorted_wrt (<) (map vc_seqNum es)"
    using that by (induction es) (auto simp: filter_empty_conv)
  then show ?case using Cons by (force simp: votes_at_def)
qed (simp add: votes_at_def)

lemma computeRestrictions_entries:
  assumes q: "quorum_elements vcs M" "certs_return vf M" and LB: "0 \<le> LB" "LB + kWorkWindow < 2 ^ 63" "length arr = 300"
  shows "\<exists>mn mx arr'. computeRestrictions vf F C nullDigest vcs LB arr = Inr (mn, mx, arr') \<and> length arr' = 300 \<and>
    (\<forall>t. LB < t \<and> t \<le> LB + kWorkWindow \<longrightarrow> entry_ok vf (u16 (F + C + 1)) nullDigest M t (arr' ! nat (t - LB - 1)) \<and>
       (\<not> isNull (arr' ! nat (t - LB - 1)) \<longrightarrow> mn \<le> t \<and> t \<le> mx))"
proof -
  let ?lb = "LB + 1" and ?ub = "LB + kWorkWindow"
  let ?ess = "filter (\<lambda>es. es \<noteq> []) (map (dropWhile (\<lambda>e. vc_seqNum e < ?lb)) M)"
  obtain its where its: "make_iterators ?lb vcs = Inr its" "list_all2 iterates its ?ess"
    using make_iterators_iterate [OF quorum_contents [OF q(1)]] by blast
  have srt: "\<forall>es \<in> set M. sorted_wrt (<) (map vc_seqNum es)" using quorum_member [OF q(1)] vc_contents_sorted by metis
  note p = pending_start [OF srt, of ?lb ?ub]
  obtain l arr' where r: "restrict_loop vf F C nullDigest ?ub 300 ?lb 0 its 0 arr = Inr (l, arr')" "length arr' = length arr"
    "\<forall>j < 300. entry_ok vf (u16 (F + C + 1)) nullDigest M (?lb + int j) (arr' ! (0 + j)) \<and> (\<not> isNull (arr' ! (0 + j)) \<longrightarrow> ?lb + int j \<le> l)"
    using restrict_loop_outcome [OF its(2) p, of 300 0 arr vf 0 F C nullDigest] quorum_votes_ok [OF q] LB by (auto simp: kWorkWindow_def)
  have e: "entry_ok vf (u16 (F + C + 1)) nullDigest M t (arr' ! nat (t - LB - 1))" "\<not> isNull (arr' ! nat (t - LB - 1)) \<Longrightarrow> t \<le> l"
    if "LB < t" "t \<le> ?ub" for t
  proof -
    have "nat (t - LB - 1) < 300" "?lb + int (nat (t - LB - 1)) = t" using that by (simp_all add: kWorkWindow_def)
    then show "entry_ok vf (u16 (F + C + 1)) nullDigest M t (arr' ! nat (t - LB - 1))" "\<not> isNull (arr' ! nat (t - LB - 1)) \<Longrightarrow> t \<le> l"
      using r(3) by (metis add_0)+
  qed
  have none: "isNull (arr' ! nat (t - LB - 1))" if "its = []" "LB < t" "t \<le> ?ub" for t
  proof -
    have "mset (votes_at M t) = mset (votes_at ?ess t)" using p that by (simp add: pending_def)
    also have "?ess = []" using its(2) that(1) by simp
    finally show ?thesis using e(1) [OF that(2,3)] by (auto simp: entry_ok_def fits_def outcome_def best_slow_def cert_set_def votes_at_def)
  qed
  have "nat kWorkWindow = 300" "s64_plus LB kWorkWindow = Inr ?ub" using LB(2) by (simp_all add: kWorkWindow_def s64_plus_def)
  then show ?thesis
    using r its(1) e none LB(1,3) by (cases "its = []") (auto simp: computeRestrictions_def Let_def intro: order_trans [OF e(2)])
qed

section \<open>What the new view keeps\<close>

lemma committed_restricts:
  assumes q: "quorum_elements vcs M" "certs_return vf M" "length M = 2 * F + 2 * C + 1" "1 \<le> F + C" "F + C < 65535"
    and LB: "0 \<le> LB" "LB + kWorkWindow < 2 ^ 63" "length arr = 300"
    and s: "LB < s" "s \<le> LB + kWorkWindow" and v: "0 \<le> v" and d: "d \<noteq> nullDigest"
    and later: "length (filter (\<lambda>e. v < vc_originView e \<and> vc_digest e \<noteq> d) (votes_at M s)) \<le> F"
    and certs: "\<And>e. e \<in> set (votes_at M s) \<Longrightarrow> has_cert e \<Longrightarrow> cert_ok (vf s) s e \<Longrightarrow> v \<le> cert_view e \<Longrightarrow> vc_digest e = d"
    and committed: "(\<exists>e \<in> set (votes_at M s). has_cert e \<and> v \<le> cert_view e \<and>
        (\<forall>z \<in> set (votes_at M s). has_cert z \<and> same_key z e \<longrightarrow> cert_ok (vf s) s z)) \<or>
      F + C + 1 \<le> length (filter (\<lambda>e. v \<le> vc_originView e \<and> vc_digest e = d) (votes_at M s))"
  shows "\<exists>mn mx arr'. computeRestrictions vf F C nullDigest vcs LB arr = Inr (mn, mx, arr') \<and> mn \<le> s \<and> s \<le> mx \<and>
    \<not> isNull (arr' ! nat (s - LB - 1)) \<and> r_digest (arr' ! nat (s - LB - 1)) = d"
proof -
  obtain mn mx arr' where c: "computeRestrictions vf F C nullDigest vcs LB arr = Inr (mn, mx, arr')"
    "entry_ok vf (u16 (F + C + 1)) nullDigest M s (arr' ! nat (s - LB - 1))" "\<not> isNull (arr' ! nat (s - LB - 1)) \<Longrightarrow> mn \<le> s \<and> s \<le> mx"
    using computeRestrictions_entries [OF q(1,2) LB] s by blast
  from c(2) obtain vs where vs: "mset vs = mset (votes_at M s)"
    "fits nullDigest (outcome (cert_ok (vf s) s) (F + C + 1) vs) (arr' ! nat (s - LB - 1))"
    using q(5) by (auto simp: entry_ok_def)
  have st: "set vs = set (votes_at M s)" using vs(1) by (metis set_mset_mset)
  have fl: "length (filter P vs) = length (filter P (votes_at M s))" for P using vs(1) by (metis mset_filter size_mset)
  have "\<forall>es \<in> set M. sorted_wrt (<) (map vc_seqNum es)" using quorum_member [OF q(1)] vc_contents_sorted by metis
  then have n: "length vs \<le> 2 * F + 2 * C + 1" using votes_at_length [of M s] q(3) vs(1) by (metis size_mset)
  have "digests32 vs" using quorum_votes_ok [OF q(1,2), of s] st by (auto simp: digests32_def votes_ok_def)
  then have "outcome (cert_ok (vf s) s) (F + C + 1) vs = Some d"
    using outcome_safe [of vs F C v d "cert_ok (vf s) s"] q(4) n v later certs committed unfolding fl st by blast
  then show ?thesis using vs(2) c(1,3) d by (auto simp: fits_def)
qed

text \<open>
  C3. The safety of the view change. Let the messages of a quorum of 2F + 2C + 1 replicas be checked, and let the certificates in
  them be such that their verification returns. Suppose that the digest \<open>d\<close> may have been committed for the sequence number \<open>s\<close>
  in view \<open>v\<close>: a message has a prepare certificate for a view not before \<open>v\<close> that is valid, as are all the certificates for the
  same view and digest, or F + C + 1 messages report \<open>d\<close> from a view not before \<open>v\<close>. Suppose further that the valid certificates
  for views not before \<open>v\<close> are for \<open>d\<close>, and that at most F messages report another digest from a later view. Then the
  computation of the restrictions returns, and the new view is restricted to \<open>d\<close> at \<open>s\<close>.
\<close>

theorem committed_survives_view_change:
  assumes q: "quorum_elements vcs M" "certs_return vf M" "length M = 2 * F + 2 * C + 1" "1 \<le> F + C" "F + C < 65535"
    and LB: "0 \<le> LB" "LB + kWorkWindow < 2 ^ 63" "length arr = 300"
    and s: "LB < s" "s \<le> LB + kWorkWindow" and v: "0 \<le> v" and d: "d \<noteq> nullDigest"
    and later: "length (filter (\<lambda>e. v < vc_originView e \<and> vc_digest e \<noteq> d) (votes_at M s)) \<le> F"
    and certs: "\<And>e. e \<in> set (votes_at M s) \<Longrightarrow> has_cert e \<Longrightarrow> cert_ok (vf s) s e \<Longrightarrow> v \<le> cert_view e \<Longrightarrow> vc_digest e = d"
    and committed: "(\<exists>e \<in> set (votes_at M s). has_cert e \<and> v \<le> cert_view e \<and>
        (\<forall>z \<in> set (votes_at M s). has_cert z \<and> same_key z e \<longrightarrow> cert_ok (vf s) s z)) \<or>
      F + C + 1 \<le> length (filter (\<lambda>e. v \<le> vc_originView e \<and> vc_digest e = d) (votes_at M s))"
  shows "\<exists>mn mx arr'. computeRestrictions vf F C nullDigest vcs LB arr = Inr (mn, mx, arr') \<and> mn \<le> s \<and> s \<le> mx \<and>
    \<not> isNull (arr' ! nat (s - LB - 1)) \<and> r_digest (arr' ! nat (s - LB - 1)) = d"
  by (rule committed_restricts [OF q LB s v d later certs committed])

text \<open>
  C11. No restriction is made up: a digest to which the new view is restricted at a sequence number is supported by a valid
  certificate for it, or by F + C + 1 of the messages.
\<close>

theorem restrictions_are_justified:
  assumes q: "quorum_elements vcs M" "certs_return vf M" "1 \<le> F + C" "F + C < 65535"
    and LB: "0 \<le> LB" "LB + kWorkWindow < 2 ^ 63" "length arr = 300" and s: "LB < s" "s \<le> LB + kWorkWindow"
    and r: "computeRestrictions vf F C nullDigest vcs LB arr = Inr (mn, mx, arr')" "\<not> isNull (arr' ! nat (s - LB - 1))"
      "d = r_digest (arr' ! nat (s - LB - 1))"
  shows "mn \<le> s \<and> s \<le> mx \<and> d \<noteq> nullDigest \<and>
    ((\<exists>e \<in> set (votes_at M s). has_cert e \<and> cert_ok (vf s) s e \<and> vc_digest e = d) \<or> F + C + 1 \<le> votes_for d (votes_at M s))"
proof -
  have c: "entry_ok vf (u16 (F + C + 1)) nullDigest M s (arr' ! nat (s - LB - 1))" "mn \<le> s \<and> s \<le> mx"
    using computeRestrictions_entries [OF q(1,2) LB, of F C nullDigest] s r(1,2) by fastforce+
  from c(1) obtain vs where vs: "mset vs = mset (votes_at M s)"
    "fits nullDigest (outcome (cert_ok (vf s) s) (F + C + 1) vs) (arr' ! nat (s - LB - 1))"
    using q(4) by (auto simp: entry_ok_def)
  have st: "set vs = set (votes_at M s)" using vs(1) by (metis set_mset_mset)
  have fl: "votes_for d vs = votes_for d (votes_at M s)" unfolding votes_for_def using vs(1) by (metis mset_filter size_mset)
  have "digests32 vs" using quorum_votes_ok [OF q(1,2), of s] st by (auto simp: digests32_def votes_ok_def)
  moreover have o: "outcome (cert_ok (vf s) s) (F + C + 1) vs = Some d" "d \<noteq> nullDigest" using vs(2) r(2,3) by (auto simp: fits_def split: option.splits)
  ultimately show ?thesis using outcome_sound [of vs "F + C + 1" "cert_ok (vf s) s" d] q(3) c(2) unfolding st fl by simp
qed

text \<open>
  C36. The set of certificates that the computation keeps has one certificate for each view and digest, whatever its signature. When
  the certificates for a sequence number are all for the same view and digest and the one that comes first is forged, the valid
  ones are lost: unless F + C + 1 messages report the digest, the new view is not restricted, although the digest may have been
  committed.
\<close>

theorem forged_certificate_hides:
  assumes its: "list_all2 iterates its ess" "its \<noteq> []" "\<forall>es \<in> set ess. live s es" and ub: "s \<le> ub"
    and ok: "\<forall>e \<in> set (head_votes s ess). checkable vf s e" "digests32 (head_votes s ess)"
    and n: "1 \<le> F + C" "F + C < 65535" "\<And>d. votes_for d (head_votes s ess) < F + C + 1"
    and forged: "filter has_cert (head_votes s ess) = e0 # es" "\<not> cert_ok vf s e0" "\<forall>e \<in> set es. same_key e e0"
  shows "\<exists>its'. computeRestrictionsForSeqNum vf F C s ub its = Inr (False, replicate 32 0, its')"
proof -
  have "outcome (cert_ok vf s) (F + C + 1) (head_votes s ess) = None"
    using outcome_hidden [where ok = "cert_ok vf s", OF ok(2) _ forged n(3)] n(1) by simp
  then show ?thesis using computeRestrictionsForSeqNum_outcome [OF its(1,3,2) ub ok, of F C] n(2) by auto
qed

section \<open>The lower bound of the stable sequence number\<close>

definition stable_of :: "MessageBase \<Rightarrow> SeqNum" where
  "stable_of m = s64 (fld 16 8 (msgBody m))"

lemma lb_loop_collects:
  assumes "\<forall>m \<in> set (received vcs). vc_newView m = Inr nv \<and> vc_lastStable m = Inr (f m)" "ns = [] \<or> v = nv"
    "length ns + length (received vcs) \<le> inc"
  shows "lb_loop inc vcs v ns = Inr (ns @ map f (received vcs))"
  using assms
proof (induction inc vcs v ns rule: lb_loop.induct)
  case (3 inc vc vcs v ns)
  have f: "vc_newView vc = Inr nv" "vc_lastStable vc = Inr (f vc)" and l: "\<not> inc \<le> length ns" using 3(2,4) by simp_all
  have "lb_loop inc vcs (if ns = [] then nv else v) (ns @ [f vc]) = Inr ((ns @ [f vc]) @ map f (received vcs))"
    using 3(1) [OF f(1) _ f(2) l] 3(2-4) by auto
  then show ?case using f l 3(3) by auto
qed simp_all

lemma sorted_desc_counts:
  fixes xs :: "'a::linorder list"
  assumes s: "sorted_wrt (\<ge>) xs" and k: "k < length xs"
  shows "Suc k \<le> length (filter (\<lambda>x. xs ! k \<le> x) xs)" "length xs - k \<le> length (filter (\<lambda>x. x \<le> xs ! k) xs)"
proof -
  have desc: "xs ! j \<le> xs ! i" if "i \<le> j" "j < length xs" for i j
    using that s by (cases "i = j") (auto simp: sorted_wrt_iff_nth_less)
  have t: "\<forall>x \<in> set (take (Suc k) xs). xs ! k \<le> x" "\<forall>x \<in> set (drop k xs). x \<le> xs ! k"
    using k by (auto simp: in_set_conv_nth intro!: desc)
  have "length (filter (\<lambda>x. xs ! k \<le> x) (take (Suc k) xs)) \<le> length (filter (\<lambda>x. xs ! k \<le> x) (take (Suc k) xs @ drop (Suc k) xs))"
    by (simp only: filter_append length_append le_add1)
  then show "Suc k \<le> length (filter (\<lambda>x. xs ! k \<le> x) xs)" using t(1) k by (simp add: filter_id_conv [THEN iffD2])
  have "length (filter (\<lambda>x. x \<le> xs ! k) (drop k xs)) \<le> length (filter (\<lambda>x. x \<le> xs ! k) (take k xs @ drop k xs))"
    by (simp only: filter_append length_append le_add2)
  then show "length xs - k \<le> length (filter (\<lambda>x. x \<le> xs ! k) xs)" using t(2) by (simp add: filter_id_conv [THEN iffD2])
qed

lemma more_than_bad:
  assumes "length (filter bad xs) < length (filter P xs)"
  shows "\<exists>x \<in> set xs. \<not> bad x \<and> P x"
proof (rule ccontr)
  assume "\<not> ?thesis"
  then have "length (filter P xs) \<le> length (filter bad xs)" by (induction xs) auto
  then show False using assms by simp
qed

text \<open>
  C18. From the messages of a quorum for the same view of which at most F are from faulty replicas, the computation of the lower
  bound returns a number that is bracketed by correct replicas: one of them reports a stable sequence number that is at
  least the bound, and one reports a number that is at most the bound.
\<close>

theorem stable_bound_bracketed:
  assumes n: "length (received vcs) = 2 * F + 2 * C + 1" "2 * F + 2 * C + 1 < 65536"
    and m: "\<forall>m \<in> set (received vcs). vc_newView m = Inr nv \<and> vc_lastStable m = Inr (stable_of m)"
    and bad: "length (filter faulty (received vcs)) \<le> F"
  shows "\<exists>lb. calcLBStableForView F C vcs = Inr lb \<and>
    (\<exists>m \<in> set (received vcs). \<not> faulty m \<and> lb \<le> stable_of m) \<and> (\<exists>m \<in> set (received vcs). \<not> faulty m \<and> stable_of m \<le> lb)"
proof -
  let ?ns = "map stable_of (received vcs)" and ?lb = "rev (sort (map stable_of (received vcs))) ! F"
  have l: "lb_loop (2 * F + 2 * C + 1) vcs 0 [] = Inr ?ns" using lb_loop_collects [OF m, of "[]" 0] n by simp
  have s: "sorted_wrt (\<ge>) (rev (sort ?ns))" by (simp add: sorted_wrt_rev)
  have len: "length (rev (sort ?ns)) = 2 * F + 2 * C + 1" using n by simp
  have "rev (sort ?ns) ! (length ?ns - 1) \<le> rev (sort ?ns) ! 0"
    using s len n(1) by (cases "F + C = 0") (auto simp: sorted_wrt_iff_nth_less)
  then have c: "calcLBStableForView F C vcs = Inr ?lb" using n l by (simp add: calcLBStableForView_def)
  have k: "F < length (rev (sort ?ns))" using len by simp
  have cnt: "length (filter P (rev (sort ?ns))) = length (filter (\<lambda>m. P (stable_of m)) (received vcs))" for P
  proof -
    have "mset (filter P (rev (sort ?ns))) = mset (filter P ?ns)" by simp
    then have "length (filter P (rev (sort ?ns))) = length (filter P ?ns)" by (metis size_mset)
    then show ?thesis by (simp add: filter_map o_def)
  qed
  have "Suc F \<le> length (filter (\<lambda>m. ?lb \<le> stable_of m) (received vcs))" "Suc F \<le> length (filter (\<lambda>m. stable_of m \<le> ?lb) (received vcs))"
    using sorted_desc_counts [OF s k] len unfolding cnt by simp_all
  then have "\<exists>m \<in> set (received vcs). \<not> faulty m \<and> ?lb \<le> stable_of m" "\<exists>m \<in> set (received vcs). \<not> faulty m \<and> stable_of m \<le> ?lb"
    using bad by (auto intro!: more_than_bad)
  then show ?thesis using c by blast
qed

section \<open>Examples\<close>

definition example_vc :: "ReplicaId \<Rightarrow> SeqNum \<Rightarrow> VcElement list \<Rightarrow> MessageBase" where
  "example_vc src ls es = MessageBase_of src (vc_layout src 5 ls 0 [] 0 0 es []) True"

definition example_vf :: "SeqNum \<Rightarrow> IThresholdVerifier" where
  "example_vf s = \<lparr>tv_verify = (\<lambda>d sig. Inr (sig = [5, 6])), tv_accumulate = (\<lambda>b d shares. Inr ([], []))\<rparr>"

lemma example_vc_fits:
  assumes "es \<in> {[], [example_element x sig]}" "length sig < 100" "src < 4" "300 \<le> ls" "ls < 1000"
  shows "layout_fits src 5 ls 0 [] 0 0 es"
proof -
  have "elements_size es < 1000" using assms by (auto simp: elements_size_def element_size_def example_element_def)
  then show ?thesis using assms by (auto simp: layout_fits_def is_s64_def example_element_fits)
qed

lemma example_vc_checked:
  assumes "es \<in> {[], [example_element x sig]}" "length sig < 100" "src < 4"
  shows "vc_checked (example_vc src 300 es)" "vc_elements (example_vc src 300 es) = Inr es" "vc_contents (example_vc src 300 es) 300 5 es"
proof -
  let ?m = "example_vc src 300 es"
  note l = example_vc_fits [OF assms, of 300, simplified]
  have ok: "elements_ok 300 5 300 es" using assms by (auto simp: example_element_def kWorkWindow_def)
  have b: "msgBody ?m = vc_layout src 5 300 0 [] 0 0 es []" by (simp add: example_vc_def MessageBase_of_def)
  show c: "vc_contents ?m 300 5 es" by (rule layout_contents [OF l b ok])
  show "vc_elements ?m = Inr es" by (rule vc_contents_elements [OF c])
  have sz: "msgSize ?m = 44 + elements_size es" "length (msgBody ?m) = msgSize ?m" "storageSize ?m = msgSize ?m"
    using length_vc_layout [OF l, of 0 0 "[]"] by (simp_all add: example_vc_def MessageBase_of_def)
  have small: "elements_size es < 1000" using assms by (auto simp: elements_size_def element_size_def example_element_def)
  then have "vc_checkElements 0 ?m = Inr True"
    using layout_checks [of src 5 300 0 "[]" "[]" es ?m "[]"] l b ok sz by (simp add: complaints_size_def kWorkWindow_def)
  moreover have "span_of ?m = 0" using layout_fields(9) [OF l b] by (simp add: spanContextSize_def rd_Inr)
  ultimately show "vc_checked ?m" using sz small by (auto simp: vc_checked_def net_msg_def header_size_def intro: exI [of _ 0])
qed

definition example_vcs :: "MessageBase option list" where
  "example_vcs = [None, Some (example_vc 1 300 [example_element 7 [5, 6]]), Some (example_vc 2 300 [example_element 7 [5, 6]]), Some (example_vc 3 300 [])]"

definition example_M :: "VcElement list list" where
  "example_M = [[example_element 7 [5, 6]], [example_element 7 [5, 6]], []]"

lemma example_quorum:
  "quorum_elements example_vcs example_M" "certs_return example_vf example_M" "length example_M = 3"
  "votes_at example_M 301 = [example_element 7 [5, 6], example_element 7 [5, 6]]"
  by (simp_all add: example_vc_checked [of "[example_element 7 [5, 6]]" 7 "[5, 6]"] example_vc_checked [of "[]" 7 "[5, 6]"] quorum_elements_def example_vcs_def example_M_def certs_return_def cert_check_def example_vf_def votes_at_def)
    (simp_all add: example_element_def)

lemma example_cert:
  "has_cert (example_element x sig) \<longleftrightarrow> sig \<noteq> []" "sig \<noteq> [] \<Longrightarrow> cert_view (example_element x sig) = 3"
  "vc_digest (example_element x sig) = replicate 32 (of_nat x)" "vc_originView (example_element x sig) = 4"
  "vc_seqNum (example_element x sig) = 301"
  "sig \<noteq> [] \<Longrightarrow> cert_ok (example_vf s) s (example_element x sig) \<longleftrightarrow> sig = [5, 6]"
  by (simp_all add: has_cert_def cert_view_def cert_ok_def cert_check_def example_vf_def example_element_def)

theorem committed_survives_view_change_witness:
  "\<exists>mn mx arr'. computeRestrictions example_vf 1 0 (replicate 32 0) example_vcs 300 (replicate 300 \<lparr>isNull = True, r_digest = []\<rparr>) = Inr (mn, mx, arr') \<and>
     mn \<le> 301 \<and> 301 \<le> mx \<and> \<not> isNull (arr' ! 0) \<and> r_digest (arr' ! 0) = replicate 32 7"
proof -
  let ?e = "example_element 7 [5, 6]" and ?arr = "replicate 300 \<lparr>isNull = True, r_digest = []\<rparr>"
  have "\<exists>mn mx arr'. computeRestrictions example_vf 1 0 (replicate 32 0) example_vcs 300 ?arr = Inr (mn, mx, arr') \<and>
     mn \<le> 301 \<and> 301 \<le> mx \<and> \<not> isNull (arr' ! nat (301 - 300 - 1)) \<and> r_digest (arr' ! nat (301 - 300 - 1)) = replicate 32 7"
  proof (rule committed_survives_view_change [OF example_quorum(1,2), of 1 0 300 ?arr 301 3 "replicate 32 7" "replicate 32 0"])
    show "length example_M = 2 * 1 + 2 * 0 + 1" by (simp add: example_quorum)
    show "replicate 32 7 \<noteq> (replicate 32 0 :: bytes)" by simp
    show "length (filter (\<lambda>e. 3 < vc_originView e \<and> vc_digest e \<noteq> replicate 32 7) (votes_at example_M 301)) \<le> 1"
      by (simp add: example_quorum example_cert)
    show "vc_digest e = replicate 32 7" if "e \<in> set (votes_at example_M 301)" for e using that by (auto simp: example_quorum example_cert)
    show "(\<exists>e \<in> set (votes_at example_M 301). has_cert e \<and> 3 \<le> cert_view e \<and>
        (\<forall>z \<in> set (votes_at example_M 301). has_cert z \<and> same_key z e \<longrightarrow> cert_ok (example_vf 301) 301 z)) \<or>
      1 + 0 + 1 \<le> length (filter (\<lambda>e. 3 \<le> vc_originView e \<and> vc_digest e = replicate 32 7) (votes_at example_M 301))"
      by (simp add: example_quorum example_cert)
  qed (simp_all add: kWorkWindow_def)
  then show ?thesis by simp
qed

theorem restrictions_are_justified_witness:
  "\<exists>mn mx arr'. computeRestrictions example_vf 1 0 (replicate 32 0) example_vcs 300 (replicate 300 \<lparr>isNull = True, r_digest = []\<rparr>) = Inr (mn, mx, arr') \<and>
     r_digest (arr' ! 0) \<noteq> replicate 32 0 \<and>
     (\<exists>e \<in> {example_element 7 [5, 6]}. has_cert e \<and> cert_ok (example_vf 301) 301 e \<and> vc_digest e = r_digest (arr' ! 0))"
proof -
  let ?e = "example_element 7 [5, 6]" and ?z = "replicate 32 0 :: bytes"
  let ?arr = "replicate 300 \<lparr>isNull = True, r_digest = []\<rparr>"
  have LB: "(0 :: int) \<le> 300" "300 + kWorkWindow < 2 ^ 63" "length ?arr = 300" "300 < (301 :: int)" "301 \<le> 300 + kWorkWindow"
    "(1 :: nat) \<le> 1 + 0" "(1 :: nat) + 0 < 65535"
    by (simp_all add: kWorkWindow_def)
  obtain mn mx arr' where c: "computeRestrictions example_vf 1 0 ?z example_vcs 300 ?arr = Inr (mn, mx, arr')"
    and en: "entry_ok example_vf (u16 (1 + 0 + 1)) ?z example_M 301 (arr' ! nat (301 - 300 - 1))"
    using computeRestrictions_entries [OF example_quorum(1,2) LB(1-3), of 1 0 ?z] LB(4,5) by blast
  from en obtain vs where vs: "mset vs = {# ?e, ?e #}" "fits ?z (outcome (cert_ok (example_vf 301) 301) 2 vs) (arr' ! 0)"
    by (auto simp: entry_ok_def example_quorum numeral_2_eq_2)
  have "set vs = {?e}" "length vs = 2" using arg_cong [OF vs(1), of set_mset] arg_cong [OF vs(1), of size] by simp_all
  then have "vs = [?e, ?e]" using replicate_length_same [of vs ?e] by (simp add: numeral_2_eq_2)
  then have "\<not> isNull (arr' ! nat (301 - 300 - 1))"
    using vs(2) by (simp add: fits_def outcome_def best_slow_def cert_set_def example_cert min_fast_def split: if_splits)
  from restrictions_are_justified [OF example_quorum(1,2) LB(6,7,1-5) c this refl] c show ?thesis
    by (auto simp: example_quorum example_cert split: if_splits)
qed

theorem forged_certificate_hides_witness:
  "\<exists>its its'. list_all2 iterates its [[example_element 7 [9]], [example_element 7 [5, 6]]] \<and>
     cert_ok (example_vf 301) 301 (example_element 7 [5, 6]) \<and>
     computeRestrictionsForSeqNum (example_vf 301) 2 0 301 600 its = Inr (False, replicate 32 0, its')"
proof -
  let ?f = "example_element 7 [9]" and ?v = "example_element 7 [5, 6]"
  obtain i1 where i1: "iterates i1 [?f]" using vc_contents_iterates [OF example_vc_checked(3) [of "[?f]" 7 "[9]" 1]] by auto
  obtain i2 where i2: "iterates i2 [?v]" using vc_contents_iterates [OF example_vc_checked(3) [of "[?v]" 7 "[5, 6]" 2]] by auto
  have its: "list_all2 iterates [i1, i2] [[?f], [?v]]" using i1 i2 by simp
  have "\<exists>its'. computeRestrictionsForSeqNum (example_vf 301) 2 0 301 600 [i1, i2] = Inr (False, replicate 32 0, its')"
  proof (rule forged_certificate_hides [OF its])
    show "\<forall>es \<in> set [[?f], [?v]]. live 301 es" by (simp add: live_def example_cert)
    have "checkable (example_vf 301) 301 (example_element 7 s)" for s
      by (auto simp: checkable_def example_cert cert_check_def example_vf_def) (simp add: example_element_def)
    then show "\<forall>e \<in> set (head_votes 301 [[?f], [?v]]). checkable (example_vf 301) 301 e" by (simp add: example_cert)
    show "digests32 (head_votes 301 [[?f], [?v]])" by (simp add: digests32_def example_cert)
    show "filter has_cert (head_votes 301 [[?f], [?v]]) = ?f # [?v]" by (simp add: example_cert)
    show "\<not> cert_ok (example_vf 301) 301 ?f" by (simp add: example_cert)
    show "\<forall>e \<in> set [?v]. same_key e ?f" by (simp add: same_key_def example_cert)
    show "votes_for d (head_votes 301 [[?f], [?v]]) < 2 + 0 + 1" for d by (simp add: example_cert)
  qed simp_all
  then obtain its' where "computeRestrictionsForSeqNum (example_vf 301) 2 0 301 600 [i1, i2] = Inr (False, replicate 32 0, its')" by blast
  then show ?thesis using its by - (rule exI [of _ "[i1, i2]"], rule exI [of _ its'], simp add: example_cert)
qed

theorem stable_bound_bracketed_witness:
  "\<exists>lb. calcLBStableForView 1 0 [Some (example_vc 0 450 []), None, Some (example_vc 2 300 []), Some (example_vc 3 900 [])] = Inr lb \<and>
    (\<exists>m \<in> {example_vc 0 450 [], example_vc 2 300 []}. lb \<le> stable_of m) \<and> (\<exists>m \<in> {example_vc 0 450 [], example_vc 2 300 []}. stable_of m \<le> lb)"
proof -
  have f: "vc_newView (example_vc i ls []) = Inr 5 \<and> vc_lastStable (example_vc i ls []) = Inr ls" if "i < 4" "300 \<le> ls" "ls < 1000" for i ls
    using layout_fields(2,3) [OF example_vc_fits [of "[]" 0 "[]" i ls]] that by (simp add: example_vc_def MessageBase_of_def)
  then have g: "vc_lastStable (example_vc i ls []) = Inr (stable_of (example_vc i ls []))" "stable_of (example_vc i ls []) = ls" if "i < 4" "300 \<le> ls" "ls < 1000" for i ls
    using that by (auto simp: stable_of_def vc_lastStable_def rd_s64_def rd_Inr)
  have "example_vc 3 900 [] \<noteq> example_vc 0 450 []" "example_vc 3 900 [] \<noteq> example_vc 2 300 []" using g(2) [of 3 900] g(2) [of 0 450] g(2) [of 2 300] by auto
  then show ?thesis
    using stable_bound_bracketed [of "[Some (example_vc 0 450 []), None, Some (example_vc 2 300 []), Some (example_vc 3 900 [])]" 1 0 5
        "\<lambda>m. m = example_vc 3 900 []"] f g(1) by auto
qed

end
