(* ===== verification/Views_Manager.thy ===== *)
theory Views_Manager
  imports View_Restrictions Pre_Prepare "HOL-Library.AList"
begin

text \<open>
  bftengine/src/bftengine/ViewsManager.{hpp,cpp} and ReplicasAskedToLeaveViewInfo.hpp: the state machine by which a replica
  leaves a view, collects the view change messages of a quorum, and enters the next view. Messages are values, so that a
  message that the source moves from one container to another is copied and removed; the deletion of messages is left out.
  An array of pointers is a list of options.
\<close>

section \<open>Complaints\<close>

text \<open>ReplicasAskedToLeaveViewInfo: the complaint of each replica, as an association list.\<close>

type_synonym complaints = "(ReplicaId \<times> MessageBase) list"

definition lv_idOfGeneratedReplica :: "MessageBase \<Rightarrow> nat result" where
  "lv_idOfGeneratedReplica m = rd 6 2 (msgBody m)"

definition lv_viewNumber :: "MessageBase \<Rightarrow> int result" where
  "lv_viewNumber m = rd_s64 8 (msgBody m)"

definition lvi_hasQuorumToLeaveView :: "nat \<Rightarrow> complaints \<Rightarrow> bool" where
  "lvi_hasQuorumToLeaveView f_val msgs \<longleftrightarrow> length msgs \<ge> f_val + 1"

definition lvi_store :: "MessageBase \<Rightarrow> complaints \<Rightarrow> complaints result" where
  "lvi_store msg msgs =
     rbind (lv_idOfGeneratedReplica msg) (\<lambda>i. Inr (if map_of msgs i = None then msgs @ [(i, msg)] else msgs))"

fun lvi_populate :: "MessageBase list \<Rightarrow> complaints \<Rightarrow> complaints result" where
  "lvi_populate [] msgs = Inr msgs"
| "lvi_populate (m # ms) msgs = rbind (lv_idOfGeneratedReplica m) (\<lambda>i. lvi_populate ms (AList.update i m msgs))"

definition lvi_getComplaintFromReplica :: "ReplicaId \<Rightarrow> complaints \<Rightarrow> MessageBase option" where
  "lvi_getComplaintFromReplica replicaId msgs = map_of msgs replicaId"

definition lvi_getAllMsgs :: "bool \<Rightarrow> complaints \<Rightarrow> MessageBase list" where
  "lvi_getAllMsgs sortedByIssuerID msgs = map snd (if sortedByIssuerID then sort_key fst msgs else msgs)"

section \<open>State\<close>

datatype Stat = NO_VIEW | PENDING | PENDING_WITH_RESTRICTIONS | IN_VIEW

record PrevViewInfo =
  prePrepare :: "MessageBase option"
  prepareFull :: "MessageBase option"
  hasAllRequests :: bool

record ViewsManager =
  stat :: Stat
  myCurrentView :: ViewNum
  targetView :: ViewNum
  myLatestActiveView :: ViewNum
  myLatestPendingView :: ViewNum
  complainedReplicas :: complaints
  complainedReplicasForHigherView :: complaints
  viewChangeMessages :: "MessageBase option list"
  newViewMessages :: "MessageBase option list"
  collectionOfPrePrepareMsgs :: "(SeqNum \<times> MessageBase) list"
  viewChangeMsgsOfPendingView :: "MessageBase option list"
  newViewMsgOfPendingView :: "MessageBase option"
  minRestrictionOfPendingView :: SeqNum
  maxRestrictionOfPendingView :: SeqNum
  restrictionsOfPendingView :: "Restriction list"
  prePrepareMsgsOfRestrictions :: "MessageBase option list"
  lowerBoundStableForPendingView :: SeqNum
  debugHighestKnownStable :: SeqNum
  debugHighestViewNumberPassedByClient :: ViewNum

text \<open>What the class takes from its surroundings: the singletons of the messages, the replicas, and the verifiers of certificates.\<close>

record VmEnv =
  ve_env :: MsgEnv
  ve_ri :: ReplicasInfo
  ve_vf :: "SeqNum \<Rightarrow> IThresholdVerifier"

definition vmN :: "VmEnv \<Rightarrow> nat" where "vmN e = numberOfReplicas (ve_ri e)"
definition vmF :: "VmEnv \<Rightarrow> nat" where "vmF e = fVal (ve_ri e)"
definition vmC :: "VmEnv \<Rightarrow> nat" where "vmC e = cVal (ve_ri e)"
definition vmId :: "VmEnv \<Rightarrow> nat" where "vmId e = myId (ve_ri e)"

definition SMAJOR :: "VmEnv \<Rightarrow> nat" where
  "SMAJOR e = u16 (2 * vmF e + 2 * vmC e + 1)"

definition arr_get :: "'a list \<Rightarrow> nat \<Rightarrow> 'a result" where
  "arr_get xs i = (if i < length xs then Inr (xs ! i) else Inl UndefinedBehaviour)"

definition arr_set :: "nat \<Rightarrow> 'a \<Rightarrow> 'a list \<Rightarrow> 'a list result" where
  "arr_set i x xs = (if i < length xs then Inr (xs[i := x]) else Inl UndefinedBehaviour)"

definition ViewsManager_new :: "VmEnv \<Rightarrow> ViewsManager result" where
  "ViewsManager_new e =
     c_assert (vmN e = 3 * vmF e + 2 * vmC e + 1)
      (Inr \<lparr>stat = IN_VIEW, myCurrentView = 0, targetView = 0, myLatestActiveView = 0, myLatestPendingView = 0,
            complainedReplicas = [], complainedReplicasForHigherView = [],
            viewChangeMessages = replicate (vmN e) None, newViewMessages = replicate (vmN e) None,
            collectionOfPrePrepareMsgs = [], viewChangeMsgsOfPendingView = replicate (vmN e) None,
            newViewMsgOfPendingView = None, minRestrictionOfPendingView = 0, maxRestrictionOfPendingView = 0,
            restrictionsOfPendingView = replicate 300 \<lparr>isNull = True, r_digest = replicate 32 0\<rparr>,
            prePrepareMsgsOfRestrictions = replicate 300 None, lowerBoundStableForPendingView = 0,
            debugHighestKnownStable = 0, debugHighestViewNumberPassedByClient = 0\<rparr>)"

definition inView :: "ViewsManager \<Rightarrow> bool" where
  "inView st \<longleftrightarrow> stat st = IN_VIEW"

definition viewIsActive :: "ViewNum \<Rightarrow> ViewsManager \<Rightarrow> bool" where
  "viewIsActive v st \<longleftrightarrow> inView st \<and> myLatestActiveView st = v"

definition viewIsPending :: "ViewNum \<Rightarrow> ViewsManager \<Rightarrow> bool" where
  "viewIsPending v st \<longleftrightarrow> v = myLatestPendingView st \<and> v > myLatestActiveView st"

definition waitingForMsgs :: "ViewsManager \<Rightarrow> bool" where
  "waitingForMsgs st \<longleftrightarrow> stat st = PENDING_WITH_RESTRICTIONS"

definition setHigherView :: "ViewNum \<Rightarrow> ViewsManager \<Rightarrow> ViewsManager result" where
  "setHigherView higherViewNum st = c_assert (myCurrentView st < higherViewNum) (Inr (st\<lparr>myCurrentView := higherViewNum\<rparr>))"

definition setViewFromRecovery :: "ViewNum \<Rightarrow> ViewsManager \<Rightarrow> ViewsManager" where
  "setViewFromRecovery explicitViewNum st = st\<lparr>myCurrentView := explicitViewNum\<rparr>"

definition clearComplaintsForHigherView :: "ViewsManager \<Rightarrow> ViewsManager" where
  "clearComplaintsForHigherView st = st\<lparr>complainedReplicasForHigherView := [], targetView := 0\<rparr>"

definition getMyLatestViewChangeMsg :: "VmEnv \<Rightarrow> ViewsManager \<Rightarrow> MessageBase option result" where
  "getMyLatestViewChangeMsg e st =
     rbind (arr_get (viewChangeMsgsOfPendingView st) (vmId e)) (\<lambda>p.
       rbind (if p = None then arr_get (viewChangeMessages st) (vmId e) else Inr p) (\<lambda>vc.
         c_assert (vc \<noteq> None \<or> myLatestPendingView st = 0) (Inr vc)))"

section \<open>Adding messages\<close>

definition vm_add_NewView :: "VmEnv \<Rightarrow> MessageBase \<Rightarrow> ViewsManager \<Rightarrow> (bool \<times> ViewsManager) result" where
  "vm_add_NewView e m st =
     rbind (nv_newView m) (\<lambda>v.
       c_assert (sender m \<noteq> vmId e) (c_assert (sender m = primaryOfView (ve_ri e) v)
        (if v \<le> myLatestPendingView st then Inr (False, st)
         else rbind (arr_set (sender m) (Some m) (newViewMessages st)) (\<lambda>xs. Inr (True, st\<lparr>newViewMessages := xs\<rparr>)))))"

text \<open>Whether a message is ignored because the new view message of its view has arrived.\<close>

definition vc_ignored :: "VmEnv \<Rightarrow> ViewNum \<Rightarrow> ReplicaId \<Rightarrow> ViewsManager \<Rightarrow> bool result" where
  "vc_ignored e v i st =
     rbind (arr_get (newViewMessages st) (primaryOfView (ve_ri e) v)) (\<lambda>relatedNewView. case relatedNewView of
        None \<Rightarrow> Inr False
      | Some nv \<Rightarrow> rbind (nv_newView nv) (\<lambda>w.
          if w > v then Inr True
          else if w = v
          then rbind (arr_get (viewChangeMessages st) i) (\<lambda>prevVC. case prevVC of
                 None \<Rightarrow> Inr False
               | Some p \<Rightarrow> rbind (vc_newView p) (\<lambda>pv.
                   if pv = v then rbind (vc_getMsgDigest (ve_env e) p) (\<lambda>d. includesViewChangeFromReplica i d nv)
                   else Inr False))
          else Inr False))"

definition vm_add_ViewChange :: "VmEnv \<Rightarrow> MessageBase \<Rightarrow> ViewsManager \<Rightarrow> (bool \<times> ViewsManager) result" where
  "vm_add_ViewChange e m st =
     rbind (vc_newView m) (\<lambda>v. rbind (vc_idOfGeneratedReplica m) (\<lambda>i.
       c_assert (i \<noteq> vmId e)
        (if v \<le> myLatestPendingView st then Inr (False, st)
         else rbind (vc_ignored e v i st) (\<lambda>ignoreMsg.
           if ignoreMsg then Inr (False, st)
           else rbind (arr_set i (Some m) (viewChangeMessages st)) (\<lambda>xs. Inr (True, st\<lparr>viewChangeMessages := xs\<rparr>))))))"

section \<open>Queries\<close>

text \<open>The views of the messages beyond the pending view, from replica \<open>i\<close> on.\<close>

fun later_views :: "VmEnv \<Rightarrow> ViewsManager \<Rightarrow> nat \<Rightarrow> MessageBase option list \<Rightarrow> ViewNum list result" where
  "later_views e st i [] = Inr []"
| "later_views e st i (p # ps) =
     rbind (if i = vmId e then getMyLatestViewChangeMsg e st else Inr p) (\<lambda>vc.
       rbind (case vc of None \<Rightarrow> Inr [] | Some m \<Rightarrow> rbind (vc_newView m) (\<lambda>v. Inr (if v > myLatestPendingView st then [v] else []))) (\<lambda>vs.
         rbind (later_views e st (i + 1) ps) (\<lambda>ws. Inr (vs @ ws))))"

definition computeCorrectRelevantViewNumbers :: "VmEnv \<Rightarrow> ViewsManager \<Rightarrow> (ViewNum \<times> ViewNum) result" where
  "computeCorrectRelevantViewNumbers e st =
     rbind (later_views e st 0 (viewChangeMessages st)) (\<lambda>vs.
       let CORRECT = u16 (vmF e + 1);
           numOfVC = length vs;
           viewNumbers = rev (sort vs);
           pending = myLatestPendingView st
       in if numOfVC < CORRECT then Inr (pending, pending)
          else c_assert (viewNumbers ! 0 \<ge> viewNumbers ! (numOfVC - 1))
            (Inr (viewNumbers ! (CORRECT - 1), if numOfVC < SMAJOR e then pending else viewNumbers ! (SMAJOR e - 1))))"

definition hasNewViewMessage :: "VmEnv \<Rightarrow> ViewNum \<Rightarrow> ViewsManager \<Rightarrow> bool result" where
  "hasNewViewMessage e v st =
     c_assert (v \<ge> myLatestPendingView st)
      (if v = myLatestPendingView st then Inr True
       else rbind (arr_get (newViewMessages st) (primaryOfView (ve_ri e) v)) (\<lambda>nv.
         case nv of None \<Rightarrow> Inr False | Some m \<Rightarrow> rpred (nv_newView m) (\<lambda>w. w = v)))"

definition hasViewChangeMessageForFutureView :: "VmEnv \<Rightarrow> ReplicaId \<Rightarrow> ViewsManager \<Rightarrow> bool result" where
  "hasViewChangeMessageForFutureView e repId st =
     c_assert (repId < vmN e)
      (if stat st \<noteq> NO_VIEW then Inr True
       else rbind (arr_get (viewChangeMessages st) repId) (\<lambda>vc.
         case vc of None \<Rightarrow> Inr False | Some m \<Rightarrow> rpred (vc_newView m) (\<lambda>v. v \<ge> myCurrentView st)))"

definition getNewViewMsgForCurrentView :: "ViewsManager \<Rightarrow> MessageBase result" where
  "getNewViewMsgForCurrentView st =
     c_assert (stat st = IN_VIEW)
      (case newViewMsgOfPendingView st of
         None \<Rightarrow> Inl AssertFailed
       | Some r \<Rightarrow> rbind (nv_newView r) (\<lambda>v. c_assert (v = myLatestActiveView st) (Inr r)))"

definition getMyNewViewMsgForCurrentView :: "VmEnv \<Rightarrow> ViewsManager \<Rightarrow> MessageBase result" where
  "getMyNewViewMsgForCurrentView e st =
     c_assert (stat st = IN_VIEW)
      (c_assert (vmId e = primaryOfView (ve_ri e) (myLatestActiveView st))
        (case newViewMsgOfPendingView st of
           None \<Rightarrow> Inl AssertFailed
         | Some r \<Rightarrow> c_assert (sender r = vmId e) (rbind (nv_newView r) (\<lambda>v. c_assert (v = myLatestActiveView st) (Inr r)))))"

text \<open>The first \<open>k\<close> messages of an array, each of which is for the view \<open>v\<close>.\<close>

fun first_msgs :: "ViewNum \<Rightarrow> nat \<Rightarrow> MessageBase option list \<Rightarrow> MessageBase list result" where
  "first_msgs v 0 ps = Inr []"
| "first_msgs v (Suc k) [] = Inr []"
| "first_msgs v (Suc k) (None # ps) = first_msgs v (Suc k) ps"
| "first_msgs v (Suc k) (Some m # ps) =
     rbind (vc_newView m) (\<lambda>w. c_assert (w = v) (rbind (first_msgs v k ps) (\<lambda>ms. Inr (m # ms))))"

definition getViewChangeMsgsForCurrentView :: "VmEnv \<Rightarrow> ViewsManager \<Rightarrow> MessageBase list result" where
  "getViewChangeMsgsForCurrentView e st =
     c_assert (stat st = IN_VIEW)
      (rbind (first_msgs (myLatestActiveView st) (SMAJOR e) (viewChangeMsgsOfPendingView st)) (\<lambda>retVal.
        c_assert (length retVal = SMAJOR e) (Inr retVal)))"

fun msgs_for_view :: "ViewNum \<Rightarrow> (MessageBase option \<times> MessageBase option) list \<Rightarrow> MessageBase list result" where
  "msgs_for_view v [] = Inr []"
| "msgs_for_view v ((pnd, vc) # ps) =
     rbind (case vc of
              None \<Rightarrow> Inr pnd
            | Some m \<Rightarrow> (case pnd of
                None \<Rightarrow> Inr vc
              | Some p \<Rightarrow> rbind (vc_newView m) (\<lambda>a. rbind (vc_newView p) (\<lambda>b. Inr (if a > b then vc else pnd)))))
       (\<lambda>msgToAdd. rbind (msgs_for_view v ps) (\<lambda>ms. case msgToAdd of
          None \<Rightarrow> Inr ms
        | Some m \<Rightarrow> rbind (vc_newView m) (\<lambda>w. Inr (if w \<ge> v then m # ms else ms))))"

definition getViewChangeMsgsForView :: "VmEnv \<Rightarrow> ViewNum \<Rightarrow> ViewsManager \<Rightarrow> MessageBase list result" where
  "getViewChangeMsgsForView e v st =
     (if viewIsActive v st then getViewChangeMsgsForCurrentView e st
      else msgs_for_view v (zip (viewChangeMsgsOfPendingView st) (viewChangeMessages st)))"

definition stableLowerBoundWhenEnteredToView :: "ViewsManager \<Rightarrow> SeqNum result" where
  "stableLowerBoundWhenEnteredToView st = c_assert (stat st = IN_VIEW) (Inr (lowerBoundStableForPendingView st))"

section \<open>Leaving a view\<close>

definition resetDataOfLatestPendingAndKeepMyViewChange :: "VmEnv \<Rightarrow> ViewsManager \<Rightarrow> ViewsManager result" where
  "resetDataOfLatestPendingAndKeepMyViewChange e st =
     (if newViewMsgOfPendingView st = None then Inr st
      else rbind (arr_get (viewChangeMsgsOfPendingView st) (vmId e)) (\<lambda>mine.
        rbind (if mine \<noteq> None then arr_set (vmId e) mine (viewChangeMessages st) else Inr (viewChangeMessages st)) (\<lambda>vcs.
          let mn = minRestrictionOfPendingView st;
              mx = maxRestrictionOfPendingView st
          in c_assert (mn = 0 \<or> mx - mn < kWorkWindow)
              (Inr (st\<lparr>viewChangeMessages := vcs,
                       prePrepareMsgsOfRestrictions :=
                         (if mn = 0 then prePrepareMsgsOfRestrictions st
                          else replicate (nat (mx - mn + 1)) None @ drop (nat (mx - mn + 1)) (prePrepareMsgsOfRestrictions st)),
                       minRestrictionOfPendingView := 0, maxRestrictionOfPendingView := (if mn = 0 then mx else 0),
                       viewChangeMsgsOfPendingView := replicate (length (viewChangeMsgsOfPendingView st)) None,
                       newViewMsgOfPendingView := None\<rparr>)))))"

text \<open>The certificate of the previous view change message for a pre-prepare message that has no newer one.\<close>

definition prev_certificate :: "ViewNum \<Rightarrow> SeqNum \<Rightarrow> bytes \<Rightarrow> ElementsIterator \<Rightarrow> (PreparedCertificate option \<times> ElementsIterator) result" where
  "prev_certificate active s d it =
     rbind (ei_end it) (\<lambda>fin. if fin then Inr (None, it)
       else rbind (ei_goToAtLeast s it) (\<lambda>(_, it'). rbind (ei_getCurrent it') (\<lambda>elem. case elem of
          None \<Rightarrow> Inr (None, it')
        | Some x \<Rightarrow> (case vc_cert x of
            None \<Rightarrow> Inr (None, it')
          | Some c \<Rightarrow>
              if vc_seqNum x = s \<and> vc_digest x = d
              then c_assert (vc_originView x \<le> active) (c_assert (certificateView c \<le> vc_originView x) (Inr (Some c, it')))
              else Inr (None, it')))))"

text \<open>The loop over the pre-prepare messages of the view that ends.\<close>

fun exit_loop :: "VmEnv \<Rightarrow> ViewNum \<Rightarrow> SeqNum \<Rightarrow> SeqNum \<Rightarrow> PrevViewInfo list \<Rightarrow> MessageBase \<Rightarrow> ElementsIterator \<Rightarrow> SeqNum \<Rightarrow>
    (SeqNum \<times> MessageBase) list \<Rightarrow> (MessageBase \<times> SeqNum \<times> (SeqNum \<times> MessageBase) list) result" where
  "exit_loop e active lowerBound currentLastExecuted [] myNewVC it debugExpected coll = Inr (myNewVC, debugExpected, coll)"
| "exit_loop e active lowerBound currentLastExecuted (i # is) myNewVC it debugExpected coll =
     (case prePrepare i of
        None \<Rightarrow> Inl AssertFailed
      | Some pp \<Rightarrow>
          rbind (pp_viewNumber pp) (\<lambda>w. c_assert (w = active)
          (rbind (pp_seqNumber pp) (\<lambda>s. c_assert (s > lowerBound) (c_assert (s > debugExpected)
          (c_assert (prepareFull i = None \<or> hasAllRequests i)
          (rbind (pp_digestOfRequests pp) (\<lambda>d. rbind (pp_isNull pp) (\<lambda>nl.
           rbind (if hasAllRequests i \<and> prepareFull i = None then prev_certificate active s d it else Inr (None, it)) (\<lambda>(certInPrev, it').
           rbind (case prepareFull i of
                    Some pf \<Rightarrow>
                      rbind (ss_seqNumber pf) (\<lambda>ps. c_assert (s = ps) (rbind (ss_viewNumber pf) (\<lambda>pv. c_assert (pv = active)
                        (rbind (ss_signatureBody pf) (\<lambda>sig.
                          vc_addElement (ve_env e) \<lparr>vc_seqNum = s, vc_digest = d, vc_originView = active,
                            vc_cert = Some \<lparr>certificateView = active, certificateSig = sig\<rparr>\<rparr> myNewVC)))))
                  | None \<Rightarrow> (case certInPrev of
                      Some c \<Rightarrow> vc_addElement (ve_env e) \<lparr>vc_seqNum = s, vc_digest = d, vc_originView = active, vc_cert = Some c\<rparr> myNewVC
                    | None \<Rightarrow>
                        if hasAllRequests i \<and> \<not> nl
                        then vc_addElement (ve_env e) \<lparr>vc_seqNum = s, vc_digest = d, vc_originView = active, vc_cert = None\<rparr> myNewVC
                        else c_assert (s > currentLastExecuted \<or> nl) (Inr myNewVC)))
             (\<lambda>vc. exit_loop e active lowerBound currentLastExecuted is vc it' s
                     (if hasAllRequests i \<and> \<not> nl then AList.update s pp coll else coll))))))))))))"

definition exitFromCurrentView :: "VmEnv \<Rightarrow> SeqNum \<Rightarrow> SeqNum \<Rightarrow> PrevViewInfo list \<Rightarrow> ViewsManager \<Rightarrow> ViewsManager result" where
  "exitFromCurrentView e currentLastStable currentLastExecuted prevViewInfo st =
     c_assert (stat st = IN_VIEW) (c_assert (myLatestActiveView st = myLatestPendingView st)
     (c_assert (int (length prevViewInfo) \<le> kWorkWindow) (c_assert (collectionOfPrePrepareMsgs st = [])
     (c_assert (currentLastStable \<ge> debugHighestKnownStable st)
      (rbind (arr_get (viewChangeMsgsOfPendingView st) (vmId e)) (\<lambda>pnd.
       rbind (if pnd = None then arr_get (viewChangeMessages st) (vmId e) else Inr pnd) (\<lambda>myPreviousVC.
       rbind (if myLatestActiveView st = 0 then Inr True
              else case myPreviousVC of None \<Rightarrow> Inr False | Some m \<Rightarrow> rpred (vc_newView m) (\<lambda>v. v = myLatestActiveView st)) (\<lambda>ok.
         c_assert ok
          (rbind (ElementsIterator_new myPreviousVC) (\<lambda>iterPrevVC.
           rbind (exit_loop e (myLatestActiveView st) (lowerBoundStableForPendingView st) currentLastExecuted prevViewInfo
                    (ViewChangeMsg_new (ve_env e) (vmId e) (myLatestActiveView st + 1) currentLastStable []) iterPrevVC currentLastStable [])
            (\<lambda>(myNewVC, debugExpected, coll).
              c_assert (debugExpected - currentLastStable \<le> kWorkWindow)
               (rbind (resetDataOfLatestPendingAndKeepMyViewChange e
                         (st\<lparr>stat := NO_VIEW, debugHighestKnownStable := currentLastStable, collectionOfPrePrepareMsgs := coll\<rparr>)) (\<lambda>st1.
                rbind (arr_set (vmId e) (Some myNewVC) (viewChangeMessages st1)) (\<lambda>vcs.
                  Inr (st1\<lparr>viewChangeMessages := vcs\<rparr>)))))))))))))))"

section \<open>Collecting the messages of a pending view\<close>

text \<open>
  The other replicas whose view change messages are for the view \<open>v\<close>, in ascending order, from replica \<open>i\<close> on; \<open>n\<close> is the
  size of the set so far.
\<close>

fun related_of_primary :: "VmEnv \<Rightarrow> ViewNum \<Rightarrow> nat \<Rightarrow> nat \<Rightarrow> MessageBase option list \<Rightarrow> nat list result" where
  "related_of_primary e v i n [] = Inr []"
| "related_of_primary e v i n (p # ps) =
     (if i = vmId e then related_of_primary e v (i + 1) n ps
      else case p of
        None \<Rightarrow> related_of_primary e v (i + 1) n ps
      | Some vc \<Rightarrow> rbind (vc_newView vc) (\<lambda>w.
          if w \<noteq> v then related_of_primary e v (i + 1) n ps
          else if n + 1 = SMAJOR e then Inr [i]
          else rbind (related_of_primary e v (i + 1) (n + 1) ps) (\<lambda>is. Inr (i # is))))"

text \<open>The loop that lists the messages in the new view message and moves them to the pending view.\<close>

fun list_and_move :: "VmEnv \<Rightarrow> ViewNum \<Rightarrow> nat list \<Rightarrow> MessageBase \<Rightarrow> MessageBase option list \<Rightarrow> MessageBase option list \<Rightarrow>
    (MessageBase \<times> MessageBase option list \<times> MessageBase option list) result" where
  "list_and_move e v [] nv pend vcs = Inr (nv, pend, vcs)"
| "list_and_move e v (i # is) nv pend vcs =
     rbind (arr_get vcs i) (\<lambda>p. case p of
        None \<Rightarrow> Inl UndefinedBehaviour
      | Some vc \<Rightarrow>
          rbind (vc_newView vc) (\<lambda>w. c_assert (w = v)
           (rbind (vc_getMsgDigest (ve_env e) vc) (\<lambda>d. c_assert (\<not> isZero d)
             (rbind (nv_addElement (ve_env e) i d nv) (\<lambda>nv'.
              rbind (arr_get pend i) (\<lambda>q. c_assert (q = None)
               (rbind (arr_set i (Some vc) pend) (\<lambda>pend'. rbind (arr_set i None vcs) (\<lambda>vcs'.
                 list_and_move e v is nv' pend' vcs'))))))))))"

definition tryMoveToPendingViewAsPrimary :: "VmEnv \<Rightarrow> ViewNum \<Rightarrow> ViewsManager \<Rightarrow> (bool \<times> ViewsManager) result" where
  "tryMoveToPendingViewAsPrimary e v st =
     c_assert (v > myLatestPendingView st) (c_assert (primaryOfView (ve_ri e) v = vmId e)
      (rbind (resetDataOfLatestPendingAndKeepMyViewChange e st) (\<lambda>st1.
       rbind (arr_get (viewChangeMessages st1) (vmId e)) (\<lambda>myLastVC.
       rbind (case myLastVC of None \<Rightarrow> Inr False | Some m \<Rightarrow> rpred (vc_newView m) (\<lambda>w. w = v)) (\<lambda>okVC. c_assert okVC
       (rbind (arr_get (newViewMessages st1) (vmId e)) (\<lambda>prevNewView.
        rbind (case prevNewView of None \<Rightarrow> Inr True | Some m \<Rightarrow> rpred (nv_newView m) (\<lambda>w. w < v)) (\<lambda>okNV. c_assert okNV
        (let st2 = st1\<lparr>newViewMessages := (newViewMessages st1)[vmId e := None]\<rparr>
         in rbind (related_of_primary e v 0 1 (viewChangeMessages st2)) (\<lambda>others.
              let relatedVCMsgs = insort (vmId e) others
              in if length relatedVCMsgs < SMAJOR e then Inr (False, st2)
                 else c_assert (length relatedVCMsgs = SMAJOR e)
                  (rbind (list_and_move e v relatedVCMsgs (NewViewMsg_new (ve_env e) (vmId e) v []) (viewChangeMsgsOfPendingView st2)
                            (viewChangeMessages st2)) (\<lambda>(nv, pend, vcs).
                    c_assert (newViewMsgOfPendingView st2 = None)
                     (Inr (True, st2\<lparr>viewChangeMessages := vcs, viewChangeMsgsOfPendingView := pend,
                                     newViewMsgOfPendingView := Some nv, myLatestPendingView := v\<rparr>))))))))))))))"

text \<open>The replicas whose view change messages for the view \<open>v\<close> the new view message lists.\<close>

fun related_of_backup :: "VmEnv \<Rightarrow> MessageBase \<Rightarrow> ViewNum \<Rightarrow> nat \<Rightarrow> MessageBase option list \<Rightarrow> nat list result" where
  "related_of_backup e nv v i [] = Inr []"
| "related_of_backup e nv v i (None # ps) = related_of_backup e nv v (i + 1) ps"
| "related_of_backup e nv v i (Some vc # ps) =
     rbind (vc_newView vc) (\<lambda>w.
       if w \<noteq> v then related_of_backup e nv v (i + 1) ps
       else rbind (vc_getMsgDigest (ve_env e) vc) (\<lambda>d. rbind (vc_idOfGeneratedReplica vc) (\<lambda>g.
         rbind (includesViewChangeFromReplica g d nv) (\<lambda>inc.
           rbind (related_of_backup e nv v (i + 1) ps) (\<lambda>is. Inr (if inc then i # is else is))))))"

fun move_to_pending :: "nat list \<Rightarrow> MessageBase option list \<Rightarrow> MessageBase option list \<Rightarrow>
    (MessageBase option list \<times> MessageBase option list) result" where
  "move_to_pending [] pend vcs = Inr (pend, vcs)"
| "move_to_pending (i # is) pend vcs =
     rbind (arr_get pend i) (\<lambda>q. c_assert (q = None)
      (rbind (arr_get vcs i) (\<lambda>p. rbind (arr_set i p pend) (\<lambda>pend'. rbind (arr_set i None vcs) (\<lambda>vcs'.
         move_to_pending is pend' vcs')))))"

definition tryMoveToPendingViewAsNonPrimary :: "VmEnv \<Rightarrow> ViewNum \<Rightarrow> ViewsManager \<Rightarrow> (bool \<times> ViewsManager) result" where
  "tryMoveToPendingViewAsNonPrimary e v st =
     c_assert (v > myLatestPendingView st)
      (let relevantPrimary = primaryOfView (ve_ri e) v
       in c_assert (relevantPrimary \<noteq> vmId e)
        (rbind (resetDataOfLatestPendingAndKeepMyViewChange e st) (\<lambda>st1.
         rbind (arr_get (newViewMessages st1) relevantPrimary) (\<lambda>p. case p of
           None \<Rightarrow> Inr (False, st1)
         | Some nv \<Rightarrow> rbind (nv_newView nv) (\<lambda>w.
             if w \<noteq> v then Inr (False, st1)
             else rbind (related_of_backup e nv v 0 (viewChangeMessages st1)) (\<lambda>relatedVCMsgs.
               if length relatedVCMsgs < SMAJOR e then Inr (False, st1)
               else c_assert (length relatedVCMsgs = SMAJOR e) (c_assert (newViewMsgOfPendingView st1 = None)
                (rbind (move_to_pending relatedVCMsgs (viewChangeMsgsOfPendingView st1) (viewChangeMessages st1)) (\<lambda>(pend, vcs).
                  Inr (True, st1\<lparr>newViewMsgOfPendingView := Some nv,
                                 newViewMessages := (newViewMessages st1)[relevantPrimary := None],
                                 viewChangeMsgsOfPendingView := pend, viewChangeMessages := vcs, myLatestPendingView := v\<rparr>))))))))))"

section \<open>Restrictions of the pending view\<close>

text \<open>The loop that finds the pre-prepare messages of the restrictions, for \<open>k\<close> sequence numbers from \<open>i\<close> on.\<close>

fun fill_restrictions :: "(SeqNum \<times> MessageBase) list \<Rightarrow> Restriction list \<Rightarrow> nat \<Rightarrow> SeqNum \<Rightarrow> nat \<Rightarrow> MessageBase option list \<Rightarrow>
    MessageBase option list result" where
  "fill_restrictions coll rs 0 i idx pps = Inr pps"
| "fill_restrictions coll rs (Suc k) i idx pps =
     c_assert (int idx < kWorkWindow)
      (rbind (arr_get pps idx) (\<lambda>p. c_assert (p = None)
        (rbind (arr_get rs idx) (\<lambda>r.
          if isNull r then fill_restrictions coll rs k (i + 1) (idx + 1) pps
          else case map_of coll i of
              None \<Rightarrow> fill_restrictions coll rs k (i + 1) (idx + 1) pps
            | Some pp \<Rightarrow> rbind (pp_digestOfRequests pp) (\<lambda>d.
                fill_restrictions coll rs k (i + 1) (idx + 1) (if d = r_digest r then pps[idx := Some pp] else pps))))))"

definition computeRestrictionsOfNewView :: "VmEnv \<Rightarrow> ViewNum \<Rightarrow> ViewsManager \<Rightarrow> ViewsManager result" where
  "computeRestrictionsOfNewView e v st =
     c_assert (stat st = PENDING) (c_assert (myLatestPendingView st = v)
      (case newViewMsgOfPendingView st of
         None \<Rightarrow> Inl AssertFailed
       | Some nv \<Rightarrow> rbind (nv_newView nv) (\<lambda>w. c_assert (w = v)
          (rbind (computeRestrictions (ve_vf e) (vmF e) (vmC e) nullDigest (viewChangeMsgsOfPendingView st)
                    (lowerBoundStableForPendingView st) (restrictionsOfPendingView st)) (\<lambda>(mn, mx, rs).
            rbind (if mn \<noteq> 0
                   then fill_restrictions (collectionOfPrePrepareMsgs st) rs (nat (mx - mn + 1)) mn 0 (prePrepareMsgsOfRestrictions st)
                   else Inr (prePrepareMsgsOfRestrictions st)) (\<lambda>pps.
              Inr (st\<lparr>minRestrictionOfPendingView := mn, maxRestrictionOfPendingView := mx, restrictionsOfPendingView := rs,
                      prePrepareMsgsOfRestrictions := pps\<rparr>)))))))"

text \<open>The sequence numbers whose restriction lacks its message; \<open>stop\<close> ends the search at the first one.\<close>

fun missing_loop :: "bool \<Rightarrow> Restriction list \<Rightarrow> MessageBase option list \<Rightarrow> nat \<Rightarrow> SeqNum \<Rightarrow> nat \<Rightarrow> SeqNum list result" where
  "missing_loop stop rs pps 0 i idx = Inr []"
| "missing_loop stop rs pps (Suc k) i idx =
     rbind (arr_get rs idx) (\<lambda>r. rbind (if isNull r then Inr False else rpred (arr_get pps idx) (\<lambda>p. p = None)) (\<lambda>miss.
       if miss \<and> stop then Inr [i]
       else rbind (missing_loop stop rs pps k (i + 1) (idx + 1)) (\<lambda>is. Inr (if miss then i # is else is))))"

definition missing_from :: "bool \<Rightarrow> SeqNum \<Rightarrow> ViewsManager \<Rightarrow> SeqNum list result" where
  "missing_from stop currentLastStable st =
     (let mn = minRestrictionOfPendingView st;
          firstRelevant = max mn (currentLastStable + 1)
      in missing_loop stop (restrictionsOfPendingView st) (prePrepareMsgsOfRestrictions st)
           (nat (maxRestrictionOfPendingView st - firstRelevant + 1)) firstRelevant (nat (firstRelevant - mn)))"

definition hasMissingPrePrepareMsgs :: "SeqNum \<Rightarrow> ViewsManager \<Rightarrow> bool result" where
  "hasMissingPrePrepareMsgs currentLastStable st =
     c_assert (stat st = PENDING_WITH_RESTRICTIONS)
      (if minRestrictionOfPendingView st = 0 then Inr False
       else rpred (missing_from True currentLastStable st) (\<lambda>is. is \<noteq> []))"

definition getNumbersOfMissingPP :: "SeqNum \<Rightarrow> ViewsManager \<Rightarrow> (bool \<times> SeqNum list) result" where
  "getNumbersOfMissingPP currentLastStable st =
     (if stat st \<noteq> PENDING_WITH_RESTRICTIONS then Inr (False, [])
      else if minRestrictionOfPendingView st = 0 then Inr (False, [])
      else rbind (missing_from False currentLastStable st) (\<lambda>outMissingPPNumbers. Inr (outMissingPPNumbers \<noteq> [], outMissingPPNumbers)))"

definition hasRelevantRestriction :: "SeqNum \<Rightarrow> ViewsManager \<Rightarrow> bool" where
  "hasRelevantRestriction s st \<longleftrightarrow>
     minRestrictionOfPendingView st \<noteq> 0 \<and> s \<ge> minRestrictionOfPendingView st \<and> s \<le> maxRestrictionOfPendingView st"

definition addPotentiallyMissingPP :: "MessageBase \<Rightarrow> ViewsManager \<Rightarrow> (bool \<times> ViewsManager) result" where
  "addPotentiallyMissingPP p st =
     c_assert (stat st = PENDING_WITH_RESTRICTIONS)
      (rbind (pp_isNull p) (\<lambda>nl. c_assert (\<not> nl)
        (rbind (pp_seqNumber p) (\<lambda>s.
          if hasRelevantRestriction s st
          then let idx = nat (s - minRestrictionOfPendingView st)
               in c_assert (int idx < kWorkWindow)
                 (rbind (arr_get (restrictionsOfPendingView st) idx) (\<lambda>r. rbind (arr_get (prePrepareMsgsOfRestrictions st) idx) (\<lambda>q.
                   rbind (if q = None \<and> \<not> isNull r then rpred (pp_digestOfRequests p) (\<lambda>d. r_digest r = d) else Inr False) (\<lambda>needed.
                     if needed
                     then Inr (True, st\<lparr>prePrepareMsgsOfRestrictions := (prePrepareMsgsOfRestrictions st)[idx := Some p]\<rparr>)
                     else Inr (False, st)))))
          else Inr (False, st)))))"

text \<open>The check of a message that \<^verbatim>\<open>getPrePrepare\<close> returns.\<close>

definition checked_pp :: "SeqNum \<Rightarrow> MessageBase option \<Rightarrow> MessageBase option result" where
  "checked_pp s p =
     (case p of
        None \<Rightarrow> Inr None
      | Some pp \<Rightarrow> rbind (pp_seqNumber pp) (\<lambda>s'. rbind (if s' = s then pp_isNull pp else Inr True) (\<lambda>nl. c_assert (s' = s \<and> \<not> nl) (Inr p))))"

definition getPrePrepare :: "SeqNum \<Rightarrow> ViewsManager \<Rightarrow> MessageBase option result" where
  "getPrePrepare s st =
     c_assert (stat st \<noteq> IN_VIEW)
      (if stat st = PENDING_WITH_RESTRICTIONS
       then if \<not> hasRelevantRestriction s st then Inr None
            else let idx = nat (s - minRestrictionOfPendingView st)
                 in c_assert (int idx < kWorkWindow)
                     (rbind (arr_get (restrictionsOfPendingView st) idx) (\<lambda>r. if isNull r then Inr None
                       else rbind (arr_get (prePrepareMsgsOfRestrictions st) idx) (\<lambda>p. checked_pp s p)))
       else checked_pp s (map_of (collectionOfPrePrepareMsgs st) s))"

section \<open>Entering a view\<close>

text \<open>The loop over the restrictions that are stable already: their messages are released.\<close>

fun release_stable :: "Restriction list \<Rightarrow> nat \<Rightarrow> SeqNum \<Rightarrow> nat \<Rightarrow> MessageBase option list \<Rightarrow> MessageBase option list result" where
  "release_stable rs 0 i idx pps = Inr pps"
| "release_stable rs (Suc k) i idx pps =
     rbind (arr_get rs idx) (\<lambda>r.
       if isNull r then release_stable rs k (i + 1) (idx + 1) pps
       else rbind (arr_get pps idx) (\<lambda>p. case p of
           None \<Rightarrow> release_stable rs k (i + 1) (idx + 1) pps
         | Some pp \<Rightarrow> rbind (pp_seqNumber pp) (\<lambda>s. c_assert (s = i) (release_stable rs k (i + 1) (idx + 1) (pps[idx := None])))))"

text \<open>The pre-prepare message of a sequence number without restriction: a null operation.\<close>

definition null_pp :: "VmEnv \<Rightarrow> ViewNum \<Rightarrow> SeqNum \<Rightarrow> MessageBase result" where
  "null_pp e v i = PrePrepareMsg_new (ve_env e) (vmId e) v i SLOW [] (48 # dec_digits (nat i)) 0"

text \<open>The loop that fills \<^verbatim>\<open>outPrePrepareMsgsOfView\<close>.\<close>

fun propose_again :: "VmEnv \<Rightarrow> ViewNum \<Rightarrow> Restriction list \<Rightarrow> nat \<Rightarrow> SeqNum \<Rightarrow> nat \<Rightarrow> MessageBase option list \<Rightarrow>
    (MessageBase list \<times> MessageBase option list) result" where
  "propose_again e v rs 0 i idx pps = Inr ([], pps)"
| "propose_again e v rs (Suc k) i idx pps =
     rbind (arr_get rs idx) (\<lambda>r. rbind (arr_get pps idx) (\<lambda>p.
       if isNull r
       then c_assert (p = None)
             (rbind (null_pp e v i) (\<lambda>pp. rbind (propose_again e v rs k (i + 1) (idx + 1) pps) (\<lambda>(out, pps'). Inr (pp # out, pps'))))
       else case p of
           None \<Rightarrow> Inl AssertFailed
         | Some pp \<Rightarrow> rbind (pp_seqNumber pp) (\<lambda>s. c_assert (s = i)
             (rbind (pp_updateView v SLOW pp) (\<lambda>pp'.
               rbind (propose_again e v rs k (i + 1) (idx + 1) (pps[idx := None])) (\<lambda>(out, pps'). Inr (pp' # out, pps')))))))"

definition enter_view :: "VmEnv \<Rightarrow> ViewNum \<Rightarrow> SeqNum \<Rightarrow> ViewsManager \<Rightarrow> (bool \<times> MessageBase list \<times> ViewsManager) result" where
  "enter_view e v currentLastStable st =
     (let mn = minRestrictionOfPendingView st;
          mx = maxRestrictionOfPendingView st;
          rs = restrictionsOfPendingView st;
          firstRelevant = min (mx + 1) (max mn (currentLastStable + 1))
      in rbind (if mn \<noteq> 0
                then rbind (release_stable rs (nat (firstRelevant - mn)) mn 0 (prePrepareMsgsOfRestrictions st)) (\<lambda>pps.
                       propose_again e v rs (nat (mx - firstRelevant + 1)) firstRelevant (nat (firstRelevant - mn)) pps)
                else Inr ([], prePrepareMsgsOfRestrictions st)) (\<lambda>(out, pps).
           Inr (True, out, st\<lparr>stat := IN_VIEW, myLatestActiveView := v, collectionOfPrePrepareMsgs := [],
                              prePrepareMsgsOfRestrictions := pps\<rparr>)))"

text \<open>The move to a new pending view, with the lower bound of the stable sequence number.\<close>

definition new_pending_view :: "VmEnv \<Rightarrow> ViewNum \<Rightarrow> SeqNum \<Rightarrow> ViewsManager \<Rightarrow> (bool \<times> ViewsManager) result" where
  "new_pending_view e v currentLastStable st =
     (let st1 = st\<lparr>stat := NO_VIEW\<rparr>
      in rbind (if primaryOfView (ve_ri e) v = vmId e then tryMoveToPendingViewAsPrimary e v st1
                else tryMoveToPendingViewAsNonPrimary e v st1) (\<lambda>(newPendingView, st2).
           if \<not> newPendingView then Inr (False, st2)
           else rbind (calcLBStableForView (vmF e) (vmC e) (viewChangeMsgsOfPendingView st2)) (\<lambda>t1.
             let t2 = max currentLastStable (lowerBoundStableForPendingView st2);
                 lb = max t1 t2
             in Inr (\<not> currentLastStable < lb, st2\<lparr>stat := PENDING, lowerBoundStableForPendingView := lb\<rparr>))))"

definition tryToEnterView :: "VmEnv \<Rightarrow> ViewNum \<Rightarrow> SeqNum \<Rightarrow> SeqNum \<Rightarrow> ViewsManager \<Rightarrow> (bool \<times> MessageBase list \<times> ViewsManager) result" where
  "tryToEnterView e v currentLastStable currentLastExecuted st =
     c_assert (stat st \<noteq> IN_VIEW) (c_assert (v > myLatestActiveView st) (c_assert (v \<ge> myLatestPendingView st)
      (c_assert (v \<ge> debugHighestViewNumberPassedByClient st \<and> currentLastStable \<ge> debugHighestKnownStable st)
       (let st1 = st\<lparr>debugHighestKnownStable := currentLastStable, debugHighestViewNumberPassedByClient := v\<rparr>
        in if currentLastExecuted < currentLastStable then Inr (False, [], st1)
           else if currentLastStable < lowerBoundStableForPendingView st1 then Inr (False, [], st1)
           else rbind (if v > myLatestPendingView st1 then new_pending_view e v currentLastStable st1 else Inr (True, st1)) (\<lambda>(go, st2).
             if \<not> go then Inr (False, [], st2)
             else c_assert (v = myLatestPendingView st2)
              (rbind (if stat st2 = PENDING
                      then rbind (computeRestrictionsOfNewView e v st2) (\<lambda>st'. Inr (st'\<lparr>stat := PENDING_WITH_RESTRICTIONS\<rparr>))
                      else Inr st2) (\<lambda>st3.
                if stat st3 \<noteq> PENDING_WITH_RESTRICTIONS then Inr (False, [], st3)
                else rbind (hasMissingPrePrepareMsgs currentLastStable st3) (\<lambda>missing.
                  if missing then Inr (False, [], st3) else enter_view e v currentLastStable st3))))))))"

section \<open>Complaints and the move to a higher view\<close>

definition hasQuorumToLeaveView :: "VmEnv \<Rightarrow> ViewsManager \<Rightarrow> bool" where
  "hasQuorumToLeaveView e st \<longleftrightarrow> lvi_hasQuorumToLeaveView (vmF e) (complainedReplicas st)"

definition hasQuorumToJumpToHigherView :: "VmEnv \<Rightarrow> ViewsManager \<Rightarrow> bool" where
  "hasQuorumToJumpToHigherView e st \<longleftrightarrow> lvi_hasQuorumToLeaveView (vmF e) (complainedReplicasForHigherView st)"

definition storeComplaint :: "MessageBase \<Rightarrow> ViewsManager \<Rightarrow> ViewsManager result" where
  "storeComplaint complaintMessage st =
     rbind (lv_viewNumber complaintMessage) (\<lambda>v. c_assert (v = myCurrentView st)
      (rbind (lvi_store complaintMessage (complainedReplicas st)) (\<lambda>msgs. Inr (st\<lparr>complainedReplicas := msgs\<rparr>))))"

definition storeComplaintForHigherView :: "MessageBase \<Rightarrow> ViewsManager \<Rightarrow> ViewsManager result" where
  "storeComplaintForHigherView complaintMessage st =
     c_assert (targetView st > 0)
      (rbind (lv_viewNumber complaintMessage) (\<lambda>v. rbind (s64_plus v 1) (\<lambda>v'. c_assert (v' = targetView st)
       (rbind (lvi_store complaintMessage (complainedReplicasForHigherView st)) (\<lambda>msgs.
          Inr (st\<lparr>complainedReplicasForHigherView := msgs\<rparr>))))))"

fun set_complaints :: "MessageBase list \<Rightarrow> MessageBase \<Rightarrow> MessageBase result" where
  "set_complaints [] m = Inr m"
| "set_complaints (c # cs) m =
     rbind (lv_idOfGeneratedReplica c) (\<lambda>i. rbind (setComplaintFromReplica i m) (\<lambda>m'. set_complaints cs m'))"

definition addComplaintsToStatusMessage :: "ViewsManager \<Rightarrow> MessageBase \<Rightarrow> MessageBase result" where
  "addComplaintsToStatusMessage st replicaStatusMessage =
     set_complaints (lvi_getAllMsgs False (complainedReplicas st)) replicaStatusMessage"

fun set_missing_vcs :: "VmEnv \<Rightarrow> ViewsManager \<Rightarrow> nat list \<Rightarrow> MessageBase \<Rightarrow> MessageBase result" where
  "set_missing_vcs e st [] m = Inr m"
| "set_missing_vcs e st (i # is) m =
     rbind (hasViewChangeMessageForFutureView e i st) (\<lambda>has.
       rbind (if has then Inr m else setMissingViewChangeMsgForViewChange i m) (\<lambda>m'. set_missing_vcs e st is m'))"

fun set_missing_pps :: "SeqNum \<Rightarrow> SeqNum list \<Rightarrow> MessageBase \<Rightarrow> MessageBase result" where
  "set_missing_pps lastStableSeqNum [] m = Inr m"
| "set_missing_pps lastStableSeqNum (i # is) m =
     c_assert (i > lastStableSeqNum) (c_assert (i \<le> lastStableSeqNum + kWorkWindow)
      (rbind (setMissingPrePrepareMsgForViewChange i m) (\<lambda>m'. set_missing_pps lastStableSeqNum is m')))"

definition fillPropertiesOfStatusMessage :: "VmEnv \<Rightarrow> SeqNum \<Rightarrow> ViewsManager \<Rightarrow> MessageBase \<Rightarrow> MessageBase result" where
  "fillPropertiesOfStatusMessage e lastStableSeqNum st replicaStatusMsg =
     (let currentView = myCurrentView st
      in if viewIsActive currentView st then Inr replicaStatusMsg
         else if \<not> viewIsPending currentView st then set_missing_vcs e st (idsOfPeerReplicas (ve_ri e)) replicaStatusMsg
         else rbind (getNumbersOfMissingPP lastStableSeqNum st) (\<lambda>(some, missPP).
                if some then set_missing_pps lastStableSeqNum missPP replicaStatusMsg else Inr replicaStatusMsg))"

fun add_complaints :: "VmEnv \<Rightarrow> MessageBase list \<Rightarrow> MessageBase \<Rightarrow> MessageBase result" where
  "add_complaints e [] pVC = Inr pVC"
| "add_complaints e (c # cs) pVC = rbind (vc_addComplaint (ve_env e) c pVC) (\<lambda>vc. add_complaints e cs vc)"

definition insertStoredComplaintsIntoVCMsg :: "VmEnv \<Rightarrow> MessageBase \<Rightarrow> ViewsManager \<Rightarrow> (MessageBase \<times> ViewsManager) result" where
  "insertStoredComplaintsIntoVCMsg e pVC st =
     rbind (add_complaints e (lvi_getAllMsgs True (complainedReplicas st)) pVC) (\<lambda>vc. Inr (vc, st\<lparr>complainedReplicas := []\<rparr>))"

text \<open>
  The message that is changed in place is the replica's own one: in the pending view if \<open>pend\<close>, and otherwise in
  \<^verbatim>\<open>viewChangeMessages\<close>. The last steps of the function are the same in both of its cases.
\<close>

definition complete_my_vc :: "VmEnv \<Rightarrow> ViewNum \<Rightarrow> bool \<Rightarrow> MessageBase \<Rightarrow> ViewsManager \<Rightarrow> (MessageBase \<times> ViewsManager) result" where
  "complete_my_vc e nextView pend pVC st =
     rbind (insertStoredComplaintsIntoVCMsg e pVC st) (\<lambda>(vc1, st1).
       rbind (setHigherView nextView st1) (\<lambda>st2.
         rbind (vc_finalizeMessage (ve_env e) vc1) (\<lambda>vc2.
           Inr (vc2, if pend then st2\<lparr>viewChangeMsgsOfPendingView := (viewChangeMsgsOfPendingView st2)[vmId e := Some vc2]\<rparr>
                     else st2\<lparr>viewChangeMessages := (viewChangeMessages st2)[vmId e := Some vc2]\<rparr>))))"

definition prepareViewChangeMsgAndSetHigherView :: "VmEnv \<Rightarrow> (nat \<Rightarrow> bytes) \<Rightarrow> ViewNum \<Rightarrow> bool \<Rightarrow> SeqNum \<Rightarrow> SeqNum \<Rightarrow>
    PrevViewInfo list option \<Rightarrow> ViewsManager \<Rightarrow> (MessageBase \<times> ViewsManager) result" where
  "prepareViewChangeMsgAndSetHigherView e fresh nextView wasInPrevViewNumber lastStableSeqNum lastExecutedSeqNum prevViewInfo st =
     c_assert (myCurrentView st < nextView)
      (if \<not> wasInPrevViewNumber
       then rbind (getMyLatestViewChangeMsg e st) (\<lambda>p. case p of
              None \<Rightarrow> Inl AssertFailed
            | Some pVC \<Rightarrow>
                rbind (vc_setNewViewNumber nextView pVC) (\<lambda>vc1. rbind (vc_clearAllComplaints (ve_env e) fresh vc1) (\<lambda>vc2.
                  rbind (arr_get (viewChangeMsgsOfPendingView st) (vmId e)) (\<lambda>q. complete_my_vc e nextView (q \<noteq> None) vc2 st))))
       else case prevViewInfo of
              None \<Rightarrow> Inl AssertFailed
            | Some info \<Rightarrow>
                rbind (exitFromCurrentView e lastStableSeqNum lastExecutedSeqNum info st) (\<lambda>st1.
                  rbind (arr_get (viewChangeMessages st1) (vmId e)) (\<lambda>p. case p of
                     None \<Rightarrow> Inl AssertFailed
                   | Some pVC \<Rightarrow> rbind (vc_setNewViewNumber nextView pVC) (\<lambda>vc1. complete_my_vc e nextView False vc1 st1))))"

text \<open>One complaint of a view change message; \<open>msgValidator\<close> is an argument in the source too.\<close>

definition processComplaint :: "(MessageBase \<Rightarrow> bool) \<Rightarrow> MessageBase \<Rightarrow> ViewsManager \<Rightarrow> ViewsManager result" where
  "processComplaint msgValidator complaintMsg st =
     rbind (lv_viewNumber complaintMsg) (\<lambda>v. rbind (lv_idOfGeneratedReplica complaintMsg) (\<lambda>i.
       if targetView st = myCurrentView st + 1
       then if lvi_getComplaintFromReplica i (complainedReplicas st) \<noteq> None then Inr st
            else if v = myCurrentView st \<and> msgValidator complaintMsg then storeComplaint complaintMsg st
            else Inr st
       else rbind (s64_plus v 1) (\<lambda>v'.
              if v' = targetView st \<and> msgValidator complaintMsg then storeComplaintForHigherView complaintMsg st else Inr st)))"

text \<open>The loop over the complaints, which may still process \<open>k\<close> of them.\<close>

fun complaints_loop :: "VmEnv \<Rightarrow> (MessageBase \<Rightarrow> bool) \<Rightarrow> nat \<Rightarrow> nat \<Rightarrow> ComplaintsIterator \<Rightarrow> ViewsManager \<Rightarrow> ViewsManager result" where
  "complaints_loop e msgValidator src k iter st =
     (if targetView st > myCurrentView st \<and> \<not> (hasQuorumToLeaveView e st \<or> hasQuorumToJumpToHigherView e st)
      then rbind (ci_getAndGoToNext iter) (\<lambda>(complaint, iter'). case complaint of
             None \<Rightarrow> Inr st
           | Some c \<Rightarrow> (case k of
               0 \<Rightarrow> Inr st
             | Suc k' \<Rightarrow> rbind (processComplaint msgValidator (MessageBase_of src c True) st) (\<lambda>st'.
                 complaints_loop e msgValidator src k' iter' st')))
      else Inr st)"

definition processComplaintsFromViewChangeMessage :: "VmEnv \<Rightarrow> MessageBase \<Rightarrow> (MessageBase \<Rightarrow> bool) \<Rightarrow> ViewsManager \<Rightarrow> ViewsManager result" where
  "processComplaintsFromViewChangeMessage e msg msgValidator st =
     rbind (ComplaintsIterator_new (ve_env e) (Some msg)) (\<lambda>iter. rbind (vc_newView msg) (\<lambda>v.
       complaints_loop e msgValidator (sender msg) (vmF e + 2) iter (st\<lparr>targetView := v\<rparr>)))"

definition tryToJumpToHigherViewAndMoveComplaintsOnQuorum :: "VmEnv \<Rightarrow> MessageBase \<Rightarrow> ViewsManager \<Rightarrow> (bool \<times> ViewsManager) result" where
  "tryToJumpToHigherViewAndMoveComplaintsOnQuorum e msg st =
     (if hasQuorumToJumpToHigherView e st
      then rbind (vc_newView msg) (\<lambda>v. c_assert (v > myCurrentView st + 1)
             (Inr (True, st\<lparr>complainedReplicas := complainedReplicasForHigherView st, complainedReplicasForHigherView := []\<rparr>)))
      else Inr (False, st))"

section \<open>Creating the object from a stored state\<close>

fun check_prev_infos :: "ViewNum \<Rightarrow> PrevViewInfo list \<Rightarrow> bool result" where
  "check_prev_infos lastActiveView [] = Inr True"
| "check_prev_infos lastActiveView (i # is) =
     (case prePrepare i of
        None \<Rightarrow> Inr False
      | Some pp \<Rightarrow> rbind (pp_viewNumber pp) (\<lambda>v.
          if v \<noteq> lastActiveView \<or> \<not> hasAllRequests i then Inr False
          else case prepareFull i of
              None \<Rightarrow> check_prev_infos lastActiveView is
            | Some pf \<Rightarrow> rbind (ss_viewNumber pf) (\<lambda>w. rbind (ss_seqNumber pf) (\<lambda>s. rbind (pp_seqNumber pp) (\<lambda>s'.
                if w \<noteq> lastActiveView \<or> s \<noteq> s' then Inr False else check_prev_infos lastActiveView is)))))"

definition check_last_vc :: "VmEnv \<Rightarrow> ViewNum \<Rightarrow> SeqNum \<Rightarrow> MessageBase option \<Rightarrow> bool result" where
  "check_last_vc e lastActiveView lastStable myLastViewChange =
     (if lastActiveView > 0
      then (case myLastViewChange of
              None \<Rightarrow> Inr False
            | Some m \<Rightarrow> rbind (vc_idOfGeneratedReplica m) (\<lambda>i. rbind (vc_newView m) (\<lambda>v. rbind (vc_lastStable m) (\<lambda>ls.
                Inr (i = vmId e \<and> v = lastActiveView \<and> ls \<le> lastStable)))))
      else Inr (myLastViewChange = None))"

text \<open>The checks of the object that \<^verbatim>\<open>createOutsideView\<close> returns.\<close>

definition check_outside :: "VmEnv \<Rightarrow> ViewNum \<Rightarrow> SeqNum \<Rightarrow> ViewsManager \<Rightarrow> bool result" where
  "check_outside e lastActiveView lastStable v =
     (if stat v = NO_VIEW \<and> myLatestActiveView v = lastActiveView \<and> myLatestPendingView v = lastActiveView \<and>
         list_all (\<lambda>i. (viewChangeMessages v ! i = None \<or> i = vmId e) \<and> newViewMessages v ! i = None \<and>
           viewChangeMsgsOfPendingView v ! i = None) [0..<vmN e] \<and> newViewMsgOfPendingView v = None
      then rbind (arr_get (viewChangeMessages v) (vmId e)) (\<lambda>p. case p of
             None \<Rightarrow> Inl UndefinedBehaviour
           | Some m \<Rightarrow> rbind (vc_idOfGeneratedReplica m) (\<lambda>i. rbind (vc_newView m) (\<lambda>w. rbind (vc_lastStable m) (\<lambda>ls.
               Inr (i = vmId e \<and> w = lastActiveView + 1 \<and> ls = lastStable)))))
      else Inr False)"

definition createOutsideView :: "VmEnv \<Rightarrow> ViewNum \<Rightarrow> SeqNum \<Rightarrow> SeqNum \<Rightarrow> SeqNum \<Rightarrow> MessageBase option \<Rightarrow> PrevViewInfo list \<Rightarrow>
    MessageBase list \<Rightarrow> ViewsManager result" where
  "createOutsideView e lastActiveView lastStable lastExecuted stableLowerBound myLastViewChange elementsOfPrevView complaints =
     c_assert (lastActiveView \<ge> 0) (c_assert (lastStable \<ge> 0) (c_assert (lastExecuted \<ge> lastStable)
     (c_assert (stableLowerBound \<ge> 0 \<and> lastStable \<ge> stableLowerBound)
      (rbind (check_last_vc e lastActiveView lastStable myLastViewChange) (\<lambda>okVC. c_assert okVC
       (c_assert (int (length elementsOfPrevView) \<le> kWorkWindow)
        (rbind (check_prev_infos lastActiveView elementsOfPrevView) (\<lambda>okPrev. c_assert okPrev
         (rbind (ViewsManager_new e) (\<lambda>v0.
          rbind (arr_set (vmId e) myLastViewChange (viewChangeMessages v0)) (\<lambda>vcs.
          rbind (lvi_populate complaints []) (\<lambda>cr.
          rbind (exitFromCurrentView e lastStable lastExecuted elementsOfPrevView
                   (v0\<lparr>myLatestActiveView := lastActiveView, myLatestPendingView := lastActiveView, viewChangeMessages := vcs,
                       lowerBoundStableForPendingView := stableLowerBound, complainedReplicas := cr\<rparr>)) (\<lambda>v.
          rbind (check_outside e lastActiveView lastStable v) (\<lambda>ok. c_assert ok (Inr v)))))))))))))))"

definition createInsideViewZero :: "VmEnv \<Rightarrow> ViewsManager result" where
  "createInsideViewZero e = ViewsManager_new e"

text \<open>The generating replicas of the messages, each of which is for the view and is listed by the new view message.\<close>

fun listed_vcs :: "VmEnv \<Rightarrow> ViewNum \<Rightarrow> MessageBase \<Rightarrow> MessageBase list \<Rightarrow> nat list result" where
  "listed_vcs e view nv [] = Inr []"
| "listed_vcs e view nv (m # ms) =
     rbind (vc_newView m) (\<lambda>w. c_assert (w = view)
      (rbind (vc_getMsgDigest (ve_env e) m) (\<lambda>d. rbind (vc_idOfGeneratedReplica m) (\<lambda>i.
        rbind (includesViewChangeFromReplica i d nv) (\<lambda>inc. c_assert inc
          (rbind (listed_vcs e view nv ms) (\<lambda>is. Inr (i # is))))))))"

fun place_vcs :: "MessageBase list \<Rightarrow> MessageBase option list \<Rightarrow> MessageBase option list result" where
  "place_vcs [] pend = Inr pend"
| "place_vcs (m # ms) pend =
     rbind (vc_idOfGeneratedReplica m) (\<lambda>i. rbind (arr_get pend i) (\<lambda>q. c_assert (q = None)
       (rbind (arr_set i (Some m) pend) (\<lambda>pend'. place_vcs ms pend'))))"

definition check_my_vc :: "VmEnv \<Rightarrow> ViewNum \<Rightarrow> MessageBase \<Rightarrow> MessageBase option \<Rightarrow> bool result" where
  "check_my_vc e view nv p =
     (case p of
        None \<Rightarrow> Inr True
      | Some m \<Rightarrow> rbind (vc_newView m) (\<lambda>w. rbind (vc_getMsgDigest (ve_env e) m) (\<lambda>d. rbind (vc_idOfGeneratedReplica m) (\<lambda>i.
          rbind (includesViewChangeFromReplica (vmId e) d nv) (\<lambda>inc. Inr (w = view \<and> i = vmId e \<and> \<not> inc))))))"

definition createInsideView :: "VmEnv \<Rightarrow> ViewNum \<Rightarrow> SeqNum \<Rightarrow> MessageBase \<Rightarrow> MessageBase option \<Rightarrow> MessageBase list \<Rightarrow> ViewsManager result" where
  "createInsideView e view stableLowerBound nv myLastViewChange vcMsgs =
     c_assert (view \<ge> 1) (c_assert (stableLowerBound \<ge> 0)
     (rbind (nv_newView nv) (\<lambda>w. c_assert (w = view)
     (c_assert (length vcMsgs = 2 * vmF e + 2 * vmC e + 1)
      (rbind (listed_vcs e view nv vcMsgs) (\<lambda>replicasWithVCMsg.
        c_assert (distinct replicasWithVCMsg)
        (c_assert (vmId e \<in> set replicasWithVCMsg \<or> myLastViewChange \<noteq> None)
         (rbind (check_my_vc e view nv myLastViewChange) (\<lambda>ok. c_assert ok
          (rbind (ViewsManager_new e) (\<lambda>v.
           rbind (place_vcs vcMsgs (viewChangeMsgsOfPendingView v)) (\<lambda>pend.
           rbind (arr_get pend (vmId e)) (\<lambda>mine.
            c_assert (mine \<noteq> None \<or> myLastViewChange \<noteq> None)
             (Inr (v\<lparr>myCurrentView := view, myLatestActiveView := view, myLatestPendingView := view,
                     viewChangeMsgsOfPendingView := pend, newViewMsgOfPendingView := Some nv,
                     viewChangeMessages := (if mine = None then (viewChangeMessages v)[vmId e := myLastViewChange] else viewChangeMessages v),
                     lowerBoundStableForPendingView := stableLowerBound\<rparr>)))))))))))))))"

text \<open>
  What the constructor of ReplicaImp does with the object that was created from the stored state: it sets the current view, and
  outside of a view it completes the own view change message, in place.
\<close>

definition replica_recovers :: "VmEnv \<Rightarrow> ViewsManager \<Rightarrow> ViewsManager result" where
  "replica_recovers e st =
     (let lastAgreedView = myLatestActiveView st
      in if viewIsActive lastAgreedView st then Inr (setViewFromRecovery lastAgreedView st)
         else let st1 = setViewFromRecovery (lastAgreedView + 1) st
              in rbind (getMyLatestViewChangeMsg e st1) (\<lambda>p. case p of
                   None \<Rightarrow> Inl AssertFailed
                 | Some t \<Rightarrow>
                     rbind (vc_newView t) (\<lambda>w. c_assert (w = myCurrentView st1)
                      (rbind (insertStoredComplaintsIntoVCMsg e t st1) (\<lambda>(t1, st2).
                       rbind (vc_finalizeMessage (ve_env e) t1) (\<lambda>t2.
                        rbind (arr_get (viewChangeMsgsOfPendingView st2) (vmId e)) (\<lambda>q.
                          Inr (if q \<noteq> None then st2\<lparr>viewChangeMsgsOfPendingView := (viewChangeMsgsOfPendingView st2)[vmId e := Some t2]\<rparr>
                               else st2\<lparr>viewChangeMessages := (viewChangeMessages st2)[vmId e := Some t2]\<rparr>))))))))"

end
