(* ===== verification/View_Entry.thy ===== *)
theory View_Entry
  imports Views_Manager
begin

text \<open>
  What a replica does when it enters a view: the invariant of the class ViewsManager, and that the pre-prepare messages of the
  new view are those that the restrictions of a quorum of view change messages ask for.
\<close>

section \<open>Arrays\<close>

lemma arr_get_Inr [simp]: "arr_get xs i = Inr x \<longleftrightarrow> i < length xs \<and> x = xs ! i"
  by (auto simp: arr_get_def)

lemma arr_set_Inr [simp]: "arr_set i x xs = Inr ys \<longleftrightarrow> i < length xs \<and> ys = xs[i := x]"
  by (auto simp: arr_set_def)

lemma rpred_Inr_iff [simp]: "rpred r P = Inr b \<longleftrightarrow> (\<exists>x. r = Inr x \<and> b = P x)"
  by (auto simp: rpred_def)

section \<open>The loops over the restrictions\<close>

lemma restrict_loop_length: "restrict_loop vf F C nd ub k s i its l arr = Inr (l', arr') \<Longrightarrow> length arr' = length arr"
  by (induction k arbitrary: s i its l arr) (auto split: if_splits)

text \<open>The range that \<^verbatim>\<open>computeRestrictions\<close> returns.\<close>

definition range_ok :: "SeqNum \<Rightarrow> SeqNum \<Rightarrow> SeqNum \<Rightarrow> bool" where
  "range_ok lb mn mx \<longleftrightarrow> mn = 0 \<and> mx = 0 \<or> mn = lb + 1 \<and> lb < mx \<and> mx \<le> lb + kWorkWindow \<and> mx < 2 ^ 63"

lemma computeRestrictions_range:
  assumes "computeRestrictions vf F C nd vcs lb arr = Inr (mn, mx, arr')"
  shows "range_ok lb mn mx" "length arr' = length arr"
  using assms restrict_loop_length
  by (auto simp: computeRestrictions_def Let_def range_ok_def s64_plus_def kWorkWindow_def checkpointWindow_def split: if_splits)

lemma fill_restrictions_sound:
  assumes "fill_restrictions coll rs k i idx pps = Inr pps'"
  shows "length pps' = length pps \<and> (\<forall>j pp. pps' ! j = Some pp \<longrightarrow> pps ! j = Some pp \<or>
    idx \<le> j \<and> j < idx + k \<and> j < length pps \<and> \<not> isNull (rs ! j) \<and> map_of coll (i + int j - int idx) = Some pp \<and>
      pp_digestOfRequests pp = Inr (r_digest (rs ! j)))"
  using assms
proof (induction k arbitrary: i idx pps)
  case (Suc k)
  from Suc.prems obtain q where idx: "idx < length pps" "idx < length rs" and q: "length q = length pps"
    "fill_restrictions coll rs k (i + 1) (idx + 1) q = Inr pps'"
    "q = pps \<or> (\<exists>pp. \<not> isNull (rs ! idx) \<and> map_of coll i = Some pp \<and> pp_digestOfRequests pp = Inr (r_digest (rs ! idx)) \<and> q = pps[idx := Some pp])"
    by (auto split: if_splits option.splits) (metis length_list_update)
  show ?case
  proof (intro conjI allI impI)
    show "length pps' = length pps" using Suc.IH [OF q(2)] q(1) by simp
    fix j pp assume "pps' ! j = Some pp"
    then consider "q ! j = Some pp" | "idx + 1 \<le> j" "j < idx + 1 + k" "j < length q" "\<not> isNull (rs ! j)"
      "map_of coll (i + 1 + int j - int (idx + 1)) = Some pp" "pp_digestOfRequests pp = Inr (r_digest (rs ! j))"
      using Suc.IH [OF q(2)] by blast
    then show "pps ! j = Some pp \<or> idx \<le> j \<and> j < idx + Suc k \<and> j < length pps \<and> \<not> isNull (rs ! j) \<and>
        map_of coll (i + int j - int idx) = Some pp \<and> pp_digestOfRequests pp = Inr (r_digest (rs ! j))"
    proof cases
      case 1
      then show ?thesis using q(3) idx by (auto simp: nth_list_update split: if_splits)
    qed (use q(1) in \<open>auto simp: add_diff_eq\<close>)
  qed
qed simp

lemma missing_loop_none:
  assumes "missing_loop stop rs pps k i idx = Inr []" "idx \<le> j" "j < idx + k"
  shows "isNull (rs ! j) \<or> pps ! j \<noteq> None"
  using assms
proof (induction k arbitrary: i idx)
  case (Suc k)
  then show ?case by (cases "j = idx") (auto split: if_splits)
qed simp

lemma release_stable_sound:
  assumes "release_stable rs k i idx pps = Inr pps'"
  shows "length pps' = length pps \<and> (\<forall>j. pps' ! j = (if idx \<le> j \<and> j < idx + k \<and> j < length pps \<and> \<not> isNull (rs ! j) then None else pps ! j))"
  using assms
proof (induction k arbitrary: i idx pps)
  case (Suc k)
  from Suc.prems obtain q where idx: "isNull (rs ! idx) \<or> idx < length pps" and q: "length q = length pps"
    "release_stable rs k (i + 1) (idx + 1) q = Inr pps'"
    "q = (if isNull (rs ! idx) then pps else pps[idx := None])"
    by (auto simp: list_update_id split: if_splits option.splits) (metis list_update_id)
  have "pps' ! j = (if idx \<le> j \<and> j < idx + Suc k \<and> j < length pps \<and> \<not> isNull (rs ! j) then None else pps ! j)" for j
    using Suc.IH [OF q(2)] q(1,3) idx by (cases "j = idx") (auto simp: nth_list_update)
  then show ?case using Suc.IH [OF q(2)] q(1) by simp
qed auto


section \<open>The pre-prepare messages of a view\<close>

text \<open>A message that proposes the requests with digest \<open>d\<close> at the sequence number \<open>i\<close> of the view \<open>v\<close>.\<close>

definition pp_proposes :: "MessageBase \<Rightarrow> ViewNum \<Rightarrow> SeqNum \<Rightarrow> bytes \<Rightarrow> bool" where
  "pp_proposes pp v i d \<longleftrightarrow> pp_viewNumber pp = Inr v \<and> pp_seqNumber pp = Inr i \<and> pp_digestOfRequests pp = Inr d"

lemmas pp_reads = pp_viewNumber_def pp_seqNumber_def pp_digestOfRequests_def rd_s64_def

lemma updateView_proposes:
  assumes u: "pp_updateView v fp pp = Inr pp'" and s: "pp_seqNumber pp = Inr i" "pp_digestOfRequests pp = Inr d" and v: "is_s64 v"
  shows "pp_proposes pp' v i d"
proof -
  from u obtain fl b1 b2 where w: "wr 6 (le_s64 v) (msgBody pp) = Inr b1" "wr 30 (le_bytes 2 fl) b1 = Inr b2" "msgBody pp' = b2"
    by (auto simp: pp_updateView_def)
  have l: "length b1 = length (msgBody pp)" "length b2 = length (msgBody pp)" using w length_wr by fastforce+
  have "fld 6 8 b2 = le_nat (le_s64 v)" using fld_wr_same [OF w(1)] fld_wr_other [OF w(2), of 6 8] by simp
  moreover have "fld 14 8 b2 = fld 14 8 (msgBody pp)" using fld_wr_other [OF w(1), of 14 8] fld_wr_other [OF w(2), of 14 8] by simp
  moreover have "take 32 (drop 48 b2) = take 32 (drop 48 (msgBody pp))"
    using take_drop_wr_after [OF w(1), of 48 32] take_drop_wr_after [OF w(2), of 48 32] by simp
  moreover have "48 + 32 \<le> length (msgBody pp)" using s(2) by (auto simp: pp_digestOfRequests_def rd_bytes_Inr)
  ultimately show ?thesis using s v l by (auto simp: pp_proposes_def pp_reads rd_Inr rd_bytes_Inr w(3) s64_read)
qed


lemma PrePrepareMsg_new_null:
  assumes "PrePrepareMsg_new env src v i fp [] cid 0 = Inr pp" "is_s64 v" "is_s64 i"
  shows "pp_proposes pp v i nullDigest"
proof -
  obtain fl b0 b1 b2 where w: "wr 6 (le_s64 v @ le_s64 i @ le_bytes 8 (selfEpoch env) @ le_bytes 2 fl @ le_bytes 8 (length cid) @ le_s64 0 @
      nullDigest @ le_bytes 2 0 @ le_bytes 4 (86 + length cid)) b0 = Inr b1" "wr 86 cid b1 = Inr b2" "msgBody pp = b2"
    using assms(1) by (auto simp: PrePrepareMsg_new_def Let_def)
  have n: "length nullDigest = 32" by (simp add: nullDigest_def)
  have b1: "b1 = take 6 b0 @ (le_s64 v @ le_s64 i @ le_bytes 8 (selfEpoch env) @ le_bytes 2 fl @ le_bytes 8 (length cid) @ le_s64 0 @
      nullDigest @ le_bytes 2 0 @ le_bytes 4 (86 + length cid)) @ drop 86 b0" "86 \<le> length b0"
    using w(1) n by (auto simp: wr_def split: if_splits)
  have b2: "b2 = take 6 b0 @ (le_s64 v @ le_s64 i @ le_bytes 8 (selfEpoch env) @ le_bytes 2 fl @ le_bytes 8 (length cid) @ le_s64 0 @
      nullDigest @ le_bytes 2 0 @ le_bytes 4 (86 + length cid)) @ cid @ drop (86 + length cid) b1"
    using w(2) b1 n by (auto simp: wr_def split: if_splits)
  have "fld 6 8 b2 = le_nat (le_s64 v)" "fld 14 8 b2 = le_nat (le_s64 i)" "take 32 (drop 48 b2) = nullDigest" "86 \<le> length b2"
    unfolding b2 using b1(2) n by (simp_all add: fld_append1 fld_append2 fld_whole)
  then show ?thesis using assms(2,3) by (simp add: pp_proposes_def pp_reads rd_fld rd_bytes_def w(3) s64_read)
qed

lemma propose_again_sound:
  assumes "propose_again e v rs k i idx pps = Inr (out, pps')" "is_s64 v" "0 < k \<Longrightarrow> is_s64 i" "is_s64 (i + int k - 1)"
    "\<forall>j pp. idx \<le> j \<and> j < idx + k \<and> pps ! j = Some pp \<longrightarrow> pp_digestOfRequests pp = Inr (r_digest (rs ! j))"
  shows "length out = k \<and> (\<forall>n < k. pp_proposes (out ! n) v (i + int n) (if isNull (rs ! (idx + n)) then nullDigest else r_digest (rs ! (idx + n)))) \<and>
    length pps' = length pps \<and> (\<forall>j. pps' ! j = (if idx \<le> j \<and> j < idx + k then None else pps ! j))"
  using assms
proof (induction k arbitrary: i idx pps out)
  case (Suc k)
  define q where "q = (if isNull (rs ! idx) then pps else pps[idx := None])"
  from Suc.prems(1) obtain pp out' where idx: "idx < length pps" "isNull (rs ! idx) \<Longrightarrow> pps ! idx = None"
    and q: "propose_again e v rs k (i + 1) (idx + 1) q = Inr (out', pps')" "out = pp # out'"
    and pp: "if isNull (rs ! idx) then null_pp e v i = Inr pp
       else \<exists>p. pps ! idx = Some p \<and> pp_seqNumber p = Inr i \<and> pp_updateView v SLOW p = Inr pp"
    by (auto simp: q_def split: if_splits option.splits)
  have p: "pp_proposes pp v i (if isNull (rs ! idx) then nullDigest else r_digest (rs ! idx))"
  proof (cases "isNull (rs ! idx)")
    case True
    then show ?thesis using PrePrepareMsg_new_null [of "ve_env e" "vmId e" v i SLOW] pp Suc.prems(2,3) by (auto simp: null_pp_def)
  next
    case False
    then show ?thesis using pp Suc.prems(2,5) by (auto intro: updateView_proposes)
  qed
  have i1: "0 < k \<Longrightarrow> is_s64 (i + 1)" using Suc.prems(3,4) by (cases k) (auto simp: is_s64_def)
  have IH: "length out' = k \<and> (\<forall>n < k. pp_proposes (out' ! n) v (i + 1 + int n)
      (if isNull (rs ! (idx + 1 + n)) then nullDigest else r_digest (rs ! (idx + 1 + n)))) \<and>
    length pps' = length q \<and> (\<forall>j. pps' ! j = (if idx + 1 \<le> j \<and> j < idx + 1 + k then None else q ! j))"
  proof -
    have "is_s64 (i + 1 + int k - 1)" using Suc.prems(4) by simp
    moreover have "\<forall>j pp. idx + 1 \<le> j \<and> j < idx + 1 + k \<and> q ! j = Some pp \<longrightarrow> pp_digestOfRequests pp = Inr (r_digest (rs ! j))"
      using Suc.prems(5) by (auto simp: q_def)
    ultimately show ?thesis using Suc.IH [OF q(1) Suc.prems(2) i1] by blast
  qed
  have "pps' ! j = (if idx \<le> j \<and> j < idx + Suc k then None else pps ! j)" for j
    using IH idx by (cases "j = idx") (auto simp: q_def)
  moreover have "pp_proposes (out ! n) v (i + int n) (if isNull (rs ! (idx + n)) then nullDigest else r_digest (rs ! (idx + n)))" if "n < Suc k" for n
    using IH p that q(2) by (cases n) (auto simp: add.assoc)
  moreover have "length pps' = length pps" "length out = Suc k" using IH q(2) by (auto simp: q_def)
  ultimately show ?case by blast
qed auto

end
