(* ===== verification/Views_Invariant.thy ===== *)
theory Views_Invariant
  imports View_Entry
begin

text \<open>
  The invariant of the class ViewsManager, and that every operation keeps it: the messages of a pending view are those of a
  quorum, one per replica and all for this view; the restrictions are computed from them; the pre-prepare messages that wait for
  the new view are those that the restrictions name; and the stored complaints are from distinct replicas.
\<close>

lemma rbind_pairE: "rbind m (\<lambda>(a, b). k a b) = Inr v \<Longrightarrow> (\<And>a b. m = Inr (a, b) \<Longrightarrow> k a b = Inr v \<Longrightarrow> P) \<Longrightarrow> P"
  by auto

section \<open>The invariant\<close>

text \<open>The new view message lists the view change message.\<close>

definition nv_lists :: "VmEnv \<Rightarrow> MessageBase \<Rightarrow> MessageBase \<Rightarrow> bool" where
  "nv_lists e nv m \<longleftrightarrow> (\<exists>g d. vc_idOfGeneratedReplica m = Inr g \<and> vc_getMsgDigest (ve_env e) m = Inr d \<and> includesViewChangeFromReplica g d nv = Inr True)"

definition vc_slot :: "VmEnv \<Rightarrow> ViewNum \<Rightarrow> MessageBase \<Rightarrow> nat \<Rightarrow> MessageBase \<Rightarrow> bool" where
  "vc_slot e v nv i m \<longleftrightarrow> vc_newView m = Inr v \<and> (i \<noteq> vmId e \<longrightarrow> vc_idOfGeneratedReplica m = Inr i) \<and>
     (primaryOfView (ve_ri e) v \<noteq> vmId e \<longrightarrow> nv_lists e nv m)"

definition vc_quorum :: "VmEnv \<Rightarrow> ViewNum \<Rightarrow> MessageBase \<Rightarrow> MessageBase option list \<Rightarrow> bool" where
  "vc_quorum e v nv vcs \<longleftrightarrow> length vcs = vmN e \<and> length (received vcs) = SMAJOR e \<and>
     (\<forall>i m. i < vmN e \<and> vcs ! i = Some m \<longrightarrow> vc_slot e v nv i m)"

text \<open>The same, with nothing about the view of the own message.\<close>

definition vc_others :: "VmEnv \<Rightarrow> ViewNum \<Rightarrow> MessageBase \<Rightarrow> MessageBase option list \<Rightarrow> bool" where
  "vc_others e v nv vcs \<longleftrightarrow> length vcs = vmN e \<and> length (received vcs) = SMAJOR e \<and>
     (\<forall>i m. i < vmN e \<and> i \<noteq> vmId e \<and> vcs ! i = Some m \<longrightarrow> vc_slot e v nv i m)"

lemma vc_quorum_others: "vc_quorum e v nv vcs \<Longrightarrow> vc_others e v nv vcs"
  by (simp add: vc_quorum_def vc_others_def)

lemma length_received_update: "i < length xs \<Longrightarrow> xs ! i \<noteq> None \<Longrightarrow> length (received (xs[i := Some y])) = length (received xs)"
proof (induction xs arbitrary: i)
  case (Cons x xs)
  then show ?case by (cases i) (auto simp: received_def split: option.splits)
qed simp

lemma vc_others_update: "vc_others e v nv vcs \<Longrightarrow> vmId e < vmN e \<Longrightarrow> vcs ! vmId e \<noteq> None \<Longrightarrow> vc_others e v nv (vcs[vmId e := Some m])"
  by (auto simp: vc_others_def length_received_update)

definition vm_shape :: "VmEnv \<Rightarrow> ViewsManager \<Rightarrow> bool" where
  [inv_defs]: "vm_shape e st \<longleftrightarrow> length (viewChangeMessages st) = vmN e \<and> length (newViewMessages st) = vmN e \<and>
     length (viewChangeMsgsOfPendingView st) = vmN e \<and> length (restrictionsOfPendingView st) = 300 \<and>
     length (prePrepareMsgsOfRestrictions st) = 300"

definition vm_views :: "ViewsManager \<Rightarrow> bool" where
  [inv_defs]: "vm_views st \<longleftrightarrow> 0 \<le> myLatestActiveView st \<and> myLatestActiveView st \<le> myLatestPendingView st \<and>
     myLatestPendingView st \<le> myCurrentView st \<and> 0 \<le> lowerBoundStableForPendingView st \<and>
     (stat st = IN_VIEW \<longrightarrow> myLatestActiveView st = myLatestPendingView st) \<and>
     (stat st = PENDING \<or> stat st = PENDING_WITH_RESTRICTIONS \<longrightarrow>
        newViewMsgOfPendingView st \<noteq> None \<and> myLatestActiveView st < myLatestPendingView st)"

definition vm_slots :: "VmEnv \<Rightarrow> ViewsManager \<Rightarrow> bool" where
  [inv_defs]: "vm_slots e st \<longleftrightarrow>
     (\<forall>i m. i < vmN e \<and> i \<noteq> vmId e \<and> viewChangeMessages st ! i = Some m \<longrightarrow> vc_idOfGeneratedReplica m = Inr i)"

text \<open>
  The messages of the pending view are those of a quorum, from their replicas, for this view and, at a backup, listed in the new
  view message. The replica changes its own one of them in place when it moves on to a higher view; until then it is for this view
  and listed too.
\<close>

definition vm_pending :: "VmEnv \<Rightarrow> ViewsManager \<Rightarrow> bool" where
  [inv_defs]: "vm_pending e st \<longleftrightarrow>
     (newViewMsgOfPendingView st = None \<longrightarrow> set (viewChangeMsgsOfPendingView st) \<subseteq> {None}) \<and>
     (\<forall>nv. newViewMsgOfPendingView st = Some nv \<longrightarrow> vc_others e (myLatestPendingView st) nv (viewChangeMsgsOfPendingView st) \<and>
        (myCurrentView st = myLatestPendingView st \<longrightarrow> vc_quorum e (myLatestPendingView st) nv (viewChangeMsgsOfPendingView st)))"

definition vm_restricted :: "VmEnv \<Rightarrow> ViewsManager \<Rightarrow> bool" where
  [inv_defs]: "vm_restricted e st \<longleftrightarrow> (stat st = PENDING_WITH_RESTRICTIONS \<longrightarrow>
     range_ok (lowerBoundStableForPendingView st) (minRestrictionOfPendingView st) (maxRestrictionOfPendingView st) \<and>
     (myCurrentView st = myLatestPendingView st \<longrightarrow>
       (\<exists>old. computeRestrictions (ve_vf e) (vmF e) (vmC e) nullDigest (viewChangeMsgsOfPendingView st) (lowerBoundStableForPendingView st) old =
          Inr (minRestrictionOfPendingView st, maxRestrictionOfPendingView st, restrictionsOfPendingView st))))"

definition vm_waiting :: "ViewsManager \<Rightarrow> bool" where
  [inv_defs]: "vm_waiting st \<longleftrightarrow>
     (stat st \<noteq> PENDING_WITH_RESTRICTIONS \<longrightarrow> set (prePrepareMsgsOfRestrictions st) \<subseteq> {None}) \<and>
     (\<forall>j pp. j < 300 \<and> prePrepareMsgsOfRestrictions st ! j = Some pp \<longrightarrow>
        minRestrictionOfPendingView st \<noteq> 0 \<and> minRestrictionOfPendingView st + int j \<le> maxRestrictionOfPendingView st \<and>
        \<not> isNull (restrictionsOfPendingView st ! j) \<and> pp_seqNumber pp = Inr (minRestrictionOfPendingView st + int j) \<and>
        pp_digestOfRequests pp = Inr (r_digest (restrictionsOfPendingView st ! j)) \<and> pp_isNull pp = Inr False)"

definition coll_ok :: "(SeqNum \<times> MessageBase) list \<Rightarrow> bool" where
  "coll_ok coll \<longleftrightarrow> (\<forall>(s, pp) \<in> set coll. pp_seqNumber pp = Inr s \<and> pp_isNull pp = Inr False)"

definition vm_collection :: "ViewsManager \<Rightarrow> bool" where
  [inv_defs]: "vm_collection st \<longleftrightarrow> coll_ok (collectionOfPrePrepareMsgs st) \<and> (stat st = IN_VIEW \<longrightarrow> collectionOfPrePrepareMsgs st = [])"

definition complaints_ok :: "(MessageBase \<Rightarrow> bool) \<Rightarrow> complaints \<Rightarrow> bool" where
  "complaints_ok valid msgs \<longleftrightarrow> distinct (map fst msgs) \<and> (\<forall>(i, m) \<in> set msgs. lv_idOfGeneratedReplica m = Inr i \<and> valid m)"

definition vm_complaints :: "(MessageBase \<Rightarrow> bool) \<Rightarrow> ViewsManager \<Rightarrow> bool" where
  [inv_defs]: "vm_complaints valid st \<longleftrightarrow> complaints_ok valid (complainedReplicas st) \<and> complaints_ok valid (complainedReplicasForHigherView st)"

definition vm_inv :: "VmEnv \<Rightarrow> (MessageBase \<Rightarrow> bool) \<Rightarrow> ViewsManager \<Rightarrow> bool" where
  "vm_inv e valid st \<longleftrightarrow> vm_shape e st \<and> vm_views st \<and> vm_slots e st \<and> vm_pending e st \<and> vm_restricted e st \<and> vm_waiting st \<and>
     vm_collection st \<and> vm_complaints valid st"

lemmas vm_inv_defs = vm_inv_def inv_defs

lemma complaints_ok_Nil [simp]: "complaints_ok valid []"
  by (simp add: complaints_ok_def)

lemma coll_ok_Nil [simp]: "coll_ok []"
  by (simp add: coll_ok_def)

section \<open>Simple operations\<close>

lemma ViewsManager_new_inv: "ViewsManager_new e = Inr st \<Longrightarrow> vm_inv e valid st"
  by (auto simp: ViewsManager_new_def vm_inv_defs simp del: replicate.simps replicate_Suc)

lemma vm_add_NewView_inv:
  assumes "vm_inv e valid st" "vm_add_NewView e m st = Inr (b, st')"
  shows "vm_inv e valid st'"
proof -
  have "st' = st \<or> (\<exists>i. st' = st\<lparr>newViewMessages := (newViewMessages st)[i := Some m]\<rparr>)"
    using assms(2) by (auto simp: vm_add_NewView_def split: if_splits)
  then show ?thesis using assms(1) by (elim disjE exE) (simp_all add: vm_inv_defs)
qed

lemma vm_add_ViewChange_inv:
  assumes "vm_inv e valid st" "vm_add_ViewChange e m st = Inr (b, st')"
  shows "vm_inv e valid st'"
proof -
  have "st' = st \<or> (\<exists>i. st' = st\<lparr>viewChangeMessages := (viewChangeMessages st)[i := Some m]\<rparr> \<and>
      vc_idOfGeneratedReplica m = Inr i \<and> i < length (viewChangeMessages st))"
    using assms(2) by (auto simp: vm_add_ViewChange_def split: if_splits)
  then show ?thesis using assms(1) by (elim disjE exE conjE) (simp_all add: vm_inv_defs nth_list_update)
qed

lemma setHigherView_inv: "vm_inv e valid st \<Longrightarrow> setHigherView v st = Inr st' \<Longrightarrow> vm_inv e valid st'"
  by (clarsimp simp: setHigherView_def) (simp add: vm_inv_defs)

lemma setViewFromRecovery_inv: "vm_inv e valid st \<Longrightarrow> myCurrentView st \<le> v \<Longrightarrow> vm_inv e valid (setViewFromRecovery v st)"
  by (cases "v = myCurrentView st") (simp_all add: setViewFromRecovery_def vm_inv_defs)

lemma clearComplaintsForHigherView_inv: "vm_inv e valid st \<Longrightarrow> vm_inv e valid (clearComplaintsForHigherView st)"
  by (simp add: clearComplaintsForHigherView_def vm_inv_defs)

lemma addPotentiallyMissingPP_inv:
  assumes i: "vm_inv e valid st" and a: "addPotentiallyMissingPP p st = Inr (b, st')"
  shows "vm_inv e valid st'"
proof (cases b)
  case True
  then obtain s idx where s: "pp_seqNumber p = Inr s" "hasRelevantRestriction s st" "idx = nat (s - minRestrictionOfPendingView st)"
    "stat st = PENDING_WITH_RESTRICTIONS" "\<not> isNull (restrictionsOfPendingView st ! idx)"
    "pp_digestOfRequests p = Inr (r_digest (restrictionsOfPendingView st ! idx))" "idx < length (prePrepareMsgsOfRestrictions st)" "pp_isNull p = Inr False"
    "st' = st\<lparr>prePrepareMsgsOfRestrictions := (prePrepareMsgsOfRestrictions st)[idx := Some p]\<rparr>"
    using a by (auto simp: addPotentiallyMissingPP_def Let_def split: if_splits)
  from i have w: "vm_waiting st" by (simp add: vm_inv_def)
  have "int idx = s - minRestrictionOfPendingView st" using s(2,3) by (simp add: hasRelevantRestriction_def)
  then have "vm_waiting st'"
    using w s(1,2,4-9) by (auto simp: vm_waiting_def hasRelevantRestriction_def nth_list_update split: if_splits)
  then show ?thesis using i s(9) by (simp add: vm_inv_def vm_shape_def vm_views_def vm_slots_def vm_pending_def vm_restricted_def vm_collection_def vm_complaints_def)
next
  case False
  then have "st' = st" using a by (auto simp: addPotentiallyMissingPP_def Let_def split: if_splits)
  then show ?thesis using i by simp
qed

section \<open>Complaints\<close>

lemma lvi_store_ok: "complaints_ok valid msgs \<Longrightarrow> valid m \<Longrightarrow> lvi_store m msgs = Inr msgs' \<Longrightarrow> complaints_ok valid msgs'"
  by (auto simp: lvi_store_def complaints_ok_def map_of_eq_None_iff split: if_splits)

lemma set_AList_update: "set (AList.update k v xs) \<subseteq> insert (k, v) (set xs)"
  by (induction xs) auto

lemma lvi_populate_ok:
  "complaints_ok valid msgs \<Longrightarrow> \<forall>m \<in> set ms. valid m \<Longrightarrow> lvi_populate ms msgs = Inr msgs' \<Longrightarrow> complaints_ok valid msgs'"
proof (induction ms arbitrary: msgs)
  case (Cons m ms)
  from Cons.prems obtain i where i: "lv_idOfGeneratedReplica m = Inr i" "lvi_populate ms (AList.update i m msgs) = Inr msgs'" by auto
  have "complaints_ok valid (AList.update i m msgs)"
    using Cons.prems(1,2) i(1) set_AList_update [of i m msgs] by (auto simp: complaints_ok_def distinct_update)
  then show ?case using Cons.IH [OF _ _ i(2)] Cons.prems(2) by simp
qed simp

lemma storeComplaint_inv: "vm_inv e valid st \<Longrightarrow> valid m \<Longrightarrow> storeComplaint m st = Inr st' \<Longrightarrow> vm_inv e valid st'"
  using lvi_store_ok [of valid "complainedReplicas st" m] by (clarsimp simp: storeComplaint_def) (simp add: vm_inv_defs)

lemma storeComplaintForHigherView_inv:
  "vm_inv e valid st \<Longrightarrow> valid m \<Longrightarrow> storeComplaintForHigherView m st = Inr st' \<Longrightarrow> vm_inv e valid st'"
  using lvi_store_ok [of valid "complainedReplicasForHigherView st" m] by (clarsimp simp: storeComplaintForHigherView_def) (simp add: vm_inv_defs)

lemma processComplaint_inv: "vm_inv e valid st \<Longrightarrow> processComplaint valid m st = Inr st' \<Longrightarrow> vm_inv e valid st'"
  by (auto simp: processComplaint_def intro: storeComplaint_inv storeComplaintForHigherView_inv split: if_splits)

declare complaints_loop.simps [simp del]

lemma complaints_loop_inv: "vm_inv e valid st \<Longrightarrow> complaints_loop e valid src k iter st = Inr st' \<Longrightarrow> vm_inv e valid st'"
proof (induction k arbitrary: iter st)
  case 0
  then show ?case by (subst (asm) complaints_loop.simps) (auto split: if_splits option.splits)
next
  case (Suc k)
  from Suc.prems(2) have "st' = st \<or> (\<exists>c st1 iter'. processComplaint valid (MessageBase_of src c True) st = Inr st1 \<and>
      complaints_loop e valid src k iter' st1 = Inr st')"
    by (subst (asm) complaints_loop.simps) (auto split: if_splits option.splits)
  then show ?case using Suc.IH Suc.prems(1) processComplaint_inv by blast
qed

lemma processComplaints_inv:
  assumes "vm_inv e valid st" "processComplaintsFromViewChangeMessage e msg valid st = Inr st'"
  shows "vm_inv e valid st'"
proof -
  obtain v k iter where "complaints_loop e valid (sender msg) k iter (st\<lparr>targetView := v\<rparr>) = Inr st'"
    using assms(2) by (auto simp: processComplaintsFromViewChangeMessage_def)
  moreover have "vm_inv e valid (st\<lparr>targetView := v\<rparr>)" using assms(1) by (simp add: vm_inv_defs)
  ultimately show ?thesis by (rule complaints_loop_inv [rotated])
qed

lemma tryToJump_inv: "vm_inv e valid st \<Longrightarrow> tryToJumpToHigherViewAndMoveComplaintsOnQuorum e msg st = Inr (b, st') \<Longrightarrow> vm_inv e valid st'"
  by (clarsimp simp: tryToJumpToHigherViewAndMoveComplaintsOnQuorum_def split: if_splits) (simp add: vm_inv_defs)


section \<open>Resetting the pending view\<close>

text \<open>What the invariant leaves of a state after the view is no longer pending or active.\<close>

definition vm_left :: "VmEnv \<Rightarrow> (MessageBase \<Rightarrow> bool) \<Rightarrow> ViewsManager \<Rightarrow> bool" where
  "vm_left e valid st \<longleftrightarrow> vm_shape e st \<and> vm_slots e st \<and> vm_complaints valid st \<and> coll_ok (collectionOfPrePrepareMsgs st) \<and>
     0 \<le> myLatestActiveView st \<and> myLatestActiveView st \<le> myLatestPendingView st \<and> myLatestPendingView st \<le> myCurrentView st \<and>
     0 \<le> lowerBoundStableForPendingView st \<and> stat st = NO_VIEW \<and>
     (newViewMsgOfPendingView st = None \<longrightarrow> set (viewChangeMsgsOfPendingView st) \<subseteq> {None} \<and> set (prePrepareMsgsOfRestrictions st) \<subseteq> {None}) \<and>
     (\<forall>j pp. j < 300 \<and> prePrepareMsgsOfRestrictions st ! j = Some pp \<longrightarrow>
        minRestrictionOfPendingView st \<noteq> 0 \<and> minRestrictionOfPendingView st + int j \<le> maxRestrictionOfPendingView st)"

text \<open>A state without an active or pending view.\<close>

definition vm_clear :: "VmEnv \<Rightarrow> (MessageBase \<Rightarrow> bool) \<Rightarrow> ViewsManager \<Rightarrow> bool" where
  "vm_clear e valid st \<longleftrightarrow> vm_inv e valid st \<and> stat st = NO_VIEW \<and> newViewMsgOfPendingView st = None"

lemma vm_inv_left:
  assumes "vm_inv e valid st" "coll_ok coll"
  shows "vm_left e valid (st\<lparr>stat := NO_VIEW, debugHighestKnownStable := d, collectionOfPrePrepareMsgs := coll\<rparr>)"
proof -
  have "set (prePrepareMsgsOfRestrictions st) \<subseteq> {None}" if "newViewMsgOfPendingView st = None"
    using assms(1) that by (cases "stat st") (simp_all add: vm_inv_def vm_views_def vm_waiting_def)
  moreover have "set (viewChangeMsgsOfPendingView st) \<subseteq> {None}" if "newViewMsgOfPendingView st = None"
    using assms(1) that by (simp add: vm_inv_def vm_pending_def)
  ultimately show ?thesis using assms
    by (simp add: vm_left_def vm_inv_def vm_shape_def vm_views_def vm_slots_def vm_waiting_def vm_complaints_def)
qed

lemma set_None_nth: "set xs \<subseteq> {None} \<longleftrightarrow> (\<forall>j < length xs. xs ! j = None)"
  unfolding subset_iff by (metis in_set_conv_nth insert_iff empty_iff)

lemma vm_waiting_None:
  assumes "set (prePrepareMsgsOfRestrictions st) \<subseteq> {None}" "length (prePrepareMsgsOfRestrictions st) = 300"
  shows "vm_waiting st"
  using assms by (auto simp: vm_waiting_def set_None_nth)

lemmas vm_inv_frames = vm_inv_def vm_shape_def vm_views_def vm_pending_def vm_restricted_def vm_collection_def vm_complaints_def

lemma reset_clear:
  assumes i: "vm_left e valid st" and r: "resetDataOfLatestPendingAndKeepMyViewChange e st = Inr st'"
  shows "vm_clear e valid st' \<and> myLatestActiveView st' = myLatestActiveView st \<and> myLatestPendingView st' = myLatestPendingView st \<and>
    myCurrentView st' = myCurrentView st \<and> lowerBoundStableForPendingView st' = lowerBoundStableForPendingView st"
proof (cases "newViewMsgOfPendingView st = None")
  case True
  then have "st' = st" using r by (simp add: resetDataOfLatestPendingAndKeepMyViewChange_def)
  moreover have "vm_waiting st" using i True by (intro vm_waiting_None) (simp_all add: vm_left_def vm_shape_def)
  ultimately show ?thesis using i True by (simp add: vm_clear_def vm_left_def vm_inv_frames)
next
  case False
  define mn mx where "mn = minRestrictionOfPendingView st" and "mx = maxRestrictionOfPendingView st"
  define pps where "pps = (if mn = 0 then prePrepareMsgsOfRestrictions st
    else replicate (nat (mx - mn + 1)) None @ drop (nat (mx - mn + 1)) (prePrepareMsgsOfRestrictions st))"
  define vcs where "vcs = (if viewChangeMsgsOfPendingView st ! vmId e = None then viewChangeMessages st
    else (viewChangeMessages st)[vmId e := viewChangeMsgsOfPendingView st ! vmId e])"
  have v: "length vcs = length (viewChangeMessages st)" "\<forall>i. i \<noteq> vmId e \<longrightarrow> vcs ! i = viewChangeMessages st ! i"
    by (simp_all add: vcs_def)
  have st': "st' = st\<lparr>viewChangeMessages := vcs, prePrepareMsgsOfRestrictions := pps, minRestrictionOfPendingView := 0,
      maxRestrictionOfPendingView := (if mn = 0 then mx else 0),
      viewChangeMsgsOfPendingView := replicate (length (viewChangeMsgsOfPendingView st)) None, newViewMsgOfPendingView := None\<rparr>"
    and mm: "mn = 0 \<or> mx - mn < kWorkWindow"
    using r False by (auto simp: resetDataOfLatestPendingAndKeepMyViewChange_def Let_def mn_def mx_def pps_def vcs_def split: if_splits)
  have sh: "length (prePrepareMsgsOfRestrictions st) = 300" using i by (simp add: vm_left_def vm_shape_def)
  have w: "mn \<noteq> 0 \<and> mn + int j \<le> mx" if "j < 300" "prePrepareMsgsOfRestrictions st ! j = Some pp" for j pp
    using i that unfolding vm_left_def mn_def mx_def by blast
  have l: "length pps = 300" using sh mm by (auto simp: pps_def kWorkWindow_def)
  have n: "pps ! j = None" if "j < 300" for j
  proof (cases "prePrepareMsgsOfRestrictions st ! j")
    case None
    then show ?thesis using sh that mm by (auto simp: pps_def nth_append kWorkWindow_def)
  next
    case (Some pp)
    then have "mn \<noteq> 0" "j < nat (mx - mn + 1)" using w [OF that Some] by auto
    then show ?thesis by (simp add: pps_def nth_append)
  qed
  then have "vm_waiting st'" using l by (intro vm_waiting_None) (simp_all add: st' set_None_nth)
  moreover have "vm_slots e st'" using i v(2) by (auto simp: st' vm_left_def vm_slots_def)
  ultimately show ?thesis using i v(1) l by (simp add: st' vm_clear_def vm_left_def vm_inv_frames set_None_nth)
qed


section \<open>Moving the messages to the pending view\<close>

lemma received_count:
  assumes "distinct is" "\<forall>i \<in> set is. i < length vcs" "\<forall>j < length vcs. vcs ! j \<noteq> None \<longleftrightarrow> j \<in> set is"
  shows "length (received vcs) = length is"
proof -
  have "length (received vcs) = length (filter (\<lambda>p. p \<noteq> None) vcs)" by (induction vcs) (auto simp: received_def)
  also have "\<dots> = card {i. i < length vcs \<and> vcs ! i \<noteq> None}" by (rule length_filter_conv_card)
  also have "{i. i < length vcs \<and> vcs ! i \<noteq> None} = set is" using assms(2,3) by auto
  also have "card (set is) = length is" using assms(1) by (rule distinct_card)
  finally show ?thesis .
qed

lemma move_to_pending_sound:
  assumes "move_to_pending is pend vcs = Inr (pend', vcs')" "distinct is"
  shows "length pend' = length pend \<and> length vcs' = length vcs \<and> (\<forall>i \<in> set is. i < length pend \<and> i < length vcs) \<and>
    (\<forall>j. pend' ! j = (if j \<in> set is then vcs ! j else pend ! j)) \<and> (\<forall>j. vcs' ! j = (if j \<in> set is then None else vcs ! j))"
  using assms
proof (induction "is" arbitrary: pend vcs)
  case (Cons i "is")
  then have l: "i < length pend" "i < length vcs" "i \<notin> set is" "distinct is"
    and m: "move_to_pending is (pend[i := vcs ! i]) (vcs[i := None]) = Inr (pend', vcs')" by auto
  show ?case using Cons.IH [OF m l(4)] l(1-3) by (auto simp: nth_list_update)
qed auto

lemma list_and_move_sound:
  assumes "list_and_move e v is nv pend vcs = Inr (nv', pend', vcs')" "distinct is"
  shows "length pend' = length pend \<and> length vcs' = length vcs \<and> (\<forall>i \<in> set is. i < length pend \<and> i < length vcs) \<and>
    (\<forall>j. pend' ! j = (if j \<in> set is then vcs ! j else pend ! j)) \<and> (\<forall>j. vcs' ! j = (if j \<in> set is then None else vcs ! j)) \<and>
    (\<forall>i \<in> set is. \<exists>m. vcs ! i = Some m \<and> vc_newView m = Inr v)"
  using assms
proof (induction "is" arbitrary: nv pend vcs)
  case (Cons i "is")
  then obtain vc nv1 where l: "i < length pend" "i < length vcs" "i \<notin> set is" "distinct is" "vcs ! i = Some vc" "vc_newView vc = Inr v"
    and m: "list_and_move e v is nv1 (pend[i := Some vc]) (vcs[i := None]) = Inr (nv', pend', vcs')"
    by (auto split: option.splits)
  show ?case using Cons.IH [OF m l(4)] l by (auto simp: nth_list_update) metis
qed auto

lemma nth_shift: "Suc i \<le> j \<Longrightarrow> (p # ps) ! (j - i) = ps ! (j - Suc i)"
  by (simp add: nth_Cons' flip: Suc_diff_Suc)

lemma related_of_backup_sound:
  assumes "related_of_backup e nv v i ps = Inr is"
  shows "distinct is \<and> (\<forall>j \<in> set is. i \<le> j \<and> j < i + length ps \<and> (\<exists>m. ps ! (j - i) = Some m \<and> vc_newView m = Inr v \<and> nv_lists e nv m))"
  using assms
proof (induction ps arbitrary: i "is")
  case (Cons p ps)
  then obtain js where js: "related_of_backup e nv v (i + 1) ps = Inr js"
    and c: "is = js \<or> is = i # js \<and> (\<exists>vc. p = Some vc \<and> vc_newView vc = Inr v \<and> nv_lists e nv vc)"
    by (cases p) (auto simp: nv_lists_def split: if_splits)
  show ?case using Cons.IH [OF js] c by (auto simp: nth_shift) fastforce+
qed simp

lemma related_of_primary_sound:
  assumes "related_of_primary e v i n ps = Inr is"
  shows "distinct is \<and> vmId e \<notin> set is \<and> (\<forall>j \<in> set is. i \<le> j \<and> j < i + length ps)"
  using assms
proof (induction ps arbitrary: i n "is")
  case (Cons p ps)
  then consider "is = [i]" "i \<noteq> vmId e" | n' where "related_of_primary e v (i + 1) n' ps = Inr is"
    | n' js where "related_of_primary e v (i + 1) n' ps = Inr js" "is = i # js" "i \<noteq> vmId e"
    by (auto split: if_splits option.splits)
  then show ?case
  proof cases
    case 2
    then show ?thesis using Cons.IH by fastforce
  next
    case 3
    then show ?thesis using Cons.IH by fastforce
  qed auto
qed simp


text \<open>The state in which the messages of the replicas \<open>is\<close> are those of the pending view.\<close>

definition pended :: "MessageBase option list \<Rightarrow> MessageBase option list \<Rightarrow> MessageBase option list \<Rightarrow> MessageBase \<Rightarrow> ViewNum \<Rightarrow> ViewsManager \<Rightarrow> ViewsManager" where
  "pended nvs vcs pend nv v st = st\<lparr>newViewMessages := nvs, viewChangeMessages := vcs, viewChangeMsgsOfPendingView := pend,
     newViewMsgOfPendingView := Some nv, myLatestPendingView := v\<rparr>"

lemma pended_inv:
  assumes i: "vm_clear e valid st" and v: "myLatestPendingView st < v" "myCurrentView st = v" and d: "distinct is" "length is = SMAJOR e"
    and m: "\<forall>i \<in> set is. \<exists>m. viewChangeMessages st ! i = Some m \<and> vc_newView m = Inr v \<and> (primaryOfView (ve_ri e) v \<noteq> vmId e \<longrightarrow> nv_lists e nv m)"
    and l: "length nvs = vmN e" "length vcs = vmN e" "length pend = vmN e" "\<forall>i \<in> set is. i < vmN e"
    and p: "\<forall>j. pend ! j = (if j \<in> set is then viewChangeMessages st ! j else viewChangeMsgsOfPendingView st ! j)"
      "\<forall>j. vcs ! j = (if j \<in> set is then None else viewChangeMessages st ! j)"
  shows "vm_inv e valid (pended nvs vcs pend nv v st)"
proof -
  have inv: "vm_inv e valid st" "stat st = NO_VIEW" "newViewMsgOfPendingView st = None" using i by (simp_all add: vm_clear_def)
  have none: "\<forall>j < vmN e. viewChangeMsgsOfPendingView st ! j = None" using inv(1,3) by (simp add: vm_inv_def vm_pending_def vm_shape_def set_None_nth)
  have slots: "vm_slots e st" using inv by (simp add: vm_inv_def)
  have "\<forall>j < length pend. pend ! j \<noteq> None \<longleftrightarrow> j \<in> set is" using p(1) none m l(3) by auto
  then have "length (received pend) = SMAJOR e" using received_count [OF d(1), of pend] l d(2) by simp
  moreover have "vc_slot e v nv j m" if "j < vmN e" "pend ! j = Some m" for j m
    using that p(1) none m slots by (auto simp: vc_slot_def vm_slots_def split: if_splits)
  ultimately have q: "vc_quorum e v nv pend" using l(3) by (simp add: vc_quorum_def)
  have "vm_slots e (pended nvs vcs pend nv v st)" using slots p(2) by (auto simp: vm_slots_def pended_def)
  moreover have "vm_waiting (pended nvs vcs pend nv v st)" using inv(1) by (simp add: pended_def vm_inv_def vm_waiting_def)
  ultimately show ?thesis using inv v l(1-3) q vc_quorum_others [OF q] by (simp add: pended_def vm_inv_frames)
qed


definition moved :: "VmEnv \<Rightarrow> (MessageBase \<Rightarrow> bool) \<Rightarrow> ViewNum \<Rightarrow> ViewsManager \<Rightarrow> bool \<Rightarrow> ViewsManager \<Rightarrow> bool" where
  "moved e valid v st b st' \<longleftrightarrow> vm_inv e valid st' \<and> stat st' = NO_VIEW \<and> myLatestActiveView st' = myLatestActiveView st \<and>
     myCurrentView st' = myCurrentView st \<and> lowerBoundStableForPendingView st' = lowerBoundStableForPendingView st \<and>
     (b \<longrightarrow> newViewMsgOfPendingView st' \<noteq> None \<and> myLatestPendingView st' = v)"

lemma clear_newViewMessages: "vm_clear e valid st \<Longrightarrow> vm_clear e valid (st\<lparr>newViewMessages := (newViewMessages st)[i := x]\<rparr>)"
  by (simp add: vm_clear_def vm_inv_defs)

lemma clear_moved_False: "vm_clear e valid st1 \<Longrightarrow> myLatestActiveView st1 = myLatestActiveView st \<Longrightarrow> myCurrentView st1 = myCurrentView st \<Longrightarrow>
    lowerBoundStableForPendingView st1 = lowerBoundStableForPendingView st \<Longrightarrow> moved e valid v st False st1"
  by (simp add: moved_def vm_clear_def)

lemma move_as_primary:
  assumes i: "vm_left e valid st" and v: "myCurrentView st = v" and t: "tryMoveToPendingViewAsPrimary e v st = Inr (b, st')"
  shows "moved e valid v st b st'"
proof -
  obtain st1 where r: "resetDataOfLatestPendingAndKeepMyViewChange e st = Inr st1"
    using t by (auto simp: tryMoveToPendingViewAsPrimary_def)
  define st2 where "st2 = st1\<lparr>newViewMessages := (newViewMessages st1)[vmId e := None]\<rparr>"
  note c1 = reset_clear [OF i r]
  have c2: "vm_clear e valid st2" using c1 by (simp add: st2_def clear_newViewMessages)
  have f2: "myLatestActiveView st2 = myLatestActiveView st" "myLatestPendingView st2 = myLatestPendingView st"
    "myCurrentView st2 = myCurrentView st" "lowerBoundStableForPendingView st2 = lowerBoundStableForPendingView st"
    using c1 by (simp_all add: st2_def)
  have pr: "primaryOfView (ve_ri e) v = vmId e" "myLatestPendingView st < v" "vmId e < length (viewChangeMessages st2)"
    using t r by (auto simp: tryMoveToPendingViewAsPrimary_def st2_def)
  obtain others where o: "related_of_primary e v 0 1 (viewChangeMessages st2) = Inr others"
    and res: "(b = False \<and> st' = st2) \<or> (\<exists>nv pend vcs. length (insort (vmId e) others) = SMAJOR e \<and> b \<and>
        list_and_move e v (insort (vmId e) others) (NewViewMsg_new (ve_env e) (vmId e) v []) (viewChangeMsgsOfPendingView st2)
          (viewChangeMessages st2) = Inr (nv, pend, vcs) \<and>
        st' = st2\<lparr>viewChangeMessages := vcs, viewChangeMsgsOfPendingView := pend, newViewMsgOfPendingView := Some nv, myLatestPendingView := v\<rparr>)"
    using t unfolding tryMoveToPendingViewAsPrimary_def r by (auto simp: Let_def st2_def split: if_splits)
  from res show ?thesis
  proof (elim disjE exE conjE)
    assume "b = False" "st' = st2"
    then show ?thesis using clear_moved_False [OF c2] f2 by simp
  next
    fix nv pend vcs
    assume len: "length (insort (vmId e) others) = SMAJOR e" and b: b
      and lm: "list_and_move e v (insort (vmId e) others) (NewViewMsg_new (ve_env e) (vmId e) v []) (viewChangeMsgsOfPendingView st2)
          (viewChangeMessages st2) = Inr (nv, pend, vcs)"
      and st': "st' = st2\<lparr>viewChangeMessages := vcs, viewChangeMsgsOfPendingView := pend, newViewMsgOfPendingView := Some nv, myLatestPendingView := v\<rparr>"
    have d: "distinct (insort (vmId e) others)" using related_of_primary_sound [OF o] by (simp add: distinct_insort)
    note s = list_and_move_sound [OF lm d]
    have sh: "vm_shape e st2" using c2 by (simp add: vm_clear_def vm_inv_def)
    have "vm_inv e valid (pended (newViewMessages st2) vcs pend nv v st2)"
      using s sh pr f2 v by (intro pended_inv [OF c2 _ _ d len]) (auto simp: vm_shape_def)
    moreover have "st' = pended (newViewMessages st2) vcs pend nv v st2" by (simp add: st' pended_def)
    ultimately show ?thesis using f2 b c2 by (simp add: moved_def pended_def vm_clear_def)
  qed
qed

lemma move_as_backup:
  assumes i: "vm_left e valid st" and v: "myCurrentView st = v" and t: "tryMoveToPendingViewAsNonPrimary e v st = Inr (b, st')"
  shows "moved e valid v st b st'"
proof -
  let ?p = "primaryOfView (ve_ri e) v"
  obtain st1 where r: "resetDataOfLatestPendingAndKeepMyViewChange e st = Inr st1"
    using t by (auto simp: tryMoveToPendingViewAsNonPrimary_def Let_def)
  note c1 = reset_clear [OF i r]
  have c: "vm_clear e valid st1" using c1 by simp
  have pr: "myLatestPendingView st < v" using t by (auto simp: tryMoveToPendingViewAsNonPrimary_def)
  have "(b = False \<and> st' = st1) \<or> (\<exists>nv rel pend vcs. related_of_backup e nv v 0 (viewChangeMessages st1) = Inr rel \<and> length rel = SMAJOR e \<and> b \<and>
        move_to_pending rel (viewChangeMsgsOfPendingView st1) (viewChangeMessages st1) = Inr (pend, vcs) \<and>
        st' = st1\<lparr>newViewMsgOfPendingView := Some nv, newViewMessages := (newViewMessages st1)[?p := None],
                 viewChangeMsgsOfPendingView := pend, viewChangeMessages := vcs, myLatestPendingView := v\<rparr>)"
    using t unfolding tryMoveToPendingViewAsNonPrimary_def r by (auto simp: Let_def split: if_splits option.splits)
  then show ?thesis
  proof (elim disjE exE conjE)
    assume "b = False" "st' = st1"
    then show ?thesis using clear_moved_False [OF c] c1 by simp
  next
    fix nv rel pend vcs
    assume rel: "related_of_backup e nv v 0 (viewChangeMessages st1) = Inr rel" and len: "length rel = SMAJOR e" and b: b
      and mv: "move_to_pending rel (viewChangeMsgsOfPendingView st1) (viewChangeMessages st1) = Inr (pend, vcs)"
      and st': "st' = st1\<lparr>newViewMsgOfPendingView := Some nv, newViewMessages := (newViewMessages st1)[?p := None],
                 viewChangeMsgsOfPendingView := pend, viewChangeMessages := vcs, myLatestPendingView := v\<rparr>"
    note q = related_of_backup_sound [OF rel]
    have d: "distinct rel" using q by simp
    note s = move_to_pending_sound [OF mv d]
    have sh: "vm_shape e st1" using c by (simp add: vm_clear_def vm_inv_def)
    have "vm_inv e valid (pended ((newViewMessages st1)[?p := None]) vcs pend nv v st1)"
      using s sh pr c1 v q by (intro pended_inv [OF c _ _ d len]) (auto simp: vm_shape_def)
    moreover have "st' = pended ((newViewMessages st1)[?p := None]) vcs pend nv v st1" by (simp add: st' pended_def)
    ultimately show ?thesis using c1 b by (simp add: moved_def pended_def vm_clear_def)
  qed
qed


section \<open>Entering a view\<close>

lemma new_pending_view_inv:
  assumes i: "vm_inv e valid st" and v: "myCurrentView st = v" "myLatestPendingView st < v" and n: "new_pending_view e v ls st = Inr (go, st')"
  shows "vm_inv e valid st' \<and> myCurrentView st' = v \<and>
    (go \<longrightarrow> stat st' = PENDING \<and> myLatestPendingView st' = v \<and> lowerBoundStableForPendingView st' \<le> ls)"
proof -
  have left: "vm_left e valid (st\<lparr>stat := NO_VIEW\<rparr>)"
    using vm_inv_left [OF i, of "collectionOfPrePrepareMsgs st" "debugHighestKnownStable st"] i
    by (simp add: vm_inv_def vm_collection_def)
  obtain b st2 where t: "(if primaryOfView (ve_ri e) v = vmId e then tryMoveToPendingViewAsPrimary e v (st\<lparr>stat := NO_VIEW\<rparr>)
      else tryMoveToPendingViewAsNonPrimary e v (st\<lparr>stat := NO_VIEW\<rparr>)) = Inr (b, st2)"
    and r: "(if \<not> b then Inr (False, st2) else rbind (calcLBStableForView (vmF e) (vmC e) (viewChangeMsgsOfPendingView st2)) (\<lambda>t1.
      Inr (\<not> ls < max t1 (max ls (lowerBoundStableForPendingView st2)),
        st2\<lparr>stat := PENDING, lowerBoundStableForPendingView := max t1 (max ls (lowerBoundStableForPendingView st2))\<rparr>))) = Inr (go, st')"
    using n unfolding new_pending_view_def Let_def by (rule rbind_pairE)
  have res: "if b then \<exists>lb. lowerBoundStableForPendingView st2 \<le> lb \<and> go = (\<not> ls < lb) \<and> st' = st2\<lparr>stat := PENDING, lowerBoundStableForPendingView := lb\<rparr>
      else go = False \<and> st' = st2"
  proof (cases b)
    case True
    then obtain t1 where "go = (\<not> ls < max t1 (max ls (lowerBoundStableForPendingView st2)))"
      "st' = st2\<lparr>stat := PENDING, lowerBoundStableForPendingView := max t1 (max ls (lowerBoundStableForPendingView st2))\<rparr>"
      using r by (simp del: max_less_iff_conj) blast
    moreover have "lowerBoundStableForPendingView st2 \<le> max t1 (max ls (lowerBoundStableForPendingView st2))" by simp
    ultimately have "\<exists>lb. lowerBoundStableForPendingView st2 \<le> lb \<and> go = (\<not> ls < lb) \<and>
        st' = st2\<lparr>stat := PENDING, lowerBoundStableForPendingView := lb\<rparr>" by blast
    then show ?thesis unfolding if_P [OF True] .
  qed (use r in auto)
  have m: "moved e valid v (st\<lparr>stat := NO_VIEW\<rparr>) b st2"
    using t left v(1) move_as_primary [of e valid "st\<lparr>stat := NO_VIEW\<rparr>" v b st2] move_as_backup [of e valid "st\<lparr>stat := NO_VIEW\<rparr>" v b st2]
    by (auto split: if_splits)
  show ?thesis
  proof (cases b)
    case False
    then show ?thesis using res m v by (simp add: moved_def)
  next
    case True
    then obtain lb where lb: "lowerBoundStableForPendingView st2 \<le> lb" "go = (\<not> ls < lb)"
      "st' = st2\<lparr>stat := PENDING, lowerBoundStableForPendingView := lb\<rparr>"
      using res by auto
    have act: "myLatestActiveView st < v" "0 \<le> lowerBoundStableForPendingView st" using i v by (simp_all add: vm_inv_def vm_views_def)
    have m2: "vm_inv e valid st2" "stat st2 = NO_VIEW" "newViewMsgOfPendingView st2 \<noteq> None" "myLatestPendingView st2 = v"
      "myLatestActiveView st2 < v" "myCurrentView st2 = v" "0 \<le> lb"
      using m True act v lb(1) by (simp_all add: moved_def)
    have "vm_waiting st'" using m2(1,2) by (simp add: lb(3) vm_inv_def vm_waiting_def)
    moreover have "vm_slots e st'" using m2(1) by (simp add: lb(3) vm_inv_def vm_slots_def)
    moreover obtain nv where "newViewMsgOfPendingView st2 = Some nv" using m2(3) by blast
    ultimately have "vm_inv e valid st'" using m2(1,2,4-7) by (simp add: lb(3) vm_inv_frames)
    then show ?thesis using lb m2(4,6) by simp
  qed
qed

lemma coll_ok_lookup: "coll_ok coll \<Longrightarrow> map_of coll s = Some pp \<Longrightarrow> pp_seqNumber pp = Inr s \<and> pp_isNull pp = Inr False"
  by (auto simp: coll_ok_def dest: map_of_SomeD)

lemma computeRestrictionsOfNewView_inv:
  assumes i: "vm_inv e valid st" and c: "computeRestrictionsOfNewView e v st = Inr st1"
  shows "vm_inv e valid (st1\<lparr>stat := PENDING_WITH_RESTRICTIONS\<rparr>) \<and> myLatestPendingView st1 = myLatestPendingView st \<and>
    myCurrentView st1 = myCurrentView st \<and> lowerBoundStableForPendingView st1 = lowerBoundStableForPendingView st"
proof -
  obtain mn mx rs pps where cr: "computeRestrictions (ve_vf e) (vmF e) (vmC e) nullDigest (viewChangeMsgsOfPendingView st)
      (lowerBoundStableForPendingView st) (restrictionsOfPendingView st) = Inr (mn, mx, rs)"
    and pps: "(if mn \<noteq> 0 then fill_restrictions (collectionOfPrePrepareMsgs st) rs (nat (mx - mn + 1)) mn 0 (prePrepareMsgsOfRestrictions st)
      else Inr (prePrepareMsgsOfRestrictions st)) = Inr pps"
    and st1: "st1 = st\<lparr>minRestrictionOfPendingView := mn, maxRestrictionOfPendingView := mx, restrictionsOfPendingView := rs,
      prePrepareMsgsOfRestrictions := pps\<rparr>" and stat: "stat st = PENDING"
    using c by (auto simp: computeRestrictionsOfNewView_def split: option.splits)
  note rng = computeRestrictions_range [OF cr]
  have w: "set (prePrepareMsgsOfRestrictions st) \<subseteq> {None}" "length (prePrepareMsgsOfRestrictions st) = 300" "length (restrictionsOfPendingView st) = 300"
    "coll_ok (collectionOfPrePrepareMsgs st)"
    using i stat by (simp_all add: vm_inv_def vm_waiting_def vm_shape_def vm_collection_def)
  have none: "prePrepareMsgsOfRestrictions st ! j = None" if "j < 300" for j using w(1,2) that by (simp add: set_None_nth)
  have f: "length pps = 300 \<and> (\<forall>j pp. j < 300 \<and> pps ! j = Some pp \<longrightarrow> mn \<noteq> 0 \<and> mn + int j \<le> mx \<and> \<not> isNull (rs ! j) \<and>
      pp_seqNumber pp = Inr (mn + int j) \<and> pp_digestOfRequests pp = Inr (r_digest (rs ! j)) \<and> pp_isNull pp = Inr False)"
  proof (cases "mn = 0")
    case True
    then show ?thesis using pps w(2) none by auto
  next
    case False
    then have "fill_restrictions (collectionOfPrePrepareMsgs st) rs (nat (mx - mn + 1)) mn 0 (prePrepareMsgsOfRestrictions st) = Inr pps"
      using pps by simp
    note s = fill_restrictions_sound [OF this]
    have "mn + int j \<le> mx \<and> \<not> isNull (rs ! j) \<and> pp_seqNumber pp = Inr (mn + int j) \<and>
        pp_digestOfRequests pp = Inr (r_digest (rs ! j)) \<and> pp_isNull pp = Inr False"
      if "j < 300" "pps ! j = Some pp" for j pp
    proof -
      have "j < nat (mx - mn + 1)" "\<not> isNull (rs ! j)" "map_of (collectionOfPrePrepareMsgs st) (mn + int j) = Some pp"
        "pp_digestOfRequests pp = Inr (r_digest (rs ! j))"
        using s that none [OF that(1)] by fastforce+
      then show ?thesis using coll_ok_lookup [OF w(4)] by auto
    qed
    then show ?thesis using False s w(2) by auto
  qed
  then have "vm_waiting (st1\<lparr>stat := PENDING_WITH_RESTRICTIONS\<rparr>)" by (simp add: st1 vm_waiting_def)
  moreover have "vm_slots e (st1\<lparr>stat := PENDING_WITH_RESTRICTIONS\<rparr>)" using i by (simp add: st1 vm_inv_def vm_slots_def)
  moreover have "vm_restricted e (st1\<lparr>stat := PENDING_WITH_RESTRICTIONS\<rparr>)" using cr rng by (auto simp: st1 vm_restricted_def)
  ultimately show ?thesis using i stat f rng w(3)
    by (simp add: st1 vm_inv_def vm_shape_def vm_views_def vm_pending_def vm_collection_def vm_complaints_def)
qed


definition wanted_digest :: "Restriction \<Rightarrow> bytes" where
  "wanted_digest r = (if isNull r then nullDigest else r_digest r)"

lemma enter_view_sound:
  assumes i: "vm_inv e valid st" and s: "stat st = PENDING_WITH_RESTRICTIONS" and v: "myLatestPendingView st = v" "is_s64 v"
    and lb: "lowerBoundStableForPendingView st \<le> ls" and en: "enter_view e v ls st = Inr (b, out, st')"
  shows "vm_inv e valid st' \<and> b \<and> length out = (if minRestrictionOfPendingView st = 0 then 0 else nat (maxRestrictionOfPendingView st - ls)) \<and>
    (\<forall>t. minRestrictionOfPendingView st \<noteq> 0 \<and> ls < t \<and> t \<le> maxRestrictionOfPendingView st \<longrightarrow>
       pp_proposes (out ! nat (t - ls - 1)) v t (wanted_digest (restrictionsOfPendingView st ! nat (t - minRestrictionOfPendingView st))))"
proof -
  define mn mx rs where "mn = minRestrictionOfPendingView st" and "mx = maxRestrictionOfPendingView st" and "rs = restrictionsOfPendingView st"
  define fr where "fr = min (mx + 1) (max mn (ls + 1))"
  obtain pps' where r: "(if mn \<noteq> 0 then rbind (release_stable rs (nat (fr - mn)) mn 0 (prePrepareMsgsOfRestrictions st)) (\<lambda>pps.
        propose_again e v rs (nat (mx - fr + 1)) fr (nat (fr - mn)) pps) else Inr ([], prePrepareMsgsOfRestrictions st)) = Inr (out, pps')"
    and st': "st' = st\<lparr>stat := IN_VIEW, myLatestActiveView := v, collectionOfPrePrepareMsgs := [], prePrepareMsgsOfRestrictions := pps'\<rparr>" and b: b
    using en unfolding enter_view_def Let_def mn_def mx_def rs_def fr_def by auto
  have l: "length (prePrepareMsgsOfRestrictions st) = 300" using i by (simp add: vm_inv_def vm_shape_def)
  have w: "mn \<noteq> 0 \<and> mn + int j \<le> mx \<and> \<not> isNull (rs ! j) \<and> pp_digestOfRequests pp = Inr (r_digest (rs ! j))"
    if "j < 300" "prePrepareMsgsOfRestrictions st ! j = Some pp" for j pp
    using i that unfolding vm_inv_def vm_waiting_def mn_def mx_def rs_def by blast
  have rng: "mn \<noteq> 0 \<Longrightarrow> mn = lowerBoundStableForPendingView st + 1 \<and> mn \<le> mx \<and> mx < mn + 300 \<and> mx < 2 ^ 63" "0 \<le> lowerBoundStableForPendingView st"
    using i s by (auto simp: vm_inv_def vm_restricted_def vm_views_def range_ok_def mn_def mx_def kWorkWindow_def)
  have res: "length out = (if mn = 0 then 0 else nat (mx - ls)) \<and> length pps' = 300 \<and> (\<forall>j < 300. pps' ! j = None) \<and>
    (\<forall>t. mn \<noteq> 0 \<and> ls < t \<and> t \<le> mx \<longrightarrow> pp_proposes (out ! nat (t - ls - 1)) v t (wanted_digest (rs ! nat (t - mn))))"
  proof (cases "mn = 0")
    case True
    have "prePrepareMsgsOfRestrictions st ! j = None" if "j < 300" for j
      using w [OF that] True by (cases "prePrepareMsgsOfRestrictions st ! j") auto
    then show ?thesis using True r l by auto
  next
    case False
    then obtain pps where rl: "release_stable rs (nat (fr - mn)) mn 0 (prePrepareMsgsOfRestrictions st) = Inr pps"
      and pa: "propose_again e v rs (nat (mx - fr + 1)) fr (nat (fr - mn)) pps = Inr (out, pps')"
      using r by auto
    note q = release_stable_sound [OF rl]
    have fr: "fr = min (mx + 1) (ls + 1)" "mn \<le> fr" "fr \<le> mx + 1" using rng False lb by (auto simp: fr_def)
    have dg: "\<forall>j pp. nat (fr - mn) \<le> j \<and> j < nat (fr - mn) + nat (mx - fr + 1) \<and> pps ! j = Some pp \<longrightarrow> pp_digestOfRequests pp = Inr (r_digest (rs ! j))"
    proof (intro allI impI, elim conjE)
      fix j pp assume j: "nat (fr - mn) \<le> j" "j < nat (fr - mn) + nat (mx - fr + 1)" "pps ! j = Some pp"
      have "j < 300" using j(2) fr rng(1) [OF False] by linarith
      moreover have "prePrepareMsgsOfRestrictions st ! j = Some pp" using q j l by (metis option.distinct(1))
      ultimately show "pp_digestOfRequests pp = Inr (r_digest (rs ! j))" using w by blast
    qed
    have "is_s64 fr" if "0 < nat (mx - fr + 1)" using that fr rng(1) [OF False] rng(2) by (auto simp: is_s64_def)
    moreover have "is_s64 (fr + int (nat (mx - fr + 1)) - 1)" using fr rng(1) [OF False] rng(2) by (auto simp: is_s64_def)
    ultimately have p: "length out = nat (mx - fr + 1) \<and> (\<forall>n < nat (mx - fr + 1). pp_proposes (out ! n) v (fr + int n)
        (if isNull (rs ! (nat (fr - mn) + n)) then nullDigest else r_digest (rs ! (nat (fr - mn) + n)))) \<and> length pps' = length pps \<and>
      (\<forall>j. pps' ! j = (if nat (fr - mn) \<le> j \<and> j < nat (fr - mn) + nat (mx - fr + 1) then None else pps ! j))"
      by (intro propose_again_sound [OF pa v(2) _ _ dg])
    have n: "length out = nat (mx - ls)" using p fr by auto
    have "pps' ! j = None" if "j < 300" for j
    proof (cases "prePrepareMsgsOfRestrictions st ! j")
      case None
      then show ?thesis using p q by auto
    next
      case (Some pp)
      then have "mn + int j \<le> mx" "\<not> isNull (rs ! j)" using w [OF that] by auto
      then show ?thesis using p q that l fr by (auto simp: nat_add_distrib [symmetric])
    qed
    moreover have "pp_proposes (out ! nat (t - ls - 1)) v t (wanted_digest (rs ! nat (t - mn)))" if t: "ls < t" "t \<le> mx" for t
    proof -
      have "fr = ls + 1" "nat (t - ls - 1) < nat (mx - fr + 1)" "fr + int (nat (t - ls - 1)) = t" "nat (fr - mn) + nat (t - ls - 1) = nat (t - mn)"
        using t fr by auto
      then show ?thesis using p unfolding wanted_digest_def by metis
    qed
    ultimately show ?thesis using False n p q l by auto
  qed
  then have "vm_waiting st'" by (intro vm_waiting_None) (simp_all add: st' set_None_nth)
  moreover have "vm_slots e st'" using i by (simp add: st' vm_inv_def vm_slots_def)
  ultimately have "vm_inv e valid st'" using i s v(1) res by (simp add: st' vm_inv_frames)
  then show ?thesis using b res unfolding mn_def mx_def rs_def by blast
qed


lemma enter_view_frame:
  assumes "enter_view e v ls st = Inr (b, out, st')"
  shows "stat st' = IN_VIEW \<and> myLatestActiveView st' = v \<and> viewChangeMsgsOfPendingView st' = viewChangeMsgsOfPendingView st \<and>
    newViewMsgOfPendingView st' = newViewMsgOfPendingView st \<and> lowerBoundStableForPendingView st' = lowerBoundStableForPendingView st \<and>
    myLatestPendingView st' = myLatestPendingView st \<and> myCurrentView st' = myCurrentView st"
  using assms unfolding enter_view_def Let_def by (elim rbind_pairE) auto

text \<open>
  What the messages \<open>out\<close> of an entered view are: those that the restrictions ask for, which are computed from the view change
  messages of a quorum for this view.
\<close>

definition entered :: "VmEnv \<Rightarrow> ViewNum \<Rightarrow> SeqNum \<Rightarrow> MessageBase list \<Rightarrow> ViewsManager \<Rightarrow> bool" where
  "entered e v ls out st \<longleftrightarrow> stat st = IN_VIEW \<and> myLatestActiveView st = v \<and> lowerBoundStableForPendingView st \<le> ls \<and>
     (\<exists>nv. newViewMsgOfPendingView st = Some nv \<and> vc_quorum e v nv (viewChangeMsgsOfPendingView st)) \<and>
     (\<exists>old mn mx rs. computeRestrictions (ve_vf e) (vmF e) (vmC e) nullDigest (viewChangeMsgsOfPendingView st) (lowerBoundStableForPendingView st) old =
          Inr (mn, mx, rs) \<and> length old = 300 \<and> length out = (if mn = 0 then 0 else nat (mx - ls)) \<and>
        (\<forall>t. mn \<noteq> 0 \<and> ls < t \<and> t \<le> mx \<longrightarrow> pp_proposes (out ! nat (t - ls - 1)) v t (wanted_digest (rs ! nat (t - mn)))))"

lemma enter_view_entered:
  assumes i: "vm_inv e valid st" and s: "stat st = PENDING_WITH_RESTRICTIONS" and v: "myLatestPendingView st = v" "myCurrentView st = v" "is_s64 v"
    and lb: "lowerBoundStableForPendingView st \<le> ls" and en: "enter_view e v ls st = Inr (b, out, st')"
  shows "vm_inv e valid st' \<and> b \<and> entered e v ls out st'"
proof -
  note f = enter_view_frame [OF en]
  note g = enter_view_sound [OF i s v(1,3) lb en]
  obtain old where old: "computeRestrictions (ve_vf e) (vmF e) (vmC e) nullDigest (viewChangeMsgsOfPendingView st) (lowerBoundStableForPendingView st) old =
      Inr (minRestrictionOfPendingView st, maxRestrictionOfPendingView st, restrictionsOfPendingView st)"
    using i s v by (auto simp: vm_inv_def vm_restricted_def)
  have l: "length old = 300" using computeRestrictions_range(2) [OF old] i by (simp add: vm_inv_def vm_shape_def)
  have "newViewMsgOfPendingView st \<noteq> None" using i s by (simp add: vm_inv_def vm_views_def)
  then obtain nv where nv: "newViewMsgOfPendingView st = Some nv" by blast
  then have "vc_quorum e v nv (viewChangeMsgsOfPendingView st)" using i v by (simp add: vm_inv_def vm_pending_def)
  then show ?thesis using f g nv lb l old unfolding entered_def by (simp add: exI [of _ old])
qed

lemma debug_inv: "vm_inv e valid st \<Longrightarrow> vm_inv e valid (st\<lparr>debugHighestKnownStable := a, debugHighestViewNumberPassedByClient := b\<rparr>)"
  by (simp add: vm_inv_defs)

lemma tryToEnterView_sound:
  assumes i: "vm_inv e valid st" and v: "myCurrentView st = v" "is_s64 v" and t: "tryToEnterView e v ls le st = Inr (b, out, st')"
  shows "vm_inv e valid st' \<and> (b \<longrightarrow> entered e v ls out st')"
proof -
  define st1 where "st1 = st\<lparr>debugHighestKnownStable := ls, debugHighestViewNumberPassedByClient := v\<rparr>"
  have i1: "vm_inv e valid st1" using debug_inv [OF i] by (simp add: st1_def)
  have f1: "myCurrentView st1 = v" "v \<ge> myLatestPendingView st1"
    using v t by (auto simp: st1_def tryToEnterView_def)
  show ?thesis
  proof (cases "le < ls \<or> ls < lowerBoundStableForPendingView st1")
    case True
    then have "b = False \<and> st' = st1" using t by (cases "le < ls") (auto simp: tryToEnterView_def Let_def st1_def)
    then show ?thesis using i1 by simp
  next
    case False
    then obtain go st2 where g: "(if v > myLatestPendingView st1 then new_pending_view e v ls st1 else Inr (True, st1)) = Inr (go, st2)"
      and r: "(if \<not> go then Inr (False, [], st2)
             else c_assert (v = myLatestPendingView st2)
              (rbind (if stat st2 = PENDING
                      then rbind (computeRestrictionsOfNewView e v st2) (\<lambda>st'. Inr (st'\<lparr>stat := PENDING_WITH_RESTRICTIONS\<rparr>))
                      else Inr st2) (\<lambda>st3.
                if stat st3 \<noteq> PENDING_WITH_RESTRICTIONS then Inr (False, [], st3)
                else rbind (hasMissingPrePrepareMsgs ls st3) (\<lambda>missing.
                  if missing then Inr (False, [], st3) else enter_view e v ls st3)))) = Inr (b, out, st')"
      using t unfolding tryToEnterView_def Let_def st1_def [symmetric] c_assert_simps by (auto elim!: rbind_pairE)
    have n: "vm_inv e valid st2 \<and> myCurrentView st2 = v \<and> (go \<longrightarrow> lowerBoundStableForPendingView st2 \<le> ls)"
    proof (cases "v > myLatestPendingView st1")
      case True
      then show ?thesis using new_pending_view_inv [OF i1 f1(1) True] g by simp
    qed (use g False i1 f1 in auto)
    show ?thesis
    proof (cases go)
      case False
      then show ?thesis using r n by simp
    next
      case True
      then obtain st3 where p: "v = myLatestPendingView st2" and c: "(if stat st2 = PENDING
          then rbind (computeRestrictionsOfNewView e v st2) (\<lambda>st'. Inr (st'\<lparr>stat := PENDING_WITH_RESTRICTIONS\<rparr>)) else Inr st2) = Inr st3"
        and r3: "(if stat st3 \<noteq> PENDING_WITH_RESTRICTIONS then Inr (False, [], st3)
          else rbind (hasMissingPrePrepareMsgs ls st3) (\<lambda>missing. if missing then Inr (False, [], st3) else enter_view e v ls st3)) = Inr (b, out, st')"
        using r by auto
      have n3: "vm_inv e valid st3 \<and> myLatestPendingView st3 = v \<and> myCurrentView st3 = v \<and> lowerBoundStableForPendingView st3 \<le> ls"
      proof (cases "stat st2 = PENDING")
        case pend: True
        then obtain st2' where "computeRestrictionsOfNewView e v st2 = Inr st2'" "st3 = st2'\<lparr>stat := PENDING_WITH_RESTRICTIONS\<rparr>" using c by auto
        then show ?thesis using computeRestrictionsOfNewView_inv [of e valid st2 v st2'] n p True by simp
      qed (use c n p True in auto)
      show ?thesis using r3 n3 enter_view_entered [of e valid st3 v ls b out st'] v(2) by (auto split: if_splits)
    qed
  qed
qed


section \<open>Leaving a view\<close>

text \<open>The step of the loop that adds the element for one pre-prepare message.\<close>

definition exit_element :: "VmEnv \<Rightarrow> ViewNum \<Rightarrow> SeqNum \<Rightarrow> PrevViewInfo \<Rightarrow> SeqNum \<Rightarrow> bytes \<Rightarrow> bool \<Rightarrow> PreparedCertificate option \<Rightarrow> MessageBase \<Rightarrow>
    MessageBase result" where
  "exit_element e active ex i s d nl certInPrev vc = (case prepareFull i of
       Some pf \<Rightarrow>
         rbind (ss_seqNumber pf) (\<lambda>ps. c_assert (s = ps) (rbind (ss_viewNumber pf) (\<lambda>pv. c_assert (pv = active)
           (rbind (ss_signatureBody pf) (\<lambda>sig.
             vc_addElement (ve_env e) \<lparr>vc_seqNum = s, vc_digest = d, vc_originView = active,
               vc_cert = Some \<lparr>certificateView = active, certificateSig = sig\<rparr>\<rparr> vc)))))
     | None \<Rightarrow> (case certInPrev of
         Some c \<Rightarrow> vc_addElement (ve_env e) \<lparr>vc_seqNum = s, vc_digest = d, vc_originView = active, vc_cert = Some c\<rparr> vc
       | None \<Rightarrow>
           if hasAllRequests i \<and> \<not> nl
           then vc_addElement (ve_env e) \<lparr>vc_seqNum = s, vc_digest = d, vc_originView = active, vc_cert = None\<rparr> vc
           else c_assert (s > ex \<or> nl) (Inr vc)))"

lemma exit_loop_Cons:
  assumes "exit_loop e active lb ex (i # is) vc it dbg coll = Inr r"
  obtains pp s d nl c it' vc' where "prePrepare i = Some pp" "pp_viewNumber pp = Inr active" "pp_seqNumber pp = Inr s" "lb < s" "dbg < s"
    "prepareFull i = None \<or> hasAllRequests i" "pp_digestOfRequests pp = Inr d" "pp_isNull pp = Inr nl"
    "(if hasAllRequests i \<and> prepareFull i = None then prev_certificate active s d it else Inr (None, it)) = Inr (c, it')"
    "exit_element e active ex i s d nl c vc = Inr vc'"
    "exit_loop e active lb ex is vc' it' s (if hasAllRequests i \<and> \<not> nl then AList.update s pp coll else coll) = Inr r"
proof (cases "prePrepare i")
  case (Some pp)
  then show thesis using assms that unfolding exit_loop.simps exit_element_def [symmetric]
    by (simp only: option.case c_assert_simps rbind_simps) (elim exE conjE, simp split: prod.splits, blast)
qed (use assms in simp)

lemma coll_ok_update: "coll_ok coll \<Longrightarrow> pp_seqNumber pp = Inr s \<Longrightarrow> pp_isNull pp = Inr False \<Longrightarrow> coll_ok (AList.update s pp coll)"
  using set_AList_update [of s pp coll] by (auto simp: coll_ok_def)

lemma exit_loop_coll: "exit_loop e active lb ex is vc it dbg coll = Inr (vc', dbg', coll') \<Longrightarrow> coll_ok coll \<Longrightarrow> coll_ok coll'"
proof (induction "is" arbitrary: vc it dbg coll)
  case (Cons i "is")
  obtain pp s nl vc1 it' where *: "pp_seqNumber pp = Inr s" "pp_isNull pp = Inr nl"
      "exit_loop e active lb ex is vc1 it' s (if hasAllRequests i \<and> \<not> nl then AList.update s pp coll else coll) = Inr (vc', dbg', coll')"
    using exit_loop_Cons [OF Cons.prems(1)] by metis
  then show ?case using Cons.IH [OF *(3)] Cons.prems(2) coll_ok_update by auto
qed simp

lemma exitFromCurrentView_cases:
  assumes "exitFromCurrentView e ls ex infos st = Inr st'"
  obtains prev it vc dbg coll st1 where "stat st = IN_VIEW"
    "prev = (if viewChangeMsgsOfPendingView st ! vmId e = None then viewChangeMessages st ! vmId e else viewChangeMsgsOfPendingView st ! vmId e)"
    "myLatestActiveView st = 0 \<or> (\<exists>m. prev = Some m \<and> vc_newView m = Inr (myLatestActiveView st))"
    "ElementsIterator_new prev = Inr it" "int (length infos) \<le> kWorkWindow" "dbg - ls \<le> kWorkWindow"
    "exit_loop e (myLatestActiveView st) (lowerBoundStableForPendingView st) ex infos
       (ViewChangeMsg_new (ve_env e) (vmId e) (myLatestActiveView st + 1) ls []) it ls [] = Inr (vc, dbg, coll)"
    "resetDataOfLatestPendingAndKeepMyViewChange e
       (st\<lparr>stat := NO_VIEW, debugHighestKnownStable := ls, collectionOfPrePrepareMsgs := coll\<rparr>) = Inr st1"
    "vmId e < length (viewChangeMessages st1)" "st' = st1\<lparr>viewChangeMessages := (viewChangeMessages st1)[vmId e := Some vc]\<rparr>"
proof -
  define prev where "prev = (if viewChangeMsgsOfPendingView st ! vmId e = None then viewChangeMessages st ! vmId e else viewChangeMsgsOfPendingView st ! vmId e)"
  have p: "(if viewChangeMsgsOfPendingView st ! vmId e = None then arr_get (viewChangeMessages st) (vmId e) else Inr (viewChangeMsgsOfPendingView st ! vmId e)) = Inr p
      \<Longrightarrow> p = prev" for p
    by (auto simp: prev_def split: if_splits)
  have "\<exists>it vc dbg coll st1. stat st = IN_VIEW \<and> (myLatestActiveView st = 0 \<or> (\<exists>m. prev = Some m \<and> vc_newView m = Inr (myLatestActiveView st))) \<and>
    ElementsIterator_new prev = Inr it \<and> int (length infos) \<le> kWorkWindow \<and> dbg - ls \<le> kWorkWindow \<and>
    exit_loop e (myLatestActiveView st) (lowerBoundStableForPendingView st) ex infos
       (ViewChangeMsg_new (ve_env e) (vmId e) (myLatestActiveView st + 1) ls []) it ls [] = Inr (vc, dbg, coll) \<and>
    resetDataOfLatestPendingAndKeepMyViewChange e
       (st\<lparr>stat := NO_VIEW, debugHighestKnownStable := ls, collectionOfPrePrepareMsgs := coll\<rparr>) = Inr st1 \<and>
    vmId e < length (viewChangeMessages st1) \<and> st' = st1\<lparr>viewChangeMessages := (viewChangeMessages st1)[vmId e := Some vc]\<rparr>"
    using assms unfolding exitFromCurrentView_def
    by (simp only: c_assert_simps rbind_simps arr_get_Inr arr_set_Inr) (elim exE conjE, hypsubst, drule p,
        auto simp del: exit_loop.simps split: if_splits option.splits prod.splits)
  then show thesis using that [OF _ refl] unfolding prev_def by blast
qed

text \<open>The number of the current view has no part in this.\<close>

lemma reset_recovery:
  "resetDataOfLatestPendingAndKeepMyViewChange e st = Inr st' \<Longrightarrow>
   resetDataOfLatestPendingAndKeepMyViewChange e (st\<lparr>myCurrentView := v\<rparr>) = Inr (st'\<lparr>myCurrentView := v\<rparr>)"
  by (auto simp: resetDataOfLatestPendingAndKeepMyViewChange_def Let_def split: if_splits)

lemma own_slot_inv:
  assumes "vm_inv e valid st"
  shows "vm_inv e valid (st\<lparr>viewChangeMessages := (viewChangeMessages st)[vmId e := x]\<rparr>)"
proof -
  have "vm_slots e (st\<lparr>viewChangeMessages := (viewChangeMessages st)[vmId e := x]\<rparr>)"
    using assms by (auto simp: vm_inv_def vm_slots_def)
  then show ?thesis using assms by (simp add: vm_inv_frames vm_waiting_def)
qed

lemma exitFromCurrentView_inv:
  assumes i: "vm_inv e valid st" and x: "exitFromCurrentView e ls ex infos st = Inr st'"
  shows "vm_inv e valid st'"
  using x
proof (rule exitFromCurrentView_cases)
  fix it vc dbg coll st1
  assume l: "exit_loop e (myLatestActiveView st) (lowerBoundStableForPendingView st) ex infos
       (ViewChangeMsg_new (ve_env e) (vmId e) (myLatestActiveView st + 1) ls []) it ls [] = Inr (vc, dbg, coll)"
    and r: "resetDataOfLatestPendingAndKeepMyViewChange e
       (st\<lparr>stat := NO_VIEW, debugHighestKnownStable := ls, collectionOfPrePrepareMsgs := coll\<rparr>) = Inr st1"
    and st': "st' = st1\<lparr>viewChangeMessages := (viewChangeMessages st1)[vmId e := Some vc]\<rparr>"
  have "vm_clear e valid st1" using reset_clear [OF vm_inv_left [OF i exit_loop_coll [OF l coll_ok_Nil]] r] by simp
  then show "vm_inv e valid st'" unfolding st' by (intro own_slot_inv) (simp add: vm_clear_def)
qed


lemma complete_my_vc_inv:
  assumes i: "vm_inv e valid st" and p: "pend \<Longrightarrow> vmId e < vmN e \<and> viewChangeMsgsOfPendingView st ! vmId e \<noteq> None"
    and c: "complete_my_vc e v pend vc st = Inr (vc', st')"
  shows "vm_inv e valid st'"
proof -
  define st2 where "st2 = st\<lparr>complainedReplicas := [], myCurrentView := v\<rparr>"
  have v: "myCurrentView st < v" and st': "st' = (if pend then st2\<lparr>viewChangeMsgsOfPendingView := (viewChangeMsgsOfPendingView st2)[vmId e := Some vc']\<rparr>
      else st2\<lparr>viewChangeMessages := (viewChangeMessages st2)[vmId e := Some vc']\<rparr>)"
    using c by (auto simp: complete_my_vc_def insertStoredComplaintsIntoVCMsg_def setHigherView_def st2_def)
  have i2: "vm_inv e valid st2" using i v by (simp add: st2_def vm_inv_defs)
  show ?thesis
  proof (cases pend)
    case True
    obtain nv where "newViewMsgOfPendingView st = Some nv" using i p [OF True] by (fastforce simp: vm_inv_def vm_pending_def vm_shape_def set_None_nth)
    moreover have "myLatestPendingView st < v" using i v by (simp add: vm_inv_def vm_views_def)
    moreover have "vc_others e (myLatestPendingView st) nv ((viewChangeMsgsOfPendingView st)[vmId e := Some vc'])" if "newViewMsgOfPendingView st = Some nv" for nv
      using i that p [OF True] by (intro vc_others_update) (auto simp: vm_inv_def vm_pending_def)
    ultimately show ?thesis using True i2 by (simp add: st' st2_def vm_inv_defs)
  next
    case False
    then show ?thesis using own_slot_inv [OF i2] by (simp add: st')
  qed
qed

lemma prepareViewChangeMsgAndSetHigherView_inv:
  assumes i: "vm_inv e valid st" and p: "prepareViewChangeMsgAndSetHigherView e fresh v was ls ex infos st = Inr (vc, st')"
  shows "vm_inv e valid st'"
proof (cases was)
  case False
  then obtain vc2 q where "vmId e < length (viewChangeMsgsOfPendingView st)" "q = viewChangeMsgsOfPendingView st ! vmId e"
    "complete_my_vc e v (q \<noteq> None) vc2 st = Inr (vc, st')"
    using p by (auto simp: prepareViewChangeMsgAndSetHigherView_def split: option.splits)
  then show ?thesis using complete_my_vc_inv [OF i] i by (simp add: vm_inv_def vm_shape_def)
next
  case True
  then obtain info st1 vc1 where "exitFromCurrentView e ls ex info st = Inr st1" "complete_my_vc e v False vc1 st1 = Inr (vc, st')"
    using p by (auto simp: prepareViewChangeMsgAndSetHigherView_def split: option.splits)
  then show ?thesis using complete_my_vc_inv [of e valid st1 False v vc1 vc st'] exitFromCurrentView_inv [OF i] by simp
qed


section \<open>Creating the object\<close>

lemma createOutsideView_inv:
  assumes c: "createOutsideView e act ls ex lb my infos complaints = Inr st" and v: "\<forall>m \<in> set complaints. valid m" and "act \<le> cur"
  shows "vm_inv e valid (setViewFromRecovery cur st)"
proof -
  obtain v0 vcs cr st0 where v0: "ViewsManager_new e = Inr v0" and s: "0 \<le> act" "0 \<le> lb" "vmId e < length (viewChangeMessages v0)"
    "lvi_populate complaints [] = Inr cr" and st0: "st0 = v0\<lparr>myLatestActiveView := act, myLatestPendingView := act,
      viewChangeMessages := (viewChangeMessages v0)[vmId e := my], lowerBoundStableForPendingView := lb, complainedReplicas := cr\<rparr>"
    and x: "exitFromCurrentView e ls ex infos st0 = Inr st"
    using c by (auto simp: createOutsideView_def)
  have i0: "vm_inv e valid v0" "stat v0 = IN_VIEW" "newViewMsgOfPendingView v0 = None"
    using ViewsManager_new_inv [OF v0] v0 by (auto simp: ViewsManager_new_def)
  have "complaints_ok valid cr" using lvi_populate_ok [OF _ v s(4)] by simp
  have i1: "vm_inv e valid (st0\<lparr>myCurrentView := cur\<rparr>)"
  proof -
    have "vm_slots e (st0\<lparr>myCurrentView := cur\<rparr>)" using i0(1) by (auto simp: st0 vm_inv_def vm_slots_def)
    then show ?thesis using i0 s assms(3) \<open>complaints_ok valid cr\<close> by (simp add: st0 vm_inv_frames vm_waiting_def)
  qed
  show ?thesis using x
  proof (rule exitFromCurrentView_cases)
    fix it vc dbg coll st1
    assume l: "exit_loop e (myLatestActiveView st0) (lowerBoundStableForPendingView st0) ex infos
         (ViewChangeMsg_new (ve_env e) (vmId e) (myLatestActiveView st0 + 1) ls []) it ls [] = Inr (vc, dbg, coll)"
      and r: "resetDataOfLatestPendingAndKeepMyViewChange e
         (st0\<lparr>stat := NO_VIEW, debugHighestKnownStable := ls, collectionOfPrePrepareMsgs := coll\<rparr>) = Inr st1"
      and st: "st = st1\<lparr>viewChangeMessages := (viewChangeMessages st1)[vmId e := Some vc]\<rparr>"
    have "st0\<lparr>myCurrentView := cur, stat := NO_VIEW, debugHighestKnownStable := ls, collectionOfPrePrepareMsgs := coll\<rparr> =
        st0\<lparr>stat := NO_VIEW, debugHighestKnownStable := ls, collectionOfPrePrepareMsgs := coll, myCurrentView := cur\<rparr>" by simp
    then have "vm_left e valid (st0\<lparr>stat := NO_VIEW, debugHighestKnownStable := ls, collectionOfPrePrepareMsgs := coll, myCurrentView := cur\<rparr>)"
      using vm_inv_left [OF i1 exit_loop_coll [OF l coll_ok_Nil], of ls] by metis
    then have "vm_clear e valid (st1\<lparr>myCurrentView := cur\<rparr>)" using reset_clear [OF _ reset_recovery [OF r, of cur]] by simp
    then have "vm_inv e valid (st1\<lparr>myCurrentView := cur, viewChangeMessages := (viewChangeMessages (st1\<lparr>myCurrentView := cur\<rparr>))[vmId e := Some vc]\<rparr>)"
      by (intro own_slot_inv) (simp add: vm_clear_def)
    moreover have "st1\<lparr>myCurrentView := cur, viewChangeMessages := (viewChangeMessages (st1\<lparr>myCurrentView := cur\<rparr>))[vmId e := Some vc]\<rparr> =
        setViewFromRecovery cur st" by (simp add: st setViewFromRecovery_def)
    ultimately show ?thesis by metis
  qed
qed


lemma listed_vcs_sound:
  "listed_vcs e view nv ms = Inr is \<Longrightarrow> length is = length ms \<and>
     (\<forall>k < length ms. vc_newView (ms ! k) = Inr view \<and> vc_idOfGeneratedReplica (ms ! k) = Inr (is ! k) \<and> nv_lists e nv (ms ! k))"
proof (induction ms arbitrary: "is")
  case (Cons m ms)
  then obtain i js where j: "is = i # js" "listed_vcs e view nv ms = Inr js" and
    m: "vc_newView m = Inr view" "vc_idOfGeneratedReplica m = Inr i" "nv_lists e nv m"
    by (auto simp: nv_lists_def)
  show ?case using Cons.IH [OF j(2)] m by (auto simp: j(1) nth_Cons split: nat.splits)
qed simp

lemma place_vcs_sound:
  assumes "place_vcs ms pend = Inr pend'" "length is = length ms" "\<forall>k < length ms. vc_idOfGeneratedReplica (ms ! k) = Inr (is ! k)"
  shows "length pend' = length pend \<and> distinct is \<and> (\<forall>i \<in> set is. i < length pend \<and> pend ! i = None) \<and>
    (\<forall>k < length ms. pend' ! (is ! k) = Some (ms ! k)) \<and> (\<forall>j. j \<notin> set is \<longrightarrow> pend' ! j = pend ! j)"
  using assms
proof (induction ms arbitrary: pend "is")
  case (Cons m ms)
  obtain i js where j: "is = i # js" "length js = length ms" using Cons.prems(2) by (cases "is") auto
  have m: "vc_idOfGeneratedReplica m = Inr i" "\<forall>k < length ms. vc_idOfGeneratedReplica (ms ! k) = Inr (js ! k)"
    using Cons.prems(3) by (force simp: j(1))+
  have p: "i < length pend" "pend ! i = None" "place_vcs ms (pend[i := Some m]) = Inr pend'" using Cons.prems(1) m(1) by auto
  note IH = Cons.IH [OF p(3) j(2) m(2)]
  have ni: "i \<notin> set js" using IH p(1) by force
  have "pend' ! i = Some m" using IH ni p(1) by simp
  moreover have "\<forall>x \<in> set js. x < length pend \<and> pend ! x = None" using IH ni by (metis length_list_update nth_list_update_neq)
  ultimately show ?case using IH ni p by (auto simp: j(1) nth_Cons split: nat.splits)
qed simp

lemma createInsideView_inv:
  assumes c: "createInsideView e view lb nv my ms = Inr st" and n: "vmN e < 65536"
  shows "vm_inv e valid st"
proof -
  obtain "is" v pend where ls: "listed_vcs e view nv ms = Inr is" and new: "ViewsManager_new e = Inr v"
    and pl: "place_vcs ms (viewChangeMsgsOfPendingView v) = Inr pend" and s: "1 \<le> view" "0 \<le> lb" "length ms = 2 * vmF e + 2 * vmC e + 1"
    and st: "st = v\<lparr>myCurrentView := view, myLatestActiveView := view, myLatestPendingView := view,
                     viewChangeMsgsOfPendingView := pend, newViewMsgOfPendingView := Some nv,
                     viewChangeMessages := (if pend ! vmId e = None then (viewChangeMessages v)[vmId e := my] else viewChangeMessages v),
                     lowerBoundStableForPendingView := lb\<rparr>"
    using c by (auto simp: createInsideView_def)
  have i0: "vm_inv e valid v" "stat v = IN_VIEW" "vmN e = 3 * vmF e + 2 * vmC e + 1"
    "viewChangeMsgsOfPendingView v = replicate (vmN e) None"
    using ViewsManager_new_inv [OF new] new by (auto simp: ViewsManager_new_def simp del: replicate_Suc)
  note l = listed_vcs_sound [OF ls]
  have p: "length pend = vmN e \<and> distinct is \<and> (\<forall>i \<in> set is. i < vmN e) \<and> (\<forall>k < length ms. pend ! (is ! k) = Some (ms ! k)) \<and>
      (\<forall>j. j \<notin> set is \<longrightarrow> j < vmN e \<longrightarrow> pend ! j = None)"
    using place_vcs_sound [OF pl, of "is"] l i0(4) by simp
  have m: "\<exists>k < length ms. j = is ! k \<and> m = ms ! k" if "j < vmN e" "pend ! j = Some m" for j m
  proof -
    have "j \<in> set is" using p that by fastforce
    then obtain k where "k < length ms" "j = is ! k" using l by (metis in_set_conv_nth)
    then show ?thesis using p that(2) by auto
  qed
  have "vc_slot e view nv j m" if "j < vmN e" "pend ! j = Some m" for j m
    using m [OF that] l by (auto simp: vc_slot_def)
  moreover have "length (received pend) = length is"
  proof (rule received_count)
    show "\<forall>j < length pend. pend ! j \<noteq> None \<longleftrightarrow> j \<in> set is" using p m l by (metis in_set_conv_nth not_None_eq)
  qed (use p in auto)
  moreover have "SMAJOR e = 2 * vmF e + 2 * vmC e + 1" using n i0(3) by (simp add: SMAJOR_def)
  ultimately have "vc_quorum e view nv pend" using p l s(3) by (simp add: vc_quorum_def)
  moreover have "vm_slots e st" using i0(1) by (auto simp: st vm_inv_def vm_slots_def)
  moreover have "vm_waiting st" using i0(1) by (simp add: st vm_inv_def vm_waiting_def)
  ultimately show ?thesis using i0(1,2) s(1,2) p vc_quorum_others by (simp add: st vm_inv_frames)
qed


text \<open>The replica that starts from the created object.\<close>

lemma recovers_inside_inv:
  assumes "vm_inv e valid st" "stat st = IN_VIEW" "myCurrentView st = myLatestActiveView st" "replica_recovers e st = Inr st'"
  shows "vm_inv e valid st'"
  using assms setViewFromRecovery_inv [OF assms(1), of "myLatestActiveView st"]
  by (simp add: replica_recovers_def viewIsActive_def inView_def)

lemma createOutsideView_outside:
  assumes "createOutsideView e act ls ex lb my infos complaints = Inr st"
  shows "stat st = NO_VIEW \<and> myLatestActiveView st = act \<and> newViewMsgOfPendingView st = None"
proof -
  have "check_outside e act ls st = Inr True" using assms unfolding createOutsideView_def by (auto simp del: exit_loop.simps)
  then show ?thesis by (auto simp: check_outside_def split: if_splits)
qed

lemma recovers_outside_inv:
  assumes c: "createOutsideView e act ls ex lb my infos complaints = Inr st" "\<forall>m \<in> set complaints. valid m"
    and r: "replica_recovers e st = Inr st'"
  shows "vm_inv e valid st'"
proof -
  define st1 where "st1 = setViewFromRecovery (act + 1) st"
  note o = createOutsideView_outside [OF c(1)]
  have i: "vm_inv e valid st1" using createOutsideView_inv [OF c, of "act + 1"] by (simp add: st1_def)
  have na: "\<not> viewIsActive (myLatestActiveView st) st" using o by (simp add: viewIsActive_def inView_def)
  then have "vmId e < length (viewChangeMsgsOfPendingView st1)"
    using r o unfolding replica_recovers_def Let_def by (auto simp: st1_def [symmetric] getMyLatestViewChangeMsg_def)
  moreover have "newViewMsgOfPendingView st1 = None" using o by (simp add: st1_def setViewFromRecovery_def)
  ultimately have "viewChangeMsgsOfPendingView st1 ! vmId e = None" using i by (simp add: vm_inv_def vm_pending_def vm_shape_def set_None_nth)
  then obtain t2 where st': "st' = (st1\<lparr>complainedReplicas := []\<rparr>)\<lparr>viewChangeMessages := (viewChangeMessages (st1\<lparr>complainedReplicas := []\<rparr>))[vmId e := Some t2]\<rparr>"
    using r o na unfolding replica_recovers_def Let_def
    by (auto simp: insertStoredComplaintsIntoVCMsg_def st1_def [symmetric] split: option.splits)
  have "vm_inv e valid (st1\<lparr>complainedReplicas := []\<rparr>)" using i by (simp add: vm_inv_defs)
  then show ?thesis unfolding st' by (rule own_slot_inv)
qed

section \<open>The operations as steps\<close>

text \<open>
  The calls that a replica makes. It starts in view 0 or from a stored state, inside or outside of a view. Complaints are stored
  after their validation. A view is entered with the number of the current view, which is what \<^verbatim>\<open>ReplicaImp::tryToEnterView\<close>,
  the only caller, passes.
\<close>

inductive vm_reachable :: "VmEnv \<Rightarrow> (MessageBase \<Rightarrow> bool) \<Rightarrow> ViewsManager \<Rightarrow> bool" for e valid where
  start_zero: "createInsideViewZero e = Inr st \<Longrightarrow> vm_reachable e valid st"
| start_inside: "createInsideView e view lb nv my ms = Inr st \<Longrightarrow> replica_recovers e st = Inr st' \<Longrightarrow> vm_reachable e valid st'"
| start_outside: "createOutsideView e act ls ex lb my infos complaints = Inr st \<Longrightarrow> \<forall>m \<in> set complaints. valid m \<Longrightarrow>
    replica_recovers e st = Inr st' \<Longrightarrow> vm_reachable e valid st'"
| new_view: "vm_reachable e valid st \<Longrightarrow> vm_add_NewView e m st = Inr (b, st') \<Longrightarrow> vm_reachable e valid st'"
| view_change: "vm_reachable e valid st \<Longrightarrow> vm_add_ViewChange e m st = Inr (b, st') \<Longrightarrow> vm_reachable e valid st'"
| complaint: "vm_reachable e valid st \<Longrightarrow> valid m \<Longrightarrow> storeComplaint m st = Inr st' \<Longrightarrow> vm_reachable e valid st'"
| complaints: "vm_reachable e valid st \<Longrightarrow> processComplaintsFromViewChangeMessage e m valid st = Inr st' \<Longrightarrow> vm_reachable e valid st'"
| jump: "vm_reachable e valid st \<Longrightarrow> tryToJumpToHigherViewAndMoveComplaintsOnQuorum e m st = Inr (b, st') \<Longrightarrow> vm_reachable e valid st'"
| clear: "vm_reachable e valid st \<Longrightarrow> vm_reachable e valid (clearComplaintsForHigherView st)"
| leave: "vm_reachable e valid st \<Longrightarrow> prepareViewChangeMsgAndSetHigherView e fresh v was ls ex infos st = Inr (vc, st') \<Longrightarrow> vm_reachable e valid st'"
| missing: "vm_reachable e valid st \<Longrightarrow> addPotentiallyMissingPP p st = Inr (b, st') \<Longrightarrow> vm_reachable e valid st'"
| enter: "vm_reachable e valid st \<Longrightarrow> is_s64 (myCurrentView st) \<Longrightarrow> tryToEnterView e (myCurrentView st) ls le st = Inr (b, out, st') \<Longrightarrow>
    vm_reachable e valid st'"

lemma vm_reachable_inv: "vm_reachable e valid st \<Longrightarrow> vmN e < 65536 \<Longrightarrow> vm_inv e valid st"
proof (induction rule: vm_reachable.induct)
  case (start_inside view lb nv my ms st st')
  have "stat st = IN_VIEW \<and> myCurrentView st = myLatestActiveView st"
    using start_inside(1) by (auto simp: createInsideView_def ViewsManager_new_def)
  then show ?case using recovers_inside_inv createInsideView_inv start_inside by blast
next
  case (enter st ls le b out st')
  then show ?case using tryToEnterView_sound by blast
qed (auto simp: createInsideViewZero_def intro: ViewsManager_new_inv recovers_outside_inv vm_add_NewView_inv
    vm_add_ViewChange_inv storeComplaint_inv processComplaints_inv tryToJump_inv clearComplaintsForHigherView_inv
    prepareViewChangeMsgAndSetHigherView_inv addPotentiallyMissingPP_inv)

end
