(* ===== verification/Views_Safety.thy ===== *)
theory Views_Safety
  imports Views_Invariant
begin

text \<open>
  What the class ViewsManager guarantees: what was committed is proposed again in the next view, a view with a quorum of view
  change messages is entered, and complaints and view numbers are those of correct replicas.
\<close>

section \<open>A view with a quorum is entered\<close>

lemma fill_restrictions_total:
  assumes "idx + k \<le> 300" "length pps = 300" "length rs = 300" "\<forall>j. idx \<le> j \<and> j < idx + k \<longrightarrow> pps ! j = None"
    "\<forall>(s, pp) \<in> set coll. \<exists>d. pp_digestOfRequests pp = Inr d"
  shows "\<exists>pps'. fill_restrictions coll rs k i idx pps = Inr pps' \<and>
    (\<forall>j pp. idx \<le> j \<and> j < idx + k \<and> \<not> isNull (rs ! j) \<and> map_of coll (i + int j - int idx) = Some pp \<and> pp_digestOfRequests pp = Inr (r_digest (rs ! j)) \<longrightarrow>
       pps' ! j = Some pp) \<and> (\<forall>j < idx. pps' ! j = pps ! j)"
  using assms
proof (induction k arbitrary: i idx pps)
  case (Suc k)
  define q where "q = (case map_of coll i of
      Some pp \<Rightarrow> if \<not> isNull (rs ! idx) \<and> pp_digestOfRequests pp = Inr (r_digest (rs ! idx)) then pps[idx := Some pp] else pps
    | None \<Rightarrow> pps)"
  have q: "length q = 300" "\<And>j. j \<noteq> idx \<Longrightarrow> q ! j = pps ! j" using Suc.prems(2) by (auto simp: q_def split: option.splits)
  have "\<exists>d. pp_digestOfRequests pp = Inr d" if "map_of coll i = Some pp" for pp using Suc.prems(5) map_of_SomeD [OF that] by blast
  then have st: "fill_restrictions coll rs (Suc k) i idx pps = fill_restrictions coll rs k (i + 1) (idx + 1) q"
    using Suc.prems(1-4) by (force simp: q_def kWorkWindow_def arr_get_def split: option.splits)
  obtain pps' where p: "fill_restrictions coll rs k (i + 1) (idx + 1) q = Inr pps'"
    "\<And>j pp. idx + 1 \<le> j \<and> j < idx + 1 + k \<and> \<not> isNull (rs ! j) \<and> map_of coll (i + 1 + int j - int (idx + 1)) = Some pp \<and>
        pp_digestOfRequests pp = Inr (r_digest (rs ! j)) \<Longrightarrow> pps' ! j = Some pp" "\<And>j. j < idx + 1 \<Longrightarrow> pps' ! j = q ! j"
    using Suc.IH [of "idx + 1" q "i + 1"] Suc.prems q by auto
  have "pps' ! j = Some pp" if j: "idx \<le> j" "j < idx + Suc k" "\<not> isNull (rs ! j)" "map_of coll (i + int j - int idx) = Some pp"
    "pp_digestOfRequests pp = Inr (r_digest (rs ! j))" for j pp
  proof (cases "j = idx")
    case True
    then show ?thesis using j p(3) [of idx] Suc.prems(1,2) by (simp add: q_def)
  next
    case False
    then show ?thesis using j p(2) by (simp add: add_diff_eq)
  qed
  moreover have "pps' ! j = pps ! j" if "j < idx" for j using p(3) [of j] q(2) [of j] that by simp
  ultimately show ?case unfolding st p(1) by (intro exI [of _ pps'] conjI) blast+
qed simp

lemma missing_loop_total:
  assumes "idx + k \<le> length rs" "idx + k \<le> length pps" "\<forall>j. idx \<le> j \<and> j < idx + k \<longrightarrow> isNull (rs ! j) \<or> pps ! j \<noteq> None"
  shows "missing_loop stop rs pps k i idx = Inr []"
  using assms
proof (induction k arbitrary: i idx)
  case (Suc k)
  have "missing_loop stop rs pps k (i + 1) (idx + 1) = Inr []" using Suc.prems by (intro Suc.IH) auto
  moreover have "idx < length rs" "idx < length pps" "isNull (rs ! idx) \<or> pps ! idx \<noteq> None" using Suc.prems by auto
  ultimately show ?case by (cases "isNull (rs ! idx)") (simp_all add: arr_get_def rpred_def)
qed simp

lemma release_stable_total:
  assumes "idx + k \<le> length rs" "idx + k \<le> length pps" "\<forall>j pp. idx \<le> j \<and> j < idx + k \<and> pps ! j = Some pp \<longrightarrow> pp_seqNumber pp = Inr (i + int j - int idx)"
  shows "\<exists>pps'. release_stable rs k i idx pps = Inr pps'"
  using assms
proof (induction k arbitrary: i idx pps)
  case (Suc k)
  have step: "\<exists>pps'. release_stable rs k (i + 1) (idx + 1) q = Inr pps'" if "q = pps \<or> q = pps[idx := None]" for q
    using that Suc.prems by (intro Suc.IH) (auto simp: add_diff_eq)
  have "pp_seqNumber pp = Inr i" if "pps ! idx = Some pp" for pp using Suc.prems(3) that by force
  moreover have "idx < length rs" "idx < length pps" using Suc.prems(1,2) by simp_all
  ultimately show ?case using step [of pps] step [of "pps[idx := None]"] by (cases "pps ! idx") (simp_all add: arr_get_def)
qed simp

definition pp_changeable :: "MessageBase \<Rightarrow> bool" where
  "pp_changeable pp \<longleftrightarrow> 86 \<le> length (msgBody pp) \<and> pp_isNull pp = Inr False"

lemma updateView_total: "pp_changeable pp \<Longrightarrow> \<exists>pp'. pp_updateView v fp pp = Inr pp'"
proof -
  assume a: "pp_changeable pp"
  obtain b1 where b1: "wr 6 (le_s64 v) (msgBody pp) = Inr b1" "length b1 = length (msgBody pp)"
    using wr_total [of 6 "le_s64 v" "msgBody pp"] a by (auto simp: pp_changeable_def)
  obtain r where r: "pp_isReady pp = Inr r" using a by (auto simp: pp_changeable_def pp_isReady_def pp_flags_def rpred_def rd_fld)
  obtain fl where fl: "computeFlagsForPrePrepareMsg False r fp = Inr fl" by (simp add: computeFlagsForPrePrepareMsg_def)
  obtain b2 where "wr 30 (le_bytes 2 fl) b1 = Inr b2" using wr_total [of 30 "le_bytes 2 fl" b1] b1 a by (auto simp: pp_changeable_def)
  then show ?thesis using a b1 r fl by (simp add: pp_updateView_def pp_changeable_def)
qed

lemma length_dec_digits: "n < 10 ^ k \<Longrightarrow> 0 < k \<Longrightarrow> length (dec_digits n) \<le> k"
proof (induction n arbitrary: k rule: dec_digits.induct)
  case (1 n)
  show ?case
  proof (cases "n < 10")
    case True
    then show ?thesis using 1(3) by (simp add: dec_digits.simps [of n])
  next
    case False
    then obtain k' where k: "k = Suc k'" "0 < k'" using 1(2,3) by (cases k; cases "k - 1") auto
    have "n div 10 < 10 ^ k'" using 1(2) k by (simp add: div_less_iff_less_mult mult.commute)
    then have "length (dec_digits (n div 10)) \<le> k'" using 1(1) [OF False] k(2) by simp
    then show ?thesis using False k by (simp add: dec_digits.simps [of n])
  qed
qed

lemma null_pp_total:
  assumes "0 \<le> i" "i < 2 ^ 63" "120 \<le> maxMessageSize (ve_env e)" "maxMessageSize (ve_env e) \<le> 2 ^ 32"
  shows "\<exists>pp. null_pp e v i = Inr pp"
proof -
  let ?cid = "48 # dec_digits (nat i)"
  have "nat i < 10 ^ 19" using assms(1,2) by (simp add: nat_less_iff)
  then have l: "length ?cid \<le> 20" using length_dec_digits [of "nat i" 19] by simp
  let ?n = "86 + length ?cid"
  have n: "(if 0 + 86 + length ?cid + length [] < maxMessageSize (ve_env e) then 0 + 86 + length ?cid else maxMessageSize (ve_env e) - length []) = ?n"
    "u32 (?n + 0) = ?n" using l assms(3,4) by simp_all
  obtain b0 where b0: "wr 0 (header_bytes (msg_code McPrePrepare) 0) (replicate ?n 0) = Inr b0" "length b0 = ?n"
    using wr_total [of 0 "header_bytes (msg_code McPrePrepare) 0" "replicate ?n 0"] by auto
  let ?x = "le_s64 v @ le_s64 i @ le_bytes 8 (selfEpoch (ve_env e)) @ le_bytes 2 (path_bits SLOW + 2) @ le_bytes 8 (length ?cid) @ le_s64 0 @
      nullDigest @ le_bytes 2 0 @ le_bytes 4 (86 + length ?cid)"
  obtain b1 where b1: "wr 6 ?x b0 = Inr b1" "length b1 = ?n"
    using wr_total [of 6 ?x b0] b0(2) by (auto simp: nullDigest_def)
  obtain b2 where b2: "wr 86 ?cid b1 = Inr b2" using wr_total [of 86 ?cid b1] b1(2) by auto
  have fl: "computeFlagsForPrePrepareMsg True True SLOW = Inr (path_bits SLOW + 2)" by (simp add: computeFlagsForPrePrepareMsg_def)
  have "MessageBase_new (vmId e) (msg_code McPrePrepare) 0 ?n = Inr \<lparr>msgBody = b0, msgSize = ?n, storageSize = ?n, sender = vmId e, owner = True\<rparr>"
    unfolding MessageBase_new_def Let_def n(2) b0(1) by simp
  then show ?thesis unfolding null_pp_def PrePrepareMsg_new_def Let_def n(1) using b1(1) b2 fl by simp
qed

lemma propose_again_total:
  assumes "idx + k \<le> length rs" "idx + k \<le> length pps" "\<forall>t. i \<le> t \<and> t < i + int k \<longrightarrow> (\<exists>pp. null_pp e v t = Inr pp)"
    "\<forall>j. idx \<le> j \<and> j < idx + k \<longrightarrow> (if isNull (rs ! j) then pps ! j = None
       else \<exists>pp. pps ! j = Some pp \<and> pp_seqNumber pp = Inr (i + int j - int idx) \<and> pp_changeable pp)"
  shows "\<exists>out pps'. propose_again e v rs k i idx pps = Inr (out, pps')"
  using assms
proof (induction k arbitrary: i idx pps)
  case (Suc k)
  have step: "\<exists>out pps'. propose_again e v rs k (i + 1) (idx + 1) q = Inr (out, pps')" if "q = pps \<or> q = pps[idx := None]" for q
    using that Suc.prems by (intro Suc.IH) (auto simp: add_diff_eq)
  show ?case
  proof (cases "isNull (rs ! idx)")
    case True
    obtain pp where "null_pp e v i = Inr pp" using Suc.prems(3) by force
    moreover have "pps ! idx = None" using Suc.prems(4) True by force
    ultimately show ?thesis using step [of pps] True Suc.prems(1,2) by (auto simp: arr_get_def)
  next
    case False
    have "\<exists>pp. pps ! idx = Some pp \<and> pp_seqNumber pp = Inr i \<and> pp_changeable pp" using Suc.prems(4) [rule_format, of idx] False by simp
    then obtain pp pp' where "pps ! idx = Some pp" "pp_seqNumber pp = Inr i" "pp_updateView v SLOW pp = Inr pp'" using updateView_total by blast
    then show ?thesis using step [of "pps[idx := None]"] False Suc.prems(1,2) by (auto simp: arr_get_def)
  qed
qed simp


text \<open>The restrictions are met by the messages that the replica kept from earlier views.\<close>

definition restrictions_met :: "VmEnv \<Rightarrow> SeqNum \<Rightarrow> ViewsManager \<Rightarrow> bool" where
  "restrictions_met e ls st \<longleftrightarrow> (\<forall>mn mx rs t.
     computeRestrictions (ve_vf e) (vmF e) (vmC e) nullDigest (viewChangeMsgsOfPendingView st) (lowerBoundStableForPendingView st)
       (restrictionsOfPendingView st) = Inr (mn, mx, rs) \<and> ls < t \<and> t \<le> mx \<and> \<not> isNull (rs ! nat (t - mn)) \<longrightarrow>
     (\<exists>pp. map_of (collectionOfPrePrepareMsgs st) t = Some pp \<and> pp_digestOfRequests pp = Inr (r_digest (rs ! nat (t - mn)))))"

lemma restricted_enter_total:
  assumes i: "vm_inv e valid st" and s: "stat st = PENDING_WITH_RESTRICTIONS" and lb: "lowerBoundStableForPendingView st \<le> ls"
    and env: "120 \<le> maxMessageSize (ve_env e)" "maxMessageSize (ve_env e) \<le> 2 ^ 32"
    and have_pp: "\<And>t. minRestrictionOfPendingView st \<noteq> 0 \<Longrightarrow> ls < t \<Longrightarrow> t \<le> maxRestrictionOfPendingView st \<Longrightarrow>
       \<not> isNull (restrictionsOfPendingView st ! nat (t - minRestrictionOfPendingView st)) \<Longrightarrow>
       \<exists>pp. prePrepareMsgsOfRestrictions st ! nat (t - minRestrictionOfPendingView st) = Some pp \<and> pp_changeable pp"
  shows "hasMissingPrePrepareMsgs ls st = Inr False \<and> (\<exists>out st'. enter_view e v ls st = Inr (True, out, st'))"
proof (cases "minRestrictionOfPendingView st = 0")
  case True
  then show ?thesis using s by (simp add: hasMissingPrePrepareMsgs_def enter_view_def)
next
  case False
  define mn mx rs pps where "mn = minRestrictionOfPendingView st" and "mx = maxRestrictionOfPendingView st" and
    "rs = restrictionsOfPendingView st" and "pps = prePrepareMsgsOfRestrictions st"
  define fr where "fr = min (mx + 1) (max mn (ls + 1))"
  have l: "length pps = 300" "length rs = 300" using i by (simp_all add: vm_inv_def vm_shape_def pps_def rs_def)
  have w: "\<not> isNull (rs ! j) \<and> pp_seqNumber pp = Inr (mn + int j)" if "j < 300" "pps ! j = Some pp" for j pp
    using i that unfolding vm_inv_def vm_waiting_def mn_def rs_def pps_def by blast
  have rng: "mn = lowerBoundStableForPendingView st + 1" "mn \<le> mx" "mx < mn + 300" "mx < 2 ^ 63" "0 < mn" "mn \<le> ls + 1"
    using i s lb False by (auto simp: vm_inv_def vm_restricted_def vm_views_def range_ok_def mn_def mx_def kWorkWindow_def)
  have p: "\<exists>pp. pps ! j = Some pp \<and> pp_changeable pp" if "ls + 1 - mn \<le> int j" "int j \<le> mx - mn" "\<not> isNull (rs ! j)" for j
    using have_pp [of "mn + int j"] that False by (simp add: mn_def mx_def rs_def pps_def)
  have fr: "fr = min (mx + 1) (ls + 1)" "mn \<le> fr" "fr \<le> mx + 1" using rng by (auto simp: fr_def)
  have f2: "max mn (ls + 1) = ls + 1" using rng by simp
  have miss: "missing_loop True rs pps (nat (mx - (ls + 1) + 1)) (ls + 1) (nat (ls + 1 - mn)) = Inr []"
  proof (cases "ls + 1 \<le> mx")
    case True
    show ?thesis
    proof (rule missing_loop_total)
      show "nat (ls + 1 - mn) + nat (mx - (ls + 1) + 1) \<le> length rs" "nat (ls + 1 - mn) + nat (mx - (ls + 1) + 1) \<le> length pps"
        using True rng l by auto
      show "\<forall>j. nat (ls + 1 - mn) \<le> j \<and> j < nat (ls + 1 - mn) + nat (mx - (ls + 1) + 1) \<longrightarrow> isNull (rs ! j) \<or> pps ! j \<noteq> None"
        using p True rng by (force simp: nat_add_distrib [symmetric])
    qed
  qed simp
  have "hasMissingPrePrepareMsgs ls st = Inr False"
    using s False miss unfolding hasMissingPrePrepareMsgs_def missing_from_def Let_def mn_def [symmetric] mx_def [symmetric] rs_def [symmetric]
      pps_def [symmetric] f2 by (simp add: rpred_def)
  moreover have k: "nat (fr - mn) \<le> 300" using fr rng by auto
  obtain pps1 where rl: "release_stable rs (nat (fr - mn)) mn 0 pps = Inr pps1"
    using release_stable_total [of 0 "nat (fr - mn)" rs pps mn] w l k by auto
  have q: "length pps1 = 300" "\<And>j. nat (fr - mn) \<le> j \<Longrightarrow> pps1 ! j = pps ! j" using release_stable_sound [OF rl] l by auto
  have "\<exists>out pps'. propose_again e v rs (nat (mx - fr + 1)) fr (nat (fr - mn)) pps1 = Inr (out, pps')"
  proof (rule propose_again_total)
    show "nat (fr - mn) + nat (mx - fr + 1) \<le> length rs" "nat (fr - mn) + nat (mx - fr + 1) \<le> length pps1" using l q fr rng by auto
    show "\<forall>t. fr \<le> t \<and> t < fr + int (nat (mx - fr + 1)) \<longrightarrow> (\<exists>pp. null_pp e v t = Inr pp)"
      using null_pp_total [OF _ _ env] fr rng by auto
    show "\<forall>j. nat (fr - mn) \<le> j \<and> j < nat (fr - mn) + nat (mx - fr + 1) \<longrightarrow> (if isNull (rs ! j) then pps1 ! j = None
       else \<exists>pp. pps1 ! j = Some pp \<and> pp_seqNumber pp = Inr (fr + int j - int (nat (fr - mn))) \<and> pp_changeable pp)"
    proof (intro allI impI)
      fix j assume j: "nat (fr - mn) \<le> j \<and> j < nat (fr - mn) + nat (mx - fr + 1)"
      then have j': "j < 300" "int j \<le> mx - mn" "fr - mn \<le> int j" "fr = ls + 1" using fr rng by auto
      show "if isNull (rs ! j) then pps1 ! j = None
       else \<exists>pp. pps1 ! j = Some pp \<and> pp_seqNumber pp = Inr (fr + int j - int (nat (fr - mn))) \<and> pp_changeable pp"
      proof (cases "isNull (rs ! j)")
        case True
        then show ?thesis using w [OF j'(1)] q(2) j by (cases "pps ! j") auto
      next
        case False
        then obtain pp where "pps ! j = Some pp" "pp_changeable pp" using p [of j] j' by auto
        then show ?thesis using False w [OF j'(1)] q(2) j fr(2) by auto
      qed
    qed
  qed
  then obtain out pps' where "propose_again e v rs (nat (mx - fr + 1)) fr (nat (fr - mn)) pps1 = Inr (out, pps')" by blast
  then have "\<exists>out st'. enter_view e v ls st = Inr (True, out, st')"
    using rl False unfolding enter_view_def Let_def mn_def [symmetric] mx_def [symmetric] rs_def [symmetric] pps_def [symmetric] fr_def [symmetric] by simp
  ultimately show ?thesis by blast
qed

lemma restrictions_computed:
  assumes i: "vm_inv e valid st" and s: "stat st = PENDING" "myLatestPendingView st = v"
    and nv: "newViewMsgOfPendingView st = Some nv" "nv_newView nv = Inr v"
    and q: "quorum_elements (viewChangeMsgsOfPendingView st) M" "certs_return (ve_vf e) M" and ub: "lowerBoundStableForPendingView st + kWorkWindow < 2 ^ 63"
    and coll: "\<forall>(t, pp) \<in> set (collectionOfPrePrepareMsgs st). 86 \<le> length (msgBody pp)"
  shows "\<exists>mn mx rs pps. computeRestrictions (ve_vf e) (vmF e) (vmC e) nullDigest (viewChangeMsgsOfPendingView st) (lowerBoundStableForPendingView st)
      (restrictionsOfPendingView st) = Inr (mn, mx, rs) \<and>
    computeRestrictionsOfNewView e v st = Inr (st\<lparr>minRestrictionOfPendingView := mn, maxRestrictionOfPendingView := mx, restrictionsOfPendingView := rs,
      prePrepareMsgsOfRestrictions := pps\<rparr>) \<and>
    (\<forall>j pp. mn \<noteq> 0 \<and> j < nat (mx - mn + 1) \<and> \<not> isNull (rs ! j) \<and> map_of (collectionOfPrePrepareMsgs st) (mn + int j) = Some pp \<and>
       pp_digestOfRequests pp = Inr (r_digest (rs ! j)) \<longrightarrow> pps ! j = Some pp)"
proof -
  have lens: "length (prePrepareMsgsOfRestrictions st) = 300" "length (restrictionsOfPendingView st) = 300" "0 \<le> lowerBoundStableForPendingView st"
    "set (prePrepareMsgsOfRestrictions st) \<subseteq> {None}"
    using i s by (simp_all add: vm_inv_def vm_shape_def vm_views_def vm_waiting_def)
  obtain mn mx rs where c: "computeRestrictions (ve_vf e) (vmF e) (vmC e) nullDigest (viewChangeMsgsOfPendingView st)
      (lowerBoundStableForPendingView st) (restrictionsOfPendingView st) = Inr (mn, mx, rs)"
    using computeRestrictions_entries [OF q lens(3) ub lens(2)] by blast
  have rl: "length rs = 300" "range_ok (lowerBoundStableForPendingView st) mn mx" using computeRestrictions_range [OF c] lens by simp_all
  have dig: "\<forall>(t, pp) \<in> set (collectionOfPrePrepareMsgs st). \<exists>d. pp_digestOfRequests pp = Inr d"
    using coll by (auto simp: pp_digestOfRequests_def rd_bytes_def)
  have none: "\<forall>j. 0 \<le> j \<and> j < 0 + nat (mx - mn + 1) \<longrightarrow> prePrepareMsgsOfRestrictions st ! j = None" if "mn \<noteq> 0"
    using lens(1,4) rl(2) that by (auto simp: set_None_nth range_ok_def kWorkWindow_def)
  have "\<exists>pps. (if mn \<noteq> 0 then fill_restrictions (collectionOfPrePrepareMsgs st) rs (nat (mx - mn + 1)) mn 0 (prePrepareMsgsOfRestrictions st)
        else Inr (prePrepareMsgsOfRestrictions st)) = Inr pps \<and>
      (mn \<noteq> 0 \<longrightarrow> (\<forall>j pp. j < nat (mx - mn + 1) \<and> \<not> isNull (rs ! j) \<and> map_of (collectionOfPrePrepareMsgs st) (mn + int j) = Some pp \<and>
         pp_digestOfRequests pp = Inr (r_digest (rs ! j)) \<longrightarrow> pps ! j = Some pp))"
  proof (cases "mn = 0")
    case False
    have "0 + nat (mx - mn + 1) \<le> 300" using rl(2) False by (auto simp: range_ok_def kWorkWindow_def)
    from fill_restrictions_total [OF this lens(1) rl(1) none [OF False] dig, of mn] show ?thesis using False by auto
  qed simp
  then obtain pps where pps: "(if mn \<noteq> 0 then fill_restrictions (collectionOfPrePrepareMsgs st) rs (nat (mx - mn + 1)) mn 0 (prePrepareMsgsOfRestrictions st)
        else Inr (prePrepareMsgsOfRestrictions st)) = Inr pps"
    "mn \<noteq> 0 \<longrightarrow> (\<forall>j pp. j < nat (mx - mn + 1) \<and> \<not> isNull (rs ! j) \<and> map_of (collectionOfPrePrepareMsgs st) (mn + int j) = Some pp \<and>
         pp_digestOfRequests pp = Inr (r_digest (rs ! j)) \<longrightarrow> pps ! j = Some pp)"
    by blast
  have "computeRestrictionsOfNewView e v st = Inr (st\<lparr>minRestrictionOfPendingView := mn, maxRestrictionOfPendingView := mx, restrictionsOfPendingView := rs,
      prePrepareMsgsOfRestrictions := pps\<rparr>)"
    using s nv c pps(1) by (cases "mn = 0") (simp_all add: computeRestrictionsOfNewView_def)
  then show ?thesis using c pps(2) by blast
qed

lemma pending_view_enters:
  assumes i: "vm_inv e valid st" and s: "stat st = PENDING" "myLatestPendingView st = myCurrentView st"
    and nv: "newViewMsgOfPendingView st = Some nv" "nv_newView nv = Inr (myCurrentView st)"
    and q: "quorum_elements (viewChangeMsgsOfPendingView st) M" "certs_return (ve_vf e) M"
    and ls: "lowerBoundStableForPendingView st \<le> ls" "debugHighestKnownStable st \<le> ls" "ls \<le> le" "lowerBoundStableForPendingView st + kWorkWindow < 2 ^ 63"
      "debugHighestViewNumberPassedByClient st \<le> myCurrentView st"
    and env: "120 \<le> maxMessageSize (ve_env e)" "maxMessageSize (ve_env e) \<le> 2 ^ 32"
    and coll: "\<forall>(t, pp) \<in> set (collectionOfPrePrepareMsgs st). 86 \<le> length (msgBody pp)" and met: "restrictions_met e ls st"
  shows "\<exists>out st'. tryToEnterView e (myCurrentView st) ls le st = Inr (True, out, st') \<and>
    viewChangeMsgsOfPendingView st' = viewChangeMsgsOfPendingView st \<and> lowerBoundStableForPendingView st' = lowerBoundStableForPendingView st"
proof -
  define v where "v = myCurrentView st"
  define st1 where "st1 = st\<lparr>debugHighestKnownStable := ls, debugHighestViewNumberPassedByClient := v\<rparr>"
  have i1: "vm_inv e valid st1" using debug_inv [OF i] by (simp add: st1_def)
  have lens: "coll_ok (collectionOfPrePrepareMsgs st)" "myLatestActiveView st < v"
    using i s by (simp_all add: vm_inv_def vm_views_def vm_collection_def v_def)
  obtain mn mx rs pps where c: "computeRestrictions (ve_vf e) (vmF e) (vmC e) nullDigest (viewChangeMsgsOfPendingView st)
      (lowerBoundStableForPendingView st) (restrictionsOfPendingView st) = Inr (mn, mx, rs)"
    and cr: "computeRestrictionsOfNewView e v st1 = Inr (st1\<lparr>minRestrictionOfPendingView := mn, maxRestrictionOfPendingView := mx,
      restrictionsOfPendingView := rs, prePrepareMsgsOfRestrictions := pps\<rparr>)"
    and pps: "\<And>j pp. mn \<noteq> 0 \<Longrightarrow> j < nat (mx - mn + 1) \<Longrightarrow> \<not> isNull (rs ! j) \<Longrightarrow> map_of (collectionOfPrePrepareMsgs st) (mn + int j) = Some pp \<Longrightarrow>
       pp_digestOfRequests pp = Inr (r_digest (rs ! j)) \<Longrightarrow> pps ! j = Some pp"
    using restrictions_computed [OF i1, of v nv M] s nv q ls(4) coll by (auto simp: st1_def v_def)
  have rl: "range_ok (lowerBoundStableForPendingView st) mn mx" using computeRestrictions_range [OF c] by simp
  define st2 where "st2 = st1\<lparr>minRestrictionOfPendingView := mn, maxRestrictionOfPendingView := mx, restrictionsOfPendingView := rs,
      prePrepareMsgsOfRestrictions := pps\<rparr>"
  define st3 where "st3 = st2\<lparr>stat := PENDING_WITH_RESTRICTIONS\<rparr>"
  note cr = cr [folded st2_def]
  have i3: "vm_inv e valid st3" using computeRestrictionsOfNewView_inv [OF i1 cr] by (simp add: st3_def)
  have "\<exists>pp. prePrepareMsgsOfRestrictions st3 ! nat (t - minRestrictionOfPendingView st3) = Some pp \<and> pp_changeable pp"
    if t: "minRestrictionOfPendingView st3 \<noteq> 0" "ls < t" "t \<le> maxRestrictionOfPendingView st3"
      "\<not> isNull (restrictionsOfPendingView st3 ! nat (t - minRestrictionOfPendingView st3))" for t
  proof -
    have t': "mn \<noteq> 0" "t \<le> mx" "\<not> isNull (rs ! nat (t - mn))" using t by (simp_all add: st3_def st2_def)
    obtain pp where pp: "map_of (collectionOfPrePrepareMsgs st) t = Some pp" "pp_digestOfRequests pp = Inr (r_digest (rs ! nat (t - mn)))"
      using met c t(2) t' unfolding restrictions_met_def by blast
    have "mn \<le> t" using rl t' ls(1) t(2) by (auto simp: range_ok_def)
    then have "pps ! nat (t - mn) = Some pp" using pps [of "nat (t - mn)" pp] t' pp by simp
    moreover have "pp_changeable pp" using map_of_SomeD [OF pp(1)] coll lens(1) by (auto simp: pp_changeable_def coll_ok_def)
    ultimately show ?thesis by (simp add: st3_def st2_def)
  qed
  then obtain out st' where en: "hasMissingPrePrepareMsgs ls st3 = Inr False" "enter_view e v ls st3 = Inr (True, out, st')"
    using restricted_enter_total [OF i3 _ _ env, of ls v] ls(1) by (auto simp: st3_def st2_def st1_def)
  moreover have "viewChangeMsgsOfPendingView st' = viewChangeMsgsOfPendingView st \<and> lowerBoundStableForPendingView st' = lowerBoundStableForPendingView st"
    using enter_view_frame [OF en(2)] by (simp add: st3_def st2_def st1_def)
  moreover have "tryToEnterView e v ls le st = Inr (True, out, st')"
    using en s nv ls lens(2) cr unfolding tryToEnterView_def Let_def st1_def [symmetric] by (simp add: v_def [symmetric] st3_def st2_def st1_def)
  ultimately show ?thesis by (auto simp: v_def)
qed

text \<open>
  The replica has the pre-prepare messages of the restrictions above \<open>ls\<close>, each with a whole header: before the restrictions are
  computed among those it kept from earlier views, and afterwards in the slots of the restrictions.
\<close>

definition has_proposals :: "VmEnv \<Rightarrow> SeqNum \<Rightarrow> ViewsManager \<Rightarrow> bool" where
  "has_proposals e ls st \<longleftrightarrow>
     (if stat st = PENDING
      then restrictions_met e ls st \<and> (\<forall>(t, pp) \<in> set (collectionOfPrePrepareMsgs st). 86 \<le> length (msgBody pp))
      else \<forall>t. minRestrictionOfPendingView st \<noteq> 0 \<and> ls < t \<and> t \<le> maxRestrictionOfPendingView st \<and>
        \<not> isNull (restrictionsOfPendingView st ! nat (t - minRestrictionOfPendingView st)) \<longrightarrow>
        (\<exists>pp. prePrepareMsgsOfRestrictions st ! nat (t - minRestrictionOfPendingView st) = Some pp \<and> 86 \<le> length (msgBody pp)))"

lemma restricted_view_enters:
  assumes i: "vm_inv e valid st" and s: "stat st = PENDING_WITH_RESTRICTIONS" "myLatestPendingView st = myCurrentView st"
    and ls: "lowerBoundStableForPendingView st \<le> ls" "debugHighestKnownStable st \<le> ls" "ls \<le> le"
      "debugHighestViewNumberPassedByClient st \<le> myCurrentView st"
    and env: "120 \<le> maxMessageSize (ve_env e)" "maxMessageSize (ve_env e) \<le> 2 ^ 32" and pps: "has_proposals e ls st"
  shows "\<exists>out st'. tryToEnterView e (myCurrentView st) ls le st = Inr (True, out, st')"
proof -
  define st1 where "st1 = st\<lparr>debugHighestKnownStable := ls, debugHighestViewNumberPassedByClient := myCurrentView st\<rparr>"
  have i1: "vm_inv e valid st1" using debug_inv [OF i] by (simp add: st1_def)
  have w: "\<exists>pp. prePrepareMsgsOfRestrictions st1 ! nat (t - minRestrictionOfPendingView st1) = Some pp \<and> pp_changeable pp"
    if t: "minRestrictionOfPendingView st1 \<noteq> 0" "ls < t" "t \<le> maxRestrictionOfPendingView st1"
      "\<not> isNull (restrictionsOfPendingView st1 ! nat (t - minRestrictionOfPendingView st1))" for t
  proof -
    obtain pp where pp: "prePrepareMsgsOfRestrictions st1 ! nat (t - minRestrictionOfPendingView st1) = Some pp" "86 \<le> length (msgBody pp)"
      using pps s(1) t by (auto simp: has_proposals_def st1_def)
    have "maxRestrictionOfPendingView st1 < minRestrictionOfPendingView st1 + 300"
      using i1 s(1) t(1) by (auto simp: st1_def vm_inv_def vm_restricted_def range_ok_def kWorkWindow_def)
    then have "nat (t - minRestrictionOfPendingView st1) < 300" using t(3) by linarith
    then have "pp_isNull pp = Inr False" using i1 pp(1) by (simp add: vm_inv_def vm_waiting_def)
    then show ?thesis using pp by (simp add: pp_changeable_def)
  qed
  have "hasMissingPrePrepareMsgs ls st1 = Inr False \<and> (\<exists>out st'. enter_view e (myCurrentView st) ls st1 = Inr (True, out, st'))"
    using s(1) ls(1) by (intro restricted_enter_total [OF i1 _ _ env w]) (simp_all add: st1_def)
  moreover have "myLatestActiveView st < myCurrentView st" using i s by (simp add: vm_inv_def vm_views_def)
  ultimately show ?thesis using s ls unfolding tryToEnterView_def Let_def st1_def [symmetric] by (auto simp: st1_def)
qed

text \<open>
  C15. A pending view is entered. Let the replica have reached the stable sequence number that the quorum reports, and let it have the
  pre-prepare messages that the restrictions name above it. If the restrictions are not computed yet, let the view change messages
  be well-formed and the verification of their certificates return. Then the call returns true, so that the replica is in the view.
\<close>

theorem pending_view_is_entered:
  assumes i: "vm_inv e valid st" and s: "stat st = PENDING \<or> stat st = PENDING_WITH_RESTRICTIONS" "myLatestPendingView st = myCurrentView st"
    and nv: "newViewMsgOfPendingView st = Some nv" "nv_newView nv = Inr (myCurrentView st)"
    and q: "stat st = PENDING \<Longrightarrow> quorum_elements (viewChangeMsgsOfPendingView st) M \<and> certs_return (ve_vf e) M"
    and ls: "lowerBoundStableForPendingView st \<le> ls" "debugHighestKnownStable st \<le> ls" "ls \<le> le" "lowerBoundStableForPendingView st + kWorkWindow < 2 ^ 63"
      "debugHighestViewNumberPassedByClient st \<le> myCurrentView st"
    and env: "120 \<le> maxMessageSize (ve_env e)" "maxMessageSize (ve_env e) \<le> 2 ^ 32" and pps: "has_proposals e ls st"
  shows "\<exists>out st'. tryToEnterView e (myCurrentView st) ls le st = Inr (True, out, st')"
proof (cases "stat st = PENDING")
  case True
  have m: "restrictions_met e ls st" "\<forall>(t, pp) \<in> set (collectionOfPrePrepareMsgs st). 86 \<le> length (msgBody pp)"
    using pps True by (simp_all add: has_proposals_def)
  from pending_view_enters [OF i True s(2) nv conjunct1 [OF q [OF True]] conjunct2 [OF q [OF True]] ls env m(2,1)] show ?thesis by blast
next
  case False
  then show ?thesis using restricted_view_enters [OF i _ s(2) ls(1-3,5) env pps] s(1) by blast
qed

section \<open>What was committed is proposed again\<close>

lemma vm_inv_SMAJOR: "vmN e = 3 * vmF e + 2 * vmC e + 1 \<Longrightarrow> vmN e < 65536 \<Longrightarrow> SMAJOR e = 2 * vmF e + 2 * vmC e + 1"
  by (simp add: SMAJOR_def)

lemma quorum_elements_length: "quorum_elements vcs M \<Longrightarrow> length M = length (received vcs)"
  by (simp add: quorum_elements_def list_all2_lengthD)

text \<open>
  C4. A replica that enters a view proposes again what may have been committed. Let the state satisfy the invariant, as every
  state does that the operations can reach, let the call return true with the pre-prepare messages \<open>out\<close>, and let the
  verification of the certificates return. Suppose that the view change messages of the new view, which the replica then holds, show
  that the digest \<open>d\<close> may have been committed at the sequence number \<open>s\<close> in view \<open>v\<close>: one has a prepare certificate for a view not
  before \<open>v\<close> that is valid, as are all the certificates for the same view and digest, or F + C + 1 report \<open>d\<close> from a view not before
  \<open>v\<close>. Suppose further that the valid certificates for views not before \<open>v\<close> are for \<open>d\<close>, and that at most F messages report
  another digest from a later view. If \<open>s\<close> is above the stable sequence number of the call and within the window of the new view, then
  one of the messages in \<open>out\<close> proposes \<open>d\<close> at \<open>s\<close> in the new view.
\<close>

theorem committed_is_proposed_again:
  assumes i: "vm_inv e valid st" and n: "vmN e = 3 * vmF e + 2 * vmC e + 1" "vmN e < 65536" "1 \<le> vmF e + vmC e"
    and en: "is_s64 (myCurrentView st)" "tryToEnterView e (myCurrentView st) ls le st = Inr (True, out, st')"
    and q: "quorum_elements (viewChangeMsgsOfPendingView st') M" "certs_return (ve_vf e) M"
    and s: "ls < s" "s \<le> lowerBoundStableForPendingView st' + kWorkWindow" and v: "0 \<le> v" and d: "d \<noteq> nullDigest"
    and later: "length (filter (\<lambda>e. v < vc_originView e \<and> vc_digest e \<noteq> d) (votes_at M s)) \<le> vmF e"
    and certs: "\<And>x. x \<in> set (votes_at M s) \<Longrightarrow> has_cert x \<Longrightarrow> cert_ok (ve_vf e s) s x \<Longrightarrow> v \<le> cert_view x \<Longrightarrow> vc_digest x = d"
    and committed: "(\<exists>x \<in> set (votes_at M s). has_cert x \<and> v \<le> cert_view x \<and>
        (\<forall>z \<in> set (votes_at M s). has_cert z \<and> same_key z x \<longrightarrow> cert_ok (ve_vf e s) s z)) \<or>
      vmF e + vmC e + 1 \<le> length (filter (\<lambda>x. v \<le> vc_originView x \<and> vc_digest x = d) (votes_at M s))"
  shows "\<exists>pp \<in> set out. pp_proposes pp (myCurrentView st) s d"
proof -
  let ?lb = "lowerBoundStableForPendingView st'" and ?vcs = "viewChangeMsgsOfPendingView st'"
  have e: "vm_inv e valid st'" "entered e (myCurrentView st) ls out st'" using tryToEnterView_sound [OF i refl en] by simp_all
  obtain nv old mn mx rs where qu: "vc_quorum e (myCurrentView st) nv ?vcs" and lb: "?lb \<le> ls"
    and c: "computeRestrictions (ve_vf e) (vmF e) (vmC e) nullDigest ?vcs ?lb old = Inr (mn, mx, rs)" "length old = 300"
    and out: "length out = (if mn = 0 then 0 else nat (mx - ls))"
      "\<And>t. mn \<noteq> 0 \<Longrightarrow> ls < t \<Longrightarrow> t \<le> mx \<Longrightarrow> pp_proposes (out ! nat (t - ls - 1)) (myCurrentView st) t (wanted_digest (rs ! nat (t - mn)))"
    using e(2) unfolding entered_def by blast
  have l0: "0 \<le> ?lb" using e(1) by (simp add: vm_inv_def vm_views_def)
  have ub: "?lb + kWorkWindow < 2 ^ 63" using c(1) by (auto simp: computeRestrictions_def s64_plus_def split: if_splits)
  have M: "length M = 2 * vmF e + 2 * vmC e + 1" using qu quorum_elements_length [OF q(1)] vm_inv_SMAJOR [OF n(1,2)] by (simp add: vc_quorum_def)
  have "vmF e + vmC e < 65535" "?lb < s" using n(1,2) lb s(1) by simp_all
  then obtain mn' mx' rs' where r: "computeRestrictions (ve_vf e) (vmF e) (vmC e) nullDigest ?vcs ?lb old = Inr (mn', mx', rs')" "mn' \<le> s" "s \<le> mx'"
    "\<not> isNull (rs' ! nat (s - ?lb - 1))" "r_digest (rs' ! nat (s - ?lb - 1)) = d"
    using committed_restricts [OF q M n(3) _ l0 ub c(2) _ s(2) v d later certs committed] by blast
  have mx: "s \<le> mx" "\<not> isNull (rs ! nat (s - ?lb - 1))" "r_digest (rs ! nat (s - ?lb - 1)) = d" using r c by auto
  have mn: "mn = ?lb + 1" using computeRestrictions_range(1) [OF c(1)] mx(1) l0 lb s(1) by (auto simp: range_ok_def)
  have "pp_proposes (out ! nat (s - ls - 1)) (myCurrentView st) s (wanted_digest (rs ! nat (s - mn)))" using out(2) s(1) mx(1) mn l0 by simp
  moreover have "wanted_digest (rs ! nat (s - mn)) = d" using mx mn by (simp add: wanted_digest_def diff_diff_eq)
  moreover have "out ! nat (s - ls - 1) \<in> set out" using out(1) s(1) mx(1) mn l0 by (intro nth_mem) auto
  ultimately show ?thesis by auto
qed

section \<open>Complaints\<close>

text \<open>
  C39. Complaints of a quorum name a correct replica: when the stored complaints are enough to leave the view and at most F
  replicas are faulty, one of them is a validated complaint of a correct replica.
\<close>

theorem complaint_of_correct_replica:
  assumes "vm_inv e valid st" "hasQuorumToLeaveView e st" "finite bad" "card bad \<le> vmF e"
  shows "\<exists>(i, m) \<in> set (complainedReplicas st). i \<notin> bad \<and> lv_idOfGeneratedReplica m = Inr i \<and> valid m"
proof -
  have d: "distinct (map fst (complainedReplicas st))" "\<forall>(i, m) \<in> set (complainedReplicas st). lv_idOfGeneratedReplica m = Inr i \<and> valid m"
    using assms(1) by (simp_all add: vm_inv_def vm_complaints_def complaints_ok_def)
  have "card (fst ` set (complainedReplicas st)) = length (complainedReplicas st)" using distinct_card [OF d(1)] by simp
  moreover have "vmF e + 1 \<le> length (complainedReplicas st)"
    using assms(2) by (simp add: hasQuorumToLeaveView_def lvi_hasQuorumToLeaveView_def)
  ultimately have "\<not> fst ` set (complainedReplicas st) \<subseteq> bad"
    using assms(4) card_mono [OF assms(3), of "fst ` set (complainedReplicas st)"] by linarith
  then obtain i m where "(i, m) \<in> set (complainedReplicas st)" "i \<notin> bad" by (fastforce simp: image_subset_iff)
  then show ?thesis using d(2) by blast
qed

section \<open>The views that replicas ask for\<close>

text \<open>The view that the stored view change message of replica \<open>i\<close> asks for.\<close>

definition asks_for :: "VmEnv \<Rightarrow> ViewsManager \<Rightarrow> nat \<Rightarrow> ViewNum \<Rightarrow> bool" where
  "asks_for e st i v \<longleftrightarrow> (\<exists>m. (if i = vmId e then getMyLatestViewChangeMsg e st = Inr (Some m) else viewChangeMessages st ! i = Some m) \<and> vc_newView m = Inr v)"

lemma later_views_asked:
  assumes "later_views e st i ps = Inr vs" "drop i (viewChangeMessages st) = ps"
  shows "\<exists>is. length is = length vs \<and> distinct is \<and> set is \<subseteq> {i ..< i + length ps} \<and>
    (\<forall>j < length vs. asks_for e st (is ! j) (vs ! j) \<and> myLatestPendingView st < vs ! j)"
  using assms
proof (induction e st i ps arbitrary: vs rule: later_views.induct)
  case (2 e st i p ps)
  obtain vc us ws where vc: "(if i = vmId e then getMyLatestViewChangeMsg e st else Inr p) = Inr vc"
    and us: "(case vc of None \<Rightarrow> Inr [] | Some m \<Rightarrow> rbind (vc_newView m) (\<lambda>v. Inr (if v > myLatestPendingView st then [v] else []))) = Inr us"
    and ws: "later_views e st (i + 1) ps = Inr ws" and vs: "vs = us @ ws"
    using 2(2) by auto
  have d: "drop (i + 1) (viewChangeMessages st) = ps" "viewChangeMessages st ! i = p"
    using 2(3) by (metis Suc_eq_plus1 drop_Suc list.sel(3) tl_drop, metis nth_via_drop)
  obtain "is" where is': "length is = length ws" "distinct is" "set is \<subseteq> {i + 1 ..< i + 1 + length ps}"
    "\<And>j. j < length ws \<Longrightarrow> asks_for e st (is ! j) (ws ! j) \<and> myLatestPendingView st < ws ! j"
    using 2(1) [OF vc us ws d(1)] by blast
  show ?case
  proof (cases "us = []")
    case True
    have "set is \<subseteq> {i ..< i + length (p # ps)}" using is'(3) by auto
    then show ?thesis using is'(1,2,4) vs True by (intro exI [of _ "is"]) simp
  next
    case False
    then obtain m v where u: "vc = Some m" "vc_newView m = Inr v" "myLatestPendingView st < v" "us = [v]"
      using us by (auto split: option.splits if_splits)
    then have "asks_for e st i v" using vc d(2) by (auto simp: asks_for_def split: if_splits)
    then have "asks_for e st ((i # is) ! j) ((v # ws) ! j) \<and> myLatestPendingView st < (v # ws) ! j" if "j < Suc (length ws)" for j
      using is'(4) u(3) that by (cases j) simp_all
    moreover have "set (i # is) \<subseteq> {i ..< i + length (p # ps)}" "distinct (i # is)" using is'(2,3) by auto
    ultimately show ?thesis unfolding vs u(4) using is'(1) by (intro exI [of _ "i # is"]) simp
  qed
qed simp

lemma asked_count:
  assumes "later_views e st 0 (viewChangeMessages st) = Inr vs" "k < length vs"
  shows "myLatestPendingView st < rev (sort vs) ! k \<and>
    Suc k \<le> card {i. i < length (viewChangeMessages st) \<and> (\<exists>v \<ge> rev (sort vs) ! k. asks_for e st i v)}"
proof -
  let ?x = "rev (sort vs) ! k" and ?I = "{i. i < length (viewChangeMessages st) \<and> (\<exists>v \<ge> rev (sort vs) ! k. asks_for e st i v)}"
  obtain "is" where is': "length is = length vs" "distinct is" "set is \<subseteq> {0 ..< length (viewChangeMessages st)}"
    "\<And>j. j < length vs \<Longrightarrow> asks_for e st (is ! j) (vs ! j) \<and> myLatestPendingView st < vs ! j"
    using later_views_asked [OF assms(1)] by auto
  have "?x \<in> set (rev (sort vs))" using assms(2) by (intro nth_mem) simp
  then obtain j where "j < length vs" "vs ! j = ?x" by (auto simp: in_set_conv_nth)
  then have pend: "myLatestPendingView st < ?x" using is'(4) [of j] by simp
  have "Suc k \<le> length (filter (\<lambda>x. ?x \<le> x) (rev (sort vs)))" using assms(2) by (intro sorted_desc_counts) (simp_all add: sorted_wrt_rev)
  also have "\<dots> = length (filter (\<lambda>x. ?x \<le> x) vs)" by (metis mset_filter mset_rev mset_sort size_mset)
  also have "\<dots> = card {j. j < length vs \<and> ?x \<le> vs ! j}" by (rule length_filter_conv_card)
  also have "\<dots> = card ((!) is ` {j. j < length vs \<and> ?x \<le> vs ! j})"
    using is'(1,2) by (intro card_image [symmetric]) (auto simp: inj_on_def nth_eq_iff_index_eq)
  also have "\<dots> \<le> card ?I"
  proof (rule card_mono)
    show "(!) is ` {j. j < length vs \<and> ?x \<le> vs ! j} \<subseteq> ?I"
    proof (rule image_subsetI)
      fix j assume "j \<in> {j. j < length vs \<and> ?x \<le> vs ! j}"
      then have j: "j < length vs" "?x \<le> vs ! j" by simp_all
      then have "is ! j \<in> {0 ..< length (viewChangeMessages st)}" using is'(1,3) by (metis nth_mem subsetD)
      then show "is ! j \<in> ?I" using is'(4) [OF j(1)] j(2) by auto
    qed
  qed simp
  finally show ?thesis using pend by simp
qed

text \<open>
  C38. The view numbers that the replica acts on are justified: when there are at most F faulty replicas, either the first number
  is the pending view or a correct replica asks for a view that is not below it, and either the second number is the pending
  view or as many replicas as a quorum has ask for a view that is not below it.
\<close>

theorem relevant_views_justified:
  assumes c: "computeCorrectRelevantViewNumbers e st = Inr (correct, active)" and n: "vmF e < 65535" "0 < SMAJOR e"
    and bad: "finite bad" "card bad \<le> vmF e"
  shows "(correct = myLatestPendingView st \<or> (myLatestPendingView st < correct \<and>
      (\<exists>i < length (viewChangeMessages st). i \<notin> bad \<and> (\<exists>v \<ge> correct. asks_for e st i v)))) \<and>
    (active = myLatestPendingView st \<or> (myLatestPendingView st < active \<and>
      SMAJOR e \<le> card {i. i < length (viewChangeMessages st) \<and> (\<exists>v \<ge> active. asks_for e st i v)}))" (is "(_ \<or> ?B) \<and> (_ \<or> ?D)")
proof -
  obtain vs where vs: "later_views e st 0 (viewChangeMessages st) = Inr vs"
    using c by (cases "later_views e st 0 (viewChangeMessages st)") (simp_all add: computeCorrectRelevantViewNumbers_def)
  have "u16 (vmF e + 1) = vmF e + 1" using n(1) by simp
  then have r: "if length vs < vmF e + 1 then correct = myLatestPendingView st \<and> active = myLatestPendingView st
      else correct = rev (sort vs) ! vmF e \<and> active = (if length vs < SMAJOR e then myLatestPendingView st else rev (sort vs) ! (SMAJOR e - 1))"
    using c unfolding computeCorrectRelevantViewNumbers_def vs Let_def by (cases "length vs < vmF e + 1") simp_all
  have "correct = myLatestPendingView st \<or> ?B"
  proof (cases "length vs < vmF e + 1")
    case False
    let ?I = "{i. i < length (viewChangeMessages st) \<and> (\<exists>v \<ge> correct. asks_for e st i v)}"
    have a: "myLatestPendingView st < correct" "Suc (vmF e) \<le> card ?I" using asked_count [OF vs, of "vmF e"] r False by simp_all
    then have "\<not> ?I \<subseteq> bad" using card_mono [OF bad(1), of ?I] bad(2) by linarith
    then show ?thesis using a(1) by blast
  qed (use r in simp)
  moreover have "active = myLatestPendingView st \<or> ?D"
  proof (cases "length vs < vmF e + 1 \<or> length vs < SMAJOR e")
    case False
    then have "SMAJOR e - 1 < length vs" "active = rev (sort vs) ! (SMAJOR e - 1)" using r n(2) by (linarith, simp)
    then show ?thesis using asked_count [OF vs, of "SMAJOR e - 1"] n(2) by simp
  qed (use r in \<open>simp split: if_splits\<close>)
  ultimately show ?thesis by blast
qed

section \<open>Examples\<close>

definition example_ve :: VmEnv where
  "example_ve = \<lparr>ve_env = example_env, ve_ri = example_ri 1, ve_vf = example_vf\<rparr>"

definition example_proposal :: "ViewNum \<Rightarrow> SeqNum \<Rightarrow> nat \<Rightarrow> MessageBase" where
  "example_proposal v s x = MessageBase_of 1 (header_bytes (msg_code McPrePrepare) 0 @ le_s64 v @ le_s64 s @ le_bytes 8 0 @ le_bytes 2 3 @
     le_bytes 8 0 @ le_s64 0 @ replicate 32 (of_nat x) @ le_bytes 2 1 @ le_bytes 4 86) True"

definition example_nv :: MessageBase where
  "example_nv = MessageBase_of 1 (header_bytes (msg_code McNewView) 0 @ le_s64 5 @ le_bytes 8 0 @ le_bytes 2 0) True"

definition example_pending :: ViewsManager where
  "example_pending = \<lparr>stat = PENDING, myCurrentView = 5, targetView = 5, myLatestActiveView = 4, myLatestPendingView = 5,
     complainedReplicas = [(2, MessageBase_of 2 (replicate 6 0 @ le_bytes 2 2 @ le_s64 4) True), (3, MessageBase_of 3 (replicate 6 0 @ le_bytes 2 3 @ le_s64 4) True)],
     complainedReplicasForHigherView = [],
     viewChangeMessages = replicate 4 None, newViewMessages = replicate 4 None,
     collectionOfPrePrepareMsgs = [(301, example_proposal 4 301 7)], viewChangeMsgsOfPendingView = example_vcs,
     newViewMsgOfPendingView = Some example_nv, minRestrictionOfPendingView = 0, maxRestrictionOfPendingView = 0,
     restrictionsOfPendingView = replicate 300 \<lparr>isNull = True, r_digest = replicate 32 0\<rparr>,
     prePrepareMsgsOfRestrictions = replicate 300 None, lowerBoundStableForPendingView = 300,
     debugHighestKnownStable = 0, debugHighestViewNumberPassedByClient = 0\<rparr>"

lemma example_ve_simps [simp]:
  "vmN example_ve = 4" "vmF example_ve = 1" "vmC example_ve = 0" "vmId example_ve = 1" "ve_env example_ve = example_env" "ve_vf example_ve = example_vf"
  "SMAJOR example_ve = 3" "primaryOfView (ve_ri example_ve) 5 = 1" "primaryOfView (ve_ri example_ve) 0 = 0"
  by (simp_all add: example_ve_def vmN_def vmF_def vmC_def vmId_def SMAJOR_def example_ri_def primaryOfView_def)

lemma example_proposal_fields:
  assumes "is_s64 v" "is_s64 s"
  shows "pp_viewNumber (example_proposal v s x) = Inr v" "pp_seqNumber (example_proposal v s x) = Inr s" "pp_isNull (example_proposal v s x) = Inr False"
    "pp_digestOfRequests (example_proposal v s x) = Inr (replicate 32 (of_nat x))" "length (msgBody (example_proposal v s x)) = 86"
  using assms by (simp_all add: example_proposal_def MessageBase_of_def pp_viewNumber_def pp_seqNumber_def pp_isNull_def pp_flags_def rpred_def
      pp_digestOfRequests_def rd_s64_def rd_bytes_def rd_fld fld_simps header_bytes_def s64_read bit_simps)

lemma example_nv_view: "nv_newView example_nv = Inr 5"
  by (simp add: example_nv_def MessageBase_of_def nv_newView_def rd_s64_def rd_fld fld_simps header_bytes_def s64_read is_s64_def)

lemma example_vc_slot:
  assumes "es \<in> {[], [example_element 7 [5, 6]]}" "i < 4"
  shows "vc_slot example_ve 5 nv i (example_vc i 300 es)"
proof -
  have "msgBody (example_vc i 300 es) = vc_layout i 5 300 0 [] 0 0 es []" by (simp add: example_vc_def MessageBase_of_def)
  from layout_fields(1,2) [OF example_vc_fits [OF assms(1) _ assms(2)] this] show ?thesis by (simp add: vc_slot_def)
qed

lemma example_pending_inv: "vm_inv example_ve (\<lambda>m. True) example_pending"
proof -
  have q: "vc_quorum example_ve 5 example_nv example_vcs"
    unfolding vc_quorum_def example_vcs_def using example_vc_slot by (auto simp: less_Suc_eq numeral_eq_Suc)
  have c: "coll_ok [(301, example_proposal 4 301 7)]" by (simp add: coll_ok_def example_proposal_fields is_s64_def)
  have k: "complaints_ok (\<lambda>m. True) (complainedReplicas example_pending)"
    by (simp add: complaints_ok_def example_pending_def lv_idOfGeneratedReplica_def MessageBase_of_def rd_fld fld_simps)
  have s: "vm_slots example_ve example_pending" by (auto simp: vm_slots_def example_pending_def less_Suc_eq numeral_eq_Suc)
  have "length example_vcs = 4" by (simp add: example_vcs_def)
  then show ?thesis unfolding vm_inv_def using q c k s
    using vc_quorum_others [OF q] by (simp add: vm_shape_def vm_views_def vm_pending_def vm_restricted_def vm_waiting_def vm_collection_def vm_complaints_def example_pending_def)
qed

lemma example_restrictions:
  assumes c: "computeRestrictions example_vf 1 0 nullDigest example_vcs 300 arr = Inr (mn, mx, rs)" "length arr = 300"
    and t: "300 < t" "t \<le> mx" "\<not> isNull (rs ! nat (t - mn))"
  shows "t = 301 \<and> r_digest (rs ! nat (t - mn)) = replicate 32 7"
proof -
  let ?e = "example_element 7 [5, 6]"
  have r: "mn = 301" "mx \<le> 300 + kWorkWindow" using computeRestrictions_range(1) [OF c(1)] t by (auto simp: range_ok_def)
  have en: "entry_ok example_vf (u16 (1 + 0 + 1)) nullDigest example_M t (rs ! nat (t - mn))"
    using computeRestrictions_entries [OF example_quorum(1,2), of 300 arr 1 0 nullDigest] c t r by (auto simp: kWorkWindow_def)
  then obtain vs where vs: "mset vs = mset (votes_at example_M t)" "fits nullDigest (outcome (cert_ok (example_vf t) t) 2 vs) (rs ! nat (t - mn))"
    by (auto simp: entry_ok_def numeral_2_eq_2)
  show ?thesis
  proof (cases "t = 301")
    case True
    then have m: "mset vs = {# ?e, ?e #}" using vs(1) by (simp add: example_quorum)
    have "set vs = {?e}" "length vs = 2" using arg_cong [OF m, of set_mset] arg_cong [OF m, of size] by simp_all
    then have "vs = [?e, ?e]" using replicate_length_same [of vs ?e] by (simp add: numeral_2_eq_2)
    then show ?thesis using vs(2) t(3) True
      by (simp add: fits_def outcome_def best_slow_def cert_set_def example_cert min_fast_def nullDigest_def split: if_splits)
  next
    case False
    then have "votes_at example_M t = []" by (simp add: votes_at_def example_M_def example_cert)
    then show ?thesis using vs t(3) by (simp add: fits_def outcome_def best_slow_def cert_set_def)
  qed
qed

lemma example_pending_met: "restrictions_met example_ve 300 example_pending"
  unfolding restrictions_met_def
proof (intro allI impI, elim conjE)
  fix mn mx rs t
  assume c: "computeRestrictions (ve_vf example_ve) (vmF example_ve) (vmC example_ve) nullDigest (viewChangeMsgsOfPendingView example_pending)
      (lowerBoundStableForPendingView example_pending) (restrictionsOfPendingView example_pending) = Inr (mn, mx, rs)"
    and t: "300 < t" "t \<le> mx" "\<not> isNull (rs ! nat (t - mn))"
  have "t = 301 \<and> r_digest (rs ! nat (t - mn)) = replicate 32 7"
    using example_restrictions [of "restrictionsOfPendingView example_pending" mn mx rs t] c t by (auto simp: example_pending_def)
  then show "\<exists>pp. map_of (collectionOfPrePrepareMsgs example_pending) t = Some pp \<and> pp_digestOfRequests pp = Inr (r_digest (rs ! nat (t - mn)))"
    by (auto simp: example_pending_def example_proposal_fields is_s64_def)
qed

lemma example_pending_facts:
  "stat example_pending = PENDING" "myLatestPendingView example_pending = myCurrentView example_pending" "myCurrentView example_pending = 5"
  "newViewMsgOfPendingView example_pending = Some example_nv" "nv_newView example_nv = Inr (myCurrentView example_pending)"
  "quorum_elements (viewChangeMsgsOfPendingView example_pending) example_M" "certs_return (ve_vf example_ve) example_M"
  "lowerBoundStableForPendingView example_pending \<le> 300" "debugHighestKnownStable example_pending \<le> 300"
  "lowerBoundStableForPendingView example_pending + kWorkWindow < 2 ^ 63" "debugHighestViewNumberPassedByClient example_pending \<le> myCurrentView example_pending"
  "120 \<le> maxMessageSize (ve_env example_ve)" "maxMessageSize (ve_env example_ve) \<le> 2 ^ 32"
  "\<forall>(t, pp) \<in> set (collectionOfPrePrepareMsgs example_pending). 86 \<le> length (msgBody pp)"
  using example_quorum by (simp_all add: example_pending_def example_nv_view kWorkWindow_def example_env_def example_proposal_fields is_s64_def)

lemma example_pending_proposals: "has_proposals example_ve 300 example_pending"
  using example_pending_met example_pending_facts(1,14) by (simp add: has_proposals_def)

text \<open>The same view after its restrictions were computed, at a replica that has reached the end of their range.\<close>

lemma example_restricted:
  "\<exists>st. computeRestrictionsOfNewView example_ve 5 example_pending = Inr st \<and> vm_inv example_ve (\<lambda>m. True) (st\<lparr>stat := PENDING_WITH_RESTRICTIONS\<rparr>) \<and>
     myLatestPendingView st = 5 \<and> myCurrentView st = 5 \<and> newViewMsgOfPendingView st = Some example_nv \<and> lowerBoundStableForPendingView st = 300 \<and>
     debugHighestKnownStable st = 0 \<and> debugHighestViewNumberPassedByClient st = 0 \<and> maxRestrictionOfPendingView st \<le> 600"
proof -
  obtain mn mx rs pps where c: "computeRestrictions (ve_vf example_ve) (vmF example_ve) (vmC example_ve) nullDigest
      (viewChangeMsgsOfPendingView example_pending) (lowerBoundStableForPendingView example_pending) (restrictionsOfPendingView example_pending) = Inr (mn, mx, rs)"
    and cr: "computeRestrictionsOfNewView example_ve 5 example_pending = Inr (example_pending\<lparr>minRestrictionOfPendingView := mn,
      maxRestrictionOfPendingView := mx, restrictionsOfPendingView := rs, prePrepareMsgsOfRestrictions := pps\<rparr>)"
    using restrictions_computed [OF example_pending_inv, of 5 example_nv example_M] example_pending_facts by auto
  have "mx \<le> 600" using computeRestrictions_range(1) [OF c] by (auto simp: range_ok_def example_pending_def kWorkWindow_def)
  then show ?thesis using cr computeRestrictionsOfNewView_inv [OF example_pending_inv cr] by (simp add: example_pending_def)
qed

theorem pending_view_is_entered_witness:
  "(\<exists>out st'. tryToEnterView example_ve 5 300 300 example_pending = Inr (True, out, st')) \<and>
   (\<exists>st out st'. computeRestrictionsOfNewView example_ve 5 example_pending = Inr st \<and>
      tryToEnterView example_ve 5 600 600 (st\<lparr>stat := PENDING_WITH_RESTRICTIONS\<rparr>) = Inr (True, out, st'))"
proof -
  have p: "\<exists>out st'. tryToEnterView example_ve (myCurrentView example_pending) 300 300 example_pending = Inr (True, out, st')"
    by (rule pending_view_is_entered [OF example_pending_inv _ example_pending_facts(2,4,5) conjI [OF example_pending_facts(6,7)]
        example_pending_facts(8,9) order.refl example_pending_facts(10-13) example_pending_proposals])
      (simp add: example_pending_facts)
  obtain st where st: "computeRestrictionsOfNewView example_ve 5 example_pending = Inr st" "vm_inv example_ve (\<lambda>m. True) (st\<lparr>stat := PENDING_WITH_RESTRICTIONS\<rparr>)"
    "myLatestPendingView st = 5" "myCurrentView st = 5" "newViewMsgOfPendingView st = Some example_nv" "lowerBoundStableForPendingView st = 300"
    "debugHighestKnownStable st = 0" "debugHighestViewNumberPassedByClient st = 0" "maxRestrictionOfPendingView st \<le> 600"
    using example_restricted by blast
  let ?st = "st\<lparr>stat := PENDING_WITH_RESTRICTIONS\<rparr>"
  have "has_proposals example_ve 600 ?st" using st(9) by (auto simp: has_proposals_def)
  then have "\<exists>out st'. tryToEnterView example_ve (myCurrentView ?st) 600 600 ?st = Inr (True, out, st')"
    using st example_pending_facts(12,13) by (intro pending_view_is_entered [OF st(2), of example_nv example_M]) (simp_all add: example_nv_view kWorkWindow_def)
  then show ?thesis using p st(1,4) example_pending_facts(3) by auto
qed

theorem committed_is_proposed_again_witness:
  "\<exists>out st'. tryToEnterView example_ve 5 300 300 example_pending = Inr (True, out, st') \<and> (\<exists>pp \<in> set out. pp_proposes pp 5 301 (replicate 32 7))"
proof -
  obtain out st' where en: "tryToEnterView example_ve (myCurrentView example_pending) 300 300 example_pending = Inr (True, out, st')"
    and fr: "viewChangeMsgsOfPendingView st' = viewChangeMsgsOfPendingView example_pending"
      "lowerBoundStableForPendingView st' = lowerBoundStableForPendingView example_pending"
    using pending_view_enters [OF example_pending_inv example_pending_facts(1,2,4-9) order.refl example_pending_facts(10-14) example_pending_met] by blast
  have "\<exists>pp \<in> set out. pp_proposes pp (myCurrentView example_pending) 301 (replicate 32 7)"
  proof (rule committed_is_proposed_again [OF example_pending_inv _ _ _ _ en, of example_M 301 3 "replicate 32 7"])
    show "quorum_elements (viewChangeMsgsOfPendingView st') example_M" by (simp add: fr example_pending_facts)
    show "301 \<le> lowerBoundStableForPendingView st' + kWorkWindow" by (simp add: fr example_pending_def kWorkWindow_def)
    show "vc_digest x = replicate 32 7" if "x \<in> set (votes_at example_M 301)" for x using that by (auto simp: example_quorum example_cert)
    show "(\<exists>x \<in> set (votes_at example_M 301). has_cert x \<and> 3 \<le> cert_view x \<and>
        (\<forall>z \<in> set (votes_at example_M 301). has_cert z \<and> same_key z x \<longrightarrow> cert_ok (ve_vf example_ve 301) 301 z)) \<or>
      vmF example_ve + vmC example_ve + 1 \<le> length (filter (\<lambda>x. 3 \<le> vc_originView x \<and> vc_digest x = replicate 32 7) (votes_at example_M 301))"
      by (simp add: example_quorum example_cert)
  qed (simp_all add: example_pending_facts is_s64_def nullDigest_def example_quorum example_cert)
  then show ?thesis using en by (auto simp: example_pending_facts(3))
qed

theorem complaint_of_correct_replica_witness:
  "\<exists>(i, m) \<in> set (complainedReplicas example_pending). i \<notin> {2} \<and> lv_idOfGeneratedReplica m = Inr i"
proof -
  have "hasQuorumToLeaveView example_ve example_pending"
    by (simp add: hasQuorumToLeaveView_def lvi_hasQuorumToLeaveView_def example_pending_def)
  from complaint_of_correct_replica [OF example_pending_inv this, of "{2}"] show ?thesis by auto
qed

theorem relevant_views_justified_witness:
  "\<exists>c a. computeCorrectRelevantViewNumbers example_ve (example_pending\<lparr>viewChangeMessages := example_vcs, myLatestPendingView := 4\<rparr>) = Inr (c, a) \<and>
     4 < c \<and> (\<exists>i < 4. i \<notin> {2} \<and> (\<exists>v \<ge> c. asks_for example_ve (example_pending\<lparr>viewChangeMessages := example_vcs, myLatestPendingView := 4\<rparr>) i v))"
proof -
  let ?st = "example_pending\<lparr>viewChangeMessages := example_vcs, myLatestPendingView := 4\<rparr>"
  have f: "vc_newView (example_vc i 300 es) = Inr 5" if "es \<in> {[], [example_element 7 [5, 6]]}" "i < 4" for i es
    using example_vc_slot [OF that] by (simp add: vc_slot_def)
  have v: "later_views example_ve ?st 0 example_vcs = Inr [5, 5, 5]"
    by (simp add: example_vcs_def example_pending_def getMyLatestViewChangeMsg_def arr_get_def f)
  have c: "computeCorrectRelevantViewNumbers example_ve ?st = Inr (5, 5)"
    by (simp add: computeCorrectRelevantViewNumbers_def v Let_def)
  have p: "myLatestPendingView ?st = 4" "length (viewChangeMessages ?st) = 4" by (simp_all add: example_vcs_def)
  have "\<exists>i < 4. i \<notin> {2} \<and> (\<exists>v \<ge> 5. asks_for example_ve ?st i v)"
    using relevant_views_justified [OF c, of "{2}"] unfolding p by simp
  then show ?thesis using c by (intro exI [of _ 5]) simp
qed

end
