(* ===== verification/Views_Exit.thy ===== *)
theory Views_Exit
  imports Views_Safety
begin

text \<open>
  What a replica reports when it leaves a view: the elements of its view change message are determined by the pre-prepare
  messages and certificates of the view and by the certificates of its previous view change message.
\<close>

section \<open>Certificates of the previous message\<close>

definition cert_from :: "VcElement list \<Rightarrow> SeqNum \<Rightarrow> bytes \<Rightarrow> PreparedCertificate option" where
  "cert_from es s d = (case filter (\<lambda>x. vc_seqNum x = s \<and> vc_digest x = d) es of [] \<Rightarrow> None | x # _ \<Rightarrow> vc_cert x)"

text \<open>The iterator over the previous message, of which the elements \<open>es\<close> are left; at view 0 there is none.\<close>

definition prev_iterator :: "ElementsIterator \<Rightarrow> VcElement list \<Rightarrow> bool" where
  "prev_iterator it es \<longleftrightarrow> (iterates it es \<or> es = [] \<and> ei_end it = Inr True) \<and> sorted_wrt (<) (map vc_seqNum es)"

lemma sorted_dropWhile: "sorted_wrt (<) (map f es) \<Longrightarrow> sorted_wrt (<) (map f (dropWhile P es))"
  by (induction es) auto

lemma cert_from_dropWhile: "s \<le> t \<Longrightarrow> cert_from (dropWhile (\<lambda>x. vc_seqNum x < s) es) t d = cert_from es t d"
  by (induction es) (auto simp: cert_from_def)

lemma cert_from_head:
  assumes "sorted_wrt (<) (map vc_seqNum es)" "es = x # xs" "s \<le> vc_seqNum x"
  shows "cert_from es s d = (if vc_seqNum x = s \<and> vc_digest x = d then vc_cert x else None)"
proof -
  have "filter (\<lambda>x. vc_seqNum x = s \<and> vc_digest x = d) xs = []" using assms by (auto simp: filter_empty_conv)
  then show ?thesis using assms(2) by (simp add: cert_from_def)
qed

lemma prev_certificate_spec:
  assumes it: "prev_iterator it es" and p: "prev_certificate active s d it = Inr (c, it')"
  shows "c = cert_from es s d \<and> (\<exists>es'. prev_iterator it' es' \<and> (\<forall>t d. s < t \<longrightarrow> cert_from es' t d = cert_from es t d))"
proof (cases "es = []")
  case True
  then have "ei_end it = Inr True" using it iterates_end [of it es] by (auto simp: prev_iterator_def)
  then show ?thesis using p it True by (auto simp: prev_certificate_def cert_from_def)
next
  case False
  define r where "r = dropWhile (\<lambda>x. vc_seqNum x < s) es"
  have i: "iterates it es" "sorted_wrt (<) (map vc_seqNum es)" using it False by (auto simp: prev_iterator_def)
  obtain it1 where it1: "ei_goToAtLeast s it = Inr (r \<noteq> [], it1)" "iterates it1 r" using iterates_goToAtLeast [OF i(1)] unfolding r_def by blast
  have srt: "sorted_wrt (<) (map vc_seqNum r)" using i(2) unfolding r_def by (rule sorted_dropWhile)
  have cf: "\<forall>t d. s \<le> t \<longrightarrow> cert_from r t d = cert_from es t d" by (simp add: r_def cert_from_dropWhile)
  have "ei_end it = Inr False" using iterates_end [OF i(1)] False by simp
  note ps = p [unfolded prev_certificate_def, simplified this it1(1), simplified iterates_getCurrent [OF it1(2)]]
  have "c = cert_from r s d \<and> it' = it1"
  proof (cases r)
    case Nil
    then show ?thesis using ps iterates_getCurrent [OF it1(2)] by (auto simp: cert_from_def)
  next
    case (Cons x xs)
    have "s \<le> vc_seqNum x" using Cons unfolding r_def by (metis dropWhile_eq_Cons_conv linorder_not_le)
    note h = cert_from_head [OF srt Cons this, of d]
    show ?thesis using ps iterates_getCurrent [OF it1(2)] Cons h by (auto split: option.splits if_splits)
  qed
  moreover have "prev_iterator it1 r" using it1(2) srt by (simp add: prev_iterator_def)
  ultimately show ?thesis using cf by (metis order.refl order.strict_implies_order)
qed

section \<open>The elements of the new message\<close>

definition exit_report :: "ViewNum \<Rightarrow> VcElement list \<Rightarrow> PrevViewInfo \<Rightarrow> VcElement list" where
  "exit_report active pes i = (case prePrepare i of None \<Rightarrow> [] | Some pp \<Rightarrow>
     (case (pp_seqNumber pp, pp_digestOfRequests pp) of
        (Inr s, Inr d) \<Rightarrow>
          (let report = (\<lambda>c. \<lparr>vc_seqNum = s, vc_digest = d, vc_originView = active, vc_cert = c\<rparr>)
           in case prepareFull i of
                Some pf \<Rightarrow> (case ss_signatureBody pf of
                    Inr sig \<Rightarrow> [report (Some \<lparr>certificateView = active, certificateSig = sig\<rparr>)] | Inl _ \<Rightarrow> [])
              | None \<Rightarrow>
                  if \<not> hasAllRequests i then []
                  else (case cert_from pes s d of
                      Some c \<Rightarrow> [report (Some c)]
                    | None \<Rightarrow> if pp_isNull pp = Inr False then [report None] else []))
      | _ \<Rightarrow> []))"

lemma vc_addElements_append: "vc_addElements env (xs @ ys) m = rbind (vc_addElements env xs m) (vc_addElements env ys)"
  by (induction xs arbitrary: m) (auto simp: rbind_def split: sum.splits)

lemma exit_element_report:
  assumes "prePrepare i = Some pp" "pp_seqNumber pp = Inr s" "pp_digestOfRequests pp = Inr d" "pp_isNull pp = Inr nl"
    and c: "if hasAllRequests i \<and> prepareFull i = None then c = cert_from pes s d else c = None"
    and e: "exit_element e active ex i s d nl c vc = Inr vc'"
  shows "vc_addElements (ve_env e) (exit_report active pes i) vc = Inr vc'"
  using assms by (auto simp: exit_element_def exit_report_def Let_def split: option.splits if_splits)

lemma exit_loop_reports:
  assumes "exit_loop e active lb ex is vc it dbg coll = Inr (vc', dbg', coll')" "prev_iterator it es"
    "\<forall>t d. dbg < t \<longrightarrow> cert_from es t d = cert_from pes t d"
  shows "vc_addElements (ve_env e) (concat (map (exit_report active pes) is)) vc = Inr vc'"
  using assms
proof (induction "is" arbitrary: vc it dbg coll es)
  case (Cons i "is")
  obtain pp s d nl c it' vc1 where x: "prePrepare i = Some pp" "pp_seqNumber pp = Inr s" "dbg < s" "pp_digestOfRequests pp = Inr d" "pp_isNull pp = Inr nl"
    and p: "(if hasAllRequests i \<and> prepareFull i = None then prev_certificate active s d it else Inr (None, it)) = Inr (c, it')"
    and e: "exit_element e active ex i s d nl c vc = Inr vc1"
    and l: "exit_loop e active lb ex is vc1 it' s (if hasAllRequests i \<and> \<not> nl then AList.update s pp coll else coll) = Inr (vc', dbg', coll')"
    using exit_loop_Cons [OF Cons.prems(1)] by metis
  have "(if hasAllRequests i \<and> prepareFull i = None then c = cert_from es s d else c = None) \<and>
      (\<exists>es'. prev_iterator it' es' \<and> (\<forall>t d. s < t \<longrightarrow> cert_from es' t d = cert_from es t d))"
    using p prev_certificate_spec [OF Cons.prems(2)] Cons.prems(2) by (auto split: if_splits)
  then obtain es' where c: "if hasAllRequests i \<and> prepareFull i = None then c = cert_from pes s d else c = None"
    and it': "prev_iterator it' es'" "\<forall>t d. s < t \<longrightarrow> cert_from es' t d = cert_from pes t d"
    using Cons.prems(3) x(3) by (auto split: if_splits)
  show ?case using exit_element_report [OF x(1,2,4,5) c e] Cons.IH [OF l it'] by (simp add: vc_addElements_append)
qed simp

section \<open>Building the message\<close>

lemma s64_fld: "is_s64 (s64 (fld off 8 buf))"
  using fld_less [of off 8 buf] by (auto simp: is_s64_def s64_def)

lemma vc_addElements_built:
  assumes "vc_addElements env es m = Inr m'" "msgBody m = vc_layout src nv ls epoch [] 0 0 es0 (replicate n 0)"
    "storageSize m = 44 + elements_size es0 + n" "storageSize m < 2 ^ 31" "mySigLength env < 65536"
    "layout_fits src nv ls epoch [] 0 0 es0" "list_all element_fits es" "length es0 \<le> 300"
  shows "\<exists>n'. msgBody m' = vc_layout src nv ls epoch [] 0 0 (es0 @ es) (replicate n' 0) \<and> layout_fits src nv ls epoch [] 0 0 (es0 @ es)"
  using assms
proof (induction es arbitrary: m es0 n)
  case (Cons e es)
  obtain m1 where m1: "vc_addElement env e m = Inr m1" "vc_addElements env es m1 = Inr m'" using Cons.prems(1) by auto
  note f = layout_fields [OF Cons.prems(6,2)]
  have ef: "element_fits e" "list_all element_fits es" using Cons.prems(7) by simp_all
  have es: "element_size e < 131072" using ef(1) by (auto simp: element_fits_def element_size_def split: option.splits)
  have z: "elements_size (es0 @ [e]) = elements_size es0 + element_size e" by (simp add: elements_size_def)
  have loc: "(if (if es0 = [] then 0 else 44 + elements_size es0) = 0 then u32 44 else (if es0 = [] then 0 else 44 + elements_size es0)) = 44 + elements_size es0"
    by (simp add: elements_size_def)
  have a: "ls < vc_seqNum e" "vc_seqNum e \<le> ls + kWorkWindow" "ls + kWorkWindow < 2 ^ 63" "int (length es0) < kWorkWindow"
    "u32 (u32 (44 + elements_size es0 + element_size e) + mySigLength env) \<le> storageSize m"
    using m1(1) by (auto simp: vc_addElement_def f s64_plus_def Let_def loc elements_size_def split: if_splits)
  have s: "44 + elements_size (es0 @ [e]) + mySigLength env \<le> storageSize m" using a(5) Cons.prems(3,4,5) es z by simp
  have l1: "layout_fits src nv ls epoch [] 0 0 (es0 @ [e])"
    using Cons.prems(6) ef(1) a(4) s z Cons.prems(4) by (auto simp: layout_fits_def kWorkWindow_def)
  have m1': "m1 = m\<lparr>msgBody := vc_layout src nv ls epoch [] 0 0 (es0 @ [e]) (replicate (n - element_size e) 0)\<rparr>"
    using vc_addElement_layout [OF l1 Cons.prems(2) a(1-4), of env] s Cons.prems(3,4) z m1(1) by simp
  have n: "storageSize m1 = 44 + elements_size (es0 @ [e]) + (n - element_size e)" using m1' Cons.prems(3) s z by simp
  show ?case using Cons.IH [OF m1(2) _ n _ Cons.prems(5) l1 ef(2)] m1' Cons.prems(4) a(4) by (simp add: kWorkWindow_def)
qed auto

lemma layout_vc_elements:
  assumes l: "layout_fits src nv ls epoch span nc sc es" and b: "msgBody m = vc_layout src nv ls epoch span nc sc es rest"
  shows "vc_elements m = Inr es"
  using layout_fields [OF l b] read_elements_at [OF layout_elements_at [OF l, of rest]] b by (simp add: vc_elements_def)

lemma ViewChangeMsg_new_layout:
  assumes "44 \<le> maxMessageSize env" "src < 65536" "selfEpoch env < 2 ^ 64" "is_s64 v" "is_s64 ls"
  shows "msgBody (ViewChangeMsg_new env src v ls []) = vc_layout src v ls (selfEpoch env) [] 0 0 [] (replicate (maxMessageSize env - 44) 0)"
    "storageSize (ViewChangeMsg_new env src v ls []) = maxMessageSize env" "layout_fits src v ls (selfEpoch env) [] 0 0 []"
  using assms by (simp_all add: ViewChangeMsg_new_def new_msg_def MessageBase_of_def vc_layout_def vc_head_def layout_fits_def elements_size_def)

section \<open>What leaving a view reports\<close>

definition exit_prev :: "VmEnv \<Rightarrow> ViewsManager \<Rightarrow> MessageBase option" where
  "exit_prev e st = (if viewChangeMsgsOfPendingView st ! vmId e = None then viewChangeMessages st ! vmId e else viewChangeMsgsOfPendingView st ! vmId e)"

definition prev_contents :: "ViewNum \<Rightarrow> MessageBase option \<Rightarrow> VcElement list \<Rightarrow> bool" where
  "prev_contents v p es \<longleftrightarrow> (case p of None \<Rightarrow> es = [] | Some m \<Rightarrow> (\<exists>ls. vc_contents m ls v es))"

lemma prev_contents_iterator:
  assumes "prev_contents v p es" "ElementsIterator_new p = Inr it"
  shows "prev_iterator it es"
proof (cases p)
  case None
  then show ?thesis using assms by (auto simp: prev_contents_def prev_iterator_def ElementsIterator_new_def ei_end_def)
next
  case (Some m)
  then obtain ls where c: "vc_contents m ls v es" using assms(1) by (auto simp: prev_contents_def)
  have "elements_ok ls v ls es" using c by (simp add: vc_contents_def)
  then have "sorted_wrt (<) (map vc_seqNum es)" using elements_ok_seqNums by blast
  moreover have "iterates it es" using vc_contents_iterates [OF c] assms(2) Some by (metis sum.inject(2))
  ultimately show ?thesis by (simp add: prev_iterator_def)
qed

lemma read_element_fits: "read_element buf loc = Inr x \<Longrightarrow> element_fits x"
  using fld_less [of "loc + 57" 2 buf]
  by (auto simp: read_element_def element_fits_def rd_s64_def rd_Inr s64_fld rd_bytes_def split: if_splits)

lemma elements_at_fit: "elements_at buf loc fin es \<Longrightarrow> list_all element_fits es"
  by (induction es arbitrary: loc) (auto intro: read_element_fits)

lemma prev_contents_fit: "prev_contents v p es \<Longrightarrow> list_all element_fits es"
  by (auto simp: prev_contents_def vc_contents_def dest: elements_at_fit split: option.splits if_splits)

lemma cert_from_fits:
  assumes "list_all element_fits es" "cert_from es s d = Some c"
  shows "is_s64 (certificateView c) \<and> length (certificateSig c) < 65536"
proof -
  have "\<exists>x \<in> set es. vc_cert x = Some c"
    using assms(2) by (auto simp: cert_from_def filter_eq_Cons_iff split: list.splits)
  then show ?thesis using assms(1) by (auto simp: list_all_iff element_fits_def split: option.splits)
qed

lemma pp_fields_fit: "pp_seqNumber pp = Inr s \<Longrightarrow> is_s64 s" "pp_digestOfRequests pp = Inr d \<Longrightarrow> length d = 32"
  by (auto simp: pp_seqNumber_def pp_digestOfRequests_def rd_s64_def rd_Inr s64_fld rd_bytes_def split: if_splits)

lemma ss_signature_fits: "ss_signatureBody pf = Inr sig \<Longrightarrow> length sig < 65536"
  using fld_less [of 30 2 "msgBody pf"] by (auto simp: ss_signatureBody_def ss_signatureLen_def rd_Inr rd_bytes_def split: if_splits)

lemma exit_report_cases:
  assumes "x \<in> set (exit_report active pes i)"
  obtains s d c pp where "x = \<lparr>vc_seqNum = s, vc_digest = d, vc_originView = active, vc_cert = c\<rparr>" "prePrepare i = Some pp"
    "pp_seqNumber pp = Inr s" "pp_digestOfRequests pp = Inr d"
    "c = None \<or> c = cert_from pes s d \<or> (\<exists>pf sig. ss_signatureBody pf = Inr sig \<and> c = Some \<lparr>certificateView = active, certificateSig = sig\<rparr>)"
proof -
  obtain pp where p: "prePrepare i = Some pp" using assms by (cases "prePrepare i") (simp_all add: exit_report_def)
  obtain s where s: "pp_seqNumber pp = Inr s" using assms p by (cases "pp_seqNumber pp") (simp_all add: exit_report_def)
  obtain d where d: "pp_digestOfRequests pp = Inr d" using assms p s by (cases "pp_digestOfRequests pp") (simp_all add: exit_report_def)
  have "\<exists>c. x = \<lparr>vc_seqNum = s, vc_digest = d, vc_originView = active, vc_cert = c\<rparr> \<and>
    (c = None \<or> c = cert_from pes s d \<or> (\<exists>pf sig. ss_signatureBody pf = Inr sig \<and> c = Some \<lparr>certificateView = active, certificateSig = sig\<rparr>))"
    using assms p s d by (auto simp: exit_report_def Let_def split: option.splits sum.splits if_splits)
  then show thesis using that [OF _ p s d] by blast
qed

lemma exit_report_fits:
  assumes "is_s64 active" "list_all element_fits pes"
  shows "list_all element_fits (exit_report active pes i)"
  unfolding list_all_iff
proof
  fix x assume "x \<in> set (exit_report active pes i)"
  then show "element_fits x"
  proof (cases rule: exit_report_cases)
    case (1 s d c pp)
    have "case c of None \<Rightarrow> True | Some c \<Rightarrow> is_s64 (certificateView c) \<and> length (certificateSig c) < 65536"
      using 1(5)
    proof (elim disjE exE conjE)
      assume c: "c = cert_from pes s d"
      show ?thesis unfolding c by (cases "cert_from pes s d") (use cert_from_fits [OF assms(2)] in simp_all)
    qed (use ss_signature_fits assms(1) in simp_all)
    then show ?thesis using pp_fields_fit(1) [OF 1(3)] pp_fields_fit(2) [OF 1(4)] assms(1) unfolding 1(1) element_fits_def by simp
  qed
qed

text \<open>
  C14. The message a replica sends when it leaves a view.  It asks for the next view and names the last stable sequence number,
  and its elements are exactly the reports of the pre-prepare messages of the view, in order: a sequence number with a full
  prepare certificate is reported with that certificate, one without keeps the certificate that the previous view change
  message of the replica had for the same digest, and otherwise a complete message that is not null is reported without a
  certificate.
\<close>

theorem exit_reports_view:
  assumes exit: "exitFromCurrentView e ls ex infos st = Inr st'"
    and prev: "prev_contents (myLatestActiveView st) (exit_prev e st) pes"
    and env: "44 \<le> maxMessageSize (ve_env e)" "maxMessageSize (ve_env e) < 2 ^ 31" "mySigLength (ve_env e) < 65536" "selfEpoch (ve_env e) < 2 ^ 64" "vmId e < 65536"
    and num: "is_s64 (myLatestActiveView st)" "is_s64 (myLatestActiveView st + 1)" "is_s64 ls"
  shows "\<exists>m. viewChangeMessages st' ! vmId e = Some m \<and> vc_newView m = Inr (myLatestActiveView st + 1) \<and> vc_lastStable m = Inr ls \<and>
    vc_elements m = Inr (concat (map (exit_report (myLatestActiveView st) pes) infos))"
proof -
  let ?m = "ViewChangeMsg_new (ve_env e) (vmId e) (myLatestActiveView st + 1) ls []"
  let ?es = "concat (map (exit_report (myLatestActiveView st) pes) infos)"
  from exit obtain prev it vc dbg coll st1
    where p: "prev = (if viewChangeMsgsOfPendingView st ! vmId e = None then viewChangeMessages st ! vmId e else viewChangeMsgsOfPendingView st ! vmId e)"
    and it: "ElementsIterator_new prev = Inr it"
    and loop: "exit_loop e (myLatestActiveView st) (lowerBoundStableForPendingView st) ex infos ?m it ls [] = Inr (vc, dbg, coll)"
    and st': "vmId e < length (viewChangeMessages st1)" "st' = st1\<lparr>viewChangeMessages := (viewChangeMessages st1)[vmId e := Some vc]\<rparr>"
    by (rule exitFromCurrentView_cases)
  have it: "ElementsIterator_new (exit_prev e st) = Inr it" using it unfolding p exit_prev_def .
  have add: "vc_addElements (ve_env e) ?es ?m = Inr vc"
    by (rule exit_loop_reports [OF loop prev_contents_iterator [OF prev it]]) simp
  have fits: "list_all element_fits ?es"
    using exit_report_fits [OF num(1) prev_contents_fit [OF prev]] by (induction infos) simp_all
  note n = ViewChangeMsg_new_layout [OF env(1,5,4) num(2,3)]
  have "\<exists>n'. msgBody vc = vc_layout (vmId e) (myLatestActiveView st + 1) ls (selfEpoch (ve_env e)) [] 0 0 ([] @ ?es) (replicate n' 0) \<and>
      layout_fits (vmId e) (myLatestActiveView st + 1) ls (selfEpoch (ve_env e)) [] 0 0 ([] @ ?es)"
    by (rule vc_addElements_built [OF add n(1) _ _ env(3) n(3) fits]) (use n(2) env(1,2) in \<open>simp_all add: elements_size_def\<close>)
  then obtain n' where b: "msgBody vc = vc_layout (vmId e) (myLatestActiveView st + 1) ls (selfEpoch (ve_env e)) [] 0 0 ?es (replicate n' 0)"
    and l: "layout_fits (vmId e) (myLatestActiveView st + 1) ls (selfEpoch (ve_env e)) [] 0 0 ?es" by auto
  show ?thesis using st' layout_fields(2,3) [OF l b] layout_vc_elements [OF l b] by simp
qed

section \<open>Example\<close>

definition example_active :: ViewsManager where
  "example_active = example_pending\<lparr>stat := IN_VIEW, myLatestActiveView := 5, collectionOfPrePrepareMsgs := []\<rparr>"

definition example_info :: PrevViewInfo where
  "example_info = \<lparr>prePrepare = Some (example_proposal 5 301 7), prepareFull = None, hasAllRequests = True\<rparr>"

lemma example_active_fields:
  "stat example_active = IN_VIEW" "myLatestActiveView example_active = 5" "myLatestPendingView example_active = 5"
  "collectionOfPrePrepareMsgs example_active = []" "debugHighestKnownStable example_active = 0" "lowerBoundStableForPendingView example_active = 300"
  "viewChangeMsgsOfPendingView example_active = example_vcs" "newViewMsgOfPendingView example_active = Some example_nv"
  "viewChangeMessages example_active = replicate 4 None" "minRestrictionOfPendingView example_active = 0"
  by (simp_all add: example_active_def example_pending_def)

lemma example_vcs_1: "example_vcs ! 1 = Some (example_vc 1 300 [example_element 7 [5, 6]])" "length example_vcs = 4"
  by (simp_all add: example_vcs_def)

lemma example_prev:
  "exit_prev example_ve example_active = Some (example_vc 1 300 [example_element 7 [5, 6]])"
  "vc_contents (example_vc 1 300 [example_element 7 [5, 6]]) 300 5 [example_element 7 [5, 6]]"
  using example_vc_checked(3) [of "[example_element 7 [5, 6]]" 7 "[5, 6]" 1] by (simp_all add: exit_prev_def example_active_def example_pending_def example_vcs_def)

lemma example_exit_loop:
  assumes it: "iterates it [example_element 7 [5, 6]]"
  shows "\<exists>vc. exit_loop example_ve 5 300 300 [example_info] (ViewChangeMsg_new example_env 1 6 300 []) it 300 [] = Inr (vc, 301, [(301, example_proposal 5 301 7)])"
proof -
  let ?e = "\<lparr>vc_seqNum = 301, vc_digest = replicate 32 7, vc_originView = 5, vc_cert = vc_cert (example_element 7 [5, 6])\<rparr>"
  obtain it' where g: "ei_goToAtLeast 301 it = Inr (True, it')" "iterates it' [example_element 7 [5, 6]]"
    using iterates_goToAtLeast [OF it, of 301] by (auto simp: example_cert)
  have p: "prev_certificate 5 301 (replicate 32 7) it = Inr (vc_cert (example_element 7 [5, 6]), it')"
    using iterates_end [OF it] iterates_getCurrent [OF g(2)] g(1) by (simp add: prev_certificate_def) (simp add: example_element_def)
  have n: "msgBody (ViewChangeMsg_new example_env 1 6 300 []) = vc_layout 1 6 300 0 [] 0 0 [] (replicate 956 0)"
    "storageSize (ViewChangeMsg_new example_env 1 6 300 []) = 1000"
    using ViewChangeMsg_new_layout [of example_env 1 6 300] by (simp_all add: example_env_def is_s64_def)
  have f: "layout_fits 1 6 300 0 [] 0 0 ([] @ [?e])" by (simp add: layout_fits_def is_s64_def element_fits_def elements_size_def element_size_def example_element_def)
  have "\<exists>vc. vc_addElement example_env ?e (ViewChangeMsg_new example_env 1 6 300 []) = Inr vc"
    using vc_addElement_layout [OF f n(1), of example_env] n(2)
    by (simp add: kWorkWindow_def elements_size_def element_size_def example_element_def example_env_def)
  then show ?thesis using p
    by (auto simp: example_info_def example_proposal_fields is_s64_def) (auto simp: example_element_def)
qed

theorem exit_reports_view_witness:
  "\<exists>st' m. exitFromCurrentView example_ve 300 300 [example_info] example_active = Inr st' \<and> viewChangeMessages st' ! 1 = Some m \<and>
     vc_newView m = Inr 6 \<and> vc_lastStable m = Inr 300 \<and>
     vc_elements m = Inr [\<lparr>vc_seqNum = 301, vc_digest = replicate 32 7, vc_originView = 5, vc_cert = vc_cert (example_element 7 [5, 6])\<rparr>]"
proof -
  obtain it where it: "ElementsIterator_new (Some (example_vc 1 300 [example_element 7 [5, 6]])) = Inr it" "iterates it [example_element 7 [5, 6]]"
    using vc_contents_iterates [OF example_prev(2)] .
  obtain vc where l: "exit_loop example_ve 5 300 300 [example_info] (ViewChangeMsg_new example_env 1 6 300 []) it 300 [] = Inr (vc, 301, [(301, example_proposal 5 301 7)])"
    using example_exit_loop [OF it(2)] by blast
  have nv: "vc_newView (example_vc 1 300 [example_element 7 [5, 6]]) = Inr 5" using example_prev(2) unfolding vc_contents_def by blast
  have "\<exists>st'. exitFromCurrentView example_ve 300 300 [example_info] example_active = Inr st'"
    unfolding exitFromCurrentView_def resetDataOfLatestPendingAndKeepMyViewChange_def
    by (simp add: example_active_fields example_vcs_1 [unfolded One_nat_def] it(1) [unfolded One_nat_def] l [unfolded One_nat_def] nv [unfolded One_nat_def] rpred_def kWorkWindow_def arr_set_def
        del: exit_loop.simps) blast
  then obtain st' where st': "exitFromCurrentView example_ve 300 300 [example_info] example_active = Inr st'" by blast
  note a = example_active_fields(2)
  have c: "cert_from [example_element 7 [5, 6]] 301 (replicate 32 7) = vc_cert (example_element 7 [5, 6])" by (simp add: cert_from_def example_cert)
  have r: "exit_report 5 [example_element 7 [5, 6]] example_info =
      [\<lparr>vc_seqNum = 301, vc_digest = replicate 32 7, vc_originView = 5, vc_cert = vc_cert (example_element 7 [5, 6])\<rparr>]"
    using c by (simp add: exit_report_def example_info_def example_proposal_fields is_s64_def example_element_def)
  have "prev_contents (myLatestActiveView example_active) (exit_prev example_ve example_active) [example_element 7 [5, 6]]"
    using example_prev by (auto simp: prev_contents_def a)
  from exit_reports_view [OF st' this] st' show ?thesis by (simp add: a r example_env_def is_s64_def)
qed

end
