(* ===== verification/Views_Run.thy ===== *)
theory Views_Run
  imports Views_Exit
begin

text \<open>
  The invariant of the class ViewsManager in every state that a replica reaches, and a run of a replica: it recovers outside of a
  view, collects the view change messages of a quorum and the new view message, waits for the pre-prepare message that the
  restrictions ask for, and receives it and a complaint.
\<close>

section \<open>The invariant\<close>

text \<open>
  C5. The invariant of the class holds in every state that a replica reaches, from the start in view 0 or from a recovery, by
  receiving messages and complaints and by leaving and entering views, in any order. A pending view has the view change messages of
  a quorum; those of the other replicas are from their replicas, for this view and, at a backup, listed in the new view message.
  The own one is for this view and, at a backup, listed too until the replica moves on to a higher view and changes it. Until then the
  restrictions, once computed, are those
  that these messages give. The pre-prepare messages that are kept for the restrictions have their sequence numbers and digests.
  Each replica has at most one complaint stored for the current and for the higher view, which is valid.
\<close>

theorem views_manager_invariant:
  assumes "vm_reachable e valid st" "vmN e < 65536"
  shows "vm_inv e valid st"
  using assms by (rule vm_reachable_inv)

section \<open>A run\<close>

definition run_ve :: VmEnv where
  "run_ve = \<lparr>ve_env = example_env, ve_ri = example_ri 2, ve_vf = example_vf\<rparr>"

lemma run_ve_simps [simp]:
  "vmN run_ve = 4" "vmF run_ve = 1" "vmC run_ve = 0" "vmId run_ve = 2" "ve_env run_ve = example_env" "ve_vf run_ve = example_vf"
  "SMAJOR run_ve = 3" "primaryOfView (ve_ri run_ve) 1 = 1"
  by (simp_all add: run_ve_def vmN_def vmF_def vmC_def vmId_def SMAJOR_def example_ri_def primaryOfView_nonneg)

text \<open>The reports of the replicas 1 and 3, the own view change message, and the new view message of replica 1.\<close>

definition run_element :: VcElement where
  "run_element = \<lparr>vc_seqNum = 1, vc_digest = replicate 32 7, vc_originView = 0, vc_cert = None\<rparr>"

definition run_report :: "ReplicaId \<Rightarrow> MessageBase" where
  "run_report i = MessageBase_of i (vc_layout i 1 0 0 [] 0 0 [run_element] []) True"

definition run_new :: MessageBase where
  "run_new = ViewChangeMsg_new example_env 2 1 0 []"

definition run_own :: MessageBase where
  "run_own = run_new\<lparr>msgSize := 46, storageSize := 46, msgBody := vc_layout 2 1 0 0 [] 0 0 [] [1, 2]\<rparr>"

definition run_nv :: MessageBase where
  "run_nv = MessageBase_of 1 (header_bytes (msg_code McNewView) 0 @ le_s64 1 @ le_bytes 8 0 @ le_bytes 2 3 @
     le_bytes 2 1 @ replicate 32 93 @ le_bytes 2 2 @ replicate 32 44 @ le_bytes 2 3 @ replicate 32 93) True"

lemma run_fits: "i < 4 \<Longrightarrow> layout_fits i 1 0 0 [] 0 0 [run_element]" "layout_fits 2 1 0 0 [] 0 0 []"
  by (simp_all add: layout_fits_def is_s64_def elements_size_def element_size_def run_element_def element_fits_def)

lemma run_report_body: "msgBody (run_report i) = vc_layout i 1 0 0 [] 0 0 [run_element] []"
  by (simp add: run_report_def MessageBase_of_def)

lemma run_sizes: "elements_size [run_element] = 49" "elements_size [] = 0"
  by (simp_all add: elements_size_def element_size_def run_element_def)

lemma run_report_fields:
  assumes "i < 4"
  shows "vc_idOfGeneratedReplica (run_report i) = Inr i" "vc_newView (run_report i) = Inr 1" "vc_lastStable (run_report i) = Inr 0"
    "vc_getMsgDigest example_env (run_report i) = Inr (replicate 32 93)"
proof -
  note f = layout_fields [OF run_fits(1) [OF assms] run_report_body [of i]]
  show "vc_idOfGeneratedReplica (run_report i) = Inr i" "vc_newView (run_report i) = Inr 1" "vc_lastStable (run_report i) = Inr 0"
    using f by simp_all
  have "length (msgBody (run_report i)) = 93"
    using length_vc_layout [OF run_fits(1) [OF assms], of 0 0 "[]"] by (simp add: run_report_body run_sizes)
  then show "vc_getMsgDigest example_env (run_report i) = Inr (replicate 32 93)"
    using f by (simp add: vc_getMsgDigest_def run_sizes rd_bytes_def example_env_def)
qed

lemma run_own_fields:
  "vc_idOfGeneratedReplica run_own = Inr 2" "vc_newView run_own = Inr 1" "vc_lastStable run_own = Inr 0"
  "vc_getMsgDigest example_env run_own = Inr (replicate 32 44)"
proof -
  have b: "msgBody run_own = vc_layout 2 1 0 0 [] 0 0 [] [1, 2]" by (simp add: run_own_def)
  note f = layout_fields [OF run_fits(2) b]
  show "vc_idOfGeneratedReplica run_own = Inr 2" "vc_newView run_own = Inr 1" "vc_lastStable run_own = Inr 0" using f by simp_all
  have "length (msgBody run_own) = 46" using length_vc_layout [OF run_fits(2), of 0 0 "[1, 2]"] by (simp add: b run_sizes)
  then show "vc_getMsgDigest example_env run_own = Inr (replicate 32 44)"
    using f by (simp add: vc_getMsgDigest_def run_sizes rd_bytes_def example_env_def)
qed

lemma run_new_fields:
  "vc_idOfGeneratedReplica run_new = Inr 2" "vc_newView run_new = Inr 1" "vc_lastStable run_new = Inr 0"
  "vc_finalizeMessage example_env run_new = Inr run_own"
proof -
  have b: "msgBody run_new = vc_layout 2 1 0 0 [] 0 0 [] (replicate 956 0)" "storageSize run_new = 1000"
    using ViewChangeMsg_new_layout [of example_env 2 1 0] by (simp_all add: run_new_def example_env_def is_s64_def)
  note f = layout_fields [OF run_fits(2) b(1)]
  show "vc_idOfGeneratedReplica run_new = Inr 2" "vc_newView run_new = Inr 1" "vc_lastStable run_new = Inr 0" using f by simp_all
  have l: "length (vc_layout 2 1 0 0 [] 0 0 [] [1, 2]) = 46" using length_vc_layout [OF run_fits(2), of 0 0 "[1, 2]"] by (simp add: run_sizes)
  have r: "replicate 956 (0 :: 8 word) = replicate 2 0 @ replicate 954 0" by (simp flip: replicate_add)
  have o: "owner run_new" by (simp add: run_new_def ViewChangeMsg_new_def new_msg_def MessageBase_of_def)
  have n: "length (msgBody run_new) = 1000" using length_vc_layout [OF run_fits(2), of 0 0 "replicate 956 0"] by (simp add: b run_sizes)
  have "vc_finalizeMessage example_env run_new =
      Inr (run_new\<lparr>msgSize := 46, storageSize := 46, msgBody := vc_layout 2 1 0 0 [] 0 0 [] [1, 2]\<rparr>)"
    using vc_finalize_layout [of 2 1 0 0 "[]" "[]" "[]" run_new example_env 954] run_fits(2) b(2) o n l
    by (simp add: b(1) r complaints_size_def kWorkWindow_def example_env_def)
  then show "vc_finalizeMessage example_env run_new = Inr run_own" by (simp add: run_own_def)
qed

lemma run_nv_reads:
  "nv_elementsCount run_nv = Inr 3" "nv_replicaId run_nv 0 = Inr 1" "nv_replicaId run_nv 1 = Inr 2" "nv_replicaId run_nv 2 = Inr 3"
  "nv_digest run_nv 0 = Inr (replicate 32 93)" "nv_digest run_nv 1 = Inr (replicate 32 44)" "nv_digest run_nv 2 = Inr (replicate 32 93)"
  by (simp_all add: run_nv_def MessageBase_of_def nv_elementsCount_def nv_replicaId_def nv_digest_def spanContextSize_def rd_fld rd_bytes_def
      header_bytes_def fld_simps)

lemma run_nv_fields:
  "nv_newView run_nv = Inr 1" "sender run_nv = 1" "includesViewChangeFromReplica 1 (replicate 32 93) run_nv = Inr True"
  "includesViewChangeFromReplica 2 (replicate 32 44) run_nv = Inr True" "includesViewChangeFromReplica 3 (replicate 32 93) run_nv = Inr True"
proof -
  show "nv_newView run_nv = Inr 1" "sender run_nv = 1"
    by (simp_all add: run_nv_def MessageBase_of_def nv_newView_def rd_s64_def rd_fld fld_simps header_bytes_def s64_read is_s64_def)
  show "includesViewChangeFromReplica 1 (replicate 32 93) run_nv = Inr True"
    "includesViewChangeFromReplica 2 (replicate 32 44) run_nv = Inr True" "includesViewChangeFromReplica 3 (replicate 32 93) run_nv = Inr True"
    using run_nv_reads run_nv_reads(4,7) [unfolded numeral_2_eq_2]
    by (simp_all add: includesViewChangeFromReplica_def numeral_3_eq_3 rpred_def)
qed

text \<open>The states of the run before the view is pending.\<close>

definition run_outside :: "ViewNum \<Rightarrow> MessageBase option list \<Rightarrow> MessageBase option list \<Rightarrow> ViewsManager" where
  "run_outside cur vcs nvs =
     \<lparr>stat = NO_VIEW, myCurrentView = cur, targetView = 0, myLatestActiveView = 0, myLatestPendingView = 0,
      complainedReplicas = [], complainedReplicasForHigherView = [], viewChangeMessages = vcs, newViewMessages = nvs,
      collectionOfPrePrepareMsgs = [], viewChangeMsgsOfPendingView = [None, None, None, None],
      newViewMsgOfPendingView = None, minRestrictionOfPendingView = 0, maxRestrictionOfPendingView = 0,
      restrictionsOfPendingView = replicate 300 \<lparr>isNull = True, r_digest = replicate 32 0\<rparr>,
      prePrepareMsgsOfRestrictions = replicate 300 None, lowerBoundStableForPendingView = 0,
      debugHighestKnownStable = 0, debugHighestViewNumberPassedByClient = 0\<rparr>"

abbreviation no_msgs :: "MessageBase option list" where
  "no_msgs \<equiv> [None, None, None, None]"

lemma run_created: "createOutsideView run_ve 0 0 0 0 None [] [] = Inr (run_outside 0 [None, None, Some run_new, None] no_msgs)"
proof -
  have r: "replicate 4 None = no_msgs" by (simp add: numeral_eq_Suc)
  have new: "ViewsManager_new run_ve = Inr ((run_outside 0 no_msgs no_msgs)\<lparr>stat := IN_VIEW\<rparr>)"
    by (simp add: ViewsManager_new_def run_outside_def r)
  have x: "exitFromCurrentView run_ve 0 0 [] ((run_outside 0 no_msgs no_msgs)\<lparr>stat := IN_VIEW\<rparr>) =
      Inr (run_outside 0 [None, None, Some run_new, None] no_msgs)"
    by (simp add: exitFromCurrentView_def run_outside_def arr_get_def arr_set_def ElementsIterator_new_def kWorkWindow_def
        resetDataOfLatestPendingAndKeepMyViewChange_def run_new_def)
  have c: "check_outside run_ve 0 0 (run_outside 0 [None, None, Some run_new, None] no_msgs) = Inr True"
    by (simp add: check_outside_def run_outside_def arr_get_def run_new_fields upt_rec)
  have z: "(run_outside 0 no_msgs no_msgs)\<lparr>stat := IN_VIEW, myLatestActiveView := 0, myLatestPendingView := 0, viewChangeMessages := no_msgs,
      lowerBoundStableForPendingView := 0, complainedReplicas := []\<rparr> = (run_outside 0 no_msgs no_msgs)\<lparr>stat := IN_VIEW\<rparr>"
    by (simp add: run_outside_def)
  have v: "viewChangeMessages (run_outside 0 no_msgs no_msgs) = no_msgs" by (simp add: run_outside_def)
  show ?thesis
    using x c unfolding createOutsideView_def by (simp add: new check_last_vc_def kWorkWindow_def arr_set_def v z)
qed

lemma run_recovered:
  "replica_recovers run_ve (run_outside 0 [None, None, Some run_new, None] no_msgs) = Inr (run_outside 1 [None, None, Some run_own, None] no_msgs)"
  by (simp add: replica_recovers_def run_outside_def viewIsActive_def inView_def setViewFromRecovery_def getMyLatestViewChangeMsg_def arr_get_def
      run_new_fields insertStoredComplaintsIntoVCMsg_def lvi_getAllMsgs_def)

lemma run_received:
  "vm_add_ViewChange run_ve (run_report 1) (run_outside 1 [None, None, Some run_own, None] no_msgs) =
     Inr (True, run_outside 1 [None, Some (run_report 1), Some run_own, None] no_msgs)"
  "vm_add_ViewChange run_ve (run_report 3) (run_outside 1 [None, Some (run_report 1), Some run_own, None] no_msgs) =
     Inr (True, run_outside 1 [None, Some (run_report 1), Some run_own, Some (run_report 3)] no_msgs)"
  "vm_add_NewView run_ve run_nv (run_outside 1 [None, Some (run_report 1), Some run_own, Some (run_report 3)] no_msgs) =
     Inr (True, run_outside 1 [None, Some (run_report 1), Some run_own, Some (run_report 3)] [None, Some run_nv, None, None])"
  by (simp_all add: vm_add_ViewChange_def vm_add_NewView_def vc_ignored_def run_report_fields run_nv_fields run_outside_def arr_get_def arr_set_def)

text \<open>The view becomes pending.\<close>

definition run_msgs :: "MessageBase option list" where
  "run_msgs = [None, Some (run_report 1), Some run_own, Some (run_report 3)]"

definition run_pending :: ViewsManager where
  "run_pending = (run_outside 1 no_msgs no_msgs)\<lparr>stat := PENDING, myLatestPendingView := 1, viewChangeMsgsOfPendingView := run_msgs,
     newViewMsgOfPendingView := Some run_nv, debugHighestViewNumberPassedByClient := 1\<rparr>"

lemma run_becomes_pending:
  "new_pending_view run_ve 1 0 ((run_outside 1 run_msgs [None, Some run_nv, None, None])\<lparr>debugHighestViewNumberPassedByClient := 1\<rparr>) = Inr (True, run_pending)"
proof -
  let ?st = "(run_outside 1 run_msgs [None, Some run_nv, None, None])\<lparr>debugHighestViewNumberPassedByClient := 1, stat := NO_VIEW\<rparr>"
  have rel: "related_of_backup run_ve run_nv 1 0 run_msgs = Inr [1, 2, 3]"
    using run_report_fields run_own_fields run_nv_fields by (simp add: run_msgs_def numeral_3_eq_3 numeral_2_eq_2)
  have mv: "move_to_pending [1, 2, 3] no_msgs run_msgs = Inr (run_msgs, no_msgs)"
    by (simp add: run_msgs_def arr_get_def arr_set_def)
  have t: "tryMoveToPendingViewAsNonPrimary run_ve 1 ?st = Inr (True, run_pending\<lparr>stat := NO_VIEW\<rparr>)"
    using rel mv run_nv_fields(1)
    by (simp add: tryMoveToPendingViewAsNonPrimary_def run_pending_def run_outside_def resetDataOfLatestPendingAndKeepMyViewChange_def arr_get_def)
  have "calcLBStableForView 1 0 run_msgs = Inr 0"
    using run_report_fields run_own_fields by (simp add: calcLBStableForView_def run_msgs_def)
  then show ?thesis using t by (simp add: new_pending_view_def run_pending_def run_outside_def)
qed

definition run_M :: "VcElement list list" where
  "run_M = [[run_element], [], [run_element]]"

lemma run_checked:
  assumes l: "layout_fits src 1 0 0 [] 0 0 es" and ok: "elements_ok 0 1 0 es" and b: "msgBody m = vc_layout src 1 0 0 [] 0 0 es sig"
    and s: "msgSize m = length (msgBody m)" "storageSize m = msgSize m" "msgSize m < 1000"
  shows "vc_checked m \<and> vc_elements m = Inr es"
proof -
  have "vc_checkElements (length sig) m = Inr True"
    using layout_checks [of src 1 0 0 "[]" "[]" es m sig] l ok b s by (simp add: complaints_size_def kWorkWindow_def)
  moreover have "span_of m = 0" using layout_fields(9) [OF l b] by (simp add: spanContextSize_def rd_Inr)
  moreover have "44 + length sig \<le> msgSize m" using length_vc_layout [OF l, of 0 0 sig] b s(1) by simp
  ultimately have "vc_checked m" using s by (auto simp: vc_checked_def net_msg_def header_size_def intro!: exI [of _ "length sig"])
  then show ?thesis using vc_contents_elements [OF layout_contents [OF l b ok]] by simp
qed

lemma run_quorum: "quorum_elements run_msgs run_M" "certs_return example_vf run_M" "votes_at run_M 1 = [run_element, run_element]"
proof -
  have "vc_checked (run_report i) \<and> vc_elements (run_report i) = Inr [run_element]" if "i < 4" for i
    using length_vc_layout [OF run_fits(1) [OF that], of 0 0 "[]"]
    by (intro run_checked [OF run_fits(1) [OF that] _ run_report_body])
      (simp_all add: run_report_def MessageBase_of_def run_sizes, simp add: run_element_def kWorkWindow_def)
  moreover have "vc_checked run_own \<and> vc_elements run_own = Inr []"
    using length_vc_layout [OF run_fits(2), of 0 0 "[1, 2]"]
    by (intro run_checked [OF run_fits(2), of _ "[1, 2]"]) (simp_all add: run_own_def run_sizes)
  ultimately show "quorum_elements run_msgs run_M" by (simp add: quorum_elements_def run_msgs_def run_M_def received_def)
  show "certs_return example_vf run_M" "votes_at run_M 1 = [run_element, run_element]"
    by (simp_all add: certs_return_def run_M_def run_element_def has_cert_def votes_at_def)
qed

text \<open>The restrictions name the digest that two replicas reported, and its message is missing.\<close>

lemma fill_restrictions_nothing: "fill_restrictions [] rs k i idx pps = Inr pps' \<Longrightarrow> pps' = pps"
  by (induction k arbitrary: i idx) (auto split: if_splits)

lemma run_restrictions:
  assumes "vm_inv run_ve valid run_pending"
  shows "\<exists>mx rs. computeRestrictionsOfNewView run_ve 1 run_pending = Inr (run_pending\<lparr>minRestrictionOfPendingView := 1,
      maxRestrictionOfPendingView := mx, restrictionsOfPendingView := rs\<rparr>) \<and> 1 \<le> mx \<and> mx \<le> 300 \<and> length rs = 300 \<and>
    \<not> isNull (rs ! 0) \<and> r_digest (rs ! 0) = replicate 32 7"
proof -
  let ?arr = "replicate 300 \<lparr>isNull = True, r_digest = replicate 32 0\<rparr>"
  have f: "stat run_pending = PENDING" "myLatestPendingView run_pending = 1" "newViewMsgOfPendingView run_pending = Some run_nv"
    "viewChangeMsgsOfPendingView run_pending = run_msgs" "lowerBoundStableForPendingView run_pending = 0" "collectionOfPrePrepareMsgs run_pending = []"
    "restrictionsOfPendingView run_pending = ?arr"
    by (simp_all add: run_pending_def run_outside_def)
  obtain mn mx rs pps where c: "computeRestrictions example_vf 1 0 nullDigest run_msgs 0 ?arr = Inr (mn, mx, rs)"
    and cr: "computeRestrictionsOfNewView run_ve 1 run_pending = Inr (run_pending\<lparr>minRestrictionOfPendingView := mn, maxRestrictionOfPendingView := mx,
      restrictionsOfPendingView := rs, prePrepareMsgsOfRestrictions := pps\<rparr>)"
    using restrictions_computed [OF assms f(1-3), of run_M] run_nv_fields(1) run_quorum f by (auto simp: kWorkWindow_def)
  have pps: "pps = prePrepareMsgsOfRestrictions run_pending"
  proof -
    obtain x where x: "(if mn \<noteq> 0 then fill_restrictions (collectionOfPrePrepareMsgs run_pending) rs (nat (mx - mn + 1)) mn 0 (prePrepareMsgsOfRestrictions run_pending)
        else Inr (prePrepareMsgsOfRestrictions run_pending)) = Inr x"
      and eq: "run_pending\<lparr>minRestrictionOfPendingView := mn, maxRestrictionOfPendingView := mx, restrictionsOfPendingView := rs,
        prePrepareMsgsOfRestrictions := x\<rparr> = run_pending\<lparr>minRestrictionOfPendingView := mn, maxRestrictionOfPendingView := mx,
        restrictionsOfPendingView := rs, prePrepareMsgsOfRestrictions := pps\<rparr>"
      using cr by (auto simp: computeRestrictionsOfNewView_def f run_nv_fields(1) c [unfolded One_nat_def])
    have "x = pps" using arg_cong [OF eq, of prePrepareMsgsOfRestrictions] by simp
    then show ?thesis using x fill_restrictions_nothing unfolding f(6) by (auto split: if_splits)
  qed
  have "\<exists>mn mx rs. computeRestrictions example_vf 1 0 nullDigest run_msgs 0 ?arr = Inr (mn, mx, rs) \<and> mn \<le> 1 \<and> 1 \<le> mx \<and>
      \<not> isNull (rs ! nat (1 - 0 - 1)) \<and> r_digest (rs ! nat (1 - 0 - 1)) = replicate 32 7"
    by (rule committed_restricts [OF run_quorum(1,2), where v = 0])
      (simp_all add: run_quorum(3), simp_all add: run_M_def run_element_def kWorkWindow_def nullDigest_def has_cert_def)
  then have r: "1 \<le> mx" "\<not> isNull (rs ! 0)" "r_digest (rs ! 0) = replicate 32 7" using c by auto
  have "mn = 1" "mx \<le> 300" "length rs = 300" using computeRestrictions_range [OF c] r(1) by (auto simp: range_ok_def kWorkWindow_def)
  then show ?thesis using cr r pps by (intro exI [of _ mx] exI [of _ rs]) simp
qed

definition run_complaint :: MessageBase where
  "run_complaint = MessageBase_of 3 (replicate 6 0 @ le_bytes 2 3 @ le_s64 1) True"

lemma run_waits:
  assumes i: "vm_inv run_ve valid run_pending"
  shows "\<exists>st1 st2 st3. tryToEnterView run_ve 1 0 0 (run_outside 1 run_msgs [None, Some run_nv, None, None]) = Inr (False, [], st1) \<and>
    addPotentiallyMissingPP (example_proposal 0 1 7) st1 = Inr (True, st2) \<and> storeComplaint run_complaint st2 = Inr st3 \<and>
    stat st3 = PENDING_WITH_RESTRICTIONS \<and> prePrepareMsgsOfRestrictions st3 ! 0 = Some (example_proposal 0 1 7) \<and>
    viewChangeMsgsOfPendingView st3 = run_msgs \<and> newViewMsgOfPendingView st3 = Some run_nv \<and> myCurrentView st3 = 1 \<and> myLatestPendingView st3 = 1 \<and>
    complainedReplicas st3 = [(3, run_complaint)]"
proof -
  obtain mx rs where cr: "computeRestrictionsOfNewView run_ve 1 run_pending = Inr (run_pending\<lparr>minRestrictionOfPendingView := 1,
      maxRestrictionOfPendingView := mx, restrictionsOfPendingView := rs\<rparr>)"
    and r: "1 \<le> mx" "mx \<le> 300" "length rs = 300" "\<not> isNull (rs ! 0)" "r_digest (rs ! 0) = replicate 32 7"
    using run_restrictions [OF i] by blast
  define st1 where "st1 = run_pending\<lparr>minRestrictionOfPendingView := 1, maxRestrictionOfPendingView := mx, restrictionsOfPendingView := rs,
    stat := PENDING_WITH_RESTRICTIONS\<rparr>"
  have pps: "prePrepareMsgsOfRestrictions st1 = replicate 300 None" by (simp add: st1_def run_pending_def run_outside_def)
  obtain k where k: "nat (mx - max 1 (0 + 1) + 1) = Suc k" using r(1) by (cases "nat mx") auto
  have "missing_loop True rs (replicate 300 None) (Suc k) 1 0 = Inr [1]" using r(3,4) by (simp add: arr_get_def rpred_def)
  then have miss: "hasMissingPrePrepareMsgs 0 st1 = Inr True"
    using k pps by (simp add: hasMissingPrePrepareMsgs_def missing_from_def st1_def rpred_def del: missing_loop.simps)
  have en: "tryToEnterView run_ve 1 0 0 (run_outside 1 run_msgs [None, Some run_nv, None, None]) = Inr (False, [], st1)"
  proof -
    let ?S = "run_outside 1 run_msgs [None, Some run_nv, None, None]"
    have s: "stat ?S \<noteq> IN_VIEW" "myLatestActiveView ?S = 0" "myLatestPendingView ?S = 0" "debugHighestViewNumberPassedByClient ?S = 0"
      "debugHighestKnownStable ?S = 0" "lowerBoundStableForPendingView ?S = 0"
      "?S\<lparr>debugHighestKnownStable := 0, debugHighestViewNumberPassedByClient := 1\<rparr> = ?S\<lparr>debugHighestViewNumberPassedByClient := 1\<rparr>"
      by (simp_all add: run_outside_def)
    have p: "stat run_pending = PENDING" "myLatestPendingView run_pending = 1" by (simp_all add: run_pending_def)
    have "(run_pending\<lparr>minRestrictionOfPendingView := 1, maxRestrictionOfPendingView := mx, restrictionsOfPendingView := rs\<rparr>)
      \<lparr>stat := PENDING_WITH_RESTRICTIONS\<rparr> = st1" "stat st1 = PENDING_WITH_RESTRICTIONS" by (simp_all add: st1_def)
    with miss show ?thesis
      unfolding tryToEnterView_def Let_def s(7) by (simp add: s p run_becomes_pending cr)
  qed
  define st2 where "st2 = st1\<lparr>prePrepareMsgsOfRestrictions := (prePrepareMsgsOfRestrictions st1)[0 := Some (example_proposal 0 1 7)]\<rparr>"
  have ad: "addPotentiallyMissingPP (example_proposal 0 1 7) st1 = Inr (True, st2)"
    using r pps by (simp add: addPotentiallyMissingPP_def example_proposal_fields is_s64_def st2_def hasRelevantRestriction_def arr_get_def rpred_def
        kWorkWindow_def) (simp add: st1_def example_proposal_fields is_s64_def)
  have c: "lv_viewNumber run_complaint = Inr 1" "lv_idOfGeneratedReplica run_complaint = Inr 3"
    by (simp_all add: run_complaint_def MessageBase_of_def lv_viewNumber_def lv_idOfGeneratedReplica_def rd_s64_def rd_fld fld_simps s64_read is_s64_def)
  have "storeComplaint run_complaint st2 = Inr (st2\<lparr>complainedReplicas := [(3, run_complaint)]\<rparr>)"
    using c by (simp add: storeComplaint_def lvi_store_def) (simp add: st2_def st1_def run_pending_def run_outside_def)
  moreover have "prePrepareMsgsOfRestrictions st2 ! 0 = Some (example_proposal 0 1 7)" by (simp add: st2_def pps)
  ultimately show ?thesis using en ad
    by (intro exI [of _ st1] exI [of _ st2] exI [of _ "st2\<lparr>complainedReplicas := [(3, run_complaint)]\<rparr>"])
      (simp add: st2_def, simp add: st1_def run_pending_def run_outside_def)
qed

lemma run_reaches_outside: "vm_reachable run_ve (\<lambda>m. m = run_complaint) (run_outside 1 run_msgs [None, Some run_nv, None, None])"
  unfolding run_msgs_def
  by (rule vm_reachable.new_view [OF vm_reachable.view_change [OF vm_reachable.view_change [OF vm_reachable.start_outside [OF run_created _ run_recovered]
        run_received(1)] run_received(2)] run_received(3)]) simp

lemma run_pending_inv: "vm_inv run_ve (\<lambda>m. m = run_complaint) run_pending"
proof -
  have "vm_inv run_ve (\<lambda>m. m = run_complaint) (run_outside 1 run_msgs [None, Some run_nv, None, None])"
    using vm_reachable_inv [OF run_reaches_outside] by simp
  then have "vm_inv run_ve (\<lambda>m. m = run_complaint) ((run_outside 1 run_msgs [None, Some run_nv, None, None])\<lparr>debugHighestKnownStable := 0,
      debugHighestViewNumberPassedByClient := 1\<rparr>)" by (rule debug_inv)
  then have "vm_inv run_ve (\<lambda>m. m = run_complaint) ((run_outside 1 run_msgs [None, Some run_nv, None, None])\<lparr>debugHighestViewNumberPassedByClient := 1\<rparr>)"
    by (simp add: run_outside_def)
  from new_pending_view_inv [OF this _ _ run_becomes_pending] show ?thesis by (simp add: run_outside_def)
qed

theorem views_manager_invariant_witness:
  "\<exists>st. vm_reachable run_ve (\<lambda>m. m = run_complaint) st \<and> stat st = PENDING_WITH_RESTRICTIONS \<and> myCurrentView st = 1 \<and> myLatestPendingView st = 1 \<and>
     viewChangeMsgsOfPendingView st = run_msgs \<and> newViewMsgOfPendingView st = Some run_nv \<and>
     prePrepareMsgsOfRestrictions st ! 0 = Some (example_proposal 0 1 7) \<and> complainedReplicas st = [(3, run_complaint)] \<and>
     vm_inv run_ve (\<lambda>m. m = run_complaint) st"
proof -
  obtain st1 st2 st3 where r: "tryToEnterView run_ve 1 0 0 (run_outside 1 run_msgs [None, Some run_nv, None, None]) = Inr (False, [], st1)"
    "addPotentiallyMissingPP (example_proposal 0 1 7) st1 = Inr (True, st2)" "storeComplaint run_complaint st2 = Inr st3"
    and st3: "stat st3 = PENDING_WITH_RESTRICTIONS" "prePrepareMsgsOfRestrictions st3 ! 0 = Some (example_proposal 0 1 7)"
    "viewChangeMsgsOfPendingView st3 = run_msgs" "newViewMsgOfPendingView st3 = Some run_nv" "myCurrentView st3 = 1" "myLatestPendingView st3 = 1"
    "complainedReplicas st3 = [(3, run_complaint)]"
    using run_waits [OF run_pending_inv] by blast
  have cur: "myCurrentView (run_outside 1 run_msgs [None, Some run_nv, None, None]) = 1" by (simp add: run_outside_def)
  have "vm_reachable run_ve (\<lambda>m. m = run_complaint) st1"
    by (rule vm_reachable.enter [OF run_reaches_outside, unfolded cur, OF _ r(1)]) (simp add: is_s64_def)
  from vm_reachable.complaint [OF vm_reachable.missing [OF this r(2)] refl r(3)] have reach: "vm_reachable run_ve (\<lambda>m. m = run_complaint) st3" .
  have "vm_inv run_ve (\<lambda>m. m = run_complaint) st3" by (rule views_manager_invariant [OF reach]) simp
  then show ?thesis using reach st3 by blast
qed

end
