(* ===== verification/Spec2Isabelle.thy ===== *)
theory Spec2Isabelle
  imports Active_Window Msgs_Certificate Restart_Msgs Slot_Certificates Views_Run
begin

text \<open>
  Verification development of Concord-BFT, a library for Byzantine fault tolerant state machine replication (SBFT).

  \<^bold>\<open>The program.\<close> A replica orders client requests in sequence numbers. The primary of a view packs requests into a
  pre-prepare message (messages/PrePrepareMsg); the replicas answer with signature shares (messages/SignedShareMsgs,
  PartialCommitProofMsg); the collectors of a sequence number combine shares into certificates
  (CollectorOfThresholdSignatures), which the slot of the sequence number keeps (SeqNumInfo). The slots lie in a window that
  scrolls (SequenceWithActiveWindow) when a certificate of checkpoint messages (CheckpointInfo over MsgsCertificate) is
  stable. When a primary fails, the replicas send view change messages with what they prepared (messages/ViewChangeMsg), the
  next primary lists a quorum of them (messages/NewViewMsg), and every replica computes from that quorum which requests the
  new view must propose again (ViewChangeSafetyLogic). The class ViewsManager drives this: it counts the complaints about the
  primary (ReplicasAskedToLeaveViewInfo), leaves a view, moves to a pending one, and enters it. Paths are below src/bftengine/src/bftengine unless stated otherwise.

  \<^bold>\<open>How code is modelled.\<close> A failing function returns a sum (type \<open>result\<close>): a false \<^verbatim>\<open>ConcordAssert\<close> is \<open>AssertFailed\<close>, a thrown
  exception is \<open>RuntimeError\<close>, and a read or write outside of a buffer or array, or a signed overflow, is
  \<open>UndefinedBehaviour\<close>. A message is the list of the bytes of its buffer; every field is read and written at its offset, and
  every access is checked, so that a theorem that validation does not end in \<open>UndefinedBehaviour\<close> is memory safety. Unsigned
  arithmetic has its wrap-around written out (\<open>u16\<close>, \<open>u32\<close>). Signature schemes, hash functions and the configuration are
  parameters (record \<open>MsgEnv\<close>, verifiers); what is assumed of them is a hypothesis of the theorem that needs it.

  \<^bold>\<open>The theories.\<close>
  \<^item> \<open>Concord_Prelude\<close>: failures, fixed-width integers, lemmas on lists.
  \<^item> \<open>Active_Window\<close> (SequenceWithActiveWindow.hpp): the ring buffer refines a total map from numbers to items; scrolling
    resets exactly the numbers that enter; updates of one number do not show at another.
  \<^item> \<open>Msgs_Certificate\<close> (messages/MsgsCertificate.hpp, CheckpointInfo.hpp): what a certificate that messages have
    completed proves (a quorum of distinct replicas at a read-only replica, one message less at the others, whose own message may count
    twice); it becomes complete when a quorum agrees; two certificates of read-only replicas agree.
  \<^item> \<open>Byte_Buffers\<close>, \<open>Message_Base\<close> (messages/MessageBase.cpp, MsgReceiver.cpp): checked access to buffers; the raw format of messages.
  \<^item> \<open>Replicas_Info\<close> (ReplicasInfo.cpp): the identifiers of principals are partitioned; collectors are backups.
  \<^item> \<open>Vector_Of_Shares\<close>, \<open>Threshold_Scheme\<close> (src/threshsign, CryptoManager's digests): the bit vector of share identifiers and its
    iterator; the EdDSA multisignature; the accumulator base class; the combination of a digest with view and sequence number.
  \<^item> \<open>Consensus_Msgs\<close>, \<open>Restart_Msgs\<close>, \<open>Client_Msgs\<close>, \<open>Pre_Prepare\<close> (messages): layout, construction and validation; where
    validation reads past the end of a received message, a theorem exhibits the message.
  \<^item> \<open>Sig_Collector\<close> (CollectorOfThresholdSignatures.hpp): the collector with its background jobs as a transition system, in
    which jobs end in any order.
  \<^item> \<open>Seq_Num_Info\<close>, \<open>Slot_Certificates\<close> (SeqNumInfo.cpp): a prepared slot has a certificate that the verifier accepts, through
    any order of messages, jobs, results and resets; two certificates have F + 1 signers in common; a collector with enough valid
    shares, and otherwise well-formed ones, ends with a certificate.
  \<^item> \<open>View_Change_Msg\<close>, \<open>View_Change_Layout\<close> (messages/ViewChangeMsg.cpp): building, signing, validating and iterating over the
    elements and complaints, and that what is built is validated and read back.
  \<^item> \<open>View_Change_Safety\<close>, \<open>View_Restrictions\<close> (ViewChangeSafetyLogic.cpp): the loops over the iterators compute a function of
    the votes; what a quorum committed on either path is kept by the new view; a restriction is backed by a certificate or
    by votes of which one is correct; a forged certificate can hide a valid one.
  \<^item> \<open>Views_Manager\<close> (ViewsManager.cpp, ReplicasAskedToLeaveViewInfo.hpp): every operation of the class on a record of its members.
    \<open>View_Entry\<close>: the loops that enter a view. \<open>Views_Invariant\<close>: the invariant, kept by every operation, over the transition system
    \<open>vm_reachable\<close> of the class with the recovery in the constructor of ReplicaImp. \<open>Views_Safety\<close>: what may have been committed is proposed again by a replica that
    enters the view; a pending view is entered once its messages are there; the views and complaints a replica acts on
    come from correct replicas. \<open>Views_Exit\<close>: what the view change message of a replica that leaves a view reports.
    \<open>Views_Run\<close>: the invariant in every reachable state, and a run from a recovery to a pending view with restrictions.

  \<^bold>\<open>Bounds.\<close> The iteration over the requests of a batch takes fuel, because a request of size zero repeats for ever;
  \<open>iteration_terminates\<close> gives fuel that is enough for every message that passes the checks. All other loops are total functions.

  \<^bold>\<open>Not modelled.\<close> The event loop of the replica (ReplicaImp; except the part of its constructor that recovers the
  views, and what the handlers of signature results do while the replica collects state) with its timers, threads and persistent storage; the state
  transfer protocol and pre-execution; the application layers (kvbc, storage, communication, clients, reconfiguration), which
  only call consensus or are called by it; BLS pairings and OpenSSL, which are third-party code; logging, metrics and the
  deletion of messages.
\<close>

end
